(* ===== verification/File_Map.thy ===== *)
theory File_Map
  imports Nydus_Prelude
begin

text \<open>
  The memory mapped file of \<open>utils/src/filemap.rs\<close>. Pointers are 64-bit words and pointer
  arithmetic wraps, as \<open>wrapping_add\<close> does. The contents of the mapping are kept in \<open>fm_data\<close>.
  The system call is a parameter \<open>mmap\<close>; \<open>mmap_spec\<close> states what its manual page promises.
\<close>

section \<open>Definitions\<close>

record FileMapState =
  fm_base :: u64
  fm_end :: u64
  fm_size :: usize
  fm_data :: "u8 list"

text \<open>
  \<open>mmap fd_writable prot_write size\<close> is the returned address; \<open>MAP_FAILED\<close> is the address
  with all bits set.
\<close>

type_synonym mmap_call = "bool \<Rightarrow> bool \<Rightarrow> usize \<Rightarrow> u64"

definition MAP_FAILED :: u64 where
  "MAP_FAILED = NOT 0"

definition FileMapState_new ::
  "mmap_call \<Rightarrow> bool \<Rightarrow> u8 list \<Rightarrow> usize \<Rightarrow> bool \<Rightarrow> FileMapState res" where
  "FileMapState_new mmap fd_writable content size' writable =
     (let base = mmap fd_writable writable size'
      in if base = MAP_FAILED then Inl EACCES
         else if base = 0 then Inl EACCES
         else Inr \<lparr>fm_base = base, fm_end = base + size', fm_size = size', fm_data = content\<rparr>)"

text \<open>
  \<open>get_ref::<T>\<close> and \<open>get_mut::<T>\<close> make the same checks; \<open>size_T\<close> and \<open>align_T\<close> are
  \<open>size_of::<T>()\<close> and \<open>align_of::<T>()\<close>. The result is the offset into the mapping that the
  returned reference points to.
\<close>

definition FileMapState_get_ref :: "FileMapState \<Rightarrow> usize \<Rightarrow> usize \<Rightarrow> usize \<Rightarrow> nat res" where
  "FileMapState_get_ref m size_T align_T offset =
     (let start = fm_base m + offset; end' = start + size_T
      in if start > end' \<or> start < fm_base m \<or> end' < fm_base m \<or> end' > fm_end m
            \<or> start AND (align_T - 1) \<noteq> 0
         then Inl EINVAL else Inr (unat (start - fm_base m)))"

definition checked_mul :: "usize \<Rightarrow> usize \<Rightarrow> usize option" where
  "checked_mul a b = (if unat a * unat b < 2 ^ 64 then Some (a * b) else None)"

definition FileMapState_get_slice :: "FileMapState \<Rightarrow> usize \<Rightarrow> usize \<Rightarrow> usize \<Rightarrow> nat res" where
  "FileMapState_get_slice m size_T offset count' =
     (let start = fm_base m + offset in
      case checked_mul count' size_T of
        None \<Rightarrow> Inl EINVAL
      | Some size' \<Rightarrow>
          (if checked_add size' start = None then Inl EINVAL
           else let end' = start + size' in
             if start > end' \<or> start < fm_base m \<or> end' < fm_base m \<or> end' > fm_end m
             then Inl EINVAL else Inr (unat (start - fm_base m))))"

definition FileMapState_validate_range :: "FileMapState \<Rightarrow> usize \<Rightarrow> usize \<Rightarrow> u64 res" where
  "FileMapState_validate_range m offset size' =
     (let start = fm_base m + offset; end' = start + size'
      in if start > end' \<or> start < fm_base m \<or> end' < fm_base m \<or> end' > fm_end m
         then Inl EINVAL else Inr start)"

section \<open>Well-formed mappings\<close>

text \<open>
  The manual page of \<open>mmap\<close>: a shared writable mapping of a descriptor that is not open for
  writing fails with EACCES; a mapping that is returned is page aligned and does not reach the
  end of the address space.
\<close>

definition mmap_spec :: "mmap_call \<Rightarrow> bool" where
  "mmap_spec mmap \<longleftrightarrow>
     (\<forall>size'. mmap False True size' = MAP_FAILED) \<and>
     (\<forall>fdw prot size'. mmap fdw prot size' \<noteq> MAP_FAILED \<longrightarrow>
        mmap fdw prot size' AND 4095 = 0 \<and>
        unat (mmap fdw prot size') + unat size' < 2 ^ 64)"

definition wf_filemap :: "FileMapState \<Rightarrow> bool" where
  "wf_filemap m \<longleftrightarrow>
     fm_end m = fm_base m + fm_size m \<and> length (fm_data m) = unat (fm_size m) \<and>
     unat (fm_base m) + unat (fm_size m) < 2 ^ 64 \<and> fm_base m AND 4095 = 0"

lemma wf_filemap_end:
  "wf_filemap m \<Longrightarrow> unat (fm_end m) = unat (fm_base m) + length (fm_data m)"
  by (simp add: wf_filemap_def unat_add_less)

lemma FileMapState_new_wf:
  assumes "mmap_spec mmap" and "FileMapState_new mmap fdw content size' w = Inr m"
    and "length content = unat size'"
  shows "wf_filemap m" and "fm_data m = content"
  using assms
  by (auto simp: FileMapState_new_def mmap_spec_def wf_filemap_def Let_def split: if_splits)

lemma FileMapState_new_readonly:
  "mmap_spec mmap \<Longrightarrow> FileMapState_new mmap False content size' True = Inl EACCES"
  by (simp add: FileMapState_new_def mmap_spec_def)

section \<open>Accepted accesses stay inside the mapping\<close>

text \<open>
  The pointer checks with wrapping arithmetic accept a range exactly when it lies inside the
  mapping: a wrapped start falls below the base, a wrapped end falls below the start.
\<close>

lemma range_check_iff:
  assumes "wf_filemap m"
  shows "\<not> (fm_base m + off > fm_base m + off + sz \<or> fm_base m + off < fm_base m
            \<or> fm_base m + off + sz < fm_base m \<or> fm_base m + off + sz > fm_end m)
         \<longleftrightarrow> unat off + unat sz \<le> length (fm_data m)"
    (is "?ok \<longleftrightarrow> ?in")
proof -
  let ?b = "unat (fm_base m)"
  have e: "unat (fm_end m) = ?b + length (fm_data m)" and "?b + length (fm_data m) < 2 ^ 64"
    using assms wf_filemap_end by (auto simp: wf_filemap_def)
  show ?thesis
  proof (cases "?b + unat off + unat sz < 2 ^ 64")
    case True
    then have "unat (fm_base m + off) = ?b + unat off"
      and "unat (fm_base m + off + sz) = ?b + unat off + unat sz"
      by (simp_all add: unat_word_ariths)
    with e show ?thesis by (auto simp: word_less_nat_alt)
  next
    case False
    with \<open>?b + length (fm_data m) < 2 ^ 64\<close> have notin: "\<not> ?in" by simp
    have "\<not> ?ok"
    proof (cases "?b + unat off < 2 ^ 64")
      case True
      then have s: "unat (fm_base m + off) = ?b + unat off" by (simp add: unat_add_less)
      have "unat (fm_base m + off + sz) = (?b + unat off + unat sz) mod 2 ^ 64"
        by (simp only: unat_word_ariths(1) [of "fm_base m + off" sz] s) simp
      also have "\<dots> = ?b + unat off + unat sz - 2 ^ 64"
        using False True unat_lt2p64 [of sz] by (intro mod_if_ge) auto
      also have "\<dots> < ?b + unat off"
        using False unat_lt2p64 [of sz] by linarith
      finally show ?thesis by (simp add: word_less_nat_alt s)
    next
      case wrap: False
      have "unat (fm_base m + off) = ?b + unat off - 2 ^ 64"
        using wrap unat_lt2p64 [of off] unat_lt2p64 [of "fm_base m"]
        by (simp add: unat_word_ariths mod_if_ge)
      also have "\<dots> < ?b" using wrap unat_lt2p64 [of off] by linarith
      finally show ?thesis by (simp add: word_less_nat_alt)
    qed
    with notin show ?thesis by blast
  qed
qed

lemma offset_of_start: "fm_base m + off - fm_base m = off"
  by simp

text \<open>An access to a type of alignment one needs only the range check.\<close>

lemma get_ref_byte:
  assumes "wf_filemap m"
  shows "FileMapState_get_ref m 1 1 off =
           (if unat off < length (fm_data m) then Inr (unat off) else Inl EINVAL)"
  using range_check_iff [OF assms, of off 1]
  by (auto simp: FileMapState_get_ref_def Let_def Suc_le_eq)

lemma get_ref_page_start:
  assumes "wf_filemap m" and "unat sz \<le> length (fm_data m)"
    and "al = 1 \<or> al = 2 \<or> al = 4 \<or> al = 8"
  shows "FileMapState_get_ref m sz al 0 = Inr 0"
proof -
  have "fm_base m AND (al - 1) = (fm_base m AND 4095) AND (al - 1)"
    using assms(3) by (auto simp: and.assoc)
  also have "\<dots> = 0" using assms(1) by (simp add: wf_filemap_def)
  finally show ?thesis
    using range_check_iff [OF assms(1), of 0 sz] assms(2)
    by (simp add: FileMapState_get_ref_def Let_def)
qed

text \<open>
  Every reference that \<open>FileMapState::get_ref\<close> hands out lies inside the mapped area: on
  a well-formed mapping the call succeeds exactly when \<open>offset + size_of::<T>()\<close>, computed without
  wrap-around, is within the mapping and the address is aligned; so no offset, however large,
  makes the wrapping pointer arithmetic accept an access outside of the file.
\<close>

theorem get_ref_in_bounds:
  assumes "wf_filemap m"
  shows "FileMapState_get_ref m size_T align_T offset = Inr i \<longleftrightarrow>
           unat offset + unat size_T \<le> length (fm_data m) \<and>
           (fm_base m + offset) AND (align_T - 1) = 0 \<and> i = unat offset"
  using range_check_iff [OF assms, of offset size_T]
  by (auto simp: FileMapState_get_ref_def Let_def)

theorem get_ref_in_bounds_witness:
  "FileMapState_get_ref \<lparr>fm_base = 4096, fm_end = 4104, fm_size = 8, fm_data = replicate 8 0\<rparr> 4 4 4
     = Inr 4"
proof -
  let ?m = "\<lparr>fm_base = 4096, fm_end = 4104, fm_size = 8, fm_data = replicate 8 0\<rparr>"
  have "wf_filemap ?m" by (simp add: wf_filemap_def)
  from get_ref_in_bounds [OF this, of 4 4 4 4] show ?thesis by simp
qed

lemma get_slice_iff:
  assumes "wf_filemap m"
  shows "FileMapState_get_slice m size_T offset n = Inr i \<longleftrightarrow>
           unat offset + unat n * unat size_T \<le> length (fm_data m) \<and> i = unat offset"
proof (cases "unat n * unat size_T < 2 ^ 64")
  case True
  then have mul: "checked_mul n size_T = Some (n * size_T)"
    and u: "unat (n * size_T) = unat n * unat size_T"
    by (simp_all add: checked_mul_def unat_word_ariths)
  have small: "unat (fm_base m) + length (fm_data m) < 2 ^ 64"
    using assms by (simp add: wf_filemap_def)
  have "checked_add (n * size_T) (fm_base m + offset) \<noteq> None"
    if "unat offset + unat n * unat size_T \<le> length (fm_data m)"
    using that small unat_add_less [of "fm_base m" offset]
    by (simp add: checked_add_def u)
  then show ?thesis
    using range_check_iff [OF assms, of offset "n * size_T"]
    by (auto simp: FileMapState_get_slice_def Let_def mul u split: if_splits)
next
  case False
  moreover have "length (fm_data m) < 2 ^ 64"
    using assms by (simp add: wf_filemap_def)
  ultimately show ?thesis
    by (simp add: FileMapState_get_slice_def checked_mul_def)
qed

text \<open>
  \<open>FileMapState::get_slice\<close> returns a slice only if all \<open>count\<close> elements lie inside the
  mapping, and it returns one whenever they do; neither the product \<open>count * size_of::<T>()\<close> nor
  the pointer sums can wrap on the way.
\<close>

theorem get_slice_in_bounds:
  assumes "wf_filemap m"
  shows "FileMapState_get_slice m size_T offset n = Inr i \<longleftrightarrow>
           unat offset + unat n * unat size_T \<le> length (fm_data m) \<and> i = unat offset"
  by (rule get_slice_iff [OF assms])

theorem get_slice_in_bounds_witness:
  "FileMapState_get_slice \<lparr>fm_base = 4096, fm_end = 4104, fm_size = 8, fm_data = replicate 8 0\<rparr> 2 2 3
     = Inr 2"
proof -
  let ?m = "\<lparr>fm_base = 4096, fm_end = 4104, fm_size = 8, fm_data = replicate 8 0\<rparr>"
  have "wf_filemap ?m" by (simp add: wf_filemap_def)
  from get_slice_in_bounds [OF this, of 2 2 3 2] show ?thesis by simp
qed

lemma validate_range_eq:
  assumes "wf_filemap m"
  shows "FileMapState_validate_range m off sz =
           (if unat off + unat sz \<le> length (fm_data m) then Inr (fm_base m + off) else Inl EINVAL)"
  using range_check_iff [OF assms, of off sz]
  by (auto simp: FileMapState_validate_range_def Let_def)

end
