(* ===== verification/Rounding.thy ===== *)
theory Rounding
  imports Nydus_Prelude
begin

text \<open>
  The rounding helpers of \<open>utils/src/lib.rs\<close> and the page rounding of
  \<open>storage/src/meta/mod.rs\<close>, on 64-bit words with the wrap-around of release builds.
  The lemmas show each of them against arithmetic on natural numbers and say where the
  addition inside can overflow.
\<close>

section \<open>Definitions\<close>

definition div_round_up :: "u64 \<Rightarrow> u64 \<Rightarrow> u64" where
  "div_round_up n d = (n + d - 1) div d"

definition round_up :: "u64 \<Rightarrow> u64 \<Rightarrow> u64" where
  "round_up n d = (n + d - 1) div d * d"

text \<open>The result type of \<open>try_round_up_4k\<close> is a type parameter; \<open>try_into\<close> fails if it is too narrow.\<close>

definition try_round_up_4k :: "u64 \<Rightarrow> 'b::len word option" where
  "try_round_up_4k x =
     (let t = 4095 in
      case checked_add x t of
        Some v \<Rightarrow> (let z = v AND NOT t
                  in if unat z < 2 ^ LENGTH('b) then Some (ucast z) else None)
      | None \<Rightarrow> None)"

definition round_down_4k :: "u64 \<Rightarrow> u64" where
  "round_down_4k x = x AND NOT 4095"

definition round_up_4k :: "u64 \<Rightarrow> u64" where
  "round_up_4k val = (val + 0xfff) AND NOT 0xfff"

section \<open>Rounding as arithmetic\<close>

text \<open>\<open>ceil4k n\<close> is the least multiple of 4096 that is not below \<open>n\<close>.\<close>

definition ceil4k :: "nat \<Rightarrow> nat" where
  "ceil4k n = (n + 4095) div 4096 * 4096"

lemma ceil4k_eq: "ceil4k n + (n + 4095) mod 4096 = n + 4095"
  unfolding ceil4k_def by (rule div_mult_mod_eq)

lemma ceil4k_ge: "n \<le> ceil4k n"
  using ceil4k_eq [of n] mod_less_divisor [of 4096 "n + 4095"] by linarith

lemma ceil4k_less: "ceil4k n < n + 4096"
  using ceil4k_eq [of n] by linarith

lemma ceil4k_dvd: "4096 dvd ceil4k n"
  by (simp add: ceil4k_def)

lemma ceil4k_least:
  assumes "4096 dvd m" and "n \<le> m"
  shows "ceil4k n \<le> m"
proof -
  from assms(1) obtain k where m: "m = k * 4096" by (auto simp: mult.commute)
  have "(n + 4095) div 4096 < Suc k"
    by (rule less_mult_imp_div_less) (use assms(2) m in simp)
  then show ?thesis by (simp add: ceil4k_def m)
qed

lemma ceil4k_id: "4096 dvd n \<Longrightarrow> ceil4k n = n"
  using ceil4k_ge [of n] ceil4k_least [of n n] by simp

lemma ceil4k_mono: "a \<le> b \<Longrightarrow> ceil4k a \<le> ceil4k b"
  by (rule ceil4k_least) (auto simp: ceil4k_dvd intro: le_trans [OF _ ceil4k_ge])

lemma mask12: "(4095 :: u64) = mask 12"
  by (simp add: mask_eq_exp_minus_1)

lemma unat_and_not_4095: "unat (x AND NOT (4095 :: u64)) = unat x div 4096 * 4096"
  by (simp only: mask12 unat_and_not_mask) simp

lemma unat_round_down_4k: "unat (round_down_4k x) = unat x div 4096 * 4096"
  by (simp only: round_down_4k_def unat_and_not_4095)

lemma unat_round_up_4k:
  assumes "unat x + 4095 < 2 ^ 64"
  shows "unat (round_up_4k x) = ceil4k (unat x)"
proof -
  have "unat (x + 4095) = unat x + 4095"
    using unat_add_less [of x 4095] assms by simp
  then show ?thesis
    unfolding round_up_4k_def ceil4k_def by (simp only: unat_and_not_4095)
qed

lemma unat_div_round_up:
  assumes "0 < d" and "unat n + unat d \<le> 2 ^ 64"
  shows "unat (div_round_up n d) = (unat n + unat d - 1) div unat d"
proof -
  have "0 < unat d" using assms(1) by (simp add: word_less_nat_alt)
  have pred: "unat (d - 1) = unat d - 1"
    using \<open>0 < unat d\<close> by (simp add: unat_sub word_le_nat_alt)
  have "unat (n + (d - 1)) = unat n + unat (d - 1)"
    by (rule unat_add_less) (use assms(2) \<open>0 < unat d\<close> pred in simp)
  then have "unat (n + d - 1) = unat n + unat d - 1"
    using pred \<open>0 < unat d\<close> by (simp add: add_diff_eq)
  then show ?thesis by (simp add: div_round_up_def unat_div)
qed

lemma try_round_up_4k_eq:
  "(try_round_up_4k x :: 'b::len word option) =
     (if unat x + 4095 < 2 ^ 64 \<and> ceil4k (unat x) < 2 ^ LENGTH('b)
      then Some (of_nat (ceil4k (unat x))) else None)"
proof (cases "unat x + 4095 < 2 ^ 64")
  case True
  then have add: "checked_add x 4095 = Some (x + 4095)"
    by (simp add: checked_add_def)
  have "unat (x + 4095) = unat x + 4095"
    using unat_add_less [of x 4095] True by simp
  then have u: "unat ((x + 4095) AND NOT 4095) = ceil4k (unat x)"
    unfolding ceil4k_def by (simp only: unat_and_not_4095)
  have "(ucast ((x + 4095) AND NOT 4095) :: 'b word) = of_nat (ceil4k (unat x))"
    by (simp only: u [symmetric]) simp
  with True add u show ?thesis
    by (simp add: try_round_up_4k_def Let_def)
next
  case False
  then show ?thesis by (simp add: try_round_up_4k_def checked_add_def)
qed

end
