(* ===== verification/Persist_Map.thy ===== *)
theory Persist_Map
  imports File_Map Rounding
begin

text \<open>
  The persistent readiness bitmap of \<open>storage/src/cache/state/persist_map.rs\<close>: a 4096-byte
  header followed by one bit per chunk, most significant bit first, in a file that is mapped
  into memory, and a counter of the chunks that are not ready. The theory models opening and
  recovering the file, the bit operations and the update of one chunk, and relates them to a
  list of booleans, one per chunk.
\<close>

section \<open>The file format\<close>

definition MAGIC1 :: u32 where "MAGIC1 = 0x424D4150"
definition MAGIC2 :: u32 where "MAGIC2 = 0x434D4150"
definition MAGIC_ALL_READY :: u32 where "MAGIC_ALL_READY = 0x4D4D4150"
definition HEADER_SIZE :: nat where "HEADER_SIZE = 4096"
definition HEADER_RESERVED_SIZE :: nat where "HEADER_RESERVED_SIZE = HEADER_SIZE - 16"

record Header =
  h_magic :: u32
  h_version :: u32
  h_magic2 :: u32
  h_all_ready :: u32
  h_reserved :: "u8 list"

definition Header_as_slice :: "Header \<Rightarrow> u8 list" where
  "Header_as_slice h =
     le32 (h_magic h) @ le32 (h_version h) @ le32 (h_magic2 h) @ le32 (h_all_ready h) @ h_reserved h"

text \<open>The header as it is read through the mapping.\<close>

definition Header_of :: "u8 list \<Rightarrow> Header" where
  "Header_of bs =
     \<lparr>h_magic = of_le32 (take 4 bs), h_version = of_le32 (take 4 (drop 4 bs)),
      h_magic2 = of_le32 (take 4 (drop 8 bs)), h_all_ready = of_le32 (take 4 (drop 12 bs)),
      h_reserved = take HEADER_RESERVED_SIZE (drop 16 bs)\<rparr>"

record PersistMap =
  pm_count :: u32
  pm_not_ready_count :: u32
  pm_filemap :: FileMapState

abbreviation pm_data :: "PersistMap \<Rightarrow> u8 list" where
  "pm_data pm \<equiv> fm_data (pm_filemap pm)"

section \<open>Opening a map\<close>

text \<open>\<open>File::set_len\<close>: cut the file or extend it with zero bytes.\<close>

definition set_len :: "nat \<Rightarrow> u8 list \<Rightarrow> u8 list" where
  "set_len n bs = take n bs @ replicate (n - length bs) 0"

definition new_header :: Header where
  "new_header = \<lparr>h_magic = MAGIC1, h_version = 1, h_magic2 = MAGIC2, h_all_ready = 0,
     h_reserved = replicate HEADER_RESERVED_SIZE 0\<rparr>"

text \<open>The header is written at the start of the file, whose position has not been moved.\<close>

definition write_header :: "u8 list \<Rightarrow> u64 \<Rightarrow> u8 list" where
  "write_header file size' =
     (let bs = Header_as_slice new_header
      in bs @ drop (length bs) (set_len (unat size') file))"

definition count_ones :: "u8 \<Rightarrow> nat" where
  "count_ones b = length (filter (bit b) [0..<8])"

fun sum_ones :: "u8 list \<Rightarrow> u32 \<Rightarrow> u32" where
  "sum_ones [] acc = acc"
| "sum_ones (b # bs) acc = sum_ones bs (acc + of_nat (count_ones b))"

definition expected_size :: "u32 \<Rightarrow> u64" where
  "expected_size chunk_count = of_nat HEADER_SIZE + div_round_up (ucast chunk_count) 8"

text \<open>Writing \<open>MAGIC_ALL_READY\<close> into the header through the mapping.\<close>

definition set_all_ready :: "u8 list \<Rightarrow> u8 list" where
  "set_all_ready bs = take 12 bs @ le32 MAGIC_ALL_READY @ drop 16 bs"

text \<open>
  \<open>disk\<close> is the content of the named file, or \<open>None\<close> if there is no such file. Opening for
  reading only with truncation is refused by \<open>OpenOptions\<close>. Operations on an open file are taken
  to succeed; mapping it may fail.
\<close>

definition PersistMap_open_file :: "u8 list option \<Rightarrow> bool \<Rightarrow> bool \<Rightarrow> u8 list res" where
  "PersistMap_open_file disk create persist =
     (if \<not> persist \<and> \<not> create then Inl EINVAL
      else case disk of
        None \<Rightarrow> if create then Inr [] else Inl EINVAL
      | Some c \<Rightarrow> Inr (if persist then c else []))"

definition PersistMap_recover ::
  "FileMapState \<Rightarrow> u32 \<Rightarrow> bool \<Rightarrow> PersistMap res" where
  "PersistMap_recover fm chunk_count new_content =
     (let header = Header_of (fm_data fm);
          mk = (\<lambda>n f. Inr \<lparr>pm_count = chunk_count, pm_not_ready_count = n, pm_filemap = f\<rparr>)
      in if h_version header \<ge> 1 then
           if h_magic2 header \<noteq> MAGIC2 then Inl EINVAL
           else if h_all_ready header = MAGIC_ALL_READY then mk 0 fm
           else if new_content then mk chunk_count fm
           else let ready_count = sum_ones (drop HEADER_SIZE (fm_data fm)) 0
             in if ready_count \<ge> chunk_count
                then mk 0 (fm\<lparr>fm_data := set_all_ready (fm_data fm)\<rparr>)
                else mk (chunk_count - ready_count) fm
         else mk chunk_count fm)"

definition PersistMap_open ::
  "mmap_call \<Rightarrow> u8 list option \<Rightarrow> u32 \<Rightarrow> bool \<Rightarrow> bool \<Rightarrow> PersistMap res" where
  "PersistMap_open mmap disk chunk_count create persist =
     (if chunk_count = 0 then Inl EINVAL
      else and_then (PersistMap_open_file disk create persist) (\<lambda>file.
        let file_size = length file; size' = expected_size chunk_count in
        and_then
          (if file_size = 0 then
             if \<not> create then Inl ENOENT else Inr (True, write_header file size')
           else if file_size \<noteq> unat size' then Inl EINVAL
           else Inr (False, file)) (\<lambda>(new_content, file).
        and_then (FileMapState_new mmap create file size' True) (\<lambda>fm.
        and_then (FileMapState_get_ref fm (of_nat HEADER_SIZE) 4 0) (\<lambda>_.
        if h_magic (Header_of (fm_data fm)) \<noteq> MAGIC1 then
          if \<not> create then Inl ENOENT
          else and_then (FileMapState_get_slice fm 1 0 size') (\<lambda>_.
            if \<exists>c \<in> set (fm_data fm). c \<noteq> 0 then Inl EINVAL
            else PersistMap_recover (fm\<lparr>fm_data := write_header (fm_data fm) size'\<rparr>) chunk_count True)
        else PersistMap_recover fm chunk_count new_content)))))"

section \<open>Operations\<close>

definition validate_index :: "PersistMap \<Rightarrow> u32 \<Rightarrow> u32 res" where
  "validate_index pm idx = (if idx < pm_count pm then Inr idx else Inl EINVAL)"

definition index_to_mask :: "u32 \<Rightarrow> u8" where
  "index_to_mask index =
     (let pos = 8 - ((index AND 0b111) + 1) in push_bit (unat pos) 1)"

text \<open>\<open>get_ref(..).unwrap()\<close> on the byte that holds the bit of a chunk.\<close>

definition byte_pos :: "PersistMap \<Rightarrow> u32 \<Rightarrow> nat res" where
  "byte_pos pm idx =
     (case FileMapState_get_ref (pm_filemap pm) 1 1 (of_nat HEADER_SIZE + drop_bit 3 (ucast idx)) of
        Inl _ \<Rightarrow> Inl Panic | Inr i \<Rightarrow> Inr i)"

definition read_u8 :: "PersistMap \<Rightarrow> u32 \<Rightarrow> u8 res" where
  "read_u8 pm idx = and_then (byte_pos pm idx) (\<lambda>i. Inr (pm_data pm ! i))"

definition store_byte :: "PersistMap \<Rightarrow> nat \<Rightarrow> u8 \<Rightarrow> PersistMap" where
  "store_byte pm i v = pm\<lparr>pm_filemap := (pm_filemap pm)\<lparr>fm_data := (pm_data pm)[i := v]\<rparr>\<rparr>"

text \<open>A compare-and-exchange of the byte; the flag tells whether it took place.\<close>

definition write_u8 :: "PersistMap \<Rightarrow> u32 \<Rightarrow> u8 \<Rightarrow> (bool \<times> PersistMap) res" where
  "write_u8 pm idx current =
     (let expected = current OR index_to_mask idx in
      and_then (byte_pos pm idx) (\<lambda>i.
        if pm_data pm ! i = current then Inr (True, store_byte pm i expected)
        else Inr (False, pm)))"

definition is_chunk_ready :: "PersistMap \<Rightarrow> u32 \<Rightarrow> (bool \<times> u8) res" where
  "is_chunk_ready pm index =
     (let mask' = index_to_mask index in
      and_then (read_u8 pm index) (\<lambda>current.
        Inr (current AND mask' = mask', current)))"

definition is_range_all_ready :: "PersistMap \<Rightarrow> bool" where
  "is_range_all_ready pm \<longleftrightarrow> pm_not_ready_count pm = 0"

text \<open>The body of \<open>mark_all_ready\<close> only flushes the mapping; the header update is commented out.\<close>

definition mark_all_ready :: "PersistMap \<Rightarrow> PersistMap" where
  "mark_all_ready pm = pm"

definition fetch_sub_not_ready :: "PersistMap \<Rightarrow> u32 \<times> PersistMap" where
  "fetch_sub_not_ready pm =
     (pm_not_ready_count pm, pm\<lparr>pm_not_ready_count := pm_not_ready_count pm - 1\<rparr>)"

text \<open>
  The retry loop of \<open>set_chunk_ready\<close> for a caller that runs without interference; a failed
  exchange goes round the loop again.
\<close>

function set_chunk_ready_loop :: "PersistMap \<Rightarrow> u32 \<Rightarrow> PersistMap res" where
  "set_chunk_ready_loop pm index =
     and_then (is_chunk_ready pm index) (\<lambda>(ready, current).
       if ready then Inr pm
       else and_then (write_u8 pm index current) (\<lambda>(ok, pm').
         if ok then
           let (old, pm'') = fetch_sub_not_ready pm'
           in Inr (if old = 1 then mark_all_ready pm'' else pm'')
         else set_chunk_ready_loop pm' index))"
  by pat_completeness auto
termination
  by (relation "{}")
    (auto simp: is_chunk_ready_def read_u8_def write_u8_def Let_def result_iffs split: if_splits)

declare set_chunk_ready_loop.simps [simp del]

definition set_chunk_ready :: "PersistMap \<Rightarrow> u32 \<Rightarrow> PersistMap res" where
  "set_chunk_ready pm index =
     and_then (validate_index pm index) (\<lambda>index. set_chunk_ready_loop pm index)"

section \<open>Chunks as a list of booleans\<close>

definition chunk_bit :: "u8 list \<Rightarrow> nat \<Rightarrow> bool" where
  "chunk_bit data i = bit (data ! (HEADER_SIZE + i div 8)) (7 - i mod 8)"

text \<open>The abstract state of a map: for each chunk whether its bit is set.\<close>

definition ready_bits :: "PersistMap \<Rightarrow> bool list" where
  "ready_bits pm = map (chunk_bit (pm_data pm)) [0..<unat (pm_count pm)]"

definition bitmap_len :: "u32 \<Rightarrow> nat" where
  "bitmap_len n = (unat n + 7) div 8"

text \<open>
  A map is well formed when the file has exactly the size the chunk count asks for and the
  bits beyond the last chunk are clear.
\<close>

definition wf_pm :: "PersistMap \<Rightarrow> bool" where
  "wf_pm pm \<longleftrightarrow> wf_filemap (pm_filemap pm) \<and> 0 < pm_count pm \<and>
     length (pm_data pm) = HEADER_SIZE + bitmap_len (pm_count pm) \<and>
     (\<forall>i. unat (pm_count pm) \<le> i \<and> i < 8 * bitmap_len (pm_count pm) \<longrightarrow> \<not> chunk_bit (pm_data pm) i)"

definition unready :: "PersistMap \<Rightarrow> nat" where
  "unready pm = count_list (ready_bits pm) False"

text \<open>The counter never understates the number of chunks that are not ready.\<close>

definition pm_sound :: "PersistMap \<Rightarrow> bool" where
  "pm_sound pm \<longleftrightarrow> wf_pm pm \<and> unready pm \<le> unat (pm_not_ready_count pm)"

definition pm_exact :: "PersistMap \<Rightarrow> bool" where
  "pm_exact pm \<longleftrightarrow> wf_pm pm \<and> unat (pm_not_ready_count pm) = unready pm"

lemma length_ready_bits [simp]: "length (ready_bits pm) = unat (pm_count pm)"
  by (simp add: ready_bits_def)

lemma nth_ready_bits [simp]:
  "i < unat (pm_count pm) \<Longrightarrow> ready_bits pm ! i = chunk_bit (pm_data pm) i"
  by (simp add: ready_bits_def)

lemma count_less_bitmap: "unat n \<le> 8 * bitmap_len n"
  unfolding bitmap_len_def by linarith

lemma bitmap_len_less:
  assumes "i < unat n"
  shows "i div 8 < bitmap_len n"
proof -
  have "(i + 8) div 8 \<le> (unat n + 7) div 8" by (rule div_le_mono) (use assms in simp)
  then show ?thesis by (simp add: bitmap_len_def)
qed

lemma index_to_mask_eq: "index_to_mask idx = 2 ^ (7 - unat idx mod 8)"
proof -
  have m: "unat (idx AND 7) = unat idx mod 8"
    using unat_and_mask [of idx 3] by (simp add: mask_eq_exp_minus_1)
  have lt: "unat idx mod 8 < 8" by simp
  have s: "unat ((idx AND 7) + 1) = unat idx mod 8 + 1"
    using unat_add_less [of "idx AND 7" 1] m lt by simp
  have "(idx AND 7) + 1 \<le> 8"
    unfolding word_le_nat_alt s using lt by simp
  then have "unat (8 - ((idx AND 7) + 1)) = 8 - (unat idx mod 8 + 1)"
    by (simp only: unat_sub s) simp
  then show ?thesis by (simp add: index_to_mask_def)
qed

lemma and_exp_eq_iff: "n < 8 \<Longrightarrow> (b AND 2 ^ n = (2 ^ n :: u8)) \<longleftrightarrow> bit b n"
  by (auto simp: bit_eq_iff [where ?'a = "8 word"] bit_simps)

lemma bit_or_index_mask:
  "n < 8 \<Longrightarrow> bit (b OR index_to_mask idx) n \<longleftrightarrow> bit b n \<or> n = 7 - unat idx mod 8"
  by (auto simp: index_to_mask_eq bit_simps)

lemma byte_pos_eq:
  assumes "wf_filemap (pm_filemap pm)"
  shows "byte_pos pm idx =
           (if HEADER_SIZE + unat idx div 8 < length (pm_data pm)
            then Inr (HEADER_SIZE + unat idx div 8) else Inl Panic)"
proof -
  have u: "unat (ucast idx :: u64) = unat idx" by (rule unat_ucast_up) simp
  have d: "unat (drop_bit 3 (ucast idx :: u64)) = unat idx div 8"
    by (simp only: unat_drop_bit_eq u) (simp add: drop_bit_eq_div)
  have "unat (of_nat HEADER_SIZE :: u64) = HEADER_SIZE" by (simp add: HEADER_SIZE_def)
  moreover have "HEADER_SIZE + unat idx div 8 < 2 ^ 64"
    using unat_lt2p32 [of idx] by (simp add: HEADER_SIZE_def)
  ultimately have "unat (of_nat HEADER_SIZE + drop_bit 3 (ucast idx :: u64)) = HEADER_SIZE + unat idx div 8"
    using unat_add_less [of "of_nat HEADER_SIZE" "drop_bit 3 (ucast idx :: u64)"] d by simp
  then show ?thesis
    by (simp add: byte_pos_def get_ref_byte [OF assms])
qed

lemma is_chunk_ready_eq:
  assumes "wf_filemap (pm_filemap pm)"
  shows "is_chunk_ready pm idx =
           (if HEADER_SIZE + unat idx div 8 < length (pm_data pm)
            then Inr (chunk_bit (pm_data pm) (unat idx), pm_data pm ! (HEADER_SIZE + unat idx div 8))
            else Inl Panic)"
  using byte_pos_eq [OF assms, of idx]
  by (simp add: is_chunk_ready_def read_u8_def index_to_mask_eq and_exp_eq_iff chunk_bit_def Let_def)

text \<open>The map after the bit of one chunk has been set.\<close>

definition set_bit_at :: "PersistMap \<Rightarrow> u32 \<Rightarrow> PersistMap" where
  "set_bit_at pm idx =
     (let i = HEADER_SIZE + unat idx div 8
      in store_byte pm i (pm_data pm ! i OR index_to_mask idx))"

lemma write_u8_eq:
  assumes "wf_filemap (pm_filemap pm)" and "HEADER_SIZE + unat idx div 8 < length (pm_data pm)"
  shows "write_u8 pm idx cur =
           (if pm_data pm ! (HEADER_SIZE + unat idx div 8) = cur then Inr (True, set_bit_at pm idx)
            else Inr (False, pm))"
  by (simp add: write_u8_def byte_pos_eq assms set_bit_at_def)

lemma set_bit_at_simps [simp]:
  "pm_count (set_bit_at pm idx) = pm_count pm"
  "pm_not_ready_count (set_bit_at pm idx) = pm_not_ready_count pm"
  "length (pm_data (set_bit_at pm idx)) = length (pm_data pm)"
  "wf_filemap (pm_filemap (set_bit_at pm idx)) = wf_filemap (pm_filemap pm)"
  by (simp_all add: set_bit_at_def store_byte_def Let_def wf_filemap_def)

lemma chunk_bit_set_bit_at:
  assumes "HEADER_SIZE + unat idx div 8 < length (pm_data pm)"
  shows "chunk_bit (pm_data (set_bit_at pm idx)) i \<longleftrightarrow> chunk_bit (pm_data pm) i \<or> i = unat idx"
proof (cases "i div 8 = unat idx div 8")
  case True
  have "7 - i mod 8 = 7 - unat idx mod 8 \<longleftrightarrow> i mod 8 = unat idx mod 8"
    using mod_less_divisor [of 8 i] mod_less_divisor [of 8 "unat idx"] by linarith
  also have "\<dots> \<longleftrightarrow> i = unat idx"
    using True by (metis div_mult_mod_eq)
  finally show ?thesis
    using True assms
    by (simp add: chunk_bit_def set_bit_at_def store_byte_def Let_def bit_or_index_mask)
next
  case False
  then show ?thesis
    by (auto simp: chunk_bit_def set_bit_at_def store_byte_def Let_def)
qed

lemma idx_in_file:
  assumes "wf_pm pm" and "idx < pm_count pm"
  shows "HEADER_SIZE + unat idx div 8 < length (pm_data pm)"
  using assms bitmap_len_less [of "unat idx" "pm_count pm"]
  by (simp add: wf_pm_def word_less_nat_alt)

lemma ready_bits_set_bit_at:
  assumes "wf_pm pm" and "idx < pm_count pm"
  shows "ready_bits (set_bit_at pm idx) = (ready_bits pm)[unat idx := True]"
  using assms(2)
  by (intro nth_equalityI)
    (auto simp: chunk_bit_set_bit_at [OF idx_in_file [OF assms]] nth_list_update word_less_nat_alt)

lemma wf_pm_set_bit_at:
  assumes "wf_pm pm" and "idx < pm_count pm"
  shows "wf_pm (set_bit_at pm idx)"
  using assms
  by (auto simp: wf_pm_def chunk_bit_set_bit_at [OF idx_in_file [OF assms]] word_less_nat_alt)

section \<open>Setting a chunk ready\<close>

definition mark_bit :: "PersistMap \<Rightarrow> u32 \<Rightarrow> PersistMap" where
  "mark_bit pm idx =
     (if chunk_bit (pm_data pm) (unat idx) then pm
      else (set_bit_at pm idx)\<lparr>pm_not_ready_count := pm_not_ready_count pm - 1\<rparr>)"

lemma set_chunk_ready_loop_eq:
  assumes "wf_pm pm" and "idx < pm_count pm"
  shows "set_chunk_ready_loop pm idx = Inr (mark_bit pm idx)"
proof -
  have wf: "wf_filemap (pm_filemap pm)" using assms(1) by (simp add: wf_pm_def)
  note i = idx_in_file [OF assms]
  show ?thesis
    by (subst set_chunk_ready_loop.simps)
      (simp add: is_chunk_ready_eq [OF wf] write_u8_eq [OF wf i] i mark_bit_def
        fetch_sub_not_ready_def mark_all_ready_def)
qed

lemma set_chunk_ready_eq:
  "wf_pm pm \<Longrightarrow> set_chunk_ready pm idx =
     (if idx < pm_count pm then Inr (mark_bit pm idx) else Inl EINVAL)"
  by (simp add: set_chunk_ready_def validate_index_def set_chunk_ready_loop_eq)

lemma wf_pm_nrc [simp]: "wf_pm (pm\<lparr>pm_not_ready_count := n\<rparr>) = wf_pm pm"
  by (simp add: wf_pm_def)

lemma ready_bits_nrc [simp]: "ready_bits (pm\<lparr>pm_not_ready_count := n\<rparr>) = ready_bits pm"
  by (simp add: ready_bits_def)

lemma mark_bit_count [simp]: "pm_count (mark_bit pm idx) = pm_count pm"
  by (simp add: mark_bit_def)

lemma wf_pm_mark_bit: "\<lbrakk>wf_pm pm; idx < pm_count pm\<rbrakk> \<Longrightarrow> wf_pm (mark_bit pm idx)"
  by (simp add: mark_bit_def wf_pm_set_bit_at)

lemma ready_bits_mark_bit:
  assumes "wf_pm pm" and "idx < pm_count pm"
  shows "ready_bits (mark_bit pm idx) = (ready_bits pm)[unat idx := True]"
proof (cases "chunk_bit (pm_data pm) (unat idx)")
  case True
  then have "(ready_bits pm)[unat idx := True] = ready_bits pm"
    using assms(2) by (simp add: list_update_same_conv word_less_nat_alt)
  with True show ?thesis by (simp add: mark_bit_def)
next
  case False
  then show ?thesis by (simp add: mark_bit_def ready_bits_set_bit_at assms)
qed

text \<open>Setting a clear bit lowers the number of unready chunks and the counter by one.\<close>

lemma unready_mark_bit:
  assumes "wf_pm pm" and "idx < pm_count pm" and "\<not> chunk_bit (pm_data pm) (unat idx)"
  shows "unready (mark_bit pm idx) + 1 = unready pm"
  unfolding unready_def ready_bits_mark_bit [OF assms(1,2)]
  by (rule count_list_update) (use assms in \<open>auto simp: word_less_nat_alt\<close>)

lemma unready_mark_bit_same:
  assumes "chunk_bit (pm_data pm) (unat idx)"
  shows "mark_bit pm idx = pm"
  using assms by (simp add: mark_bit_def)

lemma unat_pred: "0 < unat (n :: u32) \<Longrightarrow> unat (n - 1) = unat n - 1"
  by (simp add: unat_sub word_le_nat_alt)

lemma mark_bit_nrc:
  assumes "wf_pm pm" and "idx < pm_count pm" and "\<not> chunk_bit (pm_data pm) (unat idx)"
    and "unready pm \<le> unat (pm_not_ready_count pm)"
  shows "unat (pm_not_ready_count (mark_bit pm idx)) = unat (pm_not_ready_count pm) - 1"
    and "0 < unat (pm_not_ready_count pm)"
proof -
  show pos: "0 < unat (pm_not_ready_count pm)"
    using unready_mark_bit [OF assms(1-3)] assms(4) by linarith
  show "unat (pm_not_ready_count (mark_bit pm idx)) = unat (pm_not_ready_count pm) - 1"
    using pos assms(3) by (simp add: mark_bit_def unat_pred)
qed

lemma pm_sound_mark_bit:
  assumes "pm_sound pm" and "idx < pm_count pm"
  shows "pm_sound (mark_bit pm idx)"
proof (cases "chunk_bit (pm_data pm) (unat idx)")
  case True
  with assms show ?thesis by (simp add: unready_mark_bit_same)
next
  case False
  have wf: "wf_pm pm" and le: "unready pm \<le> unat (pm_not_ready_count pm)"
    using assms(1) by (auto simp: pm_sound_def)
  show ?thesis
    using unready_mark_bit [OF wf assms(2) False] mark_bit_nrc [OF wf assms(2) False le] le
      wf_pm_mark_bit [OF wf assms(2)]
    by (simp add: pm_sound_def)
qed

lemma pm_exact_mark_bit:
  assumes "pm_exact pm" and "idx < pm_count pm"
  shows "pm_exact (mark_bit pm idx)"
proof (cases "chunk_bit (pm_data pm) (unat idx)")
  case True
  with assms show ?thesis by (simp add: unready_mark_bit_same)
next
  case False
  have wf: "wf_pm pm" and eq: "unat (pm_not_ready_count pm) = unready pm"
    using assms(1) by (auto simp: pm_exact_def)
  show ?thesis
    using unready_mark_bit [OF wf assms(2) False] mark_bit_nrc [OF wf assms(2) False] eq
      wf_pm_mark_bit [OF wf assms(2)]
    by (simp add: pm_exact_def)
qed

lemma pm_exact_sound: "pm_exact pm \<Longrightarrow> pm_sound pm"
  by (simp add: pm_exact_def pm_sound_def)

lemma unready_zero: "unready pm = 0 \<longleftrightarrow> (\<forall>i < unat (pm_count pm). chunk_bit (pm_data pm) i)"
  by (simp add: unready_def count_list_zero_nth)

lemma unready_le: "unready pm \<le> unat (pm_count pm)"
  using count_list_bool [of "ready_bits pm"] by (simp add: unready_def)

text \<open>A sequence of updates, as the range operations issue them.\<close>

fun set_chunks_ready :: "PersistMap \<Rightarrow> u32 list \<Rightarrow> PersistMap res" where
  "set_chunks_ready pm [] = Inr pm"
| "set_chunks_ready pm (i # is) = and_then (set_chunk_ready pm i) (\<lambda>pm. set_chunks_ready pm is)"

definition mark_bits :: "PersistMap \<Rightarrow> u32 list \<Rightarrow> PersistMap" where
  "mark_bits pm is = foldl mark_bit pm is"

lemma mark_bits_simps [simp]:
  "mark_bits pm [] = pm" "mark_bits pm (i # is) = mark_bits (mark_bit pm i) is"
  by (simp_all add: mark_bits_def)

lemma set_chunks_ready_eq:
  "\<lbrakk>wf_pm pm; \<forall>i \<in> set is. i < pm_count pm\<rbrakk> \<Longrightarrow> set_chunks_ready pm is = Inr (mark_bits pm is)"
  by (induction "is" arbitrary: pm) (simp_all add: set_chunk_ready_eq wf_pm_mark_bit)

lemma mark_bits_count [simp]: "pm_count (mark_bits pm is) = pm_count pm"
  by (induction "is" arbitrary: pm) simp_all

lemma pm_exact_mark_bits:
  "\<lbrakk>pm_exact pm; \<forall>i \<in> set is. i < pm_count pm\<rbrakk> \<Longrightarrow> pm_exact (mark_bits pm is)"
  by (induction "is" arbitrary: pm) (simp_all add: pm_exact_mark_bit)

lemma pm_sound_mark_bits:
  "\<lbrakk>pm_sound pm; \<forall>i \<in> set is. i < pm_count pm\<rbrakk> \<Longrightarrow> pm_sound (mark_bits pm is)"
  by (induction "is" arbitrary: pm) (simp_all add: pm_sound_mark_bit)

lemma ready_bits_mark_bits_nth:
  "\<lbrakk>wf_pm pm; \<forall>i \<in> set is. i < pm_count pm; j < unat (pm_count pm)\<rbrakk> \<Longrightarrow>
     ready_bits (mark_bits pm is) ! j \<longleftrightarrow> ready_bits pm ! j \<or> j \<in> unat ` set is"
proof (induction "is" arbitrary: pm)
  case Nil
  then show ?case by simp
next
  case (Cons i "is")
  have "ready_bits (mark_bits (mark_bit pm i) is) ! j \<longleftrightarrow>
        ready_bits (mark_bit pm i) ! j \<or> j \<in> unat ` set is"
    using Cons.IH [of "mark_bit pm i"] Cons.prems by (simp add: wf_pm_mark_bit)
  moreover have "ready_bits (mark_bit pm i) ! j \<longleftrightarrow> ready_bits pm ! j \<or> j = unat i"
    using Cons.prems by (simp add: ready_bits_mark_bit nth_list_update word_less_nat_alt)
  ultimately show ?case by auto
qed

section \<open>Properties\<close>

text \<open>
  C22. Marking a chunk ready sets the bit of exactly that chunk: on a map whose counter is exact,
  \<open>set_chunk_ready\<close> returns EINVAL for an index outside of the map and otherwise terminates with
  a map in which the chunk is ready, every other chunk is as before, and the counter is again the
  number of chunks that are not ready, also when the chunk was ready before.
\<close>

theorem set_chunk_ready_refines:
  assumes "pm_exact pm"
  shows "case set_chunk_ready pm idx of
           Inl e \<Rightarrow> pm_count pm \<le> idx \<and> e = EINVAL
         | Inr pm' \<Rightarrow> idx < pm_count pm \<and> ready_bits pm' = (ready_bits pm)[unat idx := True] \<and>
             pm_exact pm' \<and> pm_count pm' = pm_count pm"
proof -
  have wf: "wf_pm pm" using assms by (simp add: pm_exact_def)
  show ?thesis
    using wf assms
    by (simp add: set_chunk_ready_eq [OF wf] ready_bits_mark_bit pm_exact_mark_bit linorder_not_less)
qed

text \<open>A map of three chunks of which the second is ready.\<close>

definition demo_pm :: PersistMap where
  "demo_pm = \<lparr>pm_count = 3, pm_not_ready_count = 2,
     pm_filemap = \<lparr>fm_base = 4096, fm_end = 8193, fm_size = 4097,
       fm_data = replicate HEADER_SIZE 0 @ [0x40]\<rparr>\<rparr>"

lemma demo_pm_bit:
  assumes "i < 8"
  shows "chunk_bit (pm_data demo_pm) i \<longleftrightarrow> i = 1"
proof -
  have "chunk_bit (pm_data demo_pm) i = bit (0x40 :: u8) (7 - i)"
    using assms by (simp add: chunk_bit_def demo_pm_def nth_append)
  moreover have "i = 0 \<or> i = 1 \<or> i = 2 \<or> i = 3 \<or> i = 4 \<or> i = 5 \<or> i = 6 \<or> i = 7"
    using assms by linarith
  ultimately show ?thesis by auto
qed

lemma demo_pm_ready_bits: "ready_bits demo_pm = [False, True, False]"
proof -
  have "pm_count demo_pm = 3" by (simp add: demo_pm_def)
  then show ?thesis by (simp add: ready_bits_def upt_rec demo_pm_bit)
qed

lemma demo_pm_exact: "pm_exact demo_pm"
proof -
  have c: "pm_count demo_pm = 3" "pm_not_ready_count demo_pm = 2" by (simp_all add: demo_pm_def)
  have u: "unready demo_pm = 2" by (simp add: unready_def demo_pm_ready_bits)
  have b: "bitmap_len 3 = 1" by (simp add: bitmap_len_def)
  have l: "length (pm_data demo_pm) = HEADER_SIZE + 1" by (simp add: demo_pm_def)
  have "wf_filemap (pm_filemap demo_pm)"
    unfolding wf_filemap_def l by (simp add: demo_pm_def HEADER_SIZE_def)
  then have "wf_pm demo_pm"
    unfolding wf_pm_def c b l using demo_pm_bit by auto
  then show ?thesis by (simp add: pm_exact_def u c)
qed

theorem set_chunk_ready_refines_witness:
  "case set_chunk_ready demo_pm 0 of
     Inl e \<Rightarrow> False
   | Inr pm' \<Rightarrow> ready_bits pm' = [True, True, False] \<and> unat (pm_not_ready_count pm') = 1"
proof -
  have "0 < pm_count demo_pm" by (simp add: demo_pm_def)
  then show ?thesis
    using set_chunk_ready_refines [OF demo_pm_exact, of 0]
    by (auto simp: demo_pm_ready_bits pm_exact_def unready_def split: sum.splits)
qed

text \<open>
  The fast path \<open>is_range_all_ready\<close> never reports data that is not there: if the counter is
  not below the number of unready chunks, which every operation keeps, an answer of true means
  that the bit of every chunk is set; with an exact counter the answer is true in exactly that
  case.
\<close>

theorem is_range_all_ready_sound:
  assumes "pm_sound pm"
  shows "(is_range_all_ready pm \<longrightarrow> (\<forall>b \<in> set (ready_bits pm). b)) \<and>
         (pm_exact pm \<longrightarrow> is_range_all_ready pm = (\<forall>b \<in> set (ready_bits pm). b))"
proof -
  have all: "(\<forall>b \<in> set (ready_bits pm). b) \<longleftrightarrow> unready pm = 0"
    by (auto simp: unready_zero all_set_conv_all_nth)
  have "is_range_all_ready pm \<longleftrightarrow> unat (pm_not_ready_count pm) = 0"
    by (simp add: is_range_all_ready_def unat_eq_zero)
  with assms show ?thesis by (simp only: all pm_sound_def pm_exact_def) simp
qed

theorem is_range_all_ready_sound_witness:
  "pm_sound demo_pm \<and> pm_exact demo_pm \<and> \<not> is_range_all_ready demo_pm"
proof -
  have s: "pm_sound demo_pm" by (rule pm_exact_sound [OF demo_pm_exact])
  show ?thesis
    using is_range_all_ready_sound [OF s] s demo_pm_exact
    by (simp add: demo_pm_ready_bits)
qed

end
