(* ===== verification/Persist_Conc.thy ===== *)
theory Persist_Conc
  imports Persist_Map
begin

text \<open>
  Several threads call \<open>PersistMap::set_chunk_ready\<close> on the same map. A thread advances by one
  atomic access at a time: the load of a byte, the compare-and-exchange of a byte, the decrement
  of the counter. Any thread may move next. The lemmas show that the counter never understates the
  number of unready chunks, that no update is lost and that the retry loops end.
\<close>

section \<open>Threads and steps\<close>

text \<open>Where a call of \<open>set_chunk_ready\<close> for a chunk stands.\<close>

datatype set_pc =
    Looping u32
  | Loaded u32 u8
  | Swapped u32
  | Returned u32

fun pc_index :: "set_pc \<Rightarrow> u32" where
  "pc_index (Looping i) = i"
| "pc_index (Loaded i _) = i"
| "pc_index (Swapped i) = i"
| "pc_index (Returned i) = i"

record pm_threads =
  t_pm :: PersistMap
  t_pcs :: "set_pc list"

inductive set_step :: "pm_threads \<Rightarrow> pm_threads \<Rightarrow> bool" where
  load_ready: "\<lbrakk>t < length (t_pcs s); t_pcs s ! t = Looping idx;
      is_chunk_ready (t_pm s) idx = Inr (True, cur)\<rbrakk> \<Longrightarrow>
    set_step s (s\<lparr>t_pcs := (t_pcs s)[t := Returned idx]\<rparr>)"
| load_unready: "\<lbrakk>t < length (t_pcs s); t_pcs s ! t = Looping idx;
      is_chunk_ready (t_pm s) idx = Inr (False, cur)\<rbrakk> \<Longrightarrow>
    set_step s (s\<lparr>t_pcs := (t_pcs s)[t := Loaded idx cur]\<rparr>)"
| swap: "\<lbrakk>t < length (t_pcs s); t_pcs s ! t = Loaded idx cur;
      write_u8 (t_pm s) idx cur = Inr (True, pm')\<rbrakk> \<Longrightarrow>
    set_step s (s\<lparr>t_pm := pm', t_pcs := (t_pcs s)[t := Swapped idx]\<rparr>)"
| retry: "\<lbrakk>t < length (t_pcs s); t_pcs s ! t = Loaded idx cur;
      write_u8 (t_pm s) idx cur = Inr (False, pm')\<rbrakk> \<Longrightarrow>
    set_step s (s\<lparr>t_pm := pm', t_pcs := (t_pcs s)[t := Looping idx]\<rparr>)"
| decrement: "\<lbrakk>t < length (t_pcs s); t_pcs s ! t = Swapped idx; fetch_sub_not_ready (t_pm s) = (old, pm')\<rbrakk> \<Longrightarrow>
    set_step s (s\<lparr>t_pm := (if old = 1 then mark_all_ready pm' else pm'),
                 t_pcs := (t_pcs s)[t := Returned idx]\<rparr>)"

text \<open>A new call passes \<open>validate_index\<close> and then enters the loop.\<close>

inductive pm_reach :: "pm_threads \<Rightarrow> bool" where
  start: "pm_exact pm \<Longrightarrow> pm_reach \<lparr>t_pm = pm, t_pcs = []\<rparr>"
| call: "\<lbrakk>pm_reach s; validate_index (t_pm s) idx = Inr i\<rbrakk> \<Longrightarrow>
    pm_reach (s\<lparr>t_pcs := t_pcs s @ [Looping i]\<rparr>)"
| step: "\<lbrakk>pm_reach s; set_step s s'\<rbrakk> \<Longrightarrow> pm_reach s'"

section \<open>Invariant\<close>

fun is_swapped :: "set_pc \<Rightarrow> bool" where
  "is_swapped (Swapped _) = True"
| "is_swapped _ = False"

definition swapped :: "set_pc list \<Rightarrow> nat" where
  "swapped ps = length (filter is_swapped ps)"

fun pc_ok :: "PersistMap \<Rightarrow> set_pc \<Rightarrow> bool" where
  "pc_ok pm (Looping i) \<longleftrightarrow> i < pm_count pm"
| "pc_ok pm (Loaded i cur) \<longleftrightarrow> i < pm_count pm \<and> \<not> bit cur (7 - unat i mod 8)"
| "pc_ok pm (Swapped i) \<longleftrightarrow> i < pm_count pm \<and> chunk_bit (pm_data pm) (unat i)"
| "pc_ok pm (Returned i) \<longleftrightarrow> i < pm_count pm \<and> chunk_bit (pm_data pm) (unat i)"

definition conc_inv :: "pm_threads \<Rightarrow> bool" where
  "conc_inv s \<longleftrightarrow> wf_pm (t_pm s) \<and> (\<forall>p \<in> set (t_pcs s). pc_ok (t_pm s) p) \<and>
     unat (pm_not_ready_count (t_pm s)) = unready (t_pm s) + swapped (t_pcs s)"

lemma swapped_append [simp]: "swapped (ps @ qs) = swapped ps + swapped qs"
  by (simp add: swapped_def)

lemma swapped_simps [simp]:
  "swapped [] = 0" "swapped (p # ps) = (if is_swapped p then 1 else 0) + swapped ps"
  by (simp_all add: swapped_def)

lemma swapped_update:
  "t < length ps \<Longrightarrow>
     swapped (ps[t := p]) + (if is_swapped (ps ! t) then 1 else 0) = swapped ps + (if is_swapped p then 1 else 0)"
proof -
  assume "t < length ps"
  then have "ps = take t ps @ ps ! t # drop (Suc t) ps" "ps[t := p] = take t ps @ p # drop (Suc t) ps"
    by (simp_all add: id_take_nth_drop upd_conv_take_nth_drop)
  then have "swapped ps = swapped (take t ps @ ps ! t # drop (Suc t) ps)"
    "swapped (ps[t := p]) = swapped (take t ps @ p # drop (Suc t) ps)"
    by (simp_all del: swapped_append)
  then show ?thesis by simp
qed

text \<open>Bits are only ever set, so what a thread has seen set stays set.\<close>

lemma pc_ok_set_bit_at:
  assumes "wf_pm pm" and "idx < pm_count pm" and "pc_ok pm p"
  shows "pc_ok (set_bit_at pm idx) p"
  using assms by (cases p) (simp_all add: chunk_bit_set_bit_at idx_in_file)

lemma unready_set_bit_at:
  assumes "wf_pm pm" and "idx < pm_count pm" and "\<not> chunk_bit (pm_data pm) (unat idx)"
  shows "unready (set_bit_at pm idx) + 1 = unready pm"
  using unready_mark_bit [OF assms] assms(3) by (simp add: mark_bit_def unready_def)

lemma pc_ok_nrc [simp]: "pc_ok (pm\<lparr>pm_not_ready_count := n\<rparr>) p = pc_ok pm p"
  by (cases p) simp_all

text \<open>One thread moves and the map may change: what the invariant asks of the new state.\<close>

lemma conc_inv_update:
  assumes "t < length (t_pcs s)" and "t_pcs s ! t = q" and "wf_pm pm'"
    and "\<forall>p \<in> set (t_pcs s). pc_ok pm' p" and "pc_ok pm' p"
    and "unat (pm_not_ready_count pm') + (if is_swapped q then 1 else 0) =
           unready pm' + swapped (t_pcs s) + (if is_swapped p then 1 else 0)"
  shows "conc_inv (s\<lparr>t_pm := pm', t_pcs := (t_pcs s)[t := p]\<rparr>)"
proof -
  have "\<forall>r \<in> set ((t_pcs s)[t := p]). pc_ok pm' r"
    using assms(4,5) set_update_subset_insert [of "t_pcs s" t p] by auto
  moreover have "unat (pm_not_ready_count pm') = unready pm' + swapped ((t_pcs s)[t := p])"
    using swapped_update [OF assms(1), of p] assms(2,6) by (simp split: if_splits)
  ultimately show ?thesis using assms(3) by (simp add: conc_inv_def)
qed

lemma conc_inv_pc:
  "\<lbrakk>conc_inv s; t < length (t_pcs s); t_pcs s ! t = q\<rbrakk> \<Longrightarrow>
     wf_pm (t_pm s) \<and> wf_filemap (pm_filemap (t_pm s)) \<and> pc_ok (t_pm s) q \<and>
     (\<forall>p \<in> set (t_pcs s). pc_ok (t_pm s) p) \<and>
     unat (pm_not_ready_count (t_pm s)) = unready (t_pm s) + swapped (t_pcs s)"
  by (auto simp: conc_inv_def wf_pm_def)

lemma load_eq:
  "\<lbrakk>wf_pm pm; idx < pm_count pm; is_chunk_ready pm idx = Inr (r, cur)\<rbrakk> \<Longrightarrow>
     r = chunk_bit (pm_data pm) (unat idx) \<and> r = bit cur (7 - unat idx mod 8) \<and>
     cur = pm_data pm ! (HEADER_SIZE + unat idx div 8)"
  using is_chunk_ready_eq [of pm idx] idx_in_file [of pm idx]
  by (auto simp: wf_pm_def chunk_bit_def)

lemma swap_eq:
  "\<lbrakk>wf_pm pm; idx < pm_count pm; write_u8 pm idx cur = Inr (ok, pm')\<rbrakk> \<Longrightarrow>
     ok = (pm_data pm ! (HEADER_SIZE + unat idx div 8) = cur) \<and>
     pm' = (if ok then set_bit_at pm idx else pm)"
  using write_u8_eq [of pm idx cur] idx_in_file [of pm idx]
  by (auto simp: wf_pm_def split: if_splits)

lemma conc_inv_step:
  assumes "set_step s s'" and "conc_inv s"
  shows "conc_inv s'"
  using assms
proof (induction rule: set_step.induct)
  case (load_ready t s idx cur)
  note inv = conc_inv_pc [OF load_ready(4,1,2)]
  then show ?case
    using load_eq [OF _ _ load_ready(3)] conc_inv_update [OF load_ready(1,2), of "t_pm s" "Returned idx"]
    by simp
next
  case (load_unready t s idx cur)
  note inv = conc_inv_pc [OF load_unready(4,1,2)]
  then show ?case
    using load_eq [OF _ _ load_unready(3)] conc_inv_update [OF load_unready(1,2), of "t_pm s" "Loaded idx cur"]
    by auto
next
  case (swap t s idx cur pm')
  note inv = conc_inv_pc [OF swap(4,1,2)]
  then have i: "idx < pm_count (t_pm s)" and wf: "wf_pm (t_pm s)" by simp_all
  note * = swap_eq [OF wf i swap(3)]
  then have nb: "\<not> chunk_bit (pm_data (t_pm s)) (unat idx)" using inv by (auto simp: chunk_bit_def)
  show ?case
    by (rule conc_inv_update [OF swap(1,2)])
      (use inv * i wf nb unready_set_bit_at [OF wf i nb] in
        \<open>simp_all add: wf_pm_set_bit_at pc_ok_set_bit_at chunk_bit_set_bit_at idx_in_file\<close>)
next
  case (retry t s idx cur pm')
  note inv = conc_inv_pc [OF retry(4,1,2)]
  then show ?case
    using swap_eq [OF _ _ retry(3)] conc_inv_update [OF retry(1,2), of "t_pm s" "Looping idx"]
    by simp
next
  case (decrement t s idx old pm')
  note inv = conc_inv_pc [OF decrement(4,1,2)]
  have pm': "pm' = (t_pm s)\<lparr>pm_not_ready_count := pm_not_ready_count (t_pm s) - 1\<rparr>"
    using decrement(3) by (auto simp: fetch_sub_not_ready_def)
  have "0 < swapped (t_pcs s)"
    using swapped_update [OF decrement(1), of "Returned idx"] decrement(2) by simp
  then have "unat (pm_not_ready_count (t_pm s) - 1) + 1 = unat (pm_not_ready_count (t_pm s))"
    using inv unat_pred [of "pm_not_ready_count (t_pm s)"] by simp
  moreover have "unready pm' = unready (t_pm s)" by (simp add: pm' unready_def)
  ultimately have "conc_inv (s\<lparr>t_pm := pm', t_pcs := (t_pcs s)[t := Returned idx]\<rparr>)"
    by (intro conc_inv_update [OF decrement(1,2)]) (use inv in \<open>simp_all add: pm'\<close>)
  then show ?case by (simp add: mark_all_ready_def)
qed

lemma pm_reach_inv: "pm_reach s \<Longrightarrow> conc_inv s"
proof (induction rule: pm_reach.induct)
  case (start pm)
  then show ?case by (simp add: conc_inv_def pm_exact_def)
next
  case (call s idx i)
  then show ?case by (auto simp: conc_inv_def validate_index_def split: if_splits)
next
  case (step s s')
  then show ?case by (blast intro: conc_inv_step)
qed

section \<open>The retry loops end\<close>

text \<open>
  A failed exchange means that another thread changed the byte, that is, set a bit. A thread
  whose loaded byte is out of date has one more round to go.
\<close>

fun pc_weight :: "PersistMap \<Rightarrow> set_pc \<Rightarrow> nat" where
  "pc_weight pm (Looping i) = 3"
| "pc_weight pm (Loaded i cur) = (if pm_data pm ! (HEADER_SIZE + unat i div 8) = cur then 2 else 4)"
| "pc_weight pm (Swapped i) = 1"
| "pc_weight pm (Returned i) = 0"

definition set_measure :: "(pm_threads \<times> pm_threads) set" where
  "set_measure = measures [\<lambda>s. unready (t_pm s), \<lambda>s. sum_list (map (pc_weight (t_pm s)) (t_pcs s))]"

lemma wf_set_measure: "wf set_measure"
  by (simp add: set_measure_def)

lemma pc_weight_nrc [simp]: "pc_weight (pm\<lparr>pm_not_ready_count := n\<rparr>) = pc_weight pm"
proof
  show "pc_weight (pm\<lparr>pm_not_ready_count := n\<rparr>) p = pc_weight pm p" for p by (cases p) simp_all
qed

lemma weight_update:
  assumes "t < length ps" and "pc_weight pm p < pc_weight pm (ps ! t)"
  shows "sum_list (map (pc_weight pm) (ps[t := p])) < sum_list (map (pc_weight pm) ps)"
proof -
  have "pc_weight pm (ps ! t) \<le> sum_list (map (pc_weight pm) ps)"
    by (rule member_le_sum_list) (use assms(1) in simp_all)
  then show ?thesis using assms by (simp add: map_update sum_list_update)
qed

lemma weight_step:
  "\<lbrakk>t < length (t_pcs s); pc_weight pm' p < pc_weight pm' (t_pcs s ! t); unready pm' = unready (t_pm s);
    pc_weight pm' = pc_weight (t_pm s)\<rbrakk> \<Longrightarrow>
     (s\<lparr>t_pm := pm', t_pcs := (t_pcs s)[t := p]\<rparr>, s) \<in> set_measure"
  using weight_update [of t "t_pcs s" pm' p] by (simp add: set_measure_def)

lemma set_step_decreases:
  assumes "set_step s s'" and "conc_inv s"
  shows "(s', s) \<in> set_measure"
  using assms
proof (induction rule: set_step.induct)
  case (load_ready t s idx cur)
  then show ?case using weight_step [OF load_ready(1), of "t_pm s" "Returned idx"] by simp
next
  case (load_unready t s idx cur)
  note inv = conc_inv_pc [OF load_unready(4,1,2)]
  then show ?case
    using load_eq [OF _ _ load_unready(3)] weight_step [OF load_unready(1), of "t_pm s" "Loaded idx cur"]
      load_unready(2) by auto
next
  case (swap t s idx cur pm')
  note inv = conc_inv_pc [OF swap(4,1,2)]
  then have i: "idx < pm_count (t_pm s)" and wf: "wf_pm (t_pm s)" by simp_all
  note * = swap_eq [OF wf i swap(3)]
  then have nb: "\<not> chunk_bit (pm_data (t_pm s)) (unat idx)" using inv by (auto simp: chunk_bit_def)
  show ?case using unready_set_bit_at [OF wf i nb] * by (simp add: set_measure_def)
next
  case (retry t s idx cur pm')
  note inv = conc_inv_pc [OF retry(4,1,2)]
  then show ?case
    using swap_eq [OF _ _ retry(3)] weight_step [OF retry(1), of "t_pm s" "Looping idx"] retry(2) by auto
next
  case (decrement t s idx old pm')
  have pm': "pm' = (t_pm s)\<lparr>pm_not_ready_count := pm_not_ready_count (t_pm s) - 1\<rparr>"
    using decrement(3) by (auto simp: fetch_sub_not_ready_def)
  have "unready pm' = unready (t_pm s)" by (simp add: pm' unready_def)
  then have "(s\<lparr>t_pm := pm', t_pcs := (t_pcs s)[t := Returned idx]\<rparr>, s) \<in> set_measure"
    using weight_step [OF decrement(1), of pm' "Returned idx"] decrement(2) by (simp add: pm')
  then show ?case by (simp add: mark_all_ready_def)
qed

text \<open>A thread that has not returned can always make a step: no thread waits for another.\<close>

fun returned :: "set_pc \<Rightarrow> bool" where
  "returned (Returned _) = True"
| "returned _ = False"

lemma set_step_progress:
  assumes "conc_inv s" and "t < length (t_pcs s)" and "\<not> returned (t_pcs s ! t)"
  shows "\<exists>s'. set_step s s'"
proof (cases "t_pcs s ! t")
  case (Looping idx)
  note inv = conc_inv_pc [OF assms(1,2) Looping]
  then obtain r cur where *: "is_chunk_ready (t_pm s) idx = Inr (r, cur)"
    using is_chunk_ready_eq [of "t_pm s" idx] idx_in_file [of "t_pm s" idx] by auto
  show ?thesis
  proof (cases r)
    case True
    with * set_step.load_ready [OF assms(2) Looping] show ?thesis by auto
  next
    case False
    with * set_step.load_unready [OF assms(2) Looping] show ?thesis by auto
  qed
next
  case (Loaded idx cur)
  note inv = conc_inv_pc [OF assms(1,2) Loaded]
  then obtain ok pm' where *: "write_u8 (t_pm s) idx cur = Inr (ok, pm')"
    using write_u8_eq [of "t_pm s" idx cur] idx_in_file [of "t_pm s" idx] by (auto split: if_splits)
  show ?thesis
  proof (cases ok)
    case True
    with * set_step.swap [OF assms(2) Loaded] show ?thesis by auto
  next
    case False
    with * set_step.retry [OF assms(2) Loaded] show ?thesis by auto
  qed
next
  case (Swapped idx)
  show ?thesis using set_step.decrement [OF assms(2) Swapped, OF surjective_pairing] by blast
next
  case (Returned idx)
  with assms(3) show ?thesis by simp
qed

section \<open>Properties\<close>

lemma reach_run:
  assumes "pm_reach (f 0)" and "\<And>i. set_step (f i) (f (Suc i))"
  shows "pm_reach (f i)"
  by (induction i) (auto intro: pm_reach.step assms)



text \<open>
  The retry loops of concurrent calls of \<open>set_chunk_ready\<close> cannot go on for ever: no schedule
  makes infinitely many steps without a new call, and a state in which no thread can move is one in
  which all calls have returned. So every schedule that keeps running ends with all calls returned.
\<close>

theorem concurrent_set_ready_ends:
  assumes "pm_reach s"
  shows "\<not> (\<exists>f. f 0 = s \<and> (\<forall>i. set_step (f i) (f (Suc i)))) \<and>
         ((\<forall>s'. \<not> set_step s s') \<longrightarrow> (\<forall>p \<in> set (t_pcs s). returned p))"
proof
  show "\<not> (\<exists>f. f 0 = s \<and> (\<forall>i. set_step (f i) (f (Suc i))))"
  proof
    assume "\<exists>f. f 0 = s \<and> (\<forall>i. set_step (f i) (f (Suc i)))"
    then obtain f where f: "f 0 = s" "\<And>i. set_step (f i) (f (Suc i))" by blast
    have "conc_inv (f i)" for i
      using reach_run [of f i] f assms by (simp add: pm_reach_inv)
    then have "(f (Suc i), f i) \<in> set_measure" for i
      using set_step_decreases [OF f(2)] by blast
    then show False using wf_set_measure by (auto simp: wf_iff_no_infinite_down_chain)
  qed
  show "(\<forall>s'. \<not> set_step s s') \<longrightarrow> (\<forall>p \<in> set (t_pcs s). returned p)"
    using set_step_progress [OF pm_reach_inv [OF assms]] by (auto simp: in_set_conv_nth) blast
qed

theorem concurrent_set_ready_ends_witness:
  "\<exists>s'. set_step \<lparr>t_pm = demo_pm, t_pcs = [Looping 0, Looping 1]\<rparr> s'"
proof -
  have v: "validate_index demo_pm 0 = Inr 0" "validate_index demo_pm 1 = Inr 1"
    by (simp_all add: validate_index_def demo_pm_def)
  have "pm_reach \<lparr>t_pm = demo_pm, t_pcs = []\<rparr>" by (rule pm_reach.start [OF demo_pm_exact])
  from pm_reach.call [OF this, of 0 0] have "pm_reach \<lparr>t_pm = demo_pm, t_pcs = [Looping 0]\<rparr>"
    by (simp add: v)
  from pm_reach.call [OF this, of 1 1]
  have "pm_reach \<lparr>t_pm = demo_pm, t_pcs = [Looping 0, Looping 1]\<rparr>" by (simp add: v)
  from concurrent_set_ready_ends [OF this] show ?thesis by auto
qed

end
