(* ===== verification/Persist_Recovery.thy ===== *)
theory Persist_Recovery
  imports Persist_Map
begin

text \<open>
  What \<open>PersistMap::open\<close> makes of a file: the population count of the bitmap is the number
  of ready chunks, a new file has no ready chunk, a file written by an earlier process gives back
  the chunks that process marked, and the counter of unready chunks is exact in both cases.
\<close>

section \<open>Counting the ready chunks\<close>

definition bit_of :: "u8 list \<Rightarrow> nat \<Rightarrow> bool" where
  "bit_of bs i = bit (bs ! (i div 8)) (7 - i mod 8)"

lemma chunk_bit_drop:
  "HEADER_SIZE \<le> length data \<Longrightarrow> chunk_bit data i = bit_of (drop HEADER_SIZE data) i"
  by (simp add: chunk_bit_def bit_of_def)

lemma count_list_map_True: "count_list (map P xs) True = length (filter P xs)"
  by (induction xs) auto

lemma count_ones_eq: "count_ones b = count_list (map (\<lambda>j. bit b (7 - j)) [0..<8]) True"
proof -
  have "map (\<lambda>j. bit b (7 - j)) [0..<8] = rev (map (bit b) [0..<8])"
    by (simp add: upt_rec numeral_eq_Suc)
  then show ?thesis
    by (simp only: count_list_rev count_list_map_True count_ones_def)
qed

lemma bit_of_append_last:
  "map (bit_of (bs @ [b])) [8 * length bs..<8 * length bs + 8] = map (\<lambda>j. bit b (7 - j)) [0..<8]"
proof (rule nth_equalityI)
  fix i assume "i < length (map (bit_of (bs @ [b])) [8 * length bs..<8 * length bs + 8])"
  then have i: "i < 8" by simp
  have "(8 * length bs + i) div 8 = length bs" and "(8 * length bs + i) mod 8 = i"
    using i by simp_all
  with i show "map (bit_of (bs @ [b])) [8 * length bs..<8 * length bs + 8] ! i =
      map (\<lambda>j. bit b (7 - j)) [0..<8] ! i"
    by (simp add: bit_of_def)
qed simp

lemma bit_of_append: "i < 8 * length bs \<Longrightarrow> bit_of (bs @ cs) i = bit_of bs i"
  by (simp add: bit_of_def nth_append less_mult_imp_div_less mult.commute)

lemma sum_count_ones:
  "sum_list (map count_ones bs) = count_list (map (bit_of bs) [0..<8 * length bs]) True"
proof (induction bs rule: rev_induct)
  case Nil
  then show ?case by simp
next
  case (snoc b bs)
  have "[0..<8 * length (bs @ [b])] = [0..<8 * length bs] @ [8 * length bs..<8 * length bs + 8]"
    using upt_add_eq_append [of 0 "8 * length bs" 8] by (simp add: algebra_simps)
  moreover have "map (bit_of (bs @ [b])) [0..<8 * length bs] = map (bit_of bs) [0..<8 * length bs]"
    by (rule map_cong) (simp_all add: bit_of_append)
  ultimately show ?case
    by (simp only: map_append count_list_append bit_of_append_last sum_list_append snoc.IH
        list.map sum_list.Cons sum_list.Nil count_ones_eq [of b] add_0_right)
qed

lemma sum_ones_eq: "sum_ones bs acc = acc + of_nat (sum_list (map count_ones bs))"
  by (induction bs arbitrary: acc) simp_all

text \<open>With clear padding the population count is the number of ready chunks.\<close>

lemma sum_ones_ready:
  assumes "wf_pm pm"
  shows "sum_ones (drop HEADER_SIZE (pm_data pm)) 0 = of_nat (count_list (ready_bits pm) True)"
proof -
  let ?n = "unat (pm_count pm)" and ?m = "8 * bitmap_len (pm_count pm)"
  have len: "length (drop HEADER_SIZE (pm_data pm)) = bitmap_len (pm_count pm)"
    and hd: "HEADER_SIZE \<le> length (pm_data pm)"
    and pad: "\<And>i. ?n \<le> i \<Longrightarrow> i < ?m \<Longrightarrow> \<not> chunk_bit (pm_data pm) i"
    using assms by (auto simp: wf_pm_def)
  have split: "[0..<?m] = [0..<?n] @ [?n..<?m]"
    using upt_add_eq_append [of 0 ?n "?m - ?n"] count_less_bitmap [of "pm_count pm"] by simp
  have "count_list (map (chunk_bit (pm_data pm)) [?n..<?m]) True = 0"
    using pad by (auto simp: count_list_0_iff)
  then have "count_list (map (chunk_bit (pm_data pm)) [0..<?m]) True = count_list (ready_bits pm) True"
    by (simp add: split ready_bits_def)
  moreover have "bit_of (drop HEADER_SIZE (pm_data pm)) = chunk_bit (pm_data pm)"
    using chunk_bit_drop [OF hd] by auto
  ultimately show ?thesis by (simp only: sum_ones_eq sum_count_ones len add_0_left)
qed

lemma ready_plus_unready: "count_list (ready_bits pm) True + unready pm = unat (pm_count pm)"
  using count_list_bool [of "ready_bits pm"] by (simp add: unready_def)

section \<open>The header\<close>

lemma length_new_header: "length (Header_as_slice new_header) = HEADER_SIZE"
  by (simp add: Header_as_slice_def new_header_def HEADER_RESERVED_SIZE_def HEADER_SIZE_def)

lemma Header_of_as_slice:
  assumes "length (h_reserved h) = HEADER_RESERVED_SIZE"
  shows "Header_of (Header_as_slice h @ rest) = h"
  using assms by (simp add: Header_of_def Header_as_slice_def)

lemma Header_of_new [simp]: "Header_of (write_header file size') = new_header"
  unfolding write_header_def Let_def
  by (rule Header_of_as_slice) (simp add: new_header_def)

lemma Header_of_take: "Header_of (take HEADER_SIZE data) = Header_of data"
  by (simp add: Header_of_def HEADER_SIZE_def HEADER_RESERVED_SIZE_def drop_take min_def)

lemma Header_of_cong: "take HEADER_SIZE a = take HEADER_SIZE b \<Longrightarrow> Header_of a = Header_of b"
  using Header_of_take [of a] Header_of_take [of b] by simp

lemma take_mark_bit: "take HEADER_SIZE (pm_data (mark_bit pm idx)) = take HEADER_SIZE (pm_data pm)"
  by (simp add: mark_bit_def set_bit_at_def store_byte_def Let_def)

lemma Header_of_mark_bits [simp]: "Header_of (pm_data (mark_bits pm is)) = Header_of (pm_data pm)"
proof (induction "is" arbitrary: pm)
  case (Cons i "is")
  then show ?case using Header_of_cong [OF take_mark_bit, of pm i] by simp
qed simp

lemma length_write_header:
  "HEADER_SIZE \<le> unat size' \<Longrightarrow> length (write_header file size') = unat size'"
  by (simp add: write_header_def set_len_def length_new_header)

lemma write_header_zero:
  assumes "\<forall>c \<in> set file. c = 0" and "HEADER_SIZE \<le> unat size'"
  shows "drop HEADER_SIZE (write_header file size') = replicate (unat size' - HEADER_SIZE) 0"
proof -
  have "file = replicate (length file) 0" using assms(1) by (auto simp: replicate_eqI)
  then obtain n where f: "file = replicate n 0" by blast
  have "set_len (unat size') file = replicate (unat size') 0"
    by (auto simp: f set_len_def replicate_add [symmetric] min_def)
  then show ?thesis by (simp add: write_header_def length_new_header)
qed

lemma unat_expected_size: "unat (expected_size n) = HEADER_SIZE + bitmap_len n"
proof -
  have u: "unat (ucast n :: u64) = unat n" by (rule unat_ucast_up) simp
  have lt: "unat n < 2 ^ 32" by (rule unat_lt2p32)
  have d: "unat (div_round_up (ucast n) 8) = bitmap_len n"
    using unat_div_round_up [of 8 "ucast n"] lt by (simp add: u bitmap_len_def)
  have "bitmap_len n \<le> unat n + 7" by (simp add: bitmap_len_def)
  with lt have "HEADER_SIZE + bitmap_len n < 2 ^ 64" by (simp add: HEADER_SIZE_def)
  then show ?thesis
    using unat_add_less [of "of_nat HEADER_SIZE" "div_round_up (ucast n) 8"] d
    by (simp add: expected_size_def HEADER_SIZE_def)
qed

lemma bitmap_len_pos: "0 < n \<Longrightarrow> 0 < bitmap_len n"
  by (simp add: bitmap_len_def word_less_nat_alt div_greater_zero_iff)

section \<open>Recovering the counter\<close>

definition valid_header :: "PersistMap \<Rightarrow> bool" where
  "valid_header pm \<longleftrightarrow>
     (let h = Header_of (pm_data pm)
      in h_magic h = MAGIC1 \<and> 1 \<le> h_version h \<and> h_magic2 h = MAGIC2 \<and>
         (h_all_ready h = MAGIC_ALL_READY \<longrightarrow> unready pm = 0))"

text \<open>The system call grants the mapping that a map of \<open>n\<close> chunks needs.\<close>

definition mmap_grants :: "mmap_call \<Rightarrow> u32 \<Rightarrow> bool" where
  "mmap_grants mmap n \<longleftrightarrow>
     mmap True True (expected_size n) \<noteq> MAP_FAILED \<and> mmap True True (expected_size n) \<noteq> 0"

lemma length_set_all_ready: "HEADER_SIZE \<le> length d \<Longrightarrow> length (set_all_ready d) = length d"
  by (simp add: set_all_ready_def HEADER_SIZE_def)

lemma chunk_bit_set_all_ready:
  "HEADER_SIZE \<le> length d \<Longrightarrow> chunk_bit (set_all_ready d) i = chunk_bit d i"
  by (simp add: chunk_bit_def set_all_ready_def HEADER_SIZE_def nth_append)

lemma ready_bits_cong:
  "\<lbrakk>pm_count a = pm_count b; \<And>i. chunk_bit (pm_data a) i = chunk_bit (pm_data b) i\<rbrakk> \<Longrightarrow>
     ready_bits a = ready_bits b"
  by (simp add: ready_bits_def)

lemma wf_pm_set_all_ready:
  assumes "wf_pm pm"
  shows "wf_pm (pm\<lparr>pm_not_ready_count := k, pm_filemap := (pm_filemap pm)\<lparr>fm_data := set_all_ready (pm_data pm)\<rparr>\<rparr>)"
  using assms by (simp add: wf_pm_def wf_filemap_def length_set_all_ready chunk_bit_set_all_ready)

lemma PersistMap_recover_exact:
  assumes wf: "wf_pm pm" and "valid_header pm"
  shows "\<exists>pm'. PersistMap_recover (pm_filemap pm) (pm_count pm) False = Inr pm' \<and> pm_exact pm' \<and>
           ready_bits pm' = ready_bits pm \<and> pm_count pm' = pm_count pm"
proof -
  define h where "h = Header_of (pm_data pm)"
  have h: "1 \<le> h_version h" "h_magic2 h = MAGIC2"
    "h_all_ready h = MAGIC_ALL_READY \<Longrightarrow> unready pm = 0"
    using assms(2) by (auto simp: valid_header_def h_def Let_def)
  let ?r = "count_list (ready_bits pm) True"
  have sum: "?r + unready pm = unat (pm_count pm)" by (rule ready_plus_unready)
  then have r: "unat (of_nat ?r :: u32) = ?r"
    using unat_lt2p32 [of "pm_count pm"] by (intro unat_of_nat_less) simp
  have hd: "HEADER_SIZE \<le> length (pm_data pm)" using wf by (simp add: wf_pm_def)
  show ?thesis
  proof (cases "h_all_ready h = MAGIC_ALL_READY")
    case True
    have "PersistMap_recover (pm_filemap pm) (pm_count pm) False = Inr (pm\<lparr>pm_not_ready_count := 0\<rparr>)"
      using h True by (simp add: PersistMap_recover_def h_def [symmetric])
    moreover have "pm_exact (pm\<lparr>pm_not_ready_count := 0\<rparr>)"
      using wf h(3) [OF True] by (simp add: pm_exact_def unready_def)
    ultimately show ?thesis by simp
  next
    case False
    show ?thesis
    proof (cases "pm_count pm \<le> of_nat ?r")
      case True
      let ?p = "pm\<lparr>pm_not_ready_count := 0, pm_filemap := (pm_filemap pm)\<lparr>fm_data := set_all_ready (pm_data pm)\<rparr>\<rparr>"
      have "PersistMap_recover (pm_filemap pm) (pm_count pm) False = Inr ?p"
        using h False True by (simp add: PersistMap_recover_def h_def [symmetric] sum_ones_ready [OF wf])
      moreover have bits: "ready_bits ?p = ready_bits pm"
        by (rule ready_bits_cong) (simp_all add: chunk_bit_set_all_ready hd)
      moreover have "unready pm = 0"
        using True sum r by (simp add: word_le_nat_alt)
      then have "pm_exact ?p"
        using wf_pm_set_all_ready [OF wf, of 0] bits by (simp add: pm_exact_def unready_def)
      ultimately show ?thesis by simp
    next
      case less: False
      let ?p = "pm\<lparr>pm_not_ready_count := pm_count pm - of_nat ?r\<rparr>"
      have "PersistMap_recover (pm_filemap pm) (pm_count pm) False = Inr ?p"
        using h False less by (simp add: PersistMap_recover_def h_def [symmetric] sum_ones_ready [OF wf])
      moreover have "unat (pm_count pm - of_nat ?r) = unready pm"
        using less sum r by (simp add: unat_sub)
      then have "pm_exact ?p" using wf by (simp add: pm_exact_def unready_def)
      ultimately show ?thesis by simp
    qed
  qed
qed

section \<open>Opening files\<close>

lemma FileMapState_new_granted:
  assumes "mmap_spec mmap" and "mmap_grants mmap n" and "length d = unat (expected_size n)"
  shows "\<exists>fm. FileMapState_new mmap True d (expected_size n) True = Inr fm \<and> wf_filemap fm \<and> fm_data fm = d"
proof -
  obtain fm where fm: "FileMapState_new mmap True d (expected_size n) True = Inr fm"
    using assms(2) by (simp add: FileMapState_new_def mmap_grants_def Let_def)
  with FileMapState_new_wf [OF assms(1) fm assms(3)] show ?thesis by blast
qed

lemma header_mapped:
  assumes "wf_filemap fm" and "HEADER_SIZE \<le> length (fm_data fm)"
  shows "FileMapState_get_ref fm (of_nat HEADER_SIZE) 4 0 = Inr 0"
  by (rule get_ref_page_start) (use assms in \<open>simp_all add: HEADER_SIZE_def\<close>)

lemma PersistMap_open_existing:
  assumes "mmap_spec mmap" and "mmap_grants mmap (pm_count pm)" and wf: "wf_pm pm" and hdr: "valid_header pm"
  shows "\<exists>pm'. PersistMap_open mmap (Some (pm_data pm)) (pm_count pm) True True = Inr pm' \<and>
           pm_exact pm' \<and> ready_bits pm' = ready_bits pm \<and> pm_count pm' = pm_count pm"
proof -
  have len: "length (pm_data pm) = unat (expected_size (pm_count pm))" "pm_data pm \<noteq> []"
    and n0: "pm_count pm \<noteq> 0" and hd: "HEADER_SIZE \<le> length (pm_data pm)"
    using wf by (auto simp: wf_pm_def unat_expected_size HEADER_SIZE_def)
  obtain fm where fm: "FileMapState_new mmap True (pm_data pm) (expected_size (pm_count pm)) True = Inr fm"
    and wfm: "wf_filemap fm" and data: "fm_data fm = pm_data pm"
    using FileMapState_new_granted [OF assms(1,2) len(1)] by blast
  define p where "p = pm\<lparr>pm_filemap := fm\<rparr>"
  have bits: "ready_bits p = ready_bits pm" by (simp add: p_def ready_bits_def data)
  have "wf_pm p" using wf wfm by (simp add: wf_pm_def p_def data)
  moreover have "valid_header p"
    using hdr bits by (simp add: valid_header_def p_def data unready_def)
  ultimately obtain pm' where r: "PersistMap_recover fm (pm_count pm) False = Inr pm'"
    and *: "pm_exact pm'" "ready_bits pm' = ready_bits p" "pm_count pm' = pm_count p"
    using PersistMap_recover_exact [of p] by (auto simp: p_def)
  have "h_magic (Header_of (pm_data pm)) = MAGIC1" using hdr by (simp add: valid_header_def Let_def)
  then have "PersistMap_open mmap (Some (pm_data pm)) (pm_count pm) True True = Inr pm'"
    using n0 len fm r header_mapped [OF wfm] hd
    by (simp add: PersistMap_open_def PersistMap_open_file_def data Let_def)
  with * bits show ?thesis by (simp add: p_def)
qed

text \<open>A map over a fresh header and a zero bitmap has no ready chunk.\<close>

lemma fresh_bits:
  assumes "\<forall>c \<in> set file. c = 0"
  shows "i < 8 * bitmap_len n \<Longrightarrow> \<not> chunk_bit (write_header file (expected_size n)) i"
proof -
  let ?d = "write_header file (expected_size n)"
  assume "i < 8 * bitmap_len n"
  then have i: "i div 8 < bitmap_len n" by (simp add: less_mult_imp_div_less mult.commute)
  have hs: "HEADER_SIZE \<le> unat (expected_size n)" by (simp add: unat_expected_size)
  have "chunk_bit ?d i = bit_of (drop HEADER_SIZE ?d) i"
    by (rule chunk_bit_drop) (simp add: length_write_header [OF hs] hs)
  also have "\<dots> = bit_of (replicate (bitmap_len n) 0) i"
    by (simp only: write_header_zero [OF assms hs]) (simp add: unat_expected_size)
  finally show ?thesis using i by (simp add: bit_of_def)
qed

definition fresh_pm :: "FileMapState \<Rightarrow> u32 \<Rightarrow> PersistMap" where
  "fresh_pm fm n = \<lparr>pm_count = n, pm_not_ready_count = n, pm_filemap = fm\<rparr>"

lemma fresh_pm_props:
  assumes "0 < n" and "wf_filemap fm" and "\<forall>c \<in> set file. c = 0"
    and "fm_data fm = write_header file (expected_size n)"
  shows "pm_exact (fresh_pm fm n)" and "ready_bits (fresh_pm fm n) = replicate (unat n) False"
    and "valid_header (fresh_pm fm n)" and "PersistMap_recover fm n True = Inr (fresh_pm fm n)"
proof -
  have hs: "HEADER_SIZE \<le> unat (expected_size n)" by (simp add: unat_expected_size)
  have len: "length (fm_data fm) = HEADER_SIZE + bitmap_len n"
    by (simp add: assms(4) length_write_header [OF hs] unat_expected_size)
  have b: "i < 8 * bitmap_len n \<Longrightarrow> \<not> chunk_bit (fm_data fm) i" for i
    using fresh_bits [OF assms(3)] by (simp add: assms(4))
  have h: "Header_of (fm_data fm) = new_header" by (simp add: assms(4))
  show r: "ready_bits (fresh_pm fm n) = replicate (unat n) False"
    by (rule nth_equalityI) (use b count_less_bitmap [of n] in \<open>auto simp: fresh_pm_def\<close>)
  then have u: "unready (fresh_pm fm n) = unat n"
    using ready_plus_unready [of "fresh_pm fm n"] by (simp add: fresh_pm_def count_list_0_iff)
  have "wf_pm (fresh_pm fm n)"
    using assms(1,2) len b by (simp add: wf_pm_def fresh_pm_def)
  with u show "pm_exact (fresh_pm fm n)" by (simp add: pm_exact_def) (simp add: fresh_pm_def)
  have "MAGIC_ALL_READY \<noteq> 0" by (simp add: MAGIC_ALL_READY_def)
  then show "valid_header (fresh_pm fm n)" "PersistMap_recover fm n True = Inr (fresh_pm fm n)"
    using h by (simp_all add: valid_header_def PersistMap_recover_def new_header_def fresh_pm_def)
qed

text \<open>Both ways to a new map: no file at all, or an empty file or one to be truncated.\<close>

lemma PersistMap_open_new:
  assumes "mmap_spec mmap" and "mmap_grants mmap n" and "0 < n"
    and "disk = None \<or> disk = Some [] \<or> \<not> persist"
  shows "\<exists>pm. PersistMap_open mmap disk n True persist = Inr pm \<and> pm_exact pm \<and> valid_header pm \<and>
           ready_bits pm = replicate (unat n) False \<and> pm_count pm = n"
proof -
  let ?d = "write_header [] (expected_size n)"
  have hs: "HEADER_SIZE \<le> unat (expected_size n)" by (simp add: unat_expected_size)
  have len: "length ?d = unat (expected_size n)" by (rule length_write_header [OF hs])
  obtain fm where fm: "FileMapState_new mmap True ?d (expected_size n) True = Inr fm"
    and wfm: "wf_filemap fm" and data: "fm_data fm = ?d"
    using FileMapState_new_granted [OF assms(1,2) len] by blast
  note fresh = fresh_pm_props [OF assms(3) wfm _ data, simplified]
  have "PersistMap_open_file disk True persist = Inr []"
    using assms(4) by (auto simp: PersistMap_open_file_def split: option.splits)
  moreover have "h_magic (Header_of ?d) = MAGIC1" by (simp add: new_header_def)
  moreover have "FileMapState_get_ref fm (of_nat HEADER_SIZE) 4 0 = Inr 0"
    by (rule header_mapped [OF wfm]) (simp add: data len hs)
  ultimately have "PersistMap_open mmap disk n True persist = Inr (fresh_pm fm n)"
    using assms(3) fm fresh(4) by (simp add: PersistMap_open_def data)
  with fresh(1-3) show ?thesis by (simp add: fresh_pm_def)
qed

text \<open>
  The race window between \<open>set_len\<close> and the write of the header: a file of the right size
  that holds only zero bytes is given a header.
\<close>

lemma Header_of_zero: "4 \<le> k \<Longrightarrow> h_magic (Header_of (replicate k 0)) = 0"
  by (simp add: Header_of_def min_def of_le32_def numeral_eq_Suc)

lemma PersistMap_open_race:
  assumes "mmap_spec mmap" and "mmap_grants mmap n" and "0 < n"
  shows "\<exists>pm. PersistMap_open mmap (Some (replicate (unat (expected_size n)) 0)) n True True = Inr pm \<and>
           pm_exact pm \<and> valid_header pm \<and> ready_bits pm = replicate (unat n) False \<and> pm_count pm = n"
proof -
  let ?z = "replicate (unat (expected_size n)) (0 :: u8)"
  let ?d = "write_header ?z (expected_size n)"
  have hs: "HEADER_SIZE \<le> unat (expected_size n)" by (simp add: unat_expected_size)
  have len: "length ?z = unat (expected_size n)" by simp
  obtain fm where fm: "FileMapState_new mmap True ?z (expected_size n) True = Inr fm"
    and wfm: "wf_filemap fm" and data: "fm_data fm = ?z"
    using FileMapState_new_granted [OF assms(1,2) len] by blast
  let ?fm = "fm\<lparr>fm_data := ?d\<rparr>"
  have "wf_filemap ?fm"
    using wfm by (simp add: wf_filemap_def data length_write_header [OF hs])
  note fresh = fresh_pm_props [OF assms(3) this, of ?z, simplified]
  have ref: "FileMapState_get_ref fm (of_nat HEADER_SIZE) 4 0 = Inr 0"
    by (rule header_mapped [OF wfm]) (simp add: data hs)
  have "h_magic (Header_of ?z) = 0"
    by (rule Header_of_zero) (use hs in \<open>simp add: HEADER_SIZE_def\<close>)
  then have m: "h_magic (Header_of ?z) \<noteq> MAGIC1" by (simp add: MAGIC1_def)
  have sl: "FileMapState_get_slice fm 1 0 (expected_size n) = Inr 0"
    by (simp add: get_slice_iff [OF wfm] data)
  have "unat (expected_size n) \<noteq> 0" using hs by (simp add: HEADER_SIZE_def)
  then have "PersistMap_open mmap (Some ?z) n True True = Inr (fresh_pm ?fm n)"
    using assms(3) fm fresh(4) m ref sl
    by (simp add: PersistMap_open_def PersistMap_open_file_def data Let_def word_gt_0)
  with fresh(1-3) show ?thesis by (simp add: fresh_pm_def)
qed

section \<open>Properties\<close>

lemma ready_bits_marked:
  assumes "wf_pm pm" and "ready_bits pm = replicate (unat (pm_count pm)) False"
    and "\<forall>i \<in> set is. i < pm_count pm"
  shows "ready_bits (mark_bits pm is) = map (\<lambda>i. i \<in> unat ` set is) [0..<unat (pm_count pm)]"
  by (rule nth_equalityI)
    (use assms ready_bits_mark_bits_nth [OF assms(1,3)] in \<open>simp_all del: nth_ready_bits\<close>)

lemma unready_marked:
  assumes "ready_bits pm = map (\<lambda>i. i \<in> unat ` set is) [0..<unat (pm_count pm)]"
    and "\<forall>i \<in> set is. i < pm_count pm"
  shows "unready pm + card (set is) = unat (pm_count pm)"
proof -
  have "count_list (ready_bits pm) True = card {i. i < unat (pm_count pm) \<and> i \<in> unat ` set is}"
    by (auto simp: assms(1) count_list_map_True length_filter_conv_card intro!: arg_cong [where f = card])
  also have "{i. i < unat (pm_count pm) \<and> i \<in> unat ` set is} = unat ` set is"
    using assms(2) by (auto simp: word_less_nat_alt)
  also have "card \<dots> = card (set is)" by (rule card_image) (simp add: inj_on_def word_unat_eq_iff)
  finally show ?thesis using ready_plus_unready [of pm] by simp
qed

text \<open>
  C21. The state of the chunks survives a restart. Creating a map for \<open>n\<close> chunks gives a map in
  which no chunk is ready; marking any sequence of chunks makes exactly those ready; and a process
  that opens the file left behind (without any orderly shutdown, the counter being lost) finds
  exactly the same chunks ready and a counter equal to \<open>n\<close> minus the number of distinct chunks
  that were marked. None of the steps fails.
\<close>

theorem persist_map_roundtrip:
  assumes "mmap_spec mmap" and "mmap_grants mmap n" and "0 < n" and "\<forall>i \<in> set is. i < n"
  shows "\<exists>pm0 pm1 pm2.
           PersistMap_open mmap None n True True = Inr pm0 \<and>
           set_chunks_ready pm0 is = Inr pm1 \<and>
           PersistMap_open mmap (Some (pm_data pm1)) n True True = Inr pm2 \<and>
           ready_bits pm0 = replicate (unat n) False \<and>
           ready_bits pm1 = map (\<lambda>i. i \<in> unat ` set is) [0..<unat n] \<and>
           ready_bits pm2 = ready_bits pm1 \<and>
           unat (pm_not_ready_count pm2) = unat n - card (set is)"
proof -
  obtain pm0 where pm0: "PersistMap_open mmap None n True True = Inr pm0" "pm_exact pm0"
    "valid_header pm0" "ready_bits pm0 = replicate (unat n) False" and c: "pm_count pm0 = n"
    using PersistMap_open_new [OF assms(1-3), of None True] by auto
  have wf0: "wf_pm pm0" using pm0(2) by (simp add: pm_exact_def)
  have idx: "\<forall>i \<in> set is. i < pm_count pm0" using assms(4) c by simp
  define pm1 where "pm1 = mark_bits pm0 is"
  have set: "set_chunks_ready pm0 is = Inr pm1"
    unfolding pm1_def by (rule set_chunks_ready_eq [OF wf0 idx])
  have bits1: "ready_bits pm1 = map (\<lambda>i. i \<in> unat ` set is) [0..<unat n]"
    unfolding pm1_def using ready_bits_marked [OF wf0 _ idx] pm0(4) c by simp
  have c1: "pm_count pm1 = n" by (simp add: pm1_def c)
  have "pm_exact pm1" unfolding pm1_def by (rule pm_exact_mark_bits [OF pm0(2) idx])
  then have wf1: "wf_pm pm1" by (simp add: pm_exact_def)
  have "h_all_ready (Header_of (pm_data pm0)) = MAGIC_ALL_READY \<Longrightarrow> False"
    using pm0(3) pm0(4) assms(3) ready_plus_unready [of pm0] c
    by (auto simp: valid_header_def Let_def count_list_0_iff word_less_nat_alt)
  then have hdr: "valid_header pm1"
    using pm0(3) by (auto simp: valid_header_def pm1_def Let_def)
  obtain pm2 where pm2: "PersistMap_open mmap (Some (pm_data pm1)) n True True = Inr pm2"
    "pm_exact pm2" "ready_bits pm2 = ready_bits pm1" "pm_count pm2 = n"
    using PersistMap_open_existing [OF assms(1) _ wf1 hdr] assms(2) c1 by auto
  have "unready pm2 + card (set is) = unat n"
    using unready_marked [of pm2 "is"] pm2(3,4) bits1 assms(4) by simp
  then have "unat (pm_not_ready_count pm2) = unat n - card (set is)"
    using pm2(2) by (simp add: pm_exact_def)
  with pm0 set pm2 bits1 show ?thesis by blast
qed

definition demo_mmap :: mmap_call where
  "demo_mmap fd_writable prot_write size' =
     (if prot_write \<and> \<not> fd_writable \<or> 2 ^ 63 \<le> unat size' then MAP_FAILED else 4096)"

lemma demo_mmap_spec: "mmap_spec demo_mmap"
  by (auto simp: mmap_spec_def demo_mmap_def)

lemma demo_mmap_grants: "mmap_grants demo_mmap n"
proof -
  have "bitmap_len n \<le> unat n + 7" by (simp add: bitmap_len_def)
  then have "HEADER_SIZE + bitmap_len n < 2 ^ 63"
    using unat_lt2p32 [of n] by (simp add: HEADER_SIZE_def)
  then show ?thesis
    by (simp add: mmap_grants_def demo_mmap_def unat_expected_size MAP_FAILED_def)
qed

theorem persist_map_roundtrip_witness:
  "\<exists>pm0 pm1 pm2.
     PersistMap_open demo_mmap None 5 True True = Inr pm0 \<and>
     set_chunks_ready pm0 [1, 3, 1] = Inr pm1 \<and>
     PersistMap_open demo_mmap (Some (pm_data pm1)) 5 True True = Inr pm2 \<and>
     ready_bits pm2 = [False, True, False, True, False] \<and> unat (pm_not_ready_count pm2) = 3"
proof -
  have "\<forall>i \<in> set [1, 3, 1]. i < (5 :: u32)" by simp
  from persist_map_roundtrip [OF demo_mmap_spec demo_mmap_grants _ this]
  obtain pm0 pm1 pm2 where *: "PersistMap_open demo_mmap None 5 True True = Inr pm0"
    "set_chunks_ready pm0 [1, 3, 1] = Inr pm1"
    "PersistMap_open demo_mmap (Some (pm_data pm1)) 5 True True = Inr pm2"
    "ready_bits pm2 = map (\<lambda>i. i \<in> unat ` set [1, 3, 1 :: u32]) [0..<unat (5 :: u32)]"
    "unat (pm_not_ready_count pm2) = unat (5 :: u32) - card (set [1, 3, 1 :: u32])"
    by auto
  then show ?thesis by (simp add: upt_rec card_insert_if)
qed

text \<open>
  A map cannot be opened without permission to create it. With \<open>create\<close> false the file is
  opened for reading only, but it is then mapped shared and writable, which \<open>mmap\<close> refuses, so
  \<open>PersistMap::open\<close> fails whatever the file holds.
\<close>

theorem open_without_create_fails:
  assumes "mmap_spec mmap"
  shows "\<exists>e. PersistMap_open mmap disk n False persist = Inl e"
  using FileMapState_new_readonly [OF assms]
  by (cases "PersistMap_open_file disk False persist") (auto simp: PersistMap_open_def Let_def)

theorem open_without_create_fails_witness:
  "\<exists>e. PersistMap_open demo_mmap (Some (pm_data demo_pm)) 3 False True = Inl e"
  by (rule open_without_create_fails [OF demo_mmap_spec])

end
