(* ===== verification/Codec.thy ===== *)
theory Codec
  imports Nydus_Prelude
begin

text \<open>
  Compression and digest algorithms of \<open>utils/src/compress\<close> and \<open>utils/src/digest.rs\<close>: the
  enumerations with their numeric and textual forms, and \<open>compress\<close> and \<open>decompress\<close> with the
  guards around the codecs. The codecs themselves (lz4, zlib, zstd) are foreign libraries and are
  parameters, collected in the record \<open>codecs\<close>.
\<close>

section \<open>Algorithms\<close>

datatype compress_algorithm = NoCompress | Lz4Block | GZip | Zstd

fun algorithm_u32 :: "compress_algorithm \<Rightarrow> u32" where
  "algorithm_u32 NoCompress = 0"
| "algorithm_u32 Lz4Block = 1"
| "algorithm_u32 GZip = 2"
| "algorithm_u32 Zstd = 3"

definition algorithm_from_str :: "string \<Rightarrow> compress_algorithm res" where
  "algorithm_from_str s =
     (if s = ''none'' then Inr NoCompress
      else if s = ''lz4_block'' then Inr Lz4Block
      else if s = ''gzip'' then Inr GZip
      else if s = ''zstd'' then Inr Zstd
      else Inl EINVAL)"

definition algorithm_try_from :: "u32 \<Rightarrow> compress_algorithm option" where
  "algorithm_try_from value =
     (if value = algorithm_u32 NoCompress then Some NoCompress
      else if value = algorithm_u32 Lz4Block then Some Lz4Block
      else if value = algorithm_u32 GZip then Some GZip
      else if value = algorithm_u32 Zstd then Some Zstd
      else None)"

definition algorithm_is_none :: "compress_algorithm \<Rightarrow> bool" where
  "algorithm_is_none a \<longleftrightarrow> a = NoCompress"

datatype digest_algorithm = Blake3 | Sha256

fun digester_u32 :: "digest_algorithm \<Rightarrow> u32" where
  "digester_u32 Blake3 = 0"
| "digester_u32 Sha256 = 1"

definition digester_from_str :: "string \<Rightarrow> digest_algorithm res" where
  "digester_from_str s =
     (if s = ''blake3'' then Inr Blake3 else if s = ''sha256'' then Inr Sha256 else Inl EINVAL)"

definition digester_try_from :: "u32 \<Rightarrow> digest_algorithm option" where
  "digester_try_from value =
     (if value = digester_u32 Sha256 then Some Sha256
      else if value = digester_u32 Blake3 then Some Blake3
      else None)"

type_synonym RafsDigest = "u8 list"

section \<open>Compression\<close>

text \<open>
  \<open>lz4_bound\<close> is \<open>LZ4_compressBound\<close>; \<open>lz4_compress_default\<close> gives the compressed bytes, none on
  failure; \<open>lz4_decompress_safe src n\<close> gives at most \<open>n\<close> bytes or \<open>None\<close> for a negative return code;
  \<open>gz_read_exact src n\<close> decodes a stream and reads \<open>n\<close> bytes of it; \<open>zstd_decompress_to_buffer src n\<close>
  decodes at most \<open>n\<close> bytes; \<open>zstd_read_exact\<close> is the stream decoder.
\<close>

record codecs =
  lz4_bound :: "int \<Rightarrow> int"
  lz4_compress_default :: "u8 list \<Rightarrow> u8 list"
  lz4_decompress_safe :: "u8 list \<Rightarrow> nat \<Rightarrow> u8 list option"
  gz_encode :: "u8 list \<Rightarrow> u8 list res"
  gz_read_exact :: "u8 list \<Rightarrow> nat \<Rightarrow> u8 list res"
  zstd_compress :: "u8 list \<Rightarrow> u8 list res"
  zstd_decompress_to_buffer :: "u8 list \<Rightarrow> nat \<Rightarrow> u8 list res"
  zstd_read_exact :: "u8 list \<Rightarrow> nat \<Rightarrow> u8 list res"

definition i32_MAX :: nat where "i32_MAX = 2 ^ 31 - 1"

text \<open>\<open>as i32\<close> on a length.\<close>

definition as_i32 :: "nat \<Rightarrow> int" where
  "as_i32 n = sint (of_nat n :: u32)"

definition lz4_compress :: "codecs \<Rightarrow> u8 list \<Rightarrow> u8 list res" where
  "lz4_compress cs src =
     (let compress_bound = lz4_bound cs (as_i32 (length src))
      in if length src > i32_MAX \<or> compress_bound \<le> 0 then Inl EINVAL
         else let dst = lz4_compress_default cs src
           in if length dst = 0 then Inl EIO
              else if int (length dst) \<le> compress_bound then Inr dst else Inl Panic)"

text \<open>
  The destination buffer keeps its length; the decoded bytes are written to its front and their
  number is returned.
\<close>

definition fill :: "u8 list \<Rightarrow> u8 list \<Rightarrow> nat \<times> u8 list" where
  "fill out dst = (length out, out @ drop (length out) dst)"

definition lz4_decompress :: "codecs \<Rightarrow> u8 list \<Rightarrow> u8 list \<Rightarrow> (nat \<times> u8 list) res" where
  "lz4_decompress cs src dst =
     (if length dst \<ge> i32_MAX then Inl EINVAL
      else if lz4_bound cs (as_i32 (length dst)) \<le> 0 then Inl EINVAL
      else case lz4_decompress_safe cs src (length dst) of
        None \<Rightarrow> Inl EIO
      | Some out \<Rightarrow> Inr (fill out dst))"

definition COMPRESSION_MINIMUM_RATIO :: nat where
  "COMPRESSION_MINIMUM_RATIO = 100"

definition keep_or_abandon :: "u8 list \<Rightarrow> u8 list \<Rightarrow> u8 list \<times> bool" where
  "keep_or_abandon src compressed =
     (if COMPRESSION_MINIMUM_RATIO = 100 \<and> length compressed \<ge> length src \<or>
         100 * length compressed div length src \<ge> COMPRESSION_MINIMUM_RATIO
      then (src, False) else (compressed, True))"

definition compress :: "codecs \<Rightarrow> u8 list \<Rightarrow> compress_algorithm \<Rightarrow> (u8 list \<times> bool) res" where
  "compress cs src algorithm =
     (if length src = 0 then Inr (src, False)
      else case algorithm of
        NoCompress \<Rightarrow> Inr (src, False)
      | Lz4Block \<Rightarrow> and_then (lz4_compress cs src) (\<lambda>c. Inr (keep_or_abandon src c))
      | GZip \<Rightarrow> and_then (gz_encode cs src) (\<lambda>c. Inr (keep_or_abandon src c))
      | Zstd \<Rightarrow> and_then (zstd_compress cs src) (\<lambda>c. Inr (keep_or_abandon src c)))"

definition decompress ::
  "codecs \<Rightarrow> u8 list \<Rightarrow> u8 list \<Rightarrow> compress_algorithm \<Rightarrow> (nat \<times> u8 list) res" where
  "decompress cs src dst algorithm =
     (case algorithm of
        NoCompress \<Rightarrow> if length src = length dst then Inr (length dst, src) else Inl Panic
      | Lz4Block \<Rightarrow> lz4_decompress cs src dst
      | GZip \<Rightarrow> and_then (gz_read_exact cs src (length dst)) (\<lambda>out. Inr (length dst, out))
      | Zstd \<Rightarrow> and_then (zstd_decompress_to_buffer cs src (length dst)) (\<lambda>out. Inr (fill out dst)))"

text \<open>Arithmetic on \<open>usize\<close>.\<close>

definition compute_compressed_gzip_size :: "usize \<Rightarrow> usize \<Rightarrow> usize" where
  "compute_compressed_gzip_size size' max_size =
     (let size2 = size' + 10 + 8 + 5 + (size' div push_bit 10 16) * 5 + 128 in min size2 max_size)"

section \<open>What the codecs promise\<close>

text \<open>
  Each decoder gives back what its encoder was given, and \<open>LZ4_compressBound\<close> is positive only up
  to \<open>LZ4_MAX_INPUT_SIZE\<close>.
\<close>

definition codec_spec :: "codecs \<Rightarrow> bool" where
  "codec_spec cs \<longleftrightarrow>
     (\<forall>n. 0 < lz4_bound cs n \<longrightarrow> n \<le> 0x7E000000) \<and>
     (\<forall>src. lz4_compress_default cs src \<noteq> [] \<longrightarrow>
        lz4_decompress_safe cs (lz4_compress_default cs src) (length src) = Some src) \<and>
     (\<forall>src c. gz_encode cs src = Inr c \<longrightarrow> gz_read_exact cs c (length src) = Inr src) \<and>
     (\<forall>src c. zstd_compress cs src = Inr c \<longrightarrow> zstd_decompress_to_buffer cs c (length src) = Inr src)"

lemma algorithm_try_from_u32 [simp]: "algorithm_try_from (algorithm_u32 a) = Some a"
  by (cases a) (simp_all add: algorithm_try_from_def)

lemma algorithm_try_from_Some: "algorithm_try_from v = Some a \<longleftrightarrow> v = algorithm_u32 a"
  by (cases a) (auto simp: algorithm_try_from_def split: if_splits)

lemma digester_try_from_Some: "digester_try_from v = Some a \<longleftrightarrow> v = digester_u32 a"
  by (cases a) (auto simp: digester_try_from_def split: if_splits)

lemma keep_or_abandon_cases:
  "keep_or_abandon src c = (src, False) \<or> keep_or_abandon src c = (c, True) \<and> length c < length src"
  by (auto simp: keep_or_abandon_def COMPRESSION_MINIMUM_RATIO_def)

lemma fill_all [simp]: "length out = length dst \<Longrightarrow> fill out dst = (length dst, out)"
  by (simp add: fill_def)

lemma lz4_roundtrip:
  assumes "codec_spec cs" and "lz4_compress cs src = Inr c" and "length dst = length src"
  shows "lz4_decompress cs c dst = Inr (length src, src)"
proof -
  have len: "length src \<le> i32_MAX" and b: "0 < lz4_bound cs (as_i32 (length src))"
    and c: "c = lz4_compress_default cs src" "c \<noteq> []"
    using assms(2) by (auto simp: lz4_compress_def Let_def split: if_splits)
  have "as_i32 (length src) \<le> 0x7E000000"
    using assms(1) b by (simp add: codec_spec_def)
  moreover have "as_i32 (length src) = int (length src)"
  proof -
    have "length src < 2 ^ 31" using len by (simp add: i32_MAX_def)
    then have "int (length src) < 2 ^ 31" by (simp only: of_nat_less_numeral_power_cancel_iff)
    then have "signed_take_bit 31 (int (length src)) = int (length src)"
      by (intro signed_take_bit_int_eq_self) simp_all
    then show ?thesis by (simp add: as_i32_def signed_of_nat)
  qed
  ultimately have "length dst < i32_MAX" using assms(3) by (simp add: i32_MAX_def)
  with b assms c show ?thesis by (simp add: lz4_decompress_def codec_spec_def)
qed

text \<open>
  C32. Whatever \<open>compress\<close> stores can be read back. If the codecs invert themselves, then for every
  input and algorithm the data returned by \<open>compress\<close> is never longer than the input, it is strictly
  shorter when it is flagged as compressed, and \<open>decompress\<close> into a buffer of the original length,
  with the algorithm if the flag is set and with none otherwise, succeeds and yields the input.
\<close>

theorem compress_decompress:
  assumes "codec_spec cs" and "compress cs src algorithm = Inr (c, compressed)"
    and "length dst = length src"
  shows "decompress cs c dst (if compressed then algorithm else NoCompress) = Inr (length src, src) \<and>
         length c \<le> length src \<and> (compressed \<longrightarrow> length c < length src)"
proof -
  have step: "?thesis" if "keep_or_abandon src d = (c, compressed)"
    "decompress cs d dst algorithm = Inr (length src, src)" for d
  proof -
    have none: "decompress cs src dst NoCompress = Inr (length src, src)"
      using assms(3) by (simp add: decompress_def)
    from keep_or_abandon_cases [of src d] that(1)
    consider "c = src" "\<not> compressed" | "c = d" "compressed" "length d < length src" by auto
    then show ?thesis using none that(2) by cases simp_all
  qed
  show ?thesis
  proof (cases "length src = 0 \<or> algorithm = NoCompress")
    case True
    then have "compress cs src algorithm = Inr (src, False)" by (auto simp: compress_def)
    with assms(2,3) show ?thesis by (simp add: decompress_def)
  next
    case False
    show ?thesis
    proof (cases algorithm)
      case Lz4Block
      then obtain d where "lz4_compress cs src = Inr d" "keep_or_abandon src d = (c, compressed)"
        using assms(2) False by (auto simp: compress_def result_iffs)
      then show ?thesis
        using lz4_roundtrip [OF assms(1) _ assms(3), of d] Lz4Block
        by (intro step [of d]) (simp_all add: decompress_def)
    next
      case GZip
      then obtain d where "gz_encode cs src = Inr d" "keep_or_abandon src d = (c, compressed)"
        using assms(2) False by (auto simp: compress_def result_iffs)
      then show ?thesis
        using assms(1,3) GZip by (intro step [of d]) (simp_all add: decompress_def codec_spec_def)
    next
      case Zstd
      then obtain d where "zstd_compress cs src = Inr d" "keep_or_abandon src d = (c, compressed)"
        using assms(2) False by (auto simp: compress_def result_iffs)
      then show ?thesis
        using assms(1,3) Zstd by (intro step [of d]) (simp_all add: decompress_def codec_spec_def)
    qed (use False in simp)
  qed
qed

text \<open>A codec that shortens runs of zero bytes and adds a tag byte to everything else.\<close>

definition rle :: "u8 list \<Rightarrow> u8 list" where
  "rle src = (if \<forall>b \<in> set src. b = 0 then [0] else 1 # src)"

definition unrle :: "u8 list \<Rightarrow> nat \<Rightarrow> u8 list" where
  "unrle c n = (if hd c = 0 then replicate n 0 else take n (tl c))"

definition rle_codecs :: codecs where
  "rle_codecs =
     \<lparr>lz4_bound = (\<lambda>n. if n \<le> 0x7E000000 then n + 16 else 0), lz4_compress_default = rle,
      lz4_decompress_safe = (\<lambda>c n. Some (unrle c n)), gz_encode = (\<lambda>s. Inr (rle s)),
      gz_read_exact = (\<lambda>c n. if length (unrle c n) = n then Inr (unrle c n) else Inl EIO), zstd_compress = (\<lambda>s. Inr (rle s)),
      zstd_decompress_to_buffer = (\<lambda>c n. Inr (unrle c n)),
      zstd_read_exact = (\<lambda>c n. if length (unrle c n) = n then Inr (unrle c n) else Inl EIO)\<rparr>"

lemma unrle_rle: "unrle (rle s) (length s) = s"
proof (cases "\<forall>b \<in> set s. b = 0")
  case True
  then show ?thesis using replicate_eqI [of s "length s" 0] by (simp add: rle_def unrle_def)
next
  case False
  then show ?thesis by (auto simp: rle_def unrle_def)
qed

lemma rle_codecs_spec: "codec_spec rle_codecs"
proof -
  have "0 < (if n \<le> 0x7E000000 then n + 16 else 0) \<longrightarrow> n \<le> 0x7E000000" for n :: int by simp
  then show ?thesis by (simp add: codec_spec_def rle_codecs_def unrle_rle)
qed

theorem compress_decompress_witness:
  "compress rle_codecs [0, 0, 0] GZip = Inr ([0], True) \<and>
   decompress rle_codecs [0] [7, 7, 7] GZip = Inr (3, [0, 0, 0])"
proof -
  have c: "compress rle_codecs [0, 0, 0] GZip = Inr ([0], True)"
    by (simp add: compress_def rle_codecs_def rle_def keep_or_abandon_def
        COMPRESSION_MINIMUM_RATIO_def)
  from compress_decompress [OF rle_codecs_spec c, of "[7, 7, 7]"] c show ?thesis by simp
qed

text \<open>The gzip estimate never exceeds the room that is left.\<close>

lemma compute_compressed_gzip_size_le: "compute_compressed_gzip_size s m \<le> m"
  by (simp add: compute_compressed_gzip_size_def Let_def)

end
