(* ===== verification/Blob_Device.thy ===== *)
theory Blob_Device
  imports Codec
begin

text \<open>
  The data model of \<open>storage/src/device.rs\<close>: blobs, chunks, I/O descriptors, scatter/gather
  lists and backend requests, with the operations that build and merge them. Panicking assertions
  are the result \<open>Inl Panic\<close>. The trait \<open>BlobChunkInfo\<close> is the record of the values that its methods
  return; \<open>BlobIoChunk\<close> is a transparent wrapper and is not distinguished from it.
\<close>

section \<open>Blobs\<close>

definition V5_NO_EXT_BLOB_TABLE :: u32 where "V5_NO_EXT_BLOB_TABLE = 1"

definition BLOB_META_FEATURE_CHUNK_INFO_V2 :: u32 where
  "BLOB_META_FEATURE_CHUNK_INFO_V2 = 4"

record BlobInfo =
  bi_blob_index :: u32
  bi_blob_id :: string
  bi_blob_features :: u32
  bi_compressed_size :: u64
  bi_uncompressed_size :: u64
  bi_chunk_size :: u32
  bi_chunk_count :: u32
  bi_compressor :: compress_algorithm
  bi_digester :: digest_algorithm
  bi_prefetch_offset :: u32
  bi_prefetch_size :: u32
  bi_is_legacy_stargz :: bool
  bi_meta_flags :: u32
  bi_meta_ci_compressor :: u32
  bi_meta_ci_offset :: u64
  bi_meta_ci_compressed_size :: u64
  bi_meta_ci_uncompressed_size :: u64
  bi_meta_ci_zran_offset :: u64
  bi_meta_ci_zran_size :: u64
  bi_meta_ci_zran_count :: u32

definition compute_features :: "BlobInfo \<Rightarrow> BlobInfo" where
  "compute_features bi =
     (let bi = (if bi_chunk_count bi = 0
                then bi\<lparr>bi_blob_features := bi_blob_features bi OR V5_NO_EXT_BLOB_TABLE\<rparr> else bi)
      in if bi_compressor bi = GZip \<and> bi_meta_flags bi AND BLOB_META_FEATURE_CHUNK_INFO_V2 = 0
         then bi\<lparr>bi_is_legacy_stargz := True\<rparr> else bi)"

definition BlobInfo_new ::
  "u32 \<Rightarrow> string \<Rightarrow> u64 \<Rightarrow> u64 \<Rightarrow> u32 \<Rightarrow> u32 \<Rightarrow> u32 \<Rightarrow> BlobInfo" where
  "BlobInfo_new blob_index blob_id uncompressed_size compressed_size chunk_size chunk_count blob_features =
     compute_features
       \<lparr>bi_blob_index = blob_index, bi_blob_id = blob_id, bi_blob_features = blob_features,
        bi_compressed_size = compressed_size, bi_uncompressed_size = uncompressed_size,
        bi_chunk_size = chunk_size, bi_chunk_count = chunk_count, bi_compressor = NoCompress,
        bi_digester = Blake3, bi_prefetch_offset = 0, bi_prefetch_size = 0,
        bi_is_legacy_stargz = False, bi_meta_flags = 0, bi_meta_ci_compressor = 0,
        bi_meta_ci_offset = 0, bi_meta_ci_compressed_size = 0, bi_meta_ci_uncompressed_size = 0,
        bi_meta_ci_zran_offset = 0, bi_meta_ci_zran_size = 0, bi_meta_ci_zran_count = 0\<rparr>"

definition set_compressor :: "BlobInfo \<Rightarrow> compress_algorithm \<Rightarrow> BlobInfo" where
  "set_compressor bi compressor = compute_features (bi\<lparr>bi_compressor := compressor\<rparr>)"

definition set_digester :: "BlobInfo \<Rightarrow> digest_algorithm \<Rightarrow> BlobInfo" where
  "set_digester bi digester = bi\<lparr>bi_digester := digester\<rparr>"

definition prefetch_offset :: "BlobInfo \<Rightarrow> u64" where
  "prefetch_offset bi = ucast (bi_prefetch_offset bi)"

definition prefetch_size :: "BlobInfo \<Rightarrow> u64" where
  "prefetch_size bi = ucast (bi_prefetch_size bi)"

definition set_prefetch_info :: "BlobInfo \<Rightarrow> u64 \<Rightarrow> u64 \<Rightarrow> BlobInfo" where
  "set_prefetch_info bi offset size' =
     bi\<lparr>bi_prefetch_offset := ucast offset, bi_prefetch_size := ucast size'\<rparr>"

definition set_blob_meta_info :: "BlobInfo \<Rightarrow> u32 \<Rightarrow> u64 \<Rightarrow> u64 \<Rightarrow> u64 \<Rightarrow> u32 \<Rightarrow> BlobInfo" where
  "set_blob_meta_info bi flags offset compressed_size uncompressed_size compressor =
     bi\<lparr>bi_meta_flags := flags, bi_meta_ci_compressor := compressor, bi_meta_ci_offset := offset,
        bi_meta_ci_compressed_size := compressed_size,
        bi_meta_ci_uncompressed_size := uncompressed_size\<rparr>"

definition set_blob_meta_zran_info :: "BlobInfo \<Rightarrow> u32 \<Rightarrow> u64 \<Rightarrow> u64 \<Rightarrow> BlobInfo" where
  "set_blob_meta_zran_info bi count' offset size' =
     bi\<lparr>bi_meta_ci_zran_count := count', bi_meta_ci_zran_offset := offset, bi_meta_ci_zran_size := size'\<rparr>"

definition meta_ci_compressor :: "BlobInfo \<Rightarrow> compress_algorithm" where
  "meta_ci_compressor bi =
     (if bi_meta_ci_compressor bi = algorithm_u32 Lz4Block then Lz4Block
      else if bi_meta_ci_compressor bi = algorithm_u32 GZip then GZip
      else if bi_meta_ci_compressor bi = algorithm_u32 Zstd then Zstd
      else NoCompress)"

definition meta_ci_is_valid :: "BlobInfo \<Rightarrow> bool" where
  "meta_ci_is_valid bi \<longleftrightarrow> bi_meta_ci_compressed_size bi \<noteq> 0 \<and> bi_meta_ci_uncompressed_size bi \<noteq> 0"

definition has_feature :: "BlobInfo \<Rightarrow> u32 \<Rightarrow> bool" where
  "has_feature bi features \<longleftrightarrow> bi_blob_features bi AND features = features"

section \<open>Chunks and I/O descriptors\<close>

record BlobChunkInfo =
  ci_chunk_id :: RafsDigest
  ci_id :: u32
  ci_blob_index :: u32
  ci_compressed_offset :: u64
  ci_compressed_size :: u32
  ci_uncompressed_offset :: u64
  ci_uncompressed_size :: u32
  ci_is_compressed :: bool

definition ci_compressed_end :: "BlobChunkInfo \<Rightarrow> u64" where
  "ci_compressed_end c = ci_compressed_offset c + ucast (ci_compressed_size c)"

definition ci_uncompressed_end :: "BlobChunkInfo \<Rightarrow> u64" where
  "ci_uncompressed_end c = ci_uncompressed_offset c + ucast (ci_uncompressed_size c)"

record BlobIoDesc =
  d_blob :: BlobInfo
  d_chunkinfo :: BlobChunkInfo
  d_offset :: u32
  d_size :: u32
  d_user_io :: bool

definition BlobIoDesc_is_continuous :: "BlobIoDesc \<Rightarrow> BlobIoDesc \<Rightarrow> u64 \<Rightarrow> bool" where
  "BlobIoDesc_is_continuous self next' max_gap =
     (let prev_end = ci_compressed_offset (d_chunkinfo self) + ucast (ci_compressed_size (d_chunkinfo self));
          next_offset = ci_compressed_offset (d_chunkinfo next')
      in if ci_blob_index (d_chunkinfo self) = ci_blob_index (d_chunkinfo next') \<and> next_offset \<ge> prev_end
         then if bi_is_legacy_stargz (d_blob next')
              then next_offset - prev_end \<le> max_gap * 8
              else next_offset - prev_end \<le> max_gap
         else False)"

section \<open>Scatter/gather lists\<close>

record BlobIoVec =
  v_blob :: BlobInfo
  v_size :: u32
  v_vec :: "BlobIoDesc list"

definition BlobIoVec_new :: "BlobInfo \<Rightarrow> BlobIoVec" where
  "BlobIoVec_new blob = \<lparr>v_blob = blob, v_size = 0, v_vec = []\<rparr>"

definition BlobIoVec_push :: "BlobIoVec \<Rightarrow> BlobIoDesc \<Rightarrow> BlobIoVec res" where
  "BlobIoVec_push v desc =
     asserting (bi_blob_index (v_blob v) = bi_blob_index (d_blob desc)) (
     asserting (bi_blob_id (v_blob v) = bi_blob_id (d_blob desc)) (
     asserting (checked_add (v_size v) (d_size desc) \<noteq> None) (
     Inr (v\<lparr>v_size := v_size v + d_size desc, v_vec := v_vec v @ [desc]\<rparr>))))"

definition BlobIoVec_append :: "BlobIoVec \<Rightarrow> BlobIoVec \<Rightarrow> BlobIoVec res" where
  "BlobIoVec_append v w =
     asserting (bi_blob_index (v_blob v) = bi_blob_index (v_blob w)) (
     asserting (bi_blob_id (v_blob v) = bi_blob_id (v_blob w)) (
     asserting (checked_add (v_size v) (v_size w) \<noteq> None) (
     Inr (v\<lparr>v_vec := v_vec v @ v_vec w, v_size := v_size v + v_size w\<rparr>))))"

definition BlobIoVec_reset :: "BlobIoVec \<Rightarrow> BlobIoVec" where
  "BlobIoVec_reset v = v\<lparr>v_size := 0, v_vec := []\<rparr>"

definition BlobIoVec_blob_io_desc :: "BlobIoVec \<Rightarrow> nat \<Rightarrow> BlobIoDesc option" where
  "BlobIoVec_blob_io_desc v index = (if index < length (v_vec v) then Some (v_vec v ! index) else None)"

definition BlobIoVec_is_target_blob :: "BlobIoVec \<Rightarrow> u32 \<Rightarrow> bool" where
  "BlobIoVec_is_target_blob v blob_index \<longleftrightarrow> bi_blob_index (v_blob v) = blob_index"

definition BlobIoVec_has_same_blob :: "BlobIoVec \<Rightarrow> BlobIoVec \<Rightarrow> bool" where
  "BlobIoVec_has_same_blob v desc \<longleftrightarrow> bi_blob_index (v_blob v) = bi_blob_index (v_blob desc)"

record BlobIoMerge =
  m_map :: "string \<rightharpoonup> BlobIoVec"
  m_current :: string

definition BlobIoMerge_append :: "BlobIoMerge \<Rightarrow> BlobIoVec \<Rightarrow> BlobIoMerge res" where
  "BlobIoMerge_append m desc =
     (if v_vec desc \<noteq> [] then
        let id' = bi_blob_id (v_blob desc);
            m = (if m_current m \<noteq> id' then m\<lparr>m_current := id'\<rparr> else m)
        in case m_map m id' of
             Some prev \<Rightarrow> and_then (BlobIoVec_append prev desc) (\<lambda>v. Inr (m\<lparr>m_map := (m_map m)(id' \<mapsto> v)\<rparr>))
           | None \<Rightarrow> Inr (m\<lparr>m_map := (m_map m)(id' \<mapsto> desc)\<rparr>)
      else Inr m)"

definition BlobIoMerge_get_current_element :: "BlobIoMerge \<Rightarrow> BlobIoVec option" where
  "BlobIoMerge_get_current_element m = m_map m (m_current m)"

section \<open>Backend requests\<close>

record BlobIoSegment =
  seg_offset :: u32
  seg_len :: u32

definition BlobIoSegment_append :: "BlobIoSegment \<Rightarrow> u32 \<Rightarrow> u32 \<Rightarrow> BlobIoSegment res" where
  "BlobIoSegment_append s offset len =
     asserting (checked_add offset len \<noteq> None) (
     asserting (offset = 0) (
     Inr (s\<lparr>seg_len := seg_len s + len\<rparr>)))"

definition BlobIoSegment_is_empty :: "BlobIoSegment \<Rightarrow> bool" where
  "BlobIoSegment_is_empty s \<longleftrightarrow> seg_offset s = 0 \<and> seg_len s = 0"

datatype BlobIoTag = User BlobIoSegment | Internal

fun is_user_io :: "BlobIoTag \<Rightarrow> bool" where
  "is_user_io (User _) = True"
| "is_user_io Internal = False"

record BlobIoRange =
  r_blob_info :: BlobInfo
  r_blob_offset :: u64
  r_blob_size :: u64
  r_chunks :: "BlobChunkInfo list"
  r_tags :: "BlobIoTag list"

definition tag_from_desc :: "BlobIoDesc \<Rightarrow> BlobIoTag" where
  "tag_from_desc bio =
     (if d_user_io bio then User \<lparr>seg_offset = d_offset bio, seg_len = d_size bio\<rparr> else Internal)"

definition BlobIoRange_new :: "BlobIoDesc \<Rightarrow> BlobIoRange res" where
  "BlobIoRange_new bio =
     (let blob_size = ucast (ci_compressed_size (d_chunkinfo bio));
          blob_offset = ci_compressed_offset (d_chunkinfo bio)
      in asserting (checked_add blob_offset blob_size \<noteq> None) (
         Inr \<lparr>r_blob_info = d_blob bio, r_blob_offset = blob_offset, r_blob_size = blob_size,
              r_chunks = [d_chunkinfo bio], r_tags = [tag_from_desc bio]\<rparr>))"

definition BlobIoRange_merge :: "BlobIoRange \<Rightarrow> BlobIoDesc \<Rightarrow> u64 \<Rightarrow> BlobIoRange res" where
  "BlobIoRange_merge r bio max_gap =
     (let end' = r_blob_offset r + r_blob_size r;
          offset = ci_compressed_offset (d_chunkinfo bio);
          size' = ucast (ci_compressed_size (d_chunkinfo bio))
      in and_then
           (if end' = offset then asserting (checked_add offset size' \<noteq> None) (Inr size')
            else asserting (offset > end' \<and> offset - end' \<le> max_gap) (Inr (size' + (offset - end'))))
           (\<lambda>size'. asserting (checked_add end' size' \<noteq> None) (
             Inr (r\<lparr>r_blob_size := r_blob_size r + size', r_tags := r_tags r @ [tag_from_desc bio],
                    r_chunks := r_chunks r @ [d_chunkinfo bio]\<rparr>))))"

end
