(* ===== verification/Chunk_Map.thy ===== *)
theory Chunk_Map
  imports Persist_Map Blob_Device
begin

text \<open>
  The chunk maps of \<open>storage/src/cache/state\<close>: \<open>IndexedChunkMap\<close> and \<open>BlobRangeMap\<close> over the
  persistent bitmap, \<open>DigestedChunkMap\<close> over a set of digests, \<open>NoopChunkMap\<close>. An operation that
  may fail after it has changed the map returns the map beside its result. The locale
  \<open>chunk_map\<close> states what the users of a \<open>ChunkMap\<close> rely on; it is interpreted for the indexed and
  the digested map.
\<close>

section \<open>The trait\<close>

text \<open>The methods of a \<open>ChunkMap\<close> implementation that \<open>BlobStateMap\<close> calls.\<close>

record ('c, 'i) chunk_ops =
  op_is_ready :: "'c \<Rightarrow> BlobChunkInfo \<Rightarrow> bool res"
  op_set_ready :: "'c \<Rightarrow> BlobChunkInfo \<Rightarrow> 'c \<times> unit res"
  op_get_index :: "BlobChunkInfo \<Rightarrow> 'i"

text \<open>Provided method: \<open>is_ready_or_pending\<close> in terms of \<open>is_pending\<close> and \<open>is_ready\<close>.\<close>

definition is_ready_or_pending :: "bool res \<Rightarrow> bool res \<Rightarrow> bool res" where
  "is_ready_or_pending pending ready = (if pending = Inr True then Inr True else ready)"

section \<open>IndexedChunkMap\<close>

record IndexedChunkMap =
  icm_map :: PersistMap

definition IndexedChunkMap_new ::
  "mmap_call \<Rightarrow> u8 list option \<Rightarrow> u32 \<Rightarrow> bool \<Rightarrow> IndexedChunkMap res" where
  "IndexedChunkMap_new mmap disk chunk_count persist =
     and_then (PersistMap_open mmap disk chunk_count True persist) (\<lambda>m. Inr \<lparr>icm_map = m\<rparr>)"

definition IndexedChunkMap_open ::
  "mmap_call \<Rightarrow> u8 list option \<Rightarrow> BlobInfo \<Rightarrow> IndexedChunkMap res" where
  "IndexedChunkMap_open mmap disk blob_info =
     and_then (PersistMap_open mmap disk (bi_chunk_count blob_info) False True) (\<lambda>m. Inr \<lparr>icm_map = m\<rparr>)"

definition icm_is_ready :: "IndexedChunkMap \<Rightarrow> BlobChunkInfo \<Rightarrow> bool res" where
  "icm_is_ready m chunk =
     (if is_range_all_ready (icm_map m) then Inr True
      else and_then (validate_index (icm_map m) (ci_id chunk)) (\<lambda>index.
        and_then (is_chunk_ready (icm_map m) index) (\<lambda>(r, _). Inr r)))"

text \<open>A failing \<open>set_chunk_ready\<close> leaves the map as it was.\<close>

definition pm_set_ready :: "PersistMap \<Rightarrow> u32 \<Rightarrow> PersistMap \<times> unit res" where
  "pm_set_ready pm index =
     (case set_chunk_ready pm index of Inl e \<Rightarrow> (pm, Inl e) | Inr pm' \<Rightarrow> (pm', Inr ()))"

definition icm_set_ready_and_clear_pending ::
  "IndexedChunkMap \<Rightarrow> BlobChunkInfo \<Rightarrow> IndexedChunkMap \<times> unit res" where
  "icm_set_ready_and_clear_pending m chunk =
     (let (pm, r) = pm_set_ready (icm_map m) (ci_id chunk) in (m\<lparr>icm_map := pm\<rparr>, r))"

definition icm_get_index :: "BlobChunkInfo \<Rightarrow> u32" where
  "icm_get_index chunk = ci_id chunk"

text \<open>The range \<open>a..b\<close> of a \<open>for\<close> loop over \<open>u32\<close>.\<close>

definition range32 :: "u32 \<Rightarrow> u32 \<Rightarrow> u32 list" where
  "range32 a b = map of_nat [unat a..<unat b]"

fun icm_is_range_ready_loop :: "PersistMap \<Rightarrow> u32 \<Rightarrow> u32 list \<Rightarrow> bool res" where
  "icm_is_range_ready_loop pm start_index [] = Inr True"
| "icm_is_range_ready_loop pm start_index (idx # rest) =
     and_then (ok_or EINVAL (checked_add start_index idx)) (\<lambda>i.
     and_then (validate_index pm i) (\<lambda>index.
     and_then (is_chunk_ready pm index) (\<lambda>(r, _).
     if \<not> r then Inr False else icm_is_range_ready_loop pm start_index rest)))"

definition icm_is_range_ready :: "IndexedChunkMap \<Rightarrow> u32 \<Rightarrow> u32 \<Rightarrow> bool res" where
  "icm_is_range_ready m start_index count' =
     (if \<not> is_range_all_ready (icm_map m)
      then icm_is_range_ready_loop (icm_map m) start_index (range32 0 count') else Inr True)"

text \<open>The loop that collects the entries of a range that are not ready.\<close>

fun collect_not_ready :: "PersistMap \<Rightarrow> u32 list \<Rightarrow> u32 list res" where
  "collect_not_ready pm [] = Inr []"
| "collect_not_ready pm (index # rest) =
     and_then (is_chunk_ready pm index) (\<lambda>(r, _).
     and_then (collect_not_ready pm rest) (\<lambda>vec. Inr (if \<not> r then index # vec else vec)))"

definition none_if_empty :: "'a list \<Rightarrow> 'a list option" where
  "none_if_empty vec = (if vec = [] then None else Some vec)"

definition u32_MAX :: u32 where "u32_MAX = 0xFFFFFFFF"

definition icm_check_range_ready_and_mark_pending ::
  "IndexedChunkMap \<Rightarrow> u32 \<Rightarrow> u32 \<Rightarrow> u32 list option res" where
  "icm_check_range_ready_and_mark_pending m start_index count' =
     (if is_range_all_ready (icm_map m) then Inr None
      else let count' = min count' (u32_MAX - start_index); end' = start_index + count'
        in and_then (collect_not_ready (icm_map m) (range32 start_index end')) (\<lambda>vec.
             Inr (none_if_empty vec)))"

fun set_range_loop :: "PersistMap \<Rightarrow> u32 list \<Rightarrow> PersistMap \<times> unit res" where
  "set_range_loop pm [] = (pm, Inr ())"
| "set_range_loop pm (index # rest) =
     (case pm_set_ready pm index of
        (pm', Inl e) \<Rightarrow> (pm', Inl e)
      | (pm', Inr _) \<Rightarrow> set_range_loop pm' rest)"

definition icm_set_range_ready_and_clear_pending ::
  "IndexedChunkMap \<Rightarrow> u32 \<Rightarrow> u32 \<Rightarrow> IndexedChunkMap \<times> unit res" where
  "icm_set_range_ready_and_clear_pending m start_index count' =
     (let count' = min count' (u32_MAX - start_index); end' = start_index + count';
          (pm, r) = set_range_loop (icm_map m) (range32 start_index end')
      in (m\<lparr>icm_map := pm\<rparr>, r))"

definition icm_ops :: "(IndexedChunkMap, u32) chunk_ops" where
  "icm_ops = \<lparr>op_is_ready = icm_is_ready, op_set_ready = icm_set_ready_and_clear_pending,
     op_get_index = icm_get_index\<rparr>"

section \<open>DigestedChunkMap and NoopChunkMap\<close>

record DigestedChunkMap =
  dcm_cache :: "RafsDigest set"

definition DigestedChunkMap_new :: DigestedChunkMap where
  "DigestedChunkMap_new = \<lparr>dcm_cache = {}\<rparr>"

definition dcm_is_ready :: "DigestedChunkMap \<Rightarrow> BlobChunkInfo \<Rightarrow> bool res" where
  "dcm_is_ready m chunk = Inr (ci_chunk_id chunk \<in> dcm_cache m)"

definition dcm_set_ready_and_clear_pending ::
  "DigestedChunkMap \<Rightarrow> BlobChunkInfo \<Rightarrow> DigestedChunkMap \<times> unit res" where
  "dcm_set_ready_and_clear_pending m chunk = (m\<lparr>dcm_cache := insert (ci_chunk_id chunk) (dcm_cache m)\<rparr>, Inr ())"

definition dcm_get_index :: "BlobChunkInfo \<Rightarrow> RafsDigest" where
  "dcm_get_index chunk = ci_chunk_id chunk"

definition dcm_ops :: "(DigestedChunkMap, RafsDigest) chunk_ops" where
  "dcm_ops = \<lparr>op_is_ready = dcm_is_ready, op_set_ready = dcm_set_ready_and_clear_pending,
     op_get_index = dcm_get_index\<rparr>"

record NoopChunkMap =
  ncm_cached :: bool

definition ncm_is_ready :: "NoopChunkMap \<Rightarrow> BlobChunkInfo \<Rightarrow> bool res" where
  "ncm_is_ready m chunk = Inr (ncm_cached m)"

definition ncm_get_index :: "BlobChunkInfo \<Rightarrow> u32" where
  "ncm_get_index chunk = ci_id chunk"

section \<open>BlobRangeMap\<close>

record BlobRangeMap =
  brm_shift :: u32
  brm_map :: PersistMap

definition BlobRangeMap_new :: "mmap_call \<Rightarrow> u8 list option \<Rightarrow> u32 \<Rightarrow> u32 \<Rightarrow> BlobRangeMap res" where
  "BlobRangeMap_new mmap disk count' shift =
     and_then (PersistMap_open mmap disk count' True True) (\<lambda>m. Inr \<lparr>brm_shift = shift, brm_map = m\<rparr>)"

definition BlobRangeMap_open :: "mmap_call \<Rightarrow> u8 list option \<Rightarrow> u32 \<Rightarrow> u32 \<Rightarrow> BlobRangeMap res" where
  "BlobRangeMap_open mmap disk count' shift =
     and_then (PersistMap_open mmap disk count' False True) (\<lambda>m. Inr \<lparr>brm_shift = shift, brm_map = m\<rparr>)"

text \<open>A shift of a \<open>u64\<close> uses the low six bits of the amount.\<close>

definition shr64 :: "u64 \<Rightarrow> u32 \<Rightarrow> u64" where
  "shr64 x n = drop_bit (unat n mod 64) x"

definition shl64 :: "u64 \<Rightarrow> u32 \<Rightarrow> u64" where
  "shl64 x n = push_bit (unat n mod 64) x"

definition brm_get_range :: "BlobRangeMap \<Rightarrow> u64 \<Rightarrow> u64 \<Rightarrow> (u32 \<times> u32) res" where
  "brm_get_range m start count' =
     (case checked_add start count' of
        Some end' \<Rightarrow>
          (let start_index = shr64 start (brm_shift m); end_index = shr64 (end' - 1) (brm_shift m)
           in if start_index > ucast u32_MAX \<or> end_index > ucast u32_MAX then Inl EINVAL
              else and_then (validate_index (brm_map m) (ucast start_index)) (\<lambda>_.
                   and_then (validate_index (brm_map m) (ucast end_index)) (\<lambda>_.
                   Inr (ucast start_index, ucast end_index + 1))))
      | None \<Rightarrow> Inl EINVAL)"

fun all_ready_loop :: "PersistMap \<Rightarrow> u32 list \<Rightarrow> bool res" where
  "all_ready_loop pm [] = Inr True"
| "all_ready_loop pm (index # rest) =
     and_then (is_chunk_ready pm index) (\<lambda>(r, _). if \<not> r then Inr False else all_ready_loop pm rest)"

definition brm_is_range_ready :: "BlobRangeMap \<Rightarrow> u64 \<Rightarrow> u64 \<Rightarrow> bool res" where
  "brm_is_range_ready m start count' =
     (if \<not> is_range_all_ready (brm_map m)
      then and_then (brm_get_range m start count') (\<lambda>(start_index, end_index).
             all_ready_loop (brm_map m) (range32 start_index end_index))
      else Inr True)"

definition brm_check_range_ready_and_mark_pending ::
  "BlobRangeMap \<Rightarrow> u64 \<Rightarrow> u64 \<Rightarrow> u64 list option res" where
  "brm_check_range_ready_and_mark_pending m start count' =
     (if is_range_all_ready (brm_map m) then Inr None
      else and_then (brm_get_range m start count') (\<lambda>(start_index, end_index).
           and_then (collect_not_ready (brm_map m) (range32 start_index end_index)) (\<lambda>vec.
             Inr (none_if_empty (map (\<lambda>index. shl64 (ucast index) (brm_shift m)) vec)))))"

definition brm_set_range_ready_and_clear_pending ::
  "BlobRangeMap \<Rightarrow> u64 \<Rightarrow> u64 \<Rightarrow> BlobRangeMap \<times> unit res" where
  "brm_set_range_ready_and_clear_pending m start count' =
     (if \<not> is_range_all_ready (brm_map m)
      then case brm_get_range m start count' of
             Inl e \<Rightarrow> (m, Inl e)
           | Inr (start_index, end_index) \<Rightarrow>
               (let (pm, r) = set_range_loop (brm_map m) (range32 start_index end_index)
                in (m\<lparr>brm_map := pm\<rparr>, r))
      else (m, Inr ()))"

section \<open>Readiness of single chunks\<close>

abbreviation pm_bit :: "PersistMap \<Rightarrow> u32 \<Rightarrow> bool" where
  "pm_bit pm i \<equiv> chunk_bit (pm_data pm) (unat i)"

lemma is_chunk_ready_wf:
  assumes "wf_pm pm" and "i < pm_count pm"
  shows "is_chunk_ready pm i = Inr (pm_bit pm i, pm_data pm ! (HEADER_SIZE + unat i div 8))"
  using is_chunk_ready_eq [of pm i] idx_in_file [OF assms] assms(1) by (simp add: wf_pm_def)

lemma sound_all_ready:
  assumes "pm_sound pm" and "is_range_all_ready pm" and "i < pm_count pm"
  shows "pm_bit pm i"
proof -
  have "unready pm = 0" using assms(1,2) by (simp add: pm_sound_def is_range_all_ready_def)
  with assms(3) show ?thesis by (simp add: unready_zero word_less_nat_alt)
qed

lemma pm_sound_wf [dest]: "pm_sound pm \<Longrightarrow> wf_pm pm"
  by (simp add: pm_sound_def)

lemma pm_set_ready_eq:
  "wf_pm pm \<Longrightarrow> pm_set_ready pm i =
     (if i < pm_count pm then (mark_bit pm i, Inr ()) else (pm, Inl EINVAL))"
  by (simp add: pm_set_ready_def set_chunk_ready_eq)

lemma pm_bit_mark_bit:
  assumes "wf_pm pm" and "i < pm_count pm"
  shows "pm_bit (mark_bit pm i) j \<longleftrightarrow> pm_bit pm j \<or> j = i"
  using chunk_bit_set_bit_at [OF idx_in_file [OF assms]] by (auto simp: mark_bit_def word_unat_eq_iff)

lemma pm_bit_mark_bits:
  "\<lbrakk>wf_pm pm; \<forall>i \<in> set is. i < pm_count pm\<rbrakk> \<Longrightarrow> pm_bit (mark_bits pm is) j \<longleftrightarrow> pm_bit pm j \<or> j \<in> set is"
  by (induction "is" arbitrary: pm) (auto simp: pm_bit_mark_bit wf_pm_mark_bit)

lemma icm_is_ready_eq:
  assumes "pm_sound (icm_map m)"
  shows "icm_is_ready m k =
           (if is_range_all_ready (icm_map m) then Inr True
            else if ci_id k < pm_count (icm_map m) then Inr (pm_bit (icm_map m) (ci_id k)) else Inl EINVAL)"
  using is_chunk_ready_wf [OF pm_sound_wf [OF assms]]
  by (simp add: icm_is_ready_def validate_index_def)

lemma icm_is_ready_valid:
  assumes "pm_sound (icm_map m)" and "ci_id k < pm_count (icm_map m)"
  shows "icm_is_ready m k = Inr (pm_bit (icm_map m) (ci_id k))"
  using icm_is_ready_eq [OF assms(1)] sound_all_ready [OF assms(1) _ assms(2)] assms(2) by simp

section \<open>The contract of a chunk map\<close>

locale chunk_map =
  fixes ops :: "('c, 'i) chunk_ops"
    and inv :: "'c \<Rightarrow> bool"
    and valid :: "'c \<Rightarrow> BlobChunkInfo \<Rightarrow> bool"
  assumes ready_total: "\<lbrakk>inv c; valid c k\<rbrakk> \<Longrightarrow> \<exists>b. op_is_ready ops c k = Inr b"
    and ready_index: "\<lbrakk>inv c; valid c k; valid c j; op_get_index ops j = op_get_index ops k\<rbrakk> \<Longrightarrow>
      op_is_ready ops c j = op_is_ready ops c k"
    and set_ready: "\<lbrakk>inv c; valid c k; op_set_ready ops c k = (c', r)\<rbrakk> \<Longrightarrow>
      r = Inr () \<and> inv c' \<and> (\<forall>j. valid c' j = valid c j) \<and>
      (\<forall>j. valid c j \<longrightarrow> op_is_ready ops c' j =
         (if op_get_index ops j = op_get_index ops k then Inr True else op_is_ready ops c j))"
begin

lemma set_then_ready:
  "\<lbrakk>inv c; valid c k; op_set_ready ops c k = (c', r)\<rbrakk> \<Longrightarrow> op_is_ready ops c' k = Inr True"
  using set_ready [of c k c' r] by simp

lemma set_keeps_ready:
  "\<lbrakk>inv c; valid c k; op_set_ready ops c k = (c', r); valid c j; op_is_ready ops c j = Inr True\<rbrakk> \<Longrightarrow>
     op_is_ready ops c' j = Inr True"
  using set_ready [of c k c' r] by simp

lemma set_keeps_other:
  "\<lbrakk>inv c; valid c k; op_set_ready ops c k = (c', r); valid c j;
    op_get_index ops j \<noteq> op_get_index ops k\<rbrakk> \<Longrightarrow>
     op_is_ready ops c' j = op_is_ready ops c j"
  using set_ready [of c k c' r] by simp

end

definition icm_valid :: "IndexedChunkMap \<Rightarrow> BlobChunkInfo \<Rightarrow> bool" where
  "icm_valid m k \<longleftrightarrow> ci_id k < pm_count (icm_map m)"

definition icm_inv :: "IndexedChunkMap \<Rightarrow> bool" where
  "icm_inv m \<longleftrightarrow> pm_sound (icm_map m)"

lemma icm_set_ready_eq:
  assumes "icm_inv m" and "icm_valid m k"
  shows "icm_set_ready_and_clear_pending m k = (m\<lparr>icm_map := mark_bit (icm_map m) (ci_id k)\<rparr>, Inr ())"
  using assms pm_set_ready_eq [of "icm_map m"]
  by (auto simp: icm_set_ready_and_clear_pending_def icm_inv_def icm_valid_def)

interpretation icm: chunk_map icm_ops icm_inv icm_valid
proof unfold_locales
  fix c k
  assume "icm_inv c" and "icm_valid c k"
  then show "\<exists>b. op_is_ready icm_ops c k = Inr b"
    by (simp add: icm_ops_def icm_is_ready_valid icm_inv_def icm_valid_def)
next
  fix c k j
  assume "icm_inv c" and "op_get_index icm_ops j = op_get_index icm_ops k"
  then show "op_is_ready icm_ops c j = op_is_ready icm_ops c k"
    by (simp add: icm_ops_def icm_get_index_def icm_is_ready_def)
next
  fix c k c' r
  assume inv: "icm_inv c" and val: "icm_valid c k" and set: "op_set_ready icm_ops c k = (c', r)"
  have c': "c' = c\<lparr>icm_map := mark_bit (icm_map c) (ci_id k)\<rparr>" "r = Inr ()"
    using set icm_set_ready_eq [OF inv val] by (simp_all add: icm_ops_def)
  have s: "pm_sound (icm_map c)" "ci_id k < pm_count (icm_map c)"
    using inv val by (simp_all add: icm_inv_def icm_valid_def)
  then have "icm_inv c'" by (simp add: c' icm_inv_def pm_sound_mark_bit)
  moreover have "op_is_ready icm_ops c' j =
      (if op_get_index icm_ops j = op_get_index icm_ops k then Inr True else op_is_ready icm_ops c j)"
    if "icm_valid c j" for j
    using that s \<open>icm_inv c'\<close> pm_bit_mark_bit [OF pm_sound_wf [OF s(1)] s(2)]
    by (simp add: icm_ops_def icm_is_ready_valid icm_valid_def icm_inv_def icm_get_index_def c')
  ultimately show "r = Inr () \<and> icm_inv c' \<and> (\<forall>j. icm_valid c' j = icm_valid c j) \<and>
      (\<forall>j. icm_valid c j \<longrightarrow> op_is_ready icm_ops c' j =
         (if op_get_index icm_ops j = op_get_index icm_ops k then Inr True else op_is_ready icm_ops c j))"
    by (simp add: c' icm_valid_def)
qed

interpretation dcm: chunk_map dcm_ops "\<lambda>_. True" "\<lambda>_ _. True"
  by unfold_locales
    (auto simp: dcm_ops_def dcm_is_ready_def dcm_set_ready_and_clear_pending_def dcm_get_index_def)

section \<open>Ranges of chunks\<close>

lemma set_range32 [simp]: "set (range32 a b) = {i. a \<le> i \<and> i < b}"
proof -
  have "i \<in> set (range32 a b) \<longleftrightarrow> a \<le> i \<and> i < b" for i
  proof -
    have "i = of_nat n \<Longrightarrow> n < unat b \<Longrightarrow> unat i = n" for n
      using unat_lt2p32 [of b] by (simp add: unat_of_nat)
    moreover have "i = of_nat (unat i)" by simp
    ultimately show ?thesis
      unfolding range32_def set_map set_upt image_iff word_le_nat_alt word_less_nat_alt
      by (metis atLeastLessThan_iff)
  qed
  then show ?thesis by blast
qed

lemma distinct_range32: "distinct (range32 a b)"
proof -
  have "inj_on (of_nat :: nat \<Rightarrow> u32) {unat a..<unat b}"
  proof (rule inj_onI)
    fix x y assume "x \<in> {unat a..<unat b}" "y \<in> {unat a..<unat b}" "(of_nat x :: u32) = of_nat y"
    then have "unat (of_nat x :: u32) = unat (of_nat y :: u32)" "x < 2 ^ 32" "y < 2 ^ 32"
      using unat_lt2p32 [of b] by auto
    then show "x = y" by (simp add: unat_of_nat)
  qed
  then show ?thesis by (simp add: range32_def distinct_map)
qed

lemma collect_not_ready_eq:
  "\<lbrakk>wf_pm pm; \<forall>i \<in> set is. i < pm_count pm\<rbrakk> \<Longrightarrow> collect_not_ready pm is = Inr (filter (\<lambda>i. \<not> pm_bit pm i) is)"
  by (induction "is") (simp_all add: is_chunk_ready_wf)

lemma all_ready_loop_eq:
  "\<lbrakk>wf_pm pm; \<forall>i \<in> set is. i < pm_count pm\<rbrakk> \<Longrightarrow> all_ready_loop pm is = Inr (\<forall>i \<in> set is. pm_bit pm i)"
  by (induction "is") (simp_all add: is_chunk_ready_wf)

lemma set_range_loop_eq:
  "\<lbrakk>wf_pm pm; \<forall>i \<in> set is. i < pm_count pm\<rbrakk> \<Longrightarrow> set_range_loop pm is = (mark_bits pm is, Inr ())"
  by (induction "is" arbitrary: pm) (simp_all add: pm_set_ready_eq wf_pm_mark_bit)

lemma set_range_loop_Inr:
  "\<lbrakk>wf_pm pm; set_range_loop pm is = (pm', Inr ())\<rbrakk> \<Longrightarrow>
     (\<forall>i \<in> set is. i < pm_count pm) \<and> pm' = mark_bits pm is"
proof (induction "is" arbitrary: pm)
  case Nil
  then show ?case by simp
next
  case (Cons i "is")
  then have "i < pm_count pm" and "set_range_loop (mark_bit pm i) is = (pm', Inr ())"
    by (auto simp: pm_set_ready_eq split: if_splits)
  with Cons.IH [of "mark_bit pm i"] Cons.prems(1) show ?case by (simp add: wf_pm_mark_bit)
qed

text \<open>The end of a clamped range of a map: nothing is cut off for a range inside the map.\<close>

lemma range_end:
  assumes "unat start + unat n \<le> unat (pm_count pm)"
  shows "start + min n (u32_MAX - start) = start + n" and "unat (start + n) = unat start + unat n"
    and "i < start + n \<Longrightarrow> i < pm_count pm"
proof -
  have lt: "unat start + unat n < 2 ^ 32" using assms unat_lt2p32 [of "pm_count pm"] by linarith
  then show u: "unat (start + n) = unat start + unat n" by (simp add: unat_add_less)
  have m: "unat u32_MAX = 2 ^ 32 - 1" by (simp add: u32_MAX_def)
  have "start \<le> u32_MAX" unfolding word_le_nat_alt m using unat_lt2p32 [of start] by simp
  then have "unat (u32_MAX - start) = 2 ^ 32 - 1 - unat start" by (simp only: unat_sub m)
  then have "n \<le> u32_MAX - start"
    unfolding word_le_nat_alt using lt by linarith
  then show "start + min n (u32_MAX - start) = start + n" by (simp add: min_def)
  show "i < start + n \<Longrightarrow> i < pm_count pm"
    unfolding word_less_nat_alt u using assms by linarith
qed

lemma icm_is_range_ready_loop_eq:
  assumes "wf_pm pm"
  shows "\<forall>i \<in> set is. unat start + unat i < unat (pm_count pm) \<Longrightarrow>
    icm_is_range_ready_loop pm start is = Inr (\<forall>i \<in> set is. pm_bit pm (start + i))"
proof (induction "is")
  case Nil
  then show ?case by simp
next
  case (Cons i "is")
  have lt: "unat start + unat i < 2 ^ 32"
    using Cons.prems unat_lt2p32 [of "pm_count pm"] by (auto intro: less_trans)
  then have "checked_add start i = Some (start + i)" by (simp add: checked_add_def)
  moreover have "start + i < pm_count pm"
    using Cons.prems lt by (simp add: word_less_nat_alt unat_add_less)
  ultimately show ?case
    using Cons by (simp add: validate_index_def is_chunk_ready_wf [OF assms] ok_or_def)
qed

lemma ex_range32_shift:
  assumes "unat start + unat n < 2 ^ 32"
  shows "(\<forall>i \<in> set (range32 0 n). P (start + i)) \<longleftrightarrow> (\<forall>i \<in> set (range32 start (start + n)). P i)"
proof
  assume all: "\<forall>i \<in> set (range32 0 n). P (start + i)"
  show "\<forall>i \<in> set (range32 start (start + n)). P i"
  proof
    fix i assume i: "i \<in> set (range32 start (start + n))"
    then have "i - start < n"
      using assms by (simp add: word_less_nat_alt word_le_nat_alt unat_sub unat_add_less) linarith
    with all have "P (start + (i - start))" by (auto simp del: add_diff_cancel_left' add_diff_cancel_left diff_add_cancel)
    then show "P i" by simp
  qed
next
  assume all: "\<forall>i \<in> set (range32 start (start + n)). P i"
  show "\<forall>i \<in> set (range32 0 n). P (start + i)"
  proof
    fix i assume "i \<in> set (range32 0 n)"
    then have i: "unat i < unat n" by (simp add: word_less_nat_alt)
    then have "unat (start + i) = unat start + unat i" using assms by (intro unat_add_less) simp
    with i assms have "start \<le> start + i" "start + i < start + n"
      by (simp_all add: word_le_nat_alt word_less_nat_alt unat_add_less)
    with all show "P (start + i)" by simp
  qed
qed

lemma icm_range_eqs:
  assumes "pm_sound (icm_map m)" and "unat start + unat n \<le> unat (pm_count (icm_map m))"
  shows "icm_is_range_ready m start n = Inr (\<forall>i \<in> set (range32 start (start + n)). pm_bit (icm_map m) i)"
    and "icm_check_range_ready_and_mark_pending m start n =
           Inr (none_if_empty (filter (\<lambda>i. \<not> pm_bit (icm_map m) i) (range32 start (start + n))))"
    and "icm_set_range_ready_and_clear_pending m start n =
           (m\<lparr>icm_map := mark_bits (icm_map m) (range32 start (start + n))\<rparr>, Inr ())"
proof -
  let ?R = "range32 start (start + n)"
  have wf: "wf_pm (icm_map m)" using assms(1) by blast
  note e = range_end [OF assms(2)]
  have R: "\<forall>i \<in> set ?R. i < pm_count (icm_map m)" using e(3) by simp
  have all: "is_range_all_ready (icm_map m) \<Longrightarrow> \<forall>i \<in> set ?R. pm_bit (icm_map m) i"
    using sound_all_ready [OF assms(1)] R by blast
  have lt: "unat start + unat n < 2 ^ 32" using assms(2) unat_lt2p32 [of "pm_count (icm_map m)"] by linarith
  have "icm_is_range_ready_loop (icm_map m) start (range32 0 n) =
      Inr (\<forall>i \<in> set (range32 0 n). pm_bit (icm_map m) (start + i))"
    by (rule icm_is_range_ready_loop_eq [OF wf]) (use assms(2) in \<open>auto simp: word_less_nat_alt\<close>)
  then have "icm_is_range_ready_loop (icm_map m) start (range32 0 n) = Inr (\<forall>i \<in> set ?R. pm_bit (icm_map m) i)"
    unfolding ex_range32_shift [OF lt, of "pm_bit (icm_map m)"] .
  then show "icm_is_range_ready m start n = Inr (\<forall>i \<in> set ?R. pm_bit (icm_map m) i)"
    using all by (simp add: icm_is_range_ready_def)
  have "filter (\<lambda>i. \<not> pm_bit (icm_map m) i) ?R = []" if "is_range_all_ready (icm_map m)"
    using all [OF that] by (simp add: filter_empty_conv)
  then show "icm_check_range_ready_and_mark_pending m start n =
      Inr (none_if_empty (filter (\<lambda>i. \<not> pm_bit (icm_map m) i) ?R))"
    using collect_not_ready_eq [OF wf R]
    by (simp add: icm_check_range_ready_and_mark_pending_def e(1) Let_def none_if_empty_def)
  show "icm_set_range_ready_and_clear_pending m start n = (m\<lparr>icm_map := mark_bits (icm_map m) ?R\<rparr>, Inr ())"
    by (simp add: icm_set_range_ready_and_clear_pending_def e(1) Let_def set_range_loop_eq [OF wf R])
qed

lemma icm_is_range_ready_one:
  assumes "pm_sound (icm_map m)" and "i < pm_count (icm_map m)"
  shows "icm_is_range_ready m i 1 = Inr (pm_bit (icm_map m) i)"
proof -
  have "unat i < unat (pm_count (icm_map m))" using assms(2) by (simp add: word_less_nat_alt)
  then have le: "unat i + unat (1 :: u32) \<le> unat (pm_count (icm_map m))" by simp
  have "\<forall>j. (i \<le> j \<and> j < i + 1) = (j = i)"
    using range_end(2) [OF le] by (auto simp: word_le_nat_alt word_less_nat_alt word_unat_eq_iff)
  then show ?thesis using icm_range_eqs(1) [OF assms(1) le] by simp
qed

section \<open>Ranges of bytes\<close>

lemma unat_shr64: "unat (shr64 x n) = unat x div 2 ^ (unat n mod 64)"
  by (simp only: shr64_def unat_drop_bit_eq) (simp add: drop_bit_eq_div)

lemma brm_get_range_Inr:
  assumes "brm_get_range m start n = Inr (s, e)" and "0 < n"
  shows "unat s = unat start div 2 ^ (unat (brm_shift m) mod 64)"
    and "unat e = (unat start + unat n - 1) div 2 ^ (unat (brm_shift m) mod 64) + 1"
    and "\<forall>i \<in> set (range32 s e). i < pm_count (brm_map m)"
    and "unat start + unat n < 2 ^ 64"
proof -
  let ?sh = "2 ^ (unat (brm_shift m) mod 64) :: nat"
  obtain end' where add: "checked_add start n = Some end'"
    using assms(1) by (auto simp: brm_get_range_def split: option.splits)
  then have end': "unat end' = unat start + unat n" using checked_add_SomeD by blast
  then show "unat start + unat n < 2 ^ 64" using unat_lt2p64 [of end'] by simp
  let ?a = "shr64 start (brm_shift m)" and ?b = "shr64 (end' - 1) (brm_shift m)"
  have *: "\<not> (?a > ucast u32_MAX \<or> ?b > ucast u32_MAX)" "s = ucast ?a" "e = ucast ?b + 1"
    "(ucast ?a :: u32) < pm_count (brm_map m)" "(ucast ?b :: u32) < pm_count (brm_map m)"
    using assms(1) add
    by (auto simp: brm_get_range_def Let_def validate_index_def result_iffs split: if_splits)
  have max: "unat (ucast u32_MAX :: u64) = 2 ^ 32 - 1" by (simp add: u32_MAX_def)
  have small: "unat ?a < 2 ^ 32" "unat ?b < 2 ^ 32"
    using *(1) unfolding word_less_nat_alt max by auto
  then have u: "unat (ucast ?a :: u32) = unat ?a" "unat (ucast ?b :: u32) = unat ?b"
    by (simp_all add: unat_ucast_small)
  have "0 < unat n" using assms(2) by (simp add: word_less_nat_alt)
  then have "1 \<le> end'" unfolding word_le_nat_alt using end' by simp
  then have em: "unat (end' - 1) = unat start + unat n - 1" using end' by (simp add: unat_sub)
  show "unat s = unat start div ?sh" by (simp add: *(2) u unat_shr64)
  have "unat ?b + 1 < 2 ^ 32"
    using *(5) u(2) unat_lt2p32 [of "pm_count (brm_map m)"] unfolding word_less_nat_alt by linarith
  then have e: "unat e = unat ?b + 1"
    using unat_add_less [of "ucast ?b :: u32" 1] u(2) by (simp add: *(3))
  then show "unat e = (unat start + unat n - 1) div ?sh + 1" by (simp add: unat_shr64 em)
  show "\<forall>i \<in> set (range32 s e). i < pm_count (brm_map m)"
    using *(5) u(2) e by (auto simp: word_less_nat_alt)
qed

lemma brm_get_range_map:
  assumes "pm_count (brm_map m') = pm_count (brm_map m)" and "brm_shift m' = brm_shift m"
  shows "brm_get_range m' = brm_get_range m"
proof (intro ext)
  have vi: "validate_index (brm_map m') = validate_index (brm_map m)"
    by (intro ext) (simp add: validate_index_def assms(1))
  show "brm_get_range m' start n = brm_get_range m start n" for start n
    unfolding brm_get_range_def vi assms(2) ..
qed

text \<open>The size of the unit of a range map and the readiness of a byte of the blob.\<close>

definition unit_size :: "BlobRangeMap \<Rightarrow> nat" where
  "unit_size m = 2 ^ (unat (brm_shift m) mod 64)"

definition byte_ready :: "BlobRangeMap \<Rightarrow> nat \<Rightarrow> bool" where
  "byte_ready m b \<longleftrightarrow> chunk_bit (pm_data (brm_map m)) (b div unit_size m)"

definition in_blob :: "BlobRangeMap \<Rightarrow> u64 \<Rightarrow> u64 \<Rightarrow> bool" where
  "in_blob m start n \<longleftrightarrow> 0 < n \<and> unat start + unat n < 2 ^ 64 \<and>
     unat start + unat n \<le> unat (pm_count (brm_map m)) * unit_size m"

lemma unit_size_pos: "0 < unit_size m"
  by (simp add: unit_size_def)

lemma brm_get_range_in_blob:
  assumes "in_blob m start n"
  shows "\<exists>s e. brm_get_range m start n = Inr (s, e)"
proof -
  let ?c = "unat (pm_count (brm_map m))" and ?last = "unat start + unat n - 1"
  have n: "0 < unat n" and lt: "unat start + unat n < 2 ^ 64" and le: "unat start + unat n \<le> ?c * unit_size m"
    using assms by (auto simp: in_blob_def word_less_nat_alt)
  have add: "checked_add start n = Some (start + n)" using lt by (simp add: checked_add_def)
  have u: "unat (start + n) = unat start + unat n" using lt by (simp add: unat_add_less)
  then have "1 \<le> start + n" unfolding word_le_nat_alt using n by simp
  then have em: "unat (start + n - 1) = ?last" by (simp add: unat_sub u)
  let ?a = "shr64 start (brm_shift m)" and ?b = "shr64 (start + n - 1) (brm_shift m)"
  have ab: "unat ?a < ?c" "unat ?b < ?c"
    unfolding unat_shr64 em unit_size_def [symmetric]
    by (rule less_mult_imp_div_less, use le n in linarith)+
  then have small: "unat ?a < 2 ^ 32" "unat ?b < 2 ^ 32"
    using unat_lt2p32 [of "pm_count (brm_map m)"] by linarith+
  have max: "unat (ucast u32_MAX :: u64) = 2 ^ 32 - 1" by (simp add: u32_MAX_def)
  have "\<not> (?a > ucast u32_MAX \<or> ?b > ucast u32_MAX)"
    using small unfolding word_less_nat_alt max by auto
  moreover have "(ucast ?a :: u32) < pm_count (brm_map m)" "(ucast ?b :: u32) < pm_count (brm_map m)"
    using ab small by (simp_all add: word_less_nat_alt unat_ucast_small)
  ultimately show ?thesis by (simp add: brm_get_range_def add validate_index_def Let_def)
qed

text \<open>Going through the units of a byte range is going through its bytes.\<close>

lemma units_of_bytes:
  fixes d :: nat
  assumes "0 < d" and "0 < n"
  shows "(\<forall>i. a div d \<le> i \<and> i < (a + n - 1) div d + 1 \<longrightarrow> P i) \<longleftrightarrow> (\<forall>b. a \<le> b \<and> b < a + n \<longrightarrow> P (b div d))"
proof (intro iffI allI impI)
  fix b assume all: "\<forall>i. a div d \<le> i \<and> i < (a + n - 1) div d + 1 \<longrightarrow> P i" and b: "a \<le> b \<and> b < a + n"
  then have "b \<le> a + n - 1" by linarith
  with b have "a div d \<le> b div d" "b div d \<le> (a + n - 1) div d" by (auto intro: div_le_mono)
  with all show "P (b div d)" by simp
next
  fix i assume all: "\<forall>b. a \<le> b \<and> b < a + n \<longrightarrow> P (b div d)" and i: "a div d \<le> i \<and> i < (a + n - 1) div d + 1"
  define b where "b = max a (i * d)"
  have "b < a + n"
  proof -
    have "i \<le> (a + n - 1) div d" using i by simp
    then have "i * d \<le> (a + n - 1) div d * d" by simp
    also have "\<dots> \<le> a + n - 1" by simp
    finally show ?thesis using assms(2) by (simp add: b_def)
  qed
  moreover have "b div d = i"
  proof (cases "i * d \<le> a")
    case True
    then have "i \<le> a div d" using assms(1) by (simp add: less_eq_div_iff_mult_less_eq)
    with i True show ?thesis by (simp add: b_def max_def)
  next
    case False
    then show ?thesis using assms(1) by (simp add: b_def max_def)
  qed
  ultimately show "P i" using all by (metis b_def max.cobounded1)
qed

lemma brm_units:
  assumes "brm_get_range m start n = Inr (s, e)" and "0 < n"
  shows "(\<forall>i \<in> set (range32 s e). P (unat i)) \<longleftrightarrow>
         (\<forall>b. unat start \<le> b \<and> b < unat start + unat n \<longrightarrow> P (b div unit_size m))"
proof -
  note r = brm_get_range_Inr [OF assms]
  have "(\<forall>i \<in> set (range32 s e). P (unat i)) \<longleftrightarrow> (\<forall>i. unat s \<le> i \<and> i < unat e \<longrightarrow> P i)"
  proof (intro iffI allI impI ballI)
    fix i assume all: "\<forall>i \<in> set (range32 s e). P (unat i)" and i: "unat s \<le> i \<and> i < unat e"
    then have u: "unat (of_nat i :: u32) = i"
      using unat_lt2p32 [of e] by (intro unat_of_nat_less) simp
    with i have "(of_nat i :: u32) \<in> set (range32 s e)" by (simp add: word_le_nat_alt word_less_nat_alt)
    with all have "P (unat (of_nat i :: u32))" by blast
    with u show "P i" by simp
  qed (auto simp: word_le_nat_alt word_less_nat_alt)
  also have "\<dots> \<longleftrightarrow> (\<forall>b. unat start \<le> b \<and> b < unat start + unat n \<longrightarrow> P (b div unit_size m))"
    unfolding r(1,2) unit_size_def [symmetric]
    by (rule units_of_bytes [OF unit_size_pos]) (use assms(2) in \<open>simp add: word_less_nat_alt\<close>)
  finally show ?thesis .
qed

lemma brm_range_eqs:
  assumes "pm_sound (brm_map m)" and "brm_get_range m start n = Inr (s, e)" and "0 < n"
  shows "brm_is_range_ready m start n = Inr (\<forall>i \<in> set (range32 s e). pm_bit (brm_map m) i)"
    and "brm_check_range_ready_and_mark_pending m start n =
           Inr (none_if_empty (map (\<lambda>i. shl64 (ucast i) (brm_shift m))
             (filter (\<lambda>i. \<not> pm_bit (brm_map m) i) (range32 s e))))"
    and "brm_set_range_ready_and_clear_pending m start n =
           (if is_range_all_ready (brm_map m) then m
            else m\<lparr>brm_map := mark_bits (brm_map m) (range32 s e)\<rparr>, Inr ())"
proof -
  have wf: "wf_pm (brm_map m)" using assms(1) by blast
  note R = brm_get_range_Inr(3) [OF assms(2,3)]
  have all: "is_range_all_ready (brm_map m) \<Longrightarrow> \<forall>i \<in> set (range32 s e). pm_bit (brm_map m) i"
    using sound_all_ready [OF assms(1)] R by blast
  show "brm_is_range_ready m start n = Inr (\<forall>i \<in> set (range32 s e). pm_bit (brm_map m) i)"
    using all by (simp add: brm_is_range_ready_def assms(2) all_ready_loop_eq [OF wf R])
  have "filter (\<lambda>i. \<not> pm_bit (brm_map m) i) (range32 s e) = []" if "is_range_all_ready (brm_map m)"
    using all [OF that] by (simp add: filter_empty_conv)
  then show "brm_check_range_ready_and_mark_pending m start n =
      Inr (none_if_empty (map (\<lambda>i. shl64 (ucast i) (brm_shift m))
        (filter (\<lambda>i. \<not> pm_bit (brm_map m) i) (range32 s e))))"
    by (simp add: brm_check_range_ready_and_mark_pending_def assms(2) collect_not_ready_eq [OF wf R]
        none_if_empty_def)
  show "brm_set_range_ready_and_clear_pending m start n =
      (if is_range_all_ready (brm_map m) then m
       else m\<lparr>brm_map := mark_bits (brm_map m) (range32 s e)\<rparr>, Inr ())"
    by (simp add: brm_set_range_ready_and_clear_pending_def assms(2) set_range_loop_eq [OF wf R])
qed

lemma brm_is_range_ready_eq:
  assumes "pm_sound (brm_map m)" and "in_blob m start n"
  shows "brm_is_range_ready m start n =
           Inr (\<forall>b. unat start \<le> b \<and> b < unat start + unat n \<longrightarrow> byte_ready m b)"
proof -
  have n: "0 < n" using assms(2) by (simp add: in_blob_def)
  obtain s e where r: "brm_get_range m start n = Inr (s, e)" using brm_get_range_in_blob [OF assms(2)] by blast
  show ?thesis
    using brm_range_eqs(1) [OF assms(1) r n] brm_units [OF r n, of "chunk_bit (pm_data (brm_map m))"]
    by (simp only: byte_ready_def)
qed

section \<open>Properties\<close>



text \<open>
  \<open>BlobRangeMap\<close> tracks the bytes of a blob. For a non-empty byte range inside the blob,
  \<open>is_range_ready\<close> answers true exactly when every byte of the range is ready, and
  \<open>set_range_ready_and_clear_pending\<close> succeeds and makes ready exactly the bytes that share a unit
  with the range; in particular the range itself, and nothing that was ready is lost.
\<close>

theorem brm_bytes_contract:
  assumes "pm_sound (brm_map m)" and "in_blob m start n"
  shows "brm_is_range_ready m start n =
           Inr (\<forall>b. unat start \<le> b \<and> b < unat start + unat n \<longrightarrow> byte_ready m b) \<and>
         (\<exists>m'. brm_set_range_ready_and_clear_pending m start n = (m', Inr ()) \<and> pm_sound (brm_map m') \<and>
            brm_is_range_ready m' start n = Inr True \<and>
            (\<forall>b < unat (pm_count (brm_map m)) * unit_size m.
               byte_ready m' b \<longleftrightarrow> byte_ready m b \<or>
                 (\<exists>a. unat start \<le> a \<and> a < unat start + unat n \<and> a div unit_size m = b div unit_size m)))"
proof -
  have n: "0 < n" using assms(2) by (simp add: in_blob_def)
  obtain s e where r: "brm_get_range m start n = Inr (s, e)" using brm_get_range_in_blob [OF assms(2)] by blast
  note eqs = brm_range_eqs [OF assms(1) r n] and R = brm_get_range_Inr(3) [OF r n]
  have wf: "wf_pm (brm_map m)" using assms(1) by blast
  let ?pm' = "if is_range_all_ready (brm_map m) then brm_map m else mark_bits (brm_map m) (range32 s e)"
  let ?m' = "m\<lparr>brm_map := ?pm'\<rparr>"
  have s': "pm_sound ?pm'" using pm_sound_mark_bits [OF assms(1) R] assms(1) by simp
  have c': "pm_count ?pm' = pm_count (brm_map m)" by simp
  have all: "is_range_all_ready (brm_map m) \<Longrightarrow> i < pm_count (brm_map m) \<Longrightarrow> pm_bit (brm_map m) i" for i
    by (rule sound_all_ready [OF assms(1)])
  have bit': "pm_bit ?pm' i \<longleftrightarrow> pm_bit (brm_map m) i \<or> i \<in> set (range32 s e)"
    if "i < pm_count (brm_map m)" for i
    using pm_bit_mark_bits [OF wf R] all that by simp
  have set: "brm_set_range_ready_and_clear_pending m start n = (?m', Inr ())"
    using eqs(3) by simp
  have "brm_get_range ?m' start n = Inr (s, e)"
    using brm_get_range_map [of ?m' m] r c' by simp
  then have ready': "brm_is_range_ready ?m' start n = Inr True"
    using brm_range_eqs(1) [of ?m'] s' n bit' R by simp
  have "byte_ready ?m' b \<longleftrightarrow> byte_ready m b \<or>
      (\<exists>a. unat start \<le> a \<and> a < unat start + unat n \<and> a div unit_size m = b div unit_size m)"
    if b: "b < unat (pm_count (brm_map m)) * unit_size m" for b
  proof -
    define i :: u32 where "i = of_nat (b div unit_size m)"
    have lt: "b div unit_size m < unat (pm_count (brm_map m))"
      by (rule less_mult_imp_div_less [OF b])
    then have i: "unat i = b div unit_size m"
      unfolding i_def using unat_lt2p32 [of "pm_count (brm_map m)"] by (intro unat_of_nat_less) simp
    have "i \<in> set (range32 s e) \<longleftrightarrow> \<not> (\<forall>j \<in> set (range32 s e). unat j \<noteq> unat i)"
      by (auto simp: word_unat_eq_iff [symmetric])
    also have "\<dots> \<longleftrightarrow> (\<exists>a. unat start \<le> a \<and> a < unat start + unat n \<and> a div unit_size m = b div unit_size m)"
      using brm_units [OF r n, of "\<lambda>j. j \<noteq> unat i"] i by auto
    finally show ?thesis
      using bit' [of i] lt i by (simp add: byte_ready_def unit_size_def word_less_nat_alt)
  qed
  moreover note brm_is_range_ready_eq [OF assms]
  ultimately show ?thesis using set ready' s' by auto
qed

theorem brm_bytes_contract_witness:
  "brm_is_range_ready \<lparr>brm_shift = 12, brm_map = demo_pm\<rparr> 4096 100 = Inr True \<and>
   brm_is_range_ready \<lparr>brm_shift = 12, brm_map = demo_pm\<rparr> 4000 100 = Inr False"
proof -
  let ?m = "\<lparr>brm_shift = 12, brm_map = demo_pm\<rparr>"
  have c: "pm_count demo_pm = 3" by (simp add: demo_pm_def)
  have u: "unit_size ?m = 4096" by (simp add: unit_size_def)
  have s: "pm_sound (brm_map ?m)" using pm_exact_sound [OF demo_pm_exact] by simp
  have byte: "byte_ready ?m b \<longleftrightarrow> b div 4096 = 1" if "b < 8192" for b
    using that less_mult_imp_div_less [of b 2 4096] by (simp add: byte_ready_def u demo_pm_bit)
  have in1: "in_blob ?m 4096 100" and in2: "in_blob ?m 4000 100"
    unfolding in_blob_def u by (simp_all add: c)
  have "byte_ready ?m b" if "4096 \<le> b \<and> b < 4096 + 100" for b
  proof -
    have "b div 4096 = 1"
      using that div_le_mono [of 4096 b 4096] less_mult_imp_div_less [of b 2 4096] by simp
    then show ?thesis using byte [of b] that by simp
  qed
  then have "brm_is_range_ready ?m 4096 100 = Inr True"
    using brm_bytes_contract [OF s in1] by simp
  moreover have "\<not> byte_ready ?m 4000" using byte [of 4000] by simp
  then have "\<not> (\<forall>b. 4000 \<le> b \<and> b < 4000 + 100 \<longrightarrow> byte_ready ?m b)" by fastforce
  then have "brm_is_range_ready ?m 4000 100 = Inr False"
    using brm_bytes_contract [OF s in2] by simp
  ultimately show ?thesis by blast
qed

end
