(* ===== verification/Blob_State_Map.thy ===== *)
theory Blob_State_Map
  imports Chunk_Map
begin

text \<open>
  \<open>BlobStateMap\<close> of \<open>storage/src/cache/state/blob_state_map.rs\<close>: an adapter over a chunk map that
  records which chunks are being downloaded. The table of pending chunks maps an index to a slot;
  slots live in a list that plays the part of the heap, so that a thread that waits keeps its slot
  after the entry has gone from the table. The operations are written against the interface of
  the underlying map; the two \<open>RangeMap\<close> implementations share their definitions.
\<close>

section \<open>Slots\<close>

datatype Status = Inflight | Complete

record ('c, 'i) BlobStateMap =
  bsm_c :: 'c
  bsm_tracer :: "'i \<rightharpoonup> nat"
  bsm_slots :: "Status list"

definition BlobStateMap_from :: "'c \<Rightarrow> ('c, 'i) BlobStateMap" where
  "BlobStateMap_from c = \<lparr>bsm_c = c, bsm_tracer = Map.empty, bsm_slots = []\<rparr>"

text \<open>\<open>guard.insert(index, Arc::new(Slot::new()))\<close>.\<close>

definition insert_slot :: "('c, 'i) BlobStateMap \<Rightarrow> 'i \<Rightarrow> ('c, 'i) BlobStateMap" where
  "insert_slot m i =
     m\<lparr>bsm_tracer := (bsm_tracer m)(i \<mapsto> length (bsm_slots m)), bsm_slots := bsm_slots m @ [Inflight]\<rparr>"

text \<open>\<open>Slot::done\<close>.\<close>

definition Slot_done :: "Status list \<Rightarrow> nat \<Rightarrow> Status list" where
  "Slot_done slots s = slots[s := Complete]"

definition remove_slot :: "('c, 'i) BlobStateMap \<Rightarrow> 'i \<Rightarrow> ('c, 'i) BlobStateMap" where
  "remove_slot m i =
     (case bsm_tracer m i of
        None \<Rightarrow> m
      | Some s \<Rightarrow> m\<lparr>bsm_tracer := (bsm_tracer m)(i := None), bsm_slots := Slot_done (bsm_slots m) s\<rparr>)"

text \<open>
  \<open>Slot::wait_for_inflight\<close> on a slot whose state was read as \<open>st\<close>. Each wake-up gives the state
  of the slot and whether the wait timed out; with no further wake-up the caller is still blocked.
\<close>

fun wait_for_inflight :: "Status \<Rightarrow> (Status \<times> bool) list \<Rightarrow> Status res option" where
  "wait_for_inflight Complete _ = Some (Inr Complete)"
| "wait_for_inflight Inflight [] = None"
| "wait_for_inflight Inflight ((st, timed_out) # wakes) =
     (if timed_out then Some (Inl Timeout) else wait_for_inflight st wakes)"

section \<open>Single chunks\<close>

definition bsm_is_ready :: "('c, 'i) chunk_ops \<Rightarrow> ('c, 'i) BlobStateMap \<Rightarrow> BlobChunkInfo \<Rightarrow> bool res" where
  "bsm_is_ready ops m chunk = op_is_ready ops (bsm_c m) chunk"

definition bsm_is_pending :: "('c, 'i) chunk_ops \<Rightarrow> ('c, 'i) BlobStateMap \<Rightarrow> BlobChunkInfo \<Rightarrow> bool res" where
  "bsm_is_pending ops m chunk = Inr (bsm_tracer m (op_get_index ops chunk) \<noteq> None)"

text \<open>What a pass through \<open>check_ready_and_mark_pending\<close> comes to.\<close>

datatype check_outcome = Answer bool | Fails err | Wait_on nat

definition cache_index :: "'a res \<Rightarrow> 'a res" where
  "cache_index r = (case r of Inl e \<Rightarrow> Inl (CacheIndex e) | Inr x \<Rightarrow> Inr x)"

text \<open>The check before the lock is taken: an answer, or \<open>None\<close> to go on.\<close>

definition bsm_check_first ::
  "('c, 'i) chunk_ops \<Rightarrow> ('c, 'i) BlobStateMap \<Rightarrow> BlobChunkInfo \<Rightarrow> check_outcome option" where
  "bsm_check_first ops m chunk =
     (case cache_index (op_is_ready ops (bsm_c m) chunk) of
        Inl e \<Rightarrow> Some (Fails e)
      | Inr ready \<Rightarrow> if ready then Some (Answer True) else None)"

text \<open>The part under the lock of the table.\<close>

definition bsm_check_locked ::
  "('c, 'i) chunk_ops \<Rightarrow> ('c, 'i) BlobStateMap \<Rightarrow> BlobChunkInfo \<Rightarrow> ('c, 'i) BlobStateMap \<times> check_outcome" where
  "bsm_check_locked ops m chunk =
     (let index = op_get_index ops chunk in
      case bsm_tracer m index of
        Some s \<Rightarrow> (m, Wait_on s)
      | None \<Rightarrow>
          (case cache_index (op_is_ready ops (bsm_c m) chunk) of
             Inl e \<Rightarrow> (m, Fails e)
           | Inr ready \<Rightarrow> if ready then (m, Answer True) else (insert_slot m index, Answer False)))"

definition bsm_clear_pending ::
  "('c, 'i) chunk_ops \<Rightarrow> ('c, 'i) BlobStateMap \<Rightarrow> BlobChunkInfo \<Rightarrow> ('c, 'i) BlobStateMap" where
  "bsm_clear_pending ops m chunk = remove_slot m (op_get_index ops chunk)"

definition bsm_set_ready_and_clear_pending ::
  "('c, 'i) chunk_ops \<Rightarrow> ('c, 'i) BlobStateMap \<Rightarrow> BlobChunkInfo \<Rightarrow> ('c, 'i) BlobStateMap \<times> unit res" where
  "bsm_set_ready_and_clear_pending ops m chunk =
     (let (c', res') = op_set_ready ops (bsm_c m) chunk
      in (bsm_clear_pending ops (m\<lparr>bsm_c := c'\<rparr>) chunk, res'))"

section \<open>Ranges\<close>

text \<open>
  What the two \<open>RangeMap\<close> implementations use of the underlying map. \<open>ro_indices c start count\<close> are
  the keys of the pending table that the range covers; \<open>ro_ready1 c k\<close> is \<open>is_range_ready(k, 1)\<close>.
\<close>

record ('c, 'i) range_ops =
  ro_is_range_ready :: "'c \<Rightarrow> 'i \<Rightarrow> 'i \<Rightarrow> bool res"
  ro_ready1 :: "'c \<Rightarrow> 'i \<Rightarrow> bool res"
  ro_check :: "'c \<Rightarrow> 'i \<Rightarrow> 'i \<Rightarrow> 'i list option res"
  ro_set :: "'c \<Rightarrow> 'i \<Rightarrow> 'i \<Rightarrow> 'c \<times> unit res"
  ro_indices :: "'c \<Rightarrow> 'i \<Rightarrow> 'i \<Rightarrow> 'i list res"

fun mark_pending_loop ::
  "('c, 'i) range_ops \<Rightarrow> ('c, 'i) BlobStateMap \<Rightarrow> 'i list \<Rightarrow> ('c, 'i) BlobStateMap \<times> 'i list res" where
  "mark_pending_loop ro m [] = (m, Inr [])"
| "mark_pending_loop ro m (index # rest) =
     (if bsm_tracer m index = None then
        case ro_ready1 ro (bsm_c m) index of
          Inl e \<Rightarrow> (m, Inl e)
        | Inr ready \<Rightarrow>
            if \<not> ready then
              let (m', res') = mark_pending_loop ro (insert_slot m index) rest
              in (m', case res' of Inl e \<Rightarrow> Inl e | Inr v \<Rightarrow> Inr (index # v))
            else mark_pending_loop ro m rest
      else mark_pending_loop ro m rest)"

definition rsm_check_range_ready_and_mark_pending ::
  "('c, 'i) range_ops \<Rightarrow> ('c, 'i) BlobStateMap \<Rightarrow> 'i \<Rightarrow> 'i \<Rightarrow>
     ('c, 'i) BlobStateMap \<times> 'i list option res" where
  "rsm_check_range_ready_and_mark_pending ro m start count' =
     (case ro_check ro (bsm_c m) start count' of
        Inl e \<Rightarrow> (m, Inl e)
      | Inr None \<Rightarrow> (m, Inr None)
      | Inr (Some v) \<Rightarrow>
          if v = [] then (m, Inr None)
          else let (m', res') = mark_pending_loop ro m v
            in (m', case res' of Inl e \<Rightarrow> Inl e | Inr w \<Rightarrow> Inr (Some w)))"

definition rsm_clear_range_pending ::
  "('c, 'i) range_ops \<Rightarrow> ('c, 'i) BlobStateMap \<Rightarrow> 'i \<Rightarrow> 'i \<Rightarrow> ('c, 'i) BlobStateMap" where
  "rsm_clear_range_pending ro m start count' =
     (case ro_indices ro (bsm_c m) start count' of
        Inl _ \<Rightarrow> m
      | Inr ks \<Rightarrow> foldl remove_slot m ks)"

definition rsm_set_range_ready_and_clear_pending ::
  "('c, 'i) range_ops \<Rightarrow> ('c, 'i) BlobStateMap \<Rightarrow> 'i \<Rightarrow> 'i \<Rightarrow> ('c, 'i) BlobStateMap \<times> unit res" where
  "rsm_set_range_ready_and_clear_pending ro m start count' =
     (let (c', res') = ro_set ro (bsm_c m) start count'
      in (rsm_clear_range_pending ro (m\<lparr>bsm_c := c'\<rparr>) start count', res'))"

text \<open>
  \<open>wait_for_range_ready\<close>: each wait for a slot lets other threads run, so it gives the state of the
  map after the wait beside the result of the wait. \<open>None\<close> is a caller that still waits.
\<close>

fun wait_range_loop ::
  "('c, 'i) range_ops \<Rightarrow> (('c, 'i) BlobStateMap \<times> Status res) list \<Rightarrow> ('c, 'i) BlobStateMap \<Rightarrow> 'i list \<Rightarrow>
     (('c, 'i) BlobStateMap \<times> bool res option) option" where
  "wait_range_loop ro waits m [] = Some (m, None)"
| "wait_range_loop ro waits m (k # ks) =
     (case bsm_tracer m k of
        None \<Rightarrow> wait_range_loop ro waits m ks
      | Some s \<Rightarrow>
          (case waits of
             [] \<Rightarrow> None
           | (m', r) # waits' \<Rightarrow>
               if r = Inl Timeout then Some (m', None)
               else (case ro_ready1 ro (bsm_c m') k of
                       Inl e \<Rightarrow> Some (m', Some (Inl e))
                     | Inr ready \<Rightarrow>
                         if \<not> ready then Some (m', Some (Inr False))
                         else wait_range_loop ro waits' m' ks)))"

definition rsm_wait_for_range_ready ::
  "('c, 'i) range_ops \<Rightarrow> (('c, 'i) BlobStateMap \<times> Status res) list \<Rightarrow> ('c, 'i) BlobStateMap \<Rightarrow> 'i \<Rightarrow> 'i \<Rightarrow>
     bool res option" where
  "rsm_wait_for_range_ready ro waits m start count' =
     (case ro_is_range_ready ro (bsm_c m) start count' of
        Inl e \<Rightarrow> Some (Inl e)
      | Inr True \<Rightarrow> Some (Inr True)
      | Inr False \<Rightarrow>
          (case ro_indices ro (bsm_c m) start count' of
             Inl e \<Rightarrow> Some (Inl e)
           | Inr ks \<Rightarrow>
               (case wait_range_loop ro waits m ks of
                  None \<Rightarrow> None
                | Some (m', Some r) \<Rightarrow> Some r
                | Some (m', None) \<Rightarrow> Some (ro_is_range_ready ro (bsm_c m') start count'))))"

section \<open>The two instances\<close>

text \<open>Over \<open>IndexedChunkMap\<close> the keys are the chunk indices; the count is clamped.\<close>

definition clamp32 :: "u32 \<Rightarrow> u32 \<Rightarrow> u32" where
  "clamp32 start count' = min count' (u32_MAX - start)"

definition icm_range_ops :: "(IndexedChunkMap, u32) range_ops" where
  "icm_range_ops =
     \<lparr>ro_is_range_ready = (\<lambda>c start n. icm_is_range_ready c start (clamp32 start n)),
      ro_ready1 = (\<lambda>c k. icm_is_range_ready c k 1),
      ro_check = icm_check_range_ready_and_mark_pending,
      ro_set = icm_set_range_ready_and_clear_pending,
      ro_indices = (\<lambda>c start n. Inr (range32 start (start + clamp32 start n)))\<rparr>"

text \<open>Over \<open>BlobRangeMap\<close> the keys are the byte offsets of the units.\<close>

definition brm_range_ops :: "(BlobRangeMap, u64) range_ops" where
  "brm_range_ops =
     \<lparr>ro_is_range_ready = brm_is_range_ready,
      ro_ready1 = (\<lambda>c k. brm_is_range_ready c k 1),
      ro_check = brm_check_range_ready_and_mark_pending,
      ro_set = brm_set_range_ready_and_clear_pending,
      ro_indices = (\<lambda>c start n. and_then (brm_get_range c start n) (\<lambda>(start_index, end_index).
         Inr (map (\<lambda>index. shl64 (ucast index) (brm_shift c)) (range32 start_index end_index))))\<rparr>"

definition icsm_check_range_ready_and_mark_pending where
  "icsm_check_range_ready_and_mark_pending = rsm_check_range_ready_and_mark_pending icm_range_ops"

definition icsm_set_range_ready_and_clear_pending where
  "icsm_set_range_ready_and_clear_pending = rsm_set_range_ready_and_clear_pending icm_range_ops"

definition icsm_clear_range_pending where
  "icsm_clear_range_pending = rsm_clear_range_pending icm_range_ops"

definition icsm_wait_for_range_ready where
  "icsm_wait_for_range_ready = rsm_wait_for_range_ready icm_range_ops"

definition brsm_check_range_ready_and_mark_pending where
  "brsm_check_range_ready_and_mark_pending = rsm_check_range_ready_and_mark_pending brm_range_ops"

definition brsm_set_range_ready_and_clear_pending where
  "brsm_set_range_ready_and_clear_pending = rsm_set_range_ready_and_clear_pending brm_range_ops"

definition brsm_clear_range_pending where
  "brsm_clear_range_pending = rsm_clear_range_pending brm_range_ops"

definition brsm_wait_for_range_ready where
  "brsm_wait_for_range_ready = rsm_wait_for_range_ready brm_range_ops"

lemma remove_slot_simps [simp]:
  "bsm_c (remove_slot m i) = bsm_c m"
  "bsm_tracer (remove_slot m i) k = (if k = i then None else bsm_tracer m k)"
  by (auto simp: remove_slot_def split: option.splits)

lemma foldl_remove_slot:
  "bsm_c (foldl remove_slot m ks) = bsm_c m"
  "bsm_tracer (foldl remove_slot m ks) k = (if k \<in> set ks then None else bsm_tracer m k)"
  by (induction ks arbitrary: m) simp_all

section \<open>The contract of a range map\<close>

locale range_map =
  fixes ro :: "('c, 'i) range_ops"
    and inv :: "'c \<Rightarrow> bool"
    and valid :: "'c \<Rightarrow> 'i \<Rightarrow> 'i \<Rightarrow> bool"
    and rdy :: "'c \<Rightarrow> 'i \<Rightarrow> bool"
  assumes indices: "\<lbrakk>inv c; valid c s n\<rbrakk> \<Longrightarrow> \<exists>ks. ro_indices ro c s n = Inr ks \<and> distinct ks"
    and ready1: "\<lbrakk>inv c; valid c s n; ro_indices ro c s n = Inr ks; k \<in> set ks\<rbrakk> \<Longrightarrow>
      ro_ready1 ro c k = Inr (rdy c k)"
    and ready_range: "\<lbrakk>inv c; valid c s n; ro_indices ro c s n = Inr ks\<rbrakk> \<Longrightarrow>
      ro_is_range_ready ro c s n = Inr (\<forall>k \<in> set ks. rdy c k)"
    and check: "\<lbrakk>inv c; valid c s n; ro_indices ro c s n = Inr ks\<rbrakk> \<Longrightarrow>
      ro_check ro c s n = Inr (none_if_empty (filter (\<lambda>k. \<not> rdy c k) ks))"
    and set_range: "\<lbrakk>inv c; valid c s n; ro_indices ro c s n = Inr ks; ro_set ro c s n = (c', r)\<rbrakk> \<Longrightarrow>
      r = Inr () \<and> inv c' \<and> ro_indices ro c' s n = Inr ks \<and> valid c' s n \<and> (\<forall>k \<in> set ks. rdy c' k)"
begin

lemma mark_pending_loop_ok:
  assumes "inv (bsm_c m)"
  shows "\<lbrakk>\<And>k. k \<in> set ks \<Longrightarrow> ro_ready1 ro (bsm_c m) k = Inr (rdy (bsm_c m) k); distinct ks\<rbrakk> \<Longrightarrow>
    \<exists>m'. mark_pending_loop ro m ks =
           (m', Inr (filter (\<lambda>k. bsm_tracer m k = None \<and> \<not> rdy (bsm_c m) k) ks)) \<and>
         bsm_c m' = bsm_c m \<and>
         (\<forall>k. bsm_tracer m' k \<noteq> None \<longleftrightarrow>
            bsm_tracer m k \<noteq> None \<or> k \<in> set ks \<and> \<not> rdy (bsm_c m) k)"
  using assms
proof (induction ks arbitrary: m)
  case Nil
  then show ?case by auto
next
  case (Cons k ks)
  show ?case
  proof (cases "bsm_tracer m k = None \<and> \<not> rdy (bsm_c m) k")
    case True
    let ?m = "insert_slot m k"
    have same: "bsm_c ?m = bsm_c m" and tr: "bsm_tracer ?m j \<noteq> None \<longleftrightarrow> bsm_tracer m j \<noteq> None \<or> j = k" for j
      by (simp_all add: insert_slot_def)
    from Cons.IH [of ?m] Cons.prems same obtain m' where
      m': "mark_pending_loop ro ?m ks =
             (m', Inr (filter (\<lambda>j. bsm_tracer ?m j = None \<and> \<not> rdy (bsm_c m) j) ks))"
      "bsm_c m' = bsm_c m"
      "\<forall>j. bsm_tracer m' j \<noteq> None \<longleftrightarrow> bsm_tracer ?m j \<noteq> None \<or> j \<in> set ks \<and> \<not> rdy (bsm_c m) j"
      by auto
    have "filter (\<lambda>j. bsm_tracer ?m j = None \<and> \<not> rdy (bsm_c m) j) ks =
        filter (\<lambda>j. bsm_tracer m j = None \<and> \<not> rdy (bsm_c m) j) ks"
      using Cons.prems(2) by (intro filter_cong) (auto simp: insert_slot_def)
    with m' True Cons.prems(1) [of k] tr show ?thesis by auto
  next
    case False
    from Cons.IH [of m] Cons.prems obtain m' where
      "mark_pending_loop ro m ks =
         (m', Inr (filter (\<lambda>j. bsm_tracer m j = None \<and> \<not> rdy (bsm_c m) j) ks))"
      "bsm_c m' = bsm_c m"
      "\<forall>j. bsm_tracer m' j \<noteq> None \<longleftrightarrow> bsm_tracer m j \<noteq> None \<or> j \<in> set ks \<and> \<not> rdy (bsm_c m) j"
      by auto
    with False Cons.prems(1) [of k] show ?thesis by auto
  qed
qed

lemma check_range_spec:
  assumes "inv (bsm_c m)" and "valid (bsm_c m) s n" and "ro_indices ro (bsm_c m) s n = Inr ks"
  shows "\<exists>m'. rsm_check_range_ready_and_mark_pending ro m s n =
             (m', Inr (if \<forall>k \<in> set ks. rdy (bsm_c m) k then None
                       else Some (filter (\<lambda>k. bsm_tracer m k = None \<and> \<not> rdy (bsm_c m) k) ks))) \<and>
           bsm_c m' = bsm_c m \<and>
           (\<forall>k. bsm_tracer m' k \<noteq> None \<longleftrightarrow>
              bsm_tracer m k \<noteq> None \<or> k \<in> set ks \<and> \<not> rdy (bsm_c m) k)"
proof (cases "\<forall>k \<in> set ks. rdy (bsm_c m) k")
  case True
  then have "filter (\<lambda>k. \<not> rdy (bsm_c m) k) ks = []" by (simp add: filter_empty_conv)
  then show ?thesis
    using check [OF assms] True
    by (auto simp: rsm_check_range_ready_and_mark_pending_def none_if_empty_def)
next
  case False
  let ?u = "filter (\<lambda>k. \<not> rdy (bsm_c m) k) ks"
  have ne: "?u \<noteq> []" using False by (simp add: filter_empty_conv)
  have d: "distinct ?u" using indices [OF assms(1,2)] assms(3) by auto
  from mark_pending_loop_ok [OF assms(1), of ?u] ready1 [OF assms] d obtain m' where
    m': "mark_pending_loop ro m ?u = (m', Inr (filter (\<lambda>k. bsm_tracer m k = None \<and> \<not> rdy (bsm_c m) k) ?u))"
    "bsm_c m' = bsm_c m"
    "\<forall>k. bsm_tracer m' k \<noteq> None \<longleftrightarrow> bsm_tracer m k \<noteq> None \<or> k \<in> set ?u \<and> \<not> rdy (bsm_c m) k"
    by auto
  have "filter (\<lambda>k. bsm_tracer m k = None \<and> \<not> rdy (bsm_c m) k) ?u =
      filter (\<lambda>k. bsm_tracer m k = None \<and> \<not> rdy (bsm_c m) k) ks"
    by (auto intro: filter_cong simp: conj_commute)
  with m' check [OF assms] ne False show ?thesis
    by (auto simp: rsm_check_range_ready_and_mark_pending_def none_if_empty_def)
qed

lemma set_range_spec:
  assumes "inv (bsm_c m)" and "valid (bsm_c m) s n" and "ro_indices ro (bsm_c m) s n = Inr ks"
  shows "\<exists>m'. rsm_set_range_ready_and_clear_pending ro m s n = (m', Inr ()) \<and> inv (bsm_c m') \<and>
           ro_is_range_ready ro (bsm_c m') s n = Inr True \<and>
           (\<forall>k. bsm_tracer m' k = (if k \<in> set ks then None else bsm_tracer m k))"
proof -
  obtain c' r where cr: "ro_set ro (bsm_c m) s n = (c', r)" by fastforce
  note set' = set_range [OF assms cr]
  then have "ro_is_range_ready ro c' s n = Inr True" using ready_range [of c' s n ks] by simp
  then show ?thesis
    using cr set' by (simp add: rsm_set_range_ready_and_clear_pending_def rsm_clear_range_pending_def
        foldl_remove_slot)
qed

end

definition icm_valid_range :: "IndexedChunkMap \<Rightarrow> u32 \<Rightarrow> u32 \<Rightarrow> bool" where
  "icm_valid_range c s n \<longleftrightarrow> unat s + unat n \<le> unat (pm_count (icm_map c))"

definition icm_rdy :: "IndexedChunkMap \<Rightarrow> u32 \<Rightarrow> bool" where
  "icm_rdy c k = pm_bit (icm_map c) k"

lemma clamp32_valid:
  "icm_valid_range c s n \<Longrightarrow> clamp32 s n = n"
  using range_end(1) [of s n "icm_map c"] by (simp add: icm_valid_range_def clamp32_def)

lemma icm_indices:
  assumes "icm_valid_range c s n" and "ro_indices icm_range_ops c s n = Inr ks"
  shows "ks = range32 s (s + n)" and "k \<in> set ks \<Longrightarrow> k < pm_count (icm_map c)"
  using assms clamp32_valid [OF assms(1)] range_end(3) [of s n "icm_map c"]
  by (auto simp: icm_range_ops_def icm_valid_range_def)

interpretation icr: range_map icm_range_ops icm_inv icm_valid_range icm_rdy
proof unfold_locales
  fix c s n
  show "\<exists>ks. ro_indices icm_range_ops c s n = Inr ks \<and> distinct ks"
    by (simp add: icm_range_ops_def distinct_range32)
next
  fix c s n ks k
  assume "icm_inv c" "icm_valid_range c s n" "ro_indices icm_range_ops c s n = Inr ks" "k \<in> set ks"
  then show "ro_ready1 icm_range_ops c k = Inr (icm_rdy c k)"
    using icm_indices [of c s n ks]
    by (simp add: icm_range_ops_def icm_is_range_ready_one icm_inv_def icm_rdy_def)
next
  fix c s n ks
  assume "icm_inv c" "icm_valid_range c s n" "ro_indices icm_range_ops c s n = Inr ks"
  then show "ro_is_range_ready icm_range_ops c s n = Inr (\<forall>k \<in> set ks. icm_rdy c k)"
    using icm_range_eqs(1) [of c s n] clamp32_valid [of c s n] icm_indices(1) [of c s n ks]
    by (simp add: icm_range_ops_def icm_inv_def icm_valid_range_def icm_rdy_def)
next
  fix c s n ks
  assume "icm_inv c" "icm_valid_range c s n" "ro_indices icm_range_ops c s n = Inr ks"
  then show "ro_check icm_range_ops c s n = Inr (none_if_empty (filter (\<lambda>k. \<not> icm_rdy c k) ks))"
    using icm_range_eqs(2) [of c s n] icm_indices(1) [of c s n ks]
    by (simp add: icm_range_ops_def icm_inv_def icm_valid_range_def icm_rdy_def)
next
  fix c s n ks c' r
  assume inv: "icm_inv c" and val: "icm_valid_range c s n"
    and ks: "ro_indices icm_range_ops c s n = Inr ks" and set: "ro_set icm_range_ops c s n = (c', r)"
  note idx = icm_indices [OF val ks]
  have R: "\<forall>i \<in> set (range32 s (s + n)). i < pm_count (icm_map c)" using idx by blast
  have c': "c' = c\<lparr>icm_map := mark_bits (icm_map c) (range32 s (s + n))\<rparr>" "r = Inr ()"
    using set icm_range_eqs(3) [of c s n] inv val
    by (simp_all add: icm_range_ops_def icm_inv_def icm_valid_range_def)
  have "pm_sound (icm_map c)" using inv by (simp add: icm_inv_def)
  then have "icm_inv c'" "\<forall>k \<in> set ks. icm_rdy c' k"
    using pm_sound_mark_bits [OF _ R] pm_bit_mark_bits [OF pm_sound_wf R] idx(1)
    by (auto simp: icm_inv_def icm_rdy_def c')
  moreover have "ro_indices icm_range_ops c' s n = Inr ks" using ks by (simp add: icm_range_ops_def)
  moreover have "icm_valid_range c' s n" using val by (simp add: icm_valid_range_def c')
  ultimately show "r = Inr () \<and> icm_inv c' \<and> ro_indices icm_range_ops c' s n = Inr ks \<and>
      icm_valid_range c' s n \<and> (\<forall>k \<in> set ks. icm_rdy c' k)"
    using c' by blast
qed

definition brm_inv :: "BlobRangeMap \<Rightarrow> bool" where
  "brm_inv c \<longleftrightarrow> pm_sound (brm_map c)"

definition brm_rdy :: "BlobRangeMap \<Rightarrow> u64 \<Rightarrow> bool" where
  "brm_rdy c k = chunk_bit (pm_data (brm_map c)) (unat k div unit_size c)"

text \<open>The key of a unit is its byte offset, and the byte at that offset lies in the unit.\<close>

lemma unat_unit_key:
  assumes "unat (i :: u32) * unit_size c < 2 ^ 64"
  shows "unat (shl64 (ucast i) (brm_shift c)) = unat i * unit_size c"
proof -
  have u: "unat (ucast i :: u64) = unat i" by (rule unat_ucast_up) simp
  have "unat (shl64 (ucast i) (brm_shift c)) = take_bit 64 (push_bit (unat (brm_shift c) mod 64) (unat i))"
    by (simp only: shl64_def unsigned_push_bit_eq u) simp
  also have "\<dots> = take_bit 64 (unat i * unit_size c)"
    by (simp only: push_bit_eq_mult unit_size_def)
  also have "\<dots> = unat i * unit_size c" using assms by (simp add: take_bit_nat_eq_self)
  finally show ?thesis .
qed

lemma brm_keys:
  assumes "in_blob c s n" and "brm_get_range c s n = Inr (a, b)" and "i \<in> set (range32 a b)"
  shows "unat i * unit_size c < unat s + unat n" and "unat i < unat (pm_count (brm_map c))"
    and "unat (shl64 (ucast i) (brm_shift c)) = unat i * unit_size c"
proof -
  have n: "0 < n" and lt: "unat s + unat n < 2 ^ 64" using assms(1) by (auto simp: in_blob_def)
  note r = brm_get_range_Inr [OF assms(2) n]
  have "unat i \<le> (unat s + unat n - 1) div unit_size c"
    using assms(3) r(2) by (simp add: word_less_nat_alt unit_size_def)
  then have "unat i * unit_size c \<le> (unat s + unat n - 1) div unit_size c * unit_size c" by simp
  also have "\<dots> \<le> unat s + unat n - 1" by simp
  finally show *: "unat i * unit_size c < unat s + unat n"
    using n by (simp add: word_less_nat_alt)
  show "unat i < unat (pm_count (brm_map c))" using r(3) assms(3) by (simp add: word_less_nat_alt)
  show "unat (shl64 (ucast i) (brm_shift c)) = unat i * unit_size c"
    by (rule unat_unit_key) (use * lt in linarith)
qed

lemma brm_indices:
  assumes "in_blob c s n" and "ro_indices brm_range_ops c s n = Inr ks"
  obtains a b where "brm_get_range c s n = Inr (a, b)"
    and "ks = map (\<lambda>i. shl64 (ucast i) (brm_shift c)) (range32 a b)"
  using assms by (auto simp: brm_range_ops_def result_iffs)

lemma brm_rdy_key:
  assumes "in_blob c s n" and "brm_get_range c s n = Inr (a, b)" and "i \<in> set (range32 a b)"
  shows "brm_rdy c (shl64 (ucast i) (brm_shift c)) = pm_bit (brm_map c) i"
  using brm_keys(3) [OF assms] unit_size_pos [of c] by (simp add: brm_rdy_def)

interpretation brr: range_map brm_range_ops brm_inv in_blob brm_rdy
proof unfold_locales
  fix c s n
  assume val: "in_blob c s n"
  then obtain a b where r: "brm_get_range c s n = Inr (a, b)" using brm_get_range_in_blob by blast
  have "inj_on (\<lambda>i. shl64 (ucast i) (brm_shift c)) (set (range32 a b))"
  proof (rule inj_onI)
    fix i j assume i: "i \<in> set (range32 a b)" and j: "j \<in> set (range32 a b)"
      and eq: "shl64 (ucast i) (brm_shift c) = shl64 (ucast j) (brm_shift c)"
    from eq have "unat (shl64 (ucast i) (brm_shift c)) = unat (shl64 (ucast j) (brm_shift c))" by (rule arg_cong)
    then have "unat i * unit_size c = unat j * unit_size c"
      using brm_keys(3) [OF val r i] brm_keys(3) [OF val r j] by linarith
    then show "i = j" using unit_size_pos [of c] by (simp add: word_unat_eq_iff)
  qed
  then show "\<exists>ks. ro_indices brm_range_ops c s n = Inr ks \<and> distinct ks"
    using r by (simp add: brm_range_ops_def distinct_map distinct_range32)
next
  fix c s n ks k
  assume inv: "brm_inv c" and val: "in_blob c s n"
    and ks: "ro_indices brm_range_ops c s n = Inr ks" and k: "k \<in> set ks"
  obtain a b where r: "brm_get_range c s n = Inr (a, b)"
    and ks': "ks = map (\<lambda>i. shl64 (ucast i) (brm_shift c)) (range32 a b)"
    using brm_indices [OF val ks] .
  obtain i where i: "i \<in> set (range32 a b)" and k': "k = shl64 (ucast i) (brm_shift c)"
    using k ks' by auto
  note u = brm_keys [OF val r i]
  have "(unat i + 1) * unit_size c \<le> unat (pm_count (brm_map c)) * unit_size c"
    using u(2) by (intro mult_le_mono1) simp
  moreover have "unat s + unat n < 2 ^ 64" using val by (simp add: in_blob_def)
  moreover have "unat k = unat i * unit_size c" using u(3) k' by simp
  ultimately have "in_blob c k 1"
    using u(1) unit_size_pos [of c] unfolding in_blob_def by (simp add: add_mult_distrib)
  then have "brm_is_range_ready c k 1 = Inr (\<forall>b. unat k \<le> b \<and> b < unat k + 1 \<longrightarrow> byte_ready c b)"
    using brm_is_range_ready_eq [of c k 1] inv by (simp add: brm_inv_def)
  moreover have "(\<forall>b. unat k \<le> b \<and> b < unat k + 1 \<longrightarrow> byte_ready c b) \<longleftrightarrow> brm_rdy c k"
    by (auto simp: byte_ready_def brm_rdy_def le_less_Suc_eq)
  ultimately show "ro_ready1 brm_range_ops c k = Inr (brm_rdy c k)"
    by (simp add: brm_range_ops_def)
next
  fix c s n ks
  assume inv: "brm_inv c" and val: "in_blob c s n" and ks: "ro_indices brm_range_ops c s n = Inr ks"
  obtain a b where r: "brm_get_range c s n = Inr (a, b)"
    and ks': "ks = map (\<lambda>i. shl64 (ucast i) (brm_shift c)) (range32 a b)"
    using brm_indices [OF val ks] .
  have n: "0 < n" using val by (simp add: in_blob_def)
  note eqs = brm_range_eqs [OF _ r n]
  note key = brm_rdy_key [OF val r]
  show "ro_is_range_ready brm_range_ops c s n = Inr (\<forall>k \<in> set ks. brm_rdy c k)"
    using eqs(1) inv key by (simp add: brm_range_ops_def brm_inv_def ks')
  have "map (\<lambda>i. shl64 (ucast i) (brm_shift c)) (filter (\<lambda>i. \<not> pm_bit (brm_map c) i) (range32 a b)) =
      filter (\<lambda>k. \<not> brm_rdy c k) ks"
    unfolding ks' filter_map o_def
    by (rule arg_cong [where f = "map _"], rule filter_cong) (simp_all add: key del: set_range32)
  then show "ro_check brm_range_ops c s n = Inr (none_if_empty (filter (\<lambda>k. \<not> brm_rdy c k) ks))"
    using eqs(2) inv by (simp add: brm_range_ops_def brm_inv_def)
next
  fix c s n ks c' r'
  assume inv: "brm_inv c" and val: "in_blob c s n"
    and ks: "ro_indices brm_range_ops c s n = Inr ks" and set: "ro_set brm_range_ops c s n = (c', r')"
  obtain a b where r: "brm_get_range c s n = Inr (a, b)"
    and ks': "ks = map (\<lambda>i. shl64 (ucast i) (brm_shift c)) (range32 a b)"
    using brm_indices [OF val ks] .
  have n: "0 < n" using val by (simp add: in_blob_def)
  have s: "pm_sound (brm_map c)" using inv by (simp add: brm_inv_def)
  note R = brm_get_range_Inr(3) [OF r n]
  let ?pm = "if is_range_all_ready (brm_map c) then brm_map c else mark_bits (brm_map c) (range32 a b)"
  have c': "c' = c\<lparr>brm_map := ?pm\<rparr>" "r' = Inr ()"
    using set brm_range_eqs(3) [OF s r n] by (auto simp: brm_range_ops_def)
  have gr: "brm_get_range c' = brm_get_range c" by (rule brm_get_range_map) (simp_all add: c')
  have us: "unit_size c' = unit_size c" "brm_shift c' = brm_shift c" by (simp_all add: unit_size_def c')
  have val': "in_blob c' s n" using val by (simp add: in_blob_def us) (simp add: c')
  have inv': "brm_inv c'" using s pm_sound_mark_bits [OF s R] by (simp add: brm_inv_def c')
  have "pm_bit ?pm i" if "i \<in> set (range32 a b)" for i
    using that R pm_bit_mark_bits [OF pm_sound_wf [OF s] R] sound_all_ready [OF s] by auto
  moreover have "brm_get_range c' s n = Inr (a, b)" by (simp add: gr r)
  ultimately have "\<forall>k \<in> set ks. brm_rdy c' k"
    using brm_rdy_key [OF val', of a b] by (auto simp: ks' us c' simp del: set_range32)
  moreover have "ro_indices brm_range_ops c' s n = Inr ks"
    using ks by (simp add: brm_range_ops_def gr us)
  ultimately show "r' = Inr () \<and> brm_inv c' \<and> ro_indices brm_range_ops c' s n = Inr ks \<and>
      in_blob c' s n \<and> (\<forall>k \<in> set ks. brm_rdy c' k)"
    using c' inv' val' by blast
qed

section \<open>Properties of the range operations\<close>

text \<open>
  C31. No two callers download the same chunk. For a range inside the map,
  \<open>check_range_ready_and_mark_pending\<close> returns the chunks that are neither ready nor already
  pending, in order, and marks every chunk of the range that is not ready as pending; a second
  caller, for any overlapping range and before the first has finished, is given none of the chunks
  that the first was given.
\<close>

theorem check_range_exclusive:
  assumes "icm_inv (bsm_c m)" and "icm_valid_range (bsm_c m) s n" and "icm_valid_range (bsm_c m) s' n'"
    and "icsm_check_range_ready_and_mark_pending m s n = (m1, Inr (Some v))"
    and "icsm_check_range_ready_and_mark_pending m1 s' n' = (m2, Inr (Some w))"
  shows "v = filter (\<lambda>k. bsm_tracer m k = None \<and> \<not> icm_rdy (bsm_c m) k) (range32 s (s + n)) \<and>
         (\<forall>k \<in> set (range32 s (s + n)). \<not> icm_rdy (bsm_c m) k \<longrightarrow> bsm_tracer m1 k \<noteq> None) \<and>
         set v \<inter> set w = {}"
proof -
  have idx: "ro_indices icm_range_ops c a b = Inr (range32 a (a + b))" if "icm_valid_range c a b" for c a b
    using clamp32_valid [OF that] by (simp add: icm_range_ops_def)
  have one: "v = filter (\<lambda>k. bsm_tracer m k = None \<and> \<not> icm_rdy (bsm_c m) k) (range32 s (s + n))"
    "bsm_c m1 = bsm_c m"
    "\<forall>k. bsm_tracer m1 k \<noteq> None \<longleftrightarrow>
       bsm_tracer m k \<noteq> None \<or> k \<in> set (range32 s (s + n)) \<and> \<not> icm_rdy (bsm_c m) k"
    using icr.check_range_spec [OF assms(1,2) idx [OF assms(2)]] assms(4)
    by (auto simp: icsm_check_range_ready_and_mark_pending_def split: if_splits)
  have two: "w = filter (\<lambda>k. bsm_tracer m1 k = None \<and> \<not> icm_rdy (bsm_c m) k) (range32 s' (s' + n'))"
    using icr.check_range_spec [of m1 s' n'] idx [OF assms(3)] assms(1,3,5) one(2)
    by (auto simp: icsm_check_range_ready_and_mark_pending_def split: if_splits)
  show ?thesis using one two by (auto simp del: set_range32 not_None_eq)
qed

definition demo_bsm :: "(IndexedChunkMap, u32) BlobStateMap" where
  "demo_bsm = BlobStateMap_from \<lparr>icm_map = demo_pm\<rparr>"

lemma demo_bsm_inv: "icm_inv (bsm_c demo_bsm)"
  using pm_exact_sound [OF demo_pm_exact] by (simp add: demo_bsm_def BlobStateMap_from_def icm_inv_def)

lemma demo_bsm_valid: "icm_valid_range (bsm_c demo_bsm) s n \<longleftrightarrow> unat s + unat n \<le> 3"
proof -
  have "pm_count demo_pm = 3" by (simp add: demo_pm_def)
  then show ?thesis by (simp add: demo_bsm_def BlobStateMap_from_def icm_valid_range_def)
qed

lemma demo_bsm_rdy: "i < 3 \<Longrightarrow> icm_rdy (bsm_c demo_bsm) i \<longleftrightarrow> i = 1"
  using demo_pm_bit [of "unat i"]
  by (simp add: demo_bsm_def BlobStateMap_from_def icm_rdy_def word_less_nat_alt word_unat_eq_iff [of i 1])

theorem check_range_exclusive_witness:
  "\<exists>m1 m2. icsm_check_range_ready_and_mark_pending demo_bsm 0 2 = (m1, Inr (Some [0])) \<and>
     icsm_check_range_ready_and_mark_pending m1 0 3 = (m2, Inr (Some [2])) \<and>
     set [0] \<inter> set [2 :: u32] = {}"
proof -
  have R: "range32 0 2 = [0, 1]" "range32 0 3 = [0, 1, 2]" by (simp_all add: range32_def upt_rec)
  have v: "icm_valid_range (bsm_c demo_bsm) 0 2" "icm_valid_range (bsm_c demo_bsm) 0 3"
    by (simp_all add: demo_bsm_valid)
  have idx: "ro_indices icm_range_ops (bsm_c demo_bsm) 0 2 = Inr [0, 1]"
    "ro_indices icm_range_ops (bsm_c demo_bsm) 0 3 = Inr [0, 1, 2]"
    using clamp32_valid [OF v(1)] clamp32_valid [OF v(2)] R by (simp_all add: icm_range_ops_def)
  have t: "bsm_tracer demo_bsm = Map.empty" by (simp add: demo_bsm_def BlobStateMap_from_def)
  have keys: "((k = 0 \<or> k = 1) \<and> \<not> icm_rdy (bsm_c demo_bsm) k) \<longleftrightarrow> k = 0" for k :: u32
    using demo_bsm_rdy [of k] by auto
  obtain m1 where m1: "icsm_check_range_ready_and_mark_pending demo_bsm 0 2 = (m1, Inr (Some [0]))"
    "bsm_c m1 = bsm_c demo_bsm" "\<forall>k. bsm_tracer m1 k \<noteq> None \<longleftrightarrow> k = 0"
    using icr.check_range_spec [OF demo_bsm_inv v(1) idx(1)] keys
    by (auto simp: icsm_check_range_ready_and_mark_pending_def demo_bsm_rdy t simp del: not_None_eq)
  have e: "bsm_tracer m1 2 = None" "bsm_tracer m1 0 \<noteq> None" using m1(3) [rule_format, of 2] m1(3) [rule_format, of 0] by simp_all
  obtain m2 where m2: "icsm_check_range_ready_and_mark_pending m1 0 3 = (m2, Inr (Some [2]))"
    using icr.check_range_spec [of m1 0 3] demo_bsm_inv v(2) idx(2) m1(2) e
    by (auto simp: icsm_check_range_ready_and_mark_pending_def demo_bsm_rdy)
  have "set [0] \<inter> set [2 :: u32] = {}"
    using check_range_exclusive [OF demo_bsm_inv v m1(1) m2] by blast
  with m1(1) m2 show ?thesis by blast
qed

text \<open>
  After \<open>set_range_ready_and_clear_pending\<close> over a byte range of the blob the whole range is
  ready and none of its units is pending any more, while the pending state of every other unit is
  kept; so a caller that waits for another unit is not woken by it.
\<close>

theorem set_byte_range_clears_pending:
  assumes "pm_sound (brm_map (bsm_c m))" and "in_blob (bsm_c m) s n"
  shows "\<exists>ks m'. ro_indices brm_range_ops (bsm_c m) s n = Inr ks \<and>
           brsm_set_range_ready_and_clear_pending m s n = (m', Inr ()) \<and>
           brm_is_range_ready (bsm_c m') s n = Inr True \<and>
           (\<forall>k. bsm_tracer m' k = (if k \<in> set ks then None else bsm_tracer m k))"
proof -
  have inv: "brm_inv (bsm_c m)" using assms(1) by (simp add: brm_inv_def)
  obtain ks where ks: "ro_indices brm_range_ops (bsm_c m) s n = Inr ks"
    using brr.indices [OF inv assms(2)] by blast
  from brr.set_range_spec [OF inv assms(2) ks] ks show ?thesis
    by (auto simp: brsm_set_range_ready_and_clear_pending_def brm_range_ops_def)
qed

theorem set_byte_range_clears_pending_witness:
  "\<exists>m'. brsm_set_range_ready_and_clear_pending
     (BlobStateMap_from \<lparr>brm_shift = 12, brm_map = demo_pm\<rparr>) 0 4096 = (m', Inr ()) \<and>
     brm_is_range_ready (bsm_c m') 0 4096 = Inr True"
proof -
  let ?m = "BlobStateMap_from \<lparr>brm_shift = 12, brm_map = demo_pm\<rparr> :: (BlobRangeMap, u64) BlobStateMap"
  have c: "bsm_c ?m = \<lparr>brm_shift = 12, brm_map = demo_pm\<rparr>" by (simp add: BlobStateMap_from_def)
  have "pm_count demo_pm = 3" by (simp add: demo_pm_def)
  then have i: "in_blob (bsm_c ?m) 0 4096" by (simp add: c in_blob_def unit_size_def)
  have s: "pm_sound (brm_map (bsm_c ?m))" using pm_exact_sound [OF demo_pm_exact] by (simp add: c)
  from set_byte_range_clears_pending [OF s i] show ?thesis by blast
qed

section \<open>A range that reaches past the last chunk\<close>

lemma mark_pending_loop_append:
  "mark_pending_loop ro m (xs @ ys) =
     (case mark_pending_loop ro m xs of
        (m', Inl e) \<Rightarrow> (m', Inl e)
      | (m', Inr v) \<Rightarrow>
          (let (m'', r) = mark_pending_loop ro m' ys
           in (m'', case r of Inl e \<Rightarrow> Inl e | Inr w \<Rightarrow> Inr (v @ w))))"
  by (induction xs arbitrary: m) (auto simp: Let_def split: sum.splits prod.splits)

text \<open>The bit behind the last chunk is in the file, and clear, unless the count is a multiple of eight.\<close>

lemma padding_bit:
  assumes "wf_pm pm" and "unat (pm_count pm) mod 8 \<noteq> 0"
  shows "\<exists>b. is_chunk_ready pm (pm_count pm) = Inr (False, b)"
proof -
  let ?n = "unat (pm_count pm)"
  have "?n div 8 < bitmap_len (pm_count pm)"
  proof -
    have "1 \<le> ?n mod 8" using assms(2) by simp
    then have "?n div 8 * 8 + 8 \<le> ?n + 7" using div_mult_mod_eq [of ?n 8] by linarith
    then have "(?n div 8 + 1) * 8 div 8 \<le> (?n + 7) div 8" by (intro div_le_mono) simp
    then show ?thesis by (simp add: bitmap_len_def)
  qed
  then have "HEADER_SIZE + ?n div 8 < length (pm_data pm)" and "?n < 8 * bitmap_len (pm_count pm)"
    using assms(1) div_mult_mod_eq [of ?n 8] mod_less_divisor [of 8 ?n]
    by (simp_all add: wf_pm_def)
  moreover from this(2) have "\<not> chunk_bit (pm_data pm) ?n" using assms(1) by (simp add: wf_pm_def)
  ultimately show ?thesis
    using is_chunk_ready_eq [of pm "pm_count pm"] assms(1) by (simp add: wf_pm_def)
qed

lemma range32_Suc:
  assumes "unat a \<le> unat b" and "unat b + 1 < 2 ^ 32"
  shows "range32 a (b + 1) = range32 a b @ [b]"
proof -
  have "unat (b + 1) = unat b + 1" using unat_add_less [of b 1] assms(2) by simp
  then show ?thesis using assms(1) by (simp add: range32_def upt_Suc_append)
qed

lemma collect_not_ready_append:
  "collect_not_ready pm (xs @ ys) =
     and_then (collect_not_ready pm xs) (\<lambda>v. and_then (collect_not_ready pm ys) (\<lambda>w. Inr (v @ w)))"
proof (induction xs)
  case Nil
  then show ?case by (cases "collect_not_ready pm ys") simp_all
next
  case (Cons x xs)
  then show ?case
    by (cases "is_chunk_ready pm x"; cases "collect_not_ready pm xs"; cases "collect_not_ready pm ys")
      (auto split: prod.splits)
qed

text \<open>
  \<open>check_range_ready_and_mark_pending\<close> does not validate its range. If the range reaches one
  chunk past the end of a map whose number of chunks is not a multiple of eight, the call fails with
  EINVAL, but every chunk of the map that was neither ready nor pending has been marked pending on
  the way: the caller was told of an error and owns no chunk, so nobody will ever clear these marks
  and every later reader of the chunks waits until its timeout.
\<close>

theorem check_past_end_leaks_pending:
  assumes "icm_inv (bsm_c m)" and "n = pm_count (icm_map (bsm_c m))" and "unat n mod 8 \<noteq> 0"
    and "unat n + 1 < 2 ^ 32" and "\<not> is_range_all_ready (icm_map (bsm_c m))" and "bsm_tracer m n = None"
  shows "\<exists>m'. icsm_check_range_ready_and_mark_pending m 0 (n + 1) = (m', Inl EINVAL) \<and>
           (\<forall>k < n. \<not> icm_rdy (bsm_c m) k \<longrightarrow> bsm_tracer m' k \<noteq> None)"
proof -
  let ?c = "bsm_c m" and ?pm = "icm_map (bsm_c m)"
  let ?R = "range32 0 n" and ?u = "filter (\<lambda>k. \<not> icm_rdy (bsm_c m) k) (range32 0 n)"
  have s: "pm_sound ?pm" and wf: "wf_pm ?pm" using assms(1) by (auto simp: icm_inv_def)
  have v: "icm_valid_range ?c 0 n" by (simp add: icm_valid_range_def assms(2))
  have idx: "ro_indices icm_range_ops ?c 0 n = Inr ?R"
    using clamp32_valid [OF v] by (simp add: icm_range_ops_def)
  have R: "\<forall>i \<in> set ?R. i < pm_count ?pm" by (simp add: assms(2))
  have "clamp32 0 (n + 1) = n + 1"
    using unat_add_less [of n 1] assms(4)
    by (auto simp: clamp32_def min_def u32_MAX_def word_le_nat_alt)
  then have "icm_check_range_ready_and_mark_pending ?c 0 (n + 1) =
      and_then (collect_not_ready ?pm (?R @ [n])) (\<lambda>vec. Inr (none_if_empty vec))"
    using assms(5) range32_Suc [of 0 n] assms(4)
    by (simp add: icm_check_range_ready_and_mark_pending_def clamp32_def Let_def)
  also have "collect_not_ready ?pm (?R @ [n]) = Inr (?u @ [n])"
  proof -
    obtain b where "is_chunk_ready ?pm n = Inr (False, b)"
      using padding_bit [OF wf] assms(2,3) by auto
    then show ?thesis
      by (simp add: collect_not_ready_append collect_not_ready_eq [OF wf R] icm_rdy_def)
  qed
  finally have ck: "ro_check icm_range_ops ?c 0 (n + 1) = Inr (Some (?u @ [n]))"
    by (simp add: icm_range_ops_def none_if_empty_def)
  have "ro_ready1 icm_range_ops ?c k = Inr (icm_rdy ?c k)" if "k \<in> set ?u" for k
    using icr.ready1 [OF assms(1) v idx, of k] that by simp
  then obtain m1 where m1:
    "mark_pending_loop icm_range_ops m ?u = (m1, Inr (filter (\<lambda>k. bsm_tracer m k = None \<and> \<not> icm_rdy ?c k) ?u))"
    "bsm_c m1 = ?c"
    "\<forall>k. bsm_tracer m1 k \<noteq> None \<longleftrightarrow> bsm_tracer m k \<noteq> None \<or> k \<in> set ?u \<and> \<not> icm_rdy ?c k"
    using icr.mark_pending_loop_ok [OF assms(1), of ?u] distinct_range32 by auto
  have "bsm_tracer m1 n = None"
    using m1(3) [rule_format, of n] assms(6) by auto
  moreover have "range32 0 1 = [0]" by (simp add: range32_def)
  then have "ro_ready1 icm_range_ops ?c n = Inl EINVAL"
    using assms(2,5)
    by (simp add: icm_range_ops_def icm_is_range_ready_def checked_add_def validate_index_def)
  ultimately have "mark_pending_loop icm_range_ops m (?u @ [n]) = (m1, Inl EINVAL)"
    using m1(1,2) by (simp add: mark_pending_loop_append)
  then have "icsm_check_range_ready_and_mark_pending m 0 (n + 1) = (m1, Inl EINVAL)"
    using ck by (simp add: icsm_check_range_ready_and_mark_pending_def
        rsm_check_range_ready_and_mark_pending_def)
  moreover have "\<forall>k < n. \<not> icm_rdy ?c k \<longrightarrow> bsm_tracer m1 k \<noteq> None"
    using m1(3) by auto
  ultimately show ?thesis by blast
qed

theorem check_past_end_leaks_pending_witness:
  "\<exists>m'. icsm_check_range_ready_and_mark_pending demo_bsm 0 4 = (m', Inl EINVAL) \<and>
     bsm_tracer m' 0 \<noteq> None"
proof -
  have c: "icm_map (bsm_c demo_bsm) = demo_pm" by (simp add: demo_bsm_def BlobStateMap_from_def)
  have n: "3 = pm_count (icm_map (bsm_c demo_bsm))" and a: "\<not> is_range_all_ready (icm_map (bsm_c demo_bsm))"
    and t: "bsm_tracer demo_bsm 3 = None"
    by (simp_all add: c) (simp_all add: demo_pm_def is_range_all_ready_def demo_bsm_def BlobStateMap_from_def)
  from check_past_end_leaks_pending [OF demo_bsm_inv n _ _ a t] demo_bsm_rdy [of 0] show ?thesis
    by auto
qed

end
