(* ===== verification/Blob_State_Conc.thy ===== *)
theory Blob_State_Conc
  imports Blob_State_Map
begin

text \<open>
  Threads that share a \<open>BlobStateMap\<close>. A thread checks a chunk with \<open>check_ready_and_mark_pending\<close>,
  may have to wait for the thread that downloads it, and, when the chunk is its own to download,
  ends with \<open>set_ready_and_clear_pending\<close> or, after a failed download, with \<open>clear_pending\<close>. The
  pieces of an operation between which other threads can run are separate steps: the check before
  the lock, the part under the lock of the table, the wait, the update of the underlying map, the
  removal from the table. The invariant is proved once for every chunk map that meets the contract
  \<open>chunk_map\<close>.
\<close>

section \<open>Threads and steps\<close>

datatype check_pc =
    Checking BlobChunkInfo
  | Locking BlobChunkInfo
  | Waiting BlobChunkInfo nat
  | Owning BlobChunkInfo
  | Clearing BlobChunkInfo
  | Is_ready BlobChunkInfo
  | Timed_out BlobChunkInfo
  | Failed BlobChunkInfo err
  | Released BlobChunkInfo

record ('c, 'i) bsm_sys =
  y_map :: "('c, 'i) BlobStateMap"
  y_pcs :: "check_pc list"

fun after_locked :: "BlobChunkInfo \<Rightarrow> check_outcome \<Rightarrow> check_pc" where
  "after_locked k (Answer True) = Is_ready k"
| "after_locked k (Answer False) = Owning k"
| "after_locked k (Fails e) = Failed k e"
| "after_locked k (Wait_on s) = Waiting k s"

inductive bsm_step :: "('c, 'i) chunk_ops \<Rightarrow> ('c, 'i) bsm_sys \<Rightarrow> ('c, 'i) bsm_sys \<Rightarrow> bool"
  for ops :: "('c, 'i) chunk_ops" where
  first_answer: "\<lbrakk>t < length (y_pcs y); y_pcs y ! t = Checking k; bsm_check_first ops (y_map y) k = Some out\<rbrakk> \<Longrightarrow>
    bsm_step ops y (y\<lparr>y_pcs := (y_pcs y)[t := after_locked k out]\<rparr>)"
| first_pass: "\<lbrakk>t < length (y_pcs y); y_pcs y ! t = Checking k; bsm_check_first ops (y_map y) k = None\<rbrakk> \<Longrightarrow>
    bsm_step ops y (y\<lparr>y_pcs := (y_pcs y)[t := Locking k]\<rparr>)"
| locked: "\<lbrakk>t < length (y_pcs y); y_pcs y ! t = Locking k; bsm_check_locked ops (y_map y) k = (m', out)\<rbrakk> \<Longrightarrow>
    bsm_step ops y (y\<lparr>y_map := m', y_pcs := (y_pcs y)[t := after_locked k out]\<rparr>)"
| woken: "\<lbrakk>t < length (y_pcs y); y_pcs y ! t = Waiting k s; bsm_slots (y_map y) ! s = Complete\<rbrakk> \<Longrightarrow>
    bsm_step ops y (y\<lparr>y_pcs := (y_pcs y)[t := Checking k]\<rparr>)"
| timed_out: "\<lbrakk>t < length (y_pcs y); y_pcs y ! t = Waiting k s\<rbrakk> \<Longrightarrow>
    bsm_step ops y (y\<lparr>y_pcs := (y_pcs y)[t := Timed_out k]\<rparr>)"
| set_ready_step: "\<lbrakk>t < length (y_pcs y); y_pcs y ! t = Owning k; op_set_ready ops (bsm_c (y_map y)) k = (c', r)\<rbrakk> \<Longrightarrow>
    bsm_step ops y (y\<lparr>y_map := (y_map y)\<lparr>bsm_c := c'\<rparr>, y_pcs := (y_pcs y)[t := Clearing k]\<rparr>)"
| give_up: "\<lbrakk>t < length (y_pcs y); y_pcs y ! t = Owning k\<rbrakk> \<Longrightarrow>
    bsm_step ops y (y\<lparr>y_pcs := (y_pcs y)[t := Clearing k]\<rparr>)"
| clear: "\<lbrakk>t < length (y_pcs y); y_pcs y ! t = Clearing k\<rbrakk> \<Longrightarrow>
    bsm_step ops y (y\<lparr>y_map := bsm_clear_pending ops (y_map y) k, y_pcs := (y_pcs y)[t := Released k]\<rparr>)"

text \<open>Threads start with a new map, and a call is made for a chunk of the blob.\<close>

inductive bsm_reach ::
  "('c, 'i) chunk_ops \<Rightarrow> ('c \<Rightarrow> bool) \<Rightarrow> ('c \<Rightarrow> BlobChunkInfo \<Rightarrow> bool) \<Rightarrow> ('c, 'i) bsm_sys \<Rightarrow> bool"
  for ops :: "('c, 'i) chunk_ops" and ok :: "'c \<Rightarrow> bool" and valid :: "'c \<Rightarrow> BlobChunkInfo \<Rightarrow> bool" where
  start: "ok c \<Longrightarrow> bsm_reach ops ok valid \<lparr>y_map = BlobStateMap_from c, y_pcs = []\<rparr>"
| call: "\<lbrakk>bsm_reach ops ok valid y; valid (bsm_c (y_map y)) k\<rbrakk> \<Longrightarrow>
    bsm_reach ops ok valid (y\<lparr>y_pcs := y_pcs y @ [Checking k]\<rparr>)"
| step: "\<lbrakk>bsm_reach ops ok valid y; bsm_step ops y y'\<rbrakk> \<Longrightarrow> bsm_reach ops ok valid y'"

section \<open>Invariant\<close>

text \<open>The chunk index a thread is responsible for.\<close>

fun owns :: "('c, 'i) chunk_ops \<Rightarrow> check_pc \<Rightarrow> 'i option" where
  "owns ops (Owning k) = Some (op_get_index ops k)"
| "owns ops (Clearing k) = Some (op_get_index ops k)"
| "owns ops _ = None"

fun pc_fine ::
  "('c, 'i) chunk_ops \<Rightarrow> ('c \<Rightarrow> BlobChunkInfo \<Rightarrow> bool) \<Rightarrow> ('c, 'i) BlobStateMap \<Rightarrow> check_pc \<Rightarrow> bool" where
  "pc_fine ops valid m (Checking k) \<longleftrightarrow> valid (bsm_c m) k"
| "pc_fine ops valid m (Locking k) \<longleftrightarrow> valid (bsm_c m) k"
| "pc_fine ops valid m (Waiting k s) \<longleftrightarrow> valid (bsm_c m) k \<and> s < length (bsm_slots m) \<and>
     (bsm_slots m ! s = Inflight \<longrightarrow> bsm_tracer m (op_get_index ops k) = Some s)"
| "pc_fine ops valid m (Owning k) \<longleftrightarrow> valid (bsm_c m) k \<and> bsm_tracer m (op_get_index ops k) \<noteq> None \<and>
     op_is_ready ops (bsm_c m) k = Inr False"
| "pc_fine ops valid m (Clearing k) \<longleftrightarrow> valid (bsm_c m) k \<and> bsm_tracer m (op_get_index ops k) \<noteq> None"
| "pc_fine ops valid m (Is_ready k) \<longleftrightarrow> valid (bsm_c m) k \<and> op_is_ready ops (bsm_c m) k = Inr True"
| "pc_fine ops valid m (Timed_out k) \<longleftrightarrow> True"
| "pc_fine ops valid m (Failed k e) \<longleftrightarrow> False"
| "pc_fine ops valid m (Released k) \<longleftrightarrow> True"

definition sole_owner :: "('c, 'i) chunk_ops \<Rightarrow> check_pc list \<Rightarrow> bool" where
  "sole_owner ops ps \<longleftrightarrow>
     (\<forall>t u i. t < length ps \<and> u < length ps \<and> owns ops (ps ! t) = Some i \<and> owns ops (ps ! u) = Some i \<longrightarrow> t = u)"

definition tracer_fine :: "('c, 'i) chunk_ops \<Rightarrow> ('c, 'i) BlobStateMap \<Rightarrow> check_pc list \<Rightarrow> bool" where
  "tracer_fine ops m ps \<longleftrightarrow>
     (\<forall>i s. bsm_tracer m i = Some s \<longrightarrow>
        s < length (bsm_slots m) \<and> bsm_slots m ! s = Inflight \<and> (\<exists>p \<in> set ps. owns ops p = Some i)) \<and>
     (\<forall>i j s. bsm_tracer m i = Some s \<and> bsm_tracer m j = Some s \<longrightarrow> i = j)"

definition sys_inv ::
  "('c, 'i) chunk_ops \<Rightarrow> ('c \<Rightarrow> bool) \<Rightarrow> ('c \<Rightarrow> BlobChunkInfo \<Rightarrow> bool) \<Rightarrow> ('c, 'i) bsm_sys \<Rightarrow> bool" where
  "sys_inv ops ok valid y \<longleftrightarrow> ok (bsm_c (y_map y)) \<and>
     (\<forall>p \<in> set (y_pcs y). pc_fine ops valid (y_map y) p) \<and>
     tracer_fine ops (y_map y) (y_pcs y) \<and> sole_owner ops (y_pcs y)"

text \<open>A thread moves: what has to be shown when its ownership does not change.\<close>

lemma sole_ownerD:
  "\<lbrakk>sole_owner ops ps; t < length ps; u < length ps; owns ops (ps ! t) = Some i; owns ops (ps ! u) = Some i\<rbrakk> \<Longrightarrow> t = u"
  unfolding sole_owner_def by blast

lemma sole_owner_update:
  assumes "sole_owner ops ps"
    and "\<And>u i. \<lbrakk>u < length ps; u \<noteq> t; owns ops p = Some i\<rbrakk> \<Longrightarrow> owns ops (ps ! u) \<noteq> Some i"
  shows "sole_owner ops (ps[t := p])"
  unfolding sole_owner_def
proof (intro allI impI)
  fix a b i
  assume *: "a < length (ps[t := p]) \<and> b < length (ps[t := p]) \<and>
    owns ops (ps[t := p] ! a) = Some i \<and> owns ops (ps[t := p] ! b) = Some i"
  then have len: "a < length ps" "b < length ps" by simp_all
  from * have own: "owns ops (ps[t := p] ! a) = Some i" "owns ops (ps[t := p] ! b) = Some i" by blast+
  show "a = b"
  proof (rule ccontr)
    assume "a \<noteq> b"
    then consider "a = t" "b \<noteq> t" | "b = t" "a \<noteq> t" | "a \<noteq> t" "b \<noteq> t" by blast
    then show False
    proof cases
      case 1
      then show ?thesis using len own assms(2) [of b i] by simp
    next
      case 2
      then show ?thesis using len own assms(2) [of a i] by simp
    next
      case 3
      then show ?thesis using len own sole_ownerD [OF assms(1), of a b i] \<open>a \<noteq> b\<close> by simp
    qed
  qed
qed

lemma sole_owner_same:
  assumes "sole_owner ops ps" and "t < length ps" and "owns ops p = owns ops (ps ! t) \<or> owns ops p = None"
  shows "sole_owner ops (ps[t := p])"
proof (rule sole_owner_update [OF assms(1)])
  fix u i assume u: "u < length ps" "u \<noteq> t" and p: "owns ops p = Some i"
  from assms(3) p have "owns ops (ps ! t) = Some i" by (elim disjE) simp_all
  then show "owns ops (ps ! u) \<noteq> Some i" using sole_ownerD [OF assms(1) u(1) assms(2)] u(2) by blast
qed

lemma sole_owner_new:
  assumes "sole_owner ops ps" and "owns ops p = Some i" and "\<forall>q \<in> set ps. owns ops q \<noteq> Some i"
  shows "sole_owner ops (ps[t := p])"
  by (rule sole_owner_update [OF assms(1)]) (use assms(2,3) in auto)

lemma owner_update:
  assumes "t < length ps" and "p \<in> set ps" and "p \<noteq> ps ! t \<or> p = q"
  shows "p \<in> set (ps[t := q])"
proof -
  obtain u where u: "u < length ps" "ps ! u = p" using assms(2) by (auto simp: in_set_conv_nth)
  show ?thesis
  proof (cases "u = t")
    case True
    then show ?thesis using assms u by (auto simp: set_update_memI)
  next
    case False
    then have "(ps[t := q]) ! u = p" using u by simp
    then show ?thesis using u by (metis length_list_update nth_mem)
  qed
qed

lemma set_updateD: "p \<in> set (ps[t := q]) \<Longrightarrow> p \<in> set ps \<or> p = q"
  using set_update_subset_insert [of ps t q] by blast

text \<open>The two facts about the waiting and the owning threads that a change of the table must respect.\<close>

lemma pc_fine_insert:
  assumes "pc_fine ops valid m p" and "bsm_tracer m i = None"
  shows "pc_fine ops valid (insert_slot m i) p"
  using assms by (cases p) (auto simp: insert_slot_def nth_append split: if_splits)

lemma pc_fine_remove:
  assumes "pc_fine ops valid m p" and "owns ops p \<noteq> Some i" and "bsm_tracer m i = Some s"
    and "s < length (bsm_slots m)"
  shows "pc_fine ops valid (remove_slot m i) p"
  using assms by (cases p) (auto simp: remove_slot_def Slot_done_def nth_list_update split: if_splits)

lemma tracer_fine_same:
  assumes "tracer_fine ops m ps" and "t < length ps" and "owns ops p = owns ops (ps ! t)"
    and "bsm_tracer m' = bsm_tracer m" and "bsm_slots m' = bsm_slots m"
  shows "tracer_fine ops m' (ps[t := p])"
proof -
  have "\<exists>q \<in> set (ps[t := p]). owns ops q = Some i" if "\<exists>q \<in> set ps. owns ops q = Some i" for i
  proof -
    from that obtain q where q: "q \<in> set ps" "owns ops q = Some i" by blast
    show ?thesis
    proof (cases "q = ps ! t")
      case True
      then show ?thesis using assms(2,3) q(2) by (metis set_update_memI)
    next
      case False
      then show ?thesis using owner_update [OF assms(2) q(1)] q(2) by blast
    qed
  qed
  with assms(1) show ?thesis unfolding tracer_fine_def assms(4,5) by blast
qed

lemma tracer_fineI:
  assumes "\<And>i s. bsm_tracer m i = Some s \<Longrightarrow>
      s < length (bsm_slots m) \<and> bsm_slots m ! s = Inflight \<and> (\<exists>p \<in> set ps. owns ops p = Some i)"
    and "\<And>i j s. \<lbrakk>bsm_tracer m i = Some s; bsm_tracer m j = Some s; i \<noteq> j\<rbrakk> \<Longrightarrow> False"
  shows "tracer_fine ops m ps"
  unfolding tracer_fine_def using assms by blast

lemma tracer_fineD:
  assumes "tracer_fine ops m ps" and "bsm_tracer m i = Some s"
  shows "s < length (bsm_slots m)" and "bsm_slots m ! s = Inflight"
    and "\<exists>p \<in> set ps. owns ops p = Some i" and "bsm_tracer m j = Some s \<Longrightarrow> i = j"
  using assms unfolding tracer_fine_def by blast+

lemma other_owner:
  assumes "\<exists>q \<in> set ps. owns ops q = Some j" and "t < length ps" and "owns ops (ps ! t) \<noteq> Some j"
  shows "\<exists>q \<in> set (ps[t := p]). owns ops q = Some j"
proof -
  from assms(1) obtain q where q: "q \<in> set ps" "owns ops q = Some j" by blast
  with assms(3) have "q \<noteq> ps ! t" by auto
  with owner_update [OF assms(2) q(1)] q(2) show ?thesis by blast
qed

lemma tracer_fine_insert:
  assumes "tracer_fine ops m ps" and "t < length ps" and "owns ops (ps ! t) = None"
    and "owns ops p = Some i" and "bsm_tracer m i = None"
  shows "tracer_fine ops (insert_slot m i) (ps[t := p])"
proof (rule tracer_fineI)
  fix j s assume j: "bsm_tracer (insert_slot m i) j = Some s"
  show "s < length (bsm_slots (insert_slot m i)) \<and> bsm_slots (insert_slot m i) ! s = Inflight \<and>
      (\<exists>q \<in> set (ps[t := p]). owns ops q = Some j)"
  proof (cases "j = i")
    case True
    moreover have "p \<in> set (ps[t := p])" using assms(2) by (simp add: set_update_memI)
    ultimately show ?thesis using j assms(4) by (auto simp: insert_slot_def)
  next
    case False
    then have old: "bsm_tracer m j = Some s" using j by (simp add: insert_slot_def)
    have "\<exists>q \<in> set (ps[t := p]). owns ops q = Some j"
      by (rule other_owner) (use tracer_fineD(3) [OF assms(1) old] assms(2,3) in auto)
    with tracer_fineD(1,2) [OF assms(1) old] show ?thesis by (simp add: insert_slot_def nth_append)
  qed
next
  fix j k s
  assume "bsm_tracer (insert_slot m i) j = Some s" "bsm_tracer (insert_slot m i) k = Some s" "j \<noteq> k"
  then show False
    using tracer_fineD(1) [OF assms(1), of j s] tracer_fineD(1) [OF assms(1), of k s]
      tracer_fineD(4) [OF assms(1), of j s k]
    by (auto simp: insert_slot_def split: if_splits)
qed

lemma tracer_fine_remove:
  assumes "tracer_fine ops m ps" and "t < length ps" and "owns ops (ps ! t) = Some i"
  shows "tracer_fine ops (remove_slot m i) (ps[t := p])"
proof (rule tracer_fineI)
  fix j s assume "bsm_tracer (remove_slot m i) j = Some s"
  then have old: "bsm_tracer m j = Some s" and ne: "j \<noteq> i" by (auto split: if_splits)
  have "bsm_tracer m i \<noteq> Some s" using tracer_fineD(4) [OF assms(1) old, of i] ne by blast
  then have "bsm_slots (remove_slot m i) ! s = bsm_slots m ! s"
    "length (bsm_slots (remove_slot m i)) = length (bsm_slots m)"
    by (auto simp: remove_slot_def Slot_done_def split: option.splits)
  moreover have "\<exists>q \<in> set (ps[t := p]). owns ops q = Some j"
    by (rule other_owner) (use tracer_fineD(3) [OF assms(1) old] assms(2,3) ne in auto)
  ultimately show "s < length (bsm_slots (remove_slot m i)) \<and> bsm_slots (remove_slot m i) ! s = Inflight \<and>
      (\<exists>q \<in> set (ps[t := p]). owns ops q = Some j)"
    using tracer_fineD(1,2) [OF assms(1) old] by simp
next
  fix j k s
  assume "bsm_tracer (remove_slot m i) j = Some s" "bsm_tracer (remove_slot m i) k = Some s" "j \<noteq> k"
  then show False using tracer_fineD(4) [OF assms(1), of j s k] by (auto split: if_splits)
qed

lemma set_update_cases:
  assumes "q \<in> set (ps[t := p])"
  obtains "q = p" | u where "u < length ps" and "u \<noteq> t" and "q = ps ! u"
proof -
  from assms obtain u where u: "u < length ps" "(ps[t := p]) ! u = q" by (auto simp: in_set_conv_nth)
  show thesis
  proof (cases "u = t")
    case True
    then show thesis using u that(1) by simp
  next
    case False
    then show thesis using u that(2) by simp
  qed
qed

text \<open>An owner of an index has its entry in the table.\<close>

lemma owner_in_tracer: "\<lbrakk>pc_fine ops valid m p; owns ops p = Some i\<rbrakk> \<Longrightarrow> bsm_tracer m i \<noteq> None"
  by (cases p) auto

fun ended :: "check_pc \<Rightarrow> bool" where
  "ended (Is_ready k) = True"
| "ended (Timed_out k) = True"
| "ended (Failed k e) = True"
| "ended (Released k) = True"
| "ended _ = False"

section \<open>The invariant is kept\<close>

context chunk_map
begin

lemma sys_inv_move:
  assumes "sys_inv ops inv valid y" and "t < length (y_pcs y)" and "owns ops p = owns ops (y_pcs y ! t)"
    and "pc_fine ops valid (y_map y) p"
  shows "sys_inv ops inv valid (y\<lparr>y_pcs := (y_pcs y)[t := p]\<rparr>)"
  using assms tracer_fine_same [of ops "y_map y" "y_pcs y" t p "y_map y"] sole_owner_same [of ops "y_pcs y" t p]
    set_updateD [of _ "y_pcs y" t p]
  by (auto simp: sys_inv_def)

lemma check_first_valid:
  assumes "inv (bsm_c m)" and "valid (bsm_c m) k"
  shows "bsm_check_first ops m k = (if op_is_ready ops (bsm_c m) k = Inr True then Some (Answer True) else None)"
  using ready_total [OF assms] by (auto simp: bsm_check_first_def cache_index_def)

lemma check_locked_valid:
  assumes "inv (bsm_c m)" and "valid (bsm_c m) k"
  shows "bsm_check_locked ops m k =
     (case bsm_tracer m (op_get_index ops k) of
        Some s \<Rightarrow> (m, Wait_on s)
      | None \<Rightarrow> if op_is_ready ops (bsm_c m) k = Inr True then (m, Answer True)
                else (insert_slot m (op_get_index ops k), Answer False))"
  using ready_total [OF assms]
  by (auto simp: bsm_check_locked_def cache_index_def Let_def split: option.splits)

lemma not_ready_False:
  "\<lbrakk>inv c; valid c k; op_is_ready ops c k \<noteq> Inr True\<rbrakk> \<Longrightarrow> op_is_ready ops c k = Inr False"
  using ready_total [of c k] by auto

lemma sys_inv_locked:
  assumes "sys_inv ops inv valid y" and t: "t < length (y_pcs y)" and "y_pcs y ! t = Locking k"
    and "bsm_check_locked ops (y_map y) k = (m', out)"
  shows "sys_inv ops inv valid (y\<lparr>y_map := m', y_pcs := (y_pcs y)[t := after_locked k out]\<rparr>)"
proof -
  let ?m = "y_map y" and ?i = "op_get_index ops k"
  have i: "inv (bsm_c ?m)" and fine: "\<forall>p \<in> set (y_pcs y). pc_fine ops valid ?m p"
    and tr: "tracer_fine ops ?m (y_pcs y)" and so: "sole_owner ops (y_pcs y)"
    using assms(1) by (auto simp: sys_inv_def)
  have v: "valid (bsm_c ?m) k" using fine nth_mem [OF t] assms(3) by fastforce
  note lk = check_locked_valid [OF i v]
  show ?thesis
  proof (cases "bsm_tracer ?m ?i")
    case (Some s)
    then have "m' = ?m" "out = Wait_on s" using assms(4) lk by simp_all
    then show ?thesis
      using sys_inv_move [OF assms(1) t, of "Waiting k s"] assms(3) v Some tracer_fineD(1) [OF tr Some] by simp
  next
    case None
    show ?thesis
    proof (cases "op_is_ready ops (bsm_c ?m) k = Inr True")
      case True
      then have "m' = ?m" "out = Answer True" using assms(4) lk None by simp_all
      then show ?thesis using sys_inv_move [OF assms(1) t, of "Is_ready k"] assms(3) v True by simp
    next
      case False
      then have m': "m' = insert_slot ?m ?i" and out: "out = Answer False" using assms(4) lk None by simp_all
      have "\<forall>q \<in> set (y_pcs y). owns ops q \<noteq> Some ?i"
        using owner_in_tracer [of ops valid ?m _ ?i] fine None by auto
      then have "sole_owner ops ((y_pcs y)[t := Owning k])" by (intro sole_owner_new [OF so]) simp_all
      moreover have "tracer_fine ops m' ((y_pcs y)[t := Owning k])"
        unfolding m' by (rule tracer_fine_insert [OF tr t]) (simp_all add: assms(3) None)
      moreover have "pc_fine ops valid m' (Owning k)"
        using v not_ready_False [OF i v False] by (simp add: m' insert_slot_def)
      then have "\<forall>p \<in> set ((y_pcs y)[t := Owning k]). pc_fine ops valid m' p"
        using fine pc_fine_insert [of ops valid ?m _ ?i] None set_updateD [of _ "y_pcs y" t "Owning k"]
        unfolding m' by blast
      moreover have "inv (bsm_c m')" using i by (simp add: m' insert_slot_def)
      ultimately show ?thesis by (simp add: sys_inv_def out)
    qed
  qed
qed

lemma sys_inv_set_ready:
  assumes "sys_inv ops inv valid y" and t: "t < length (y_pcs y)" and own: "y_pcs y ! t = Owning k"
    and set: "op_set_ready ops (bsm_c (y_map y)) k = (c', r)"
  shows "sys_inv ops inv valid (y\<lparr>y_map := (y_map y)\<lparr>bsm_c := c'\<rparr>, y_pcs := (y_pcs y)[t := Clearing k]\<rparr>)"
proof -
  let ?m = "y_map y" and ?m' = "(y_map y)\<lparr>bsm_c := c'\<rparr>"
  have i: "inv (bsm_c ?m)" and fine: "\<forall>p \<in> set (y_pcs y). pc_fine ops valid ?m p"
    and tr: "tracer_fine ops ?m (y_pcs y)" and so: "sole_owner ops (y_pcs y)"
    using assms(1) by (auto simp: sys_inv_def)
  have pk: "pc_fine ops valid ?m (Owning k)" using fine nth_mem [OF t] own by fastforce
  then have v: "valid (bsm_c ?m) k" by simp
  note sr = set_ready [OF i v set]
  have "pc_fine ops valid ?m' p" if "p \<in> set ((y_pcs y)[t := Clearing k])" for p
    using that
  proof (cases rule: set_update_cases)
    case 1
    then show ?thesis using pk sr by simp
  next
    case (2 u)
    have pf: "pc_fine ops valid ?m p" using fine 2 by simp
    have "op_get_index ops j \<noteq> op_get_index ops k" if "p = Owning j" for j
    proof -
      have "y_pcs y ! u = Owning j" using 2(3) that by simp
      then show ?thesis using sole_ownerD [OF so 2(1) t, of "op_get_index ops k"] 2(2) own by auto
    qed
    with pf sr show ?thesis by (cases p) auto
  qed
  moreover have "tracer_fine ops ?m' ((y_pcs y)[t := Clearing k])"
    by (rule tracer_fine_same [OF tr t]) (simp_all add: own)
  moreover have "sole_owner ops ((y_pcs y)[t := Clearing k])"
    by (rule sole_owner_same [OF so t]) (simp add: own)
  ultimately show ?thesis using sr by (simp add: sys_inv_def)
qed

lemma sys_inv_clear:
  assumes "sys_inv ops inv valid y" and t: "t < length (y_pcs y)" and own: "y_pcs y ! t = Clearing k"
  shows "sys_inv ops inv valid (y\<lparr>y_map := bsm_clear_pending ops (y_map y) k, y_pcs := (y_pcs y)[t := Released k]\<rparr>)"
proof -
  let ?m = "y_map y" and ?i = "op_get_index ops k"
  have i: "inv (bsm_c ?m)" and fine: "\<forall>p \<in> set (y_pcs y). pc_fine ops valid ?m p"
    and tr: "tracer_fine ops ?m (y_pcs y)" and so: "sole_owner ops (y_pcs y)"
    using assms(1) by (auto simp: sys_inv_def)
  have "pc_fine ops valid ?m (Clearing k)" using fine nth_mem [OF t] own by fastforce
  then obtain s where s: "bsm_tracer ?m ?i = Some s" by auto
  have "pc_fine ops valid (remove_slot ?m ?i) p" if "p \<in> set ((y_pcs y)[t := Released k])" for p
    using that
  proof (cases rule: set_update_cases)
    case 1
    then show ?thesis by simp
  next
    case (2 u)
    have "owns ops p \<noteq> Some ?i" using sole_ownerD [OF so 2(1) t, of ?i] 2 own by auto
    then show ?thesis using pc_fine_remove [OF _ _ s tracer_fineD(1) [OF tr s]] fine 2 by simp
  qed
  moreover have "tracer_fine ops (remove_slot ?m ?i) ((y_pcs y)[t := Released k])"
    by (rule tracer_fine_remove [OF tr t]) (simp add: own)
  moreover have "sole_owner ops ((y_pcs y)[t := Released k])"
    by (rule sole_owner_same [OF so t]) simp
  ultimately show ?thesis using i by (simp add: sys_inv_def bsm_clear_pending_def)
qed

lemma sys_inv_step:
  assumes "bsm_step ops y y'" and "sys_inv ops inv valid y"
  shows "sys_inv ops inv valid y'"
  using assms
proof (induction rule: bsm_step.induct)
  case (first_answer t y k out)
  have "pc_fine ops valid (y_map y) (Checking k)"
    using first_answer nth_mem [of t "y_pcs y"] by (fastforce simp: sys_inv_def)
  moreover from this first_answer have "op_is_ready ops (bsm_c (y_map y)) k = Inr True" "out = Answer True"
    using check_first_valid [of "y_map y" k] by (auto simp: sys_inv_def split: if_splits)
  ultimately show ?case
    using sys_inv_move [OF first_answer(4,1), of "Is_ready k"] first_answer(2) by simp
next
  case (first_pass t y k)
  have "pc_fine ops valid (y_map y) (Checking k)"
    using first_pass nth_mem [of t "y_pcs y"] by (fastforce simp: sys_inv_def)
  then show ?case using sys_inv_move [OF first_pass(4,1), of "Locking k"] first_pass(2) by simp
next
  case (locked t y k m' out)
  then show ?case by (intro sys_inv_locked)
next
  case (woken t y k s)
  have "pc_fine ops valid (y_map y) (Waiting k s)"
    using woken nth_mem [of t "y_pcs y"] by (fastforce simp: sys_inv_def)
  then show ?case using sys_inv_move [OF woken(4,1), of "Checking k"] woken(2) by simp
next
  case (timed_out t y k s)
  then show ?case using sys_inv_move [OF timed_out(3,1), of "Timed_out k"] by simp
next
  case (set_ready_step t y k c' r)
  then show ?case by (intro sys_inv_set_ready)
next
  case (give_up t y k)
  have "pc_fine ops valid (y_map y) (Owning k)"
    using give_up nth_mem [of t "y_pcs y"] by (fastforce simp: sys_inv_def)
  then show ?case using sys_inv_move [OF give_up(3,1), of "Clearing k"] give_up(2) by simp
next
  case (clear t y k)
  then show ?case by (intro sys_inv_clear)
qed

lemma sys_inv_reach: "bsm_reach ops inv valid y \<Longrightarrow> sys_inv ops inv valid y"
proof (induction rule: bsm_reach.induct)
  case (start c)
  then show ?case by (simp add: sys_inv_def BlobStateMap_from_def tracer_fine_def sole_owner_def)
next
  case (call y k)
  then show ?case
    by (auto simp: sys_inv_def tracer_fine_def sole_owner_def nth_append less_Suc_eq)
next
  case (step y y')
  then show ?case by (blast intro: sys_inv_step)
qed

lemma reach_safe:
  assumes "bsm_reach ops inv valid y"
  shows "\<lbrakk>t < length (y_pcs y); u < length (y_pcs y);
      owns ops (y_pcs y ! t) = Some i; owns ops (y_pcs y ! u) = Some i\<rbrakk> \<Longrightarrow> t = u"
    and "Owning k \<in> set (y_pcs y) \<Longrightarrow> op_is_ready ops (bsm_c (y_map y)) k = Inr False"
    and "Is_ready k \<in> set (y_pcs y) \<Longrightarrow> op_is_ready ops (bsm_c (y_map y)) k = Inr True"
    and "Failed k e \<notin> set (y_pcs y)"
proof -
  have inv: "sys_inv ops inv valid y" by (rule sys_inv_reach [OF assms])
  then have fine: "\<And>p. p \<in> set (y_pcs y) \<Longrightarrow> pc_fine ops valid (y_map y) p" and so: "sole_owner ops (y_pcs y)"
    by (auto simp: sys_inv_def)
  show "\<lbrakk>t < length (y_pcs y); u < length (y_pcs y);
      owns ops (y_pcs y ! t) = Some i; owns ops (y_pcs y ! u) = Some i\<rbrakk> \<Longrightarrow> t = u"
    using sole_ownerD [OF so] by blast
  show "Owning k \<in> set (y_pcs y) \<Longrightarrow> op_is_ready ops (bsm_c (y_map y)) k = Inr False"
    using fine [of "Owning k"] by simp
  show "Is_ready k \<in> set (y_pcs y) \<Longrightarrow> op_is_ready ops (bsm_c (y_map y)) k = Inr True"
    using fine [of "Is_ready k"] by simp
  show "Failed k e \<notin> set (y_pcs y)" using fine [of "Failed k e"] by auto
qed

lemma reach_wakeup:
  assumes "bsm_reach ops inv valid y" and "Waiting k s \<in> set (y_pcs y)" and "bsm_slots (y_map y) ! s = Inflight"
  shows "\<exists>p \<in> set (y_pcs y). owns ops p = Some (op_get_index ops k)"
    and "bsm_slots (bsm_clear_pending ops (y_map y) j) ! s = Complete \<longleftrightarrow>
           op_get_index ops j = op_get_index ops k"
proof -
  have inv: "sys_inv ops inv valid y" by (rule sys_inv_reach [OF assms(1)])
  then have "pc_fine ops valid (y_map y) (Waiting k s)" and tr: "tracer_fine ops (y_map y) (y_pcs y)"
    using assms(2) by (auto simp: sys_inv_def)
  then have t: "bsm_tracer (y_map y) (op_get_index ops k) = Some s" and s: "s < length (bsm_slots (y_map y))"
    using assms(3) by simp_all
  show "\<exists>p \<in> set (y_pcs y). owns ops p = Some (op_get_index ops k)" by (rule tracer_fineD(3) [OF tr t])
  show "bsm_slots (bsm_clear_pending ops (y_map y) j) ! s = Complete \<longleftrightarrow>
      op_get_index ops j = op_get_index ops k"
  proof (cases "bsm_tracer (y_map y) (op_get_index ops j) = Some s")
    case True
    then show ?thesis
      using s tracer_fineD(4) [OF tr t True] by (simp add: bsm_clear_pending_def remove_slot_def Slot_done_def)
  next
    case False
    then have "op_get_index ops j \<noteq> op_get_index ops k" using t by auto
    with False show ?thesis
      using assms(3) by (auto simp: bsm_clear_pending_def remove_slot_def Slot_done_def split: option.splits)
  qed
qed

text \<open>Without time-outs, some thread can move unless every thread has come to its end.\<close>

lemma reach_progress:
  assumes "bsm_reach ops inv valid y" and "p \<in> set (y_pcs y)" and "\<not> ended p"
  shows "\<exists>t y'. t < length (y_pcs y) \<and> bsm_step ops y y' \<and>
           (\<forall>k s. y_pcs y ! t = Waiting k s \<longrightarrow> y_pcs y' ! t = Checking k) \<and> y_pcs y' ! t \<noteq> y_pcs y ! t"
proof -
  have move: "\<exists>y'. bsm_step ops y y' \<and> (\<forall>k s. y_pcs y ! t = Waiting k s \<longrightarrow> y_pcs y' ! t = Checking k) \<and>
      y_pcs y' ! t \<noteq> y_pcs y ! t"
    if t: "t < length (y_pcs y)" and q: "\<not> ended (y_pcs y ! t)"
      and w: "\<And>k s. y_pcs y ! t = Waiting k s \<Longrightarrow> bsm_slots (y_map y) ! s = Complete" for t
  proof (cases "y_pcs y ! t")
    case (Checking k)
    show ?thesis
    proof (cases "bsm_check_first ops (y_map y) k")
      case None
      then show ?thesis using bsm_step.first_pass [OF t Checking None] Checking t by fastforce
    next
      case (Some out)
      have "after_locked k out \<noteq> Checking k" by (cases "(k, out)" rule: after_locked.cases) auto
      then show ?thesis using bsm_step.first_answer [OF t Checking Some] Checking t by fastforce
    qed
  next
    case (Locking k)
    obtain m' out where lk: "bsm_check_locked ops (y_map y) k = (m', out)" by fastforce
    have "after_locked k out \<noteq> Locking k" by (cases "(k, out)" rule: after_locked.cases) auto
    then show ?thesis using bsm_step.locked [OF t Locking lk] Locking t by fastforce
  next
    case (Waiting k s)
    then show ?thesis using bsm_step.woken [OF t Waiting w [OF Waiting]] t by fastforce
  next
    case (Owning k)
    then show ?thesis using bsm_step.give_up [OF t Owning] t by fastforce
  next
    case (Clearing k)
    then show ?thesis using bsm_step.clear [OF t Clearing] t by fastforce
  qed (use q in auto)
  from assms(2) obtain t where t: "t < length (y_pcs y)" "y_pcs y ! t = p" by (auto simp: in_set_conv_nth)
  show ?thesis
  proof (cases "\<exists>k s. p = Waiting k s \<and> bsm_slots (y_map y) ! s = Inflight")
    case True
    then obtain k s where "Waiting k s \<in> set (y_pcs y)" "bsm_slots (y_map y) ! s = Inflight"
      using assms(2) by blast
    from reach_wakeup(1) [OF assms(1) this] obtain q where q: "q \<in> set (y_pcs y)" "owns ops q \<noteq> None" by auto
    then obtain u where u: "u < length (y_pcs y)" "y_pcs y ! u = q" by (auto simp: in_set_conv_nth)
    with q(2) have "\<not> ended (y_pcs y ! u)" "\<And>k s. y_pcs y ! u \<noteq> Waiting k s" by (cases q; simp)+
    with move [of u] u(1) show ?thesis by blast
  next
    case False
    have "bsm_slots (y_map y) ! s = Complete" if "y_pcs y ! t = Waiting k s" for k s
      using False that t(2) by (cases "bsm_slots (y_map y) ! s") auto
    with move [of t] t assms(3) show ?thesis by blast
  qed
qed

end

section \<open>Properties\<close>


text \<open>A run of two threads that ask for the same chunk.\<close>

definition demo_chunk :: BlobChunkInfo where
  "demo_chunk = \<lparr>ci_chunk_id = [], ci_id = 0, ci_blob_index = 0, ci_compressed_offset = 0,
     ci_compressed_size = 10, ci_uncompressed_offset = 0, ci_uncompressed_size = 20, ci_is_compressed = True\<rparr>"

definition demo_owned :: "(IndexedChunkMap, u32) bsm_sys" where
  "demo_owned = \<lparr>y_map = insert_slot demo_bsm 0, y_pcs = [Owning demo_chunk, Waiting demo_chunk 0]\<rparr>"

lemma demo_owned_reach: "bsm_reach icm_ops icm_inv icm_valid demo_owned"
proof -
  let ?k = demo_chunk and ?m = demo_bsm
  have c: "bsm_c ?m = \<lparr>icm_map = demo_pm\<rparr>" by (simp add: demo_bsm_def BlobStateMap_from_def)
  have v: "icm_valid (bsm_c ?m) ?k"
    unfolding icm_valid_def c by (simp add: demo_chunk_def) (simp add: demo_pm_def)
  have nr: "op_is_ready icm_ops (bsm_c ?m) ?k \<noteq> Inr True"
    using icm_is_ready_valid [of "bsm_c ?m" ?k] v demo_bsm_inv demo_pm_bit [of 0]
    by (simp add: icm_ops_def icm_inv_def icm_valid_def c demo_chunk_def)
  have ix: "op_get_index icm_ops ?k = 0" by (simp add: icm_ops_def icm_get_index_def demo_chunk_def)
  note start = bsm_reach.start [of icm_inv "\<lparr>icm_map = demo_pm\<rparr>" icm_ops icm_valid, folded demo_bsm_def]
  have "bsm_reach icm_ops icm_inv icm_valid \<lparr>y_map = ?m, y_pcs = []\<rparr>"
    using start demo_bsm_inv by (simp add: c)
  from bsm_reach.call [OF this, of ?k]
  have "bsm_reach icm_ops icm_inv icm_valid \<lparr>y_map = ?m, y_pcs = [Checking ?k]\<rparr>" using v by simp
  from bsm_reach.call [OF this, of ?k]
  have r0: "bsm_reach icm_ops icm_inv icm_valid \<lparr>y_map = ?m, y_pcs = [Checking ?k, Checking ?k]\<rparr>"
    using v by simp
  have cf: "bsm_check_first icm_ops ?m ?k = None" using icm.check_first_valid [OF demo_bsm_inv v] nr by simp
  from bsm_reach.step [OF r0 bsm_step.first_pass [of 0 _ ?k]] cf
  have "bsm_reach icm_ops icm_inv icm_valid \<lparr>y_map = ?m, y_pcs = [Locking ?k, Checking ?k]\<rparr>" by simp
  from bsm_reach.step [OF this bsm_step.first_pass [of 1 _ ?k]] cf
  have r1: "bsm_reach icm_ops icm_inv icm_valid \<lparr>y_map = ?m, y_pcs = [Locking ?k, Locking ?k]\<rparr>" by simp
  have t: "bsm_tracer ?m = Map.empty" "bsm_slots ?m = []" by (simp_all add: demo_bsm_def BlobStateMap_from_def)
  have lk: "bsm_check_locked icm_ops ?m ?k = (insert_slot ?m 0, Answer False)"
    using icm.check_locked_valid [OF demo_bsm_inv v] nr ix t by simp
  from bsm_reach.step [OF r1 bsm_step.locked [of 0 _ ?k icm_ops "insert_slot ?m 0" "Answer False"]] lk
  have r2: "bsm_reach icm_ops icm_inv icm_valid \<lparr>y_map = insert_slot ?m 0, y_pcs = [Owning ?k, Locking ?k]\<rparr>"
    by simp
  have lk2: "bsm_check_locked icm_ops (insert_slot ?m 0) ?k = (insert_slot ?m 0, Wait_on 0)"
    using ix t by (simp add: bsm_check_locked_def insert_slot_def)
  from bsm_reach.step [OF r2 bsm_step.locked [of 1 _ ?k icm_ops "insert_slot ?m 0" "Wait_on 0"]] lk2 show ?thesis
    by (simp add: demo_owned_def)
qed




text \<open>The same holds over the digested map.\<close>

lemma dcm_one_download:
  assumes "bsm_reach dcm_ops (\<lambda>_. True) (\<lambda>_ _. True) y"
    and "t < length (y_pcs y)" and "u < length (y_pcs y)"
    and "owns dcm_ops (y_pcs y ! t) = Some i" and "owns dcm_ops (y_pcs y ! u) = Some i"
  shows "t = u"
  by (rule dcm.reach_safe(1) [OF assms])

end
