(* ===== verification/Io_Merge.thy ===== *)
theory Io_Merge
  imports Blob_Device
begin

text \<open>
  \<open>BlobIoMergeState\<close> of \<open>storage/src/cache/mod.rs\<close>: chunks of one blob that follow each other
  closely in the compressed blob are fetched with one backend request. The callback that receives
  the requests is modelled by the list of requests in the order they are issued.
\<close>

section \<open>Definitions\<close>

record BlobIoMergeState =
  ms_size :: u32
  ms_bios :: "BlobIoDesc list"
  ms_issued :: "BlobIoRange list"

definition BlobIoMergeState_new :: "BlobIoDesc \<Rightarrow> BlobIoMergeState" where
  "BlobIoMergeState_new bio =
     \<lparr>ms_size = ci_compressed_size (d_chunkinfo bio), ms_bios = [bio], ms_issued = []\<rparr>"

definition BlobIoMergeState_push :: "BlobIoMergeState \<Rightarrow> BlobIoDesc \<Rightarrow> BlobIoMergeState res" where
  "BlobIoMergeState_push st bio =
     (let start = ci_compressed_offset (d_chunkinfo bio) in
      and_then
        (if ms_bios st \<noteq> [] then
           let last' = d_chunkinfo (ms_bios st ! (length (ms_bios st) - 1));
               prev = ci_compressed_offset last' + ucast (ci_compressed_size last')
           in asserting (prev \<le> start) (
              asserting (start - prev < 0xFFFFFFFF) (
              Inr (ucast (start - prev) + ci_compressed_size (d_chunkinfo bio))))
         else Inr (ci_compressed_size (d_chunkinfo bio))) (\<lambda>size'.
      asserting (checked_add (ms_size st) size' \<noteq> None) (
      Inr (st\<lparr>ms_size := ms_size st + size', ms_bios := ms_bios st @ [bio]\<rparr>))))"

fun merge_all :: "BlobIoRange \<Rightarrow> BlobIoDesc list \<Rightarrow> u64 \<Rightarrow> BlobIoRange res" where
  "merge_all mr [] max_gap = Inr mr"
| "merge_all mr (bio # bios) max_gap =
     and_then (BlobIoRange_merge mr bio max_gap) (\<lambda>mr. merge_all mr bios max_gap)"

definition BlobIoMergeState_issue :: "BlobIoMergeState \<Rightarrow> u64 \<Rightarrow> BlobIoMergeState res" where
  "BlobIoMergeState_issue st max_gap =
     (case ms_bios st of
        [] \<Rightarrow> Inr st
      | bio # bios \<Rightarrow>
          and_then (BlobIoRange_new bio) (\<lambda>mr.
          and_then (merge_all mr bios max_gap) (\<lambda>mr.
          Inr (st\<lparr>ms_issued := ms_issued st @ [mr], ms_bios := [], ms_size := 0\<rparr>))))"

text \<open>The loop over the descriptors after the first; \<open>prev\<close> is \<open>bios[index - 1]\<close>.\<close>

fun merge_loop :: "BlobIoMergeState \<Rightarrow> BlobIoDesc \<Rightarrow> BlobIoDesc list \<Rightarrow> u64 \<Rightarrow> u64 \<Rightarrow> BlobIoMergeState res" where
  "merge_loop st prev [] max_comp_size max_gap = Inr st"
| "merge_loop st prev (cur_bio # bios) max_comp_size max_gap =
     and_then
       (if \<not> BlobIoDesc_is_continuous prev cur_bio max_gap \<or> ucast (ms_size st) \<ge> max_comp_size
        then BlobIoMergeState_issue st max_gap else Inr st) (\<lambda>st.
     and_then (BlobIoMergeState_push st cur_bio) (\<lambda>st.
     merge_loop st cur_bio bios max_comp_size max_gap))"

definition merge_and_issue :: "BlobIoDesc list \<Rightarrow> u64 \<Rightarrow> u64 \<Rightarrow> BlobIoRange list res" where
  "merge_and_issue bios max_comp_size max_gap =
     (case bios of
        [] \<Rightarrow> Inr []
      | b # bs \<Rightarrow>
          and_then (merge_loop (BlobIoMergeState_new b) b bs max_comp_size max_gap) (\<lambda>st.
          and_then (BlobIoMergeState_issue st max_gap) (\<lambda>st. Inr (ms_issued st))))"

definition RAFS_MERGING_SIZE_TO_GAP_SHIFT :: nat where
  "RAFS_MERGING_SIZE_TO_GAP_SHIFT = 7"

definition RAFS_MAX_CHUNK_SIZE :: u64 where
  "RAFS_MAX_CHUNK_SIZE = 0x1000000"

definition RAFS_DEFAULT_CHUNK_SIZE :: u64 where
  "RAFS_DEFAULT_CHUNK_SIZE = 0x100000"

definition merge_requests_for_user :: "BlobIoDesc list \<Rightarrow> u64 \<Rightarrow> BlobIoRange list option res" where
  "merge_requests_for_user bios max_comp_size =
     and_then (merge_and_issue bios max_comp_size (drop_bit RAFS_MERGING_SIZE_TO_GAP_SHIFT max_comp_size))
       (\<lambda>requests. Inr (if requests = [] then None else Some requests))"

section \<open>Requests as spans of the compressed blob\<close>

abbreviation c_start :: "BlobIoDesc \<Rightarrow> nat" where
  "c_start b \<equiv> unat (ci_compressed_offset (d_chunkinfo b))"

abbreviation c_size :: "BlobIoDesc \<Rightarrow> nat" where
  "c_size b \<equiv> unat (ci_compressed_size (d_chunkinfo b))"

definition c_end :: "BlobIoDesc \<Rightarrow> nat" where
  "c_end b = c_start b + c_size b"

text \<open>A descriptor as the filesystem layers make them: a chunk of bounded size inside the blob.\<close>

definition bio_ok :: "BlobIoDesc \<Rightarrow> bool" where
  "bio_ok b \<longleftrightarrow> c_end b < 2 ^ 64 \<and> c_size b \<le> 2 ^ 24 \<and> \<not> bi_is_legacy_stargz (d_blob b)"

fun chain :: "nat \<Rightarrow> BlobIoDesc list \<Rightarrow> bool" where
  "chain gap (a # b # bs) \<longleftrightarrow> c_end a \<le> c_start b \<and> c_start b - c_end a \<le> gap \<and>
     ci_blob_index (d_chunkinfo a) = ci_blob_index (d_chunkinfo b) \<and> chain gap (b # bs)"
| "chain gap _ \<longleftrightarrow> True"

text \<open>The request for a chain: the span from the start of the first to the end of the last chunk.\<close>

definition request_for :: "BlobIoDesc list \<Rightarrow> BlobIoRange \<Rightarrow> bool" where
  "request_for bs r \<longleftrightarrow> bs \<noteq> [] \<and> r_blob_info r = d_blob (hd bs) \<and> unat (r_blob_offset r) = c_start (hd bs) \<and>
     unat (r_blob_offset r) + unat (r_blob_size r) = c_end (last bs) \<and>
     r_chunks r = map d_chunkinfo bs \<and> r_tags r = map tag_from_desc bs"

lemma unat_c_end: "bio_ok b \<Longrightarrow>
  unat (ci_compressed_offset (d_chunkinfo b) + ucast (ci_compressed_size (d_chunkinfo b))) = c_end b"
  by (subst unat_add_less) (simp_all add: unat_ucast_up c_end_def bio_ok_def)

lemma is_continuous_iff:
  assumes "bio_ok a" and "bio_ok b"
  shows "BlobIoDesc_is_continuous a b max_gap \<longleftrightarrow>
    ci_blob_index (d_chunkinfo a) = ci_blob_index (d_chunkinfo b) \<and> c_end a \<le> c_start b \<and>
    c_start b - c_end a \<le> unat max_gap"
  using assms(2) unat_c_end [OF assms(1)]
  by (auto simp: BlobIoDesc_is_continuous_def Let_def word_le_nat_alt unat_sub bio_ok_def)

lemma chain_append:
  "chain gap (as @ [a]) \<Longrightarrow> c_end a \<le> c_start b \<Longrightarrow> c_start b - c_end a \<le> gap \<Longrightarrow>
   ci_blob_index (d_chunkinfo a) = ci_blob_index (d_chunkinfo b) \<Longrightarrow> chain gap (as @ [a, b])"
proof (induction as)
  case (Cons x xs)
  then show ?case by (cases xs) auto
qed simp

lemma chain_tail: "chain gap (a # bs) \<Longrightarrow> chain gap bs"
  by (cases bs) auto

lemma BlobIoRange_new_ok:
  assumes "bio_ok b"
  shows "\<exists>r. BlobIoRange_new b = Inr r \<and> request_for [b] r"
proof -
  have u: "unat (ucast (ci_compressed_size (d_chunkinfo b)) :: u64) = c_size b" by (rule unat_ucast_up) simp
  have "c_start b + c_size b < 2 ^ 64" using assms by (simp add: bio_ok_def c_end_def)
  then show ?thesis
    by (simp add: BlobIoRange_new_def Let_def checked_add_def u request_for_def c_end_def)
qed

lemma BlobIoRange_merge_ok:
  assumes "request_for bs r" and "bio_ok b" and "c_end (last bs) \<le> c_start b"
    and "c_start b - c_end (last bs) \<le> unat max_gap"
  shows "\<exists>r'. BlobIoRange_merge r b max_gap = Inr r' \<and> request_for (bs @ [b]) r'"
proof -
  let ?off = "ci_compressed_offset (d_chunkinfo b)" and ?sz = "ucast (ci_compressed_size (d_chunkinfo b)) :: u64"
  let ?e = "r_blob_offset r + r_blob_size r"
  have u: "unat ?sz = c_size b" by (rule unat_ucast_up) simp
  have lt: "c_start b + c_size b < 2 ^ 64" using assms(2) by (simp add: bio_ok_def c_end_def)
  have sum: "unat (r_blob_offset r) + unat (r_blob_size r) = c_end (last bs)"
    using assms(1) by (simp add: request_for_def)
  then have e: "unat ?e = c_end (last bs)"
    using assms(3) lt by (subst unat_add_less) simp_all
  have le: "?e \<le> ?off" unfolding word_le_nat_alt e using assms(3) .
  then have gap: "unat (?off - ?e) = c_start b - c_end (last bs)" by (simp add: unat_sub e)
  then have g2: "?off - ?e \<le> max_gap" unfolding word_le_nat_alt using assms(4) by simp
  define s where "s = (if ?e = ?off then ?sz else ?sz + (?off - ?e))"
  have s: "unat s = c_size b + (c_start b - c_end (last bs))"
  proof (cases "?e = ?off")
    case True
    then show ?thesis using e u by (simp add: s_def)
  next
    case False
    have "unat (?sz + (?off - ?e)) = c_size b + (c_start b - c_end (last bs))"
      using lt assms(3) by (subst unat_add_less) (simp_all add: u gap)
    with False show ?thesis by (simp add: s_def)
  qed
  have tot: "unat ?e + unat s = c_end b" using assms(3) by (simp add: e s c_end_def)
  then have add: "checked_add ?e s = Some (?e + s)" using lt by (simp add: checked_add_def c_end_def)
  have add2: "checked_add ?off ?sz = Some (?off + ?sz)" using lt by (simp add: checked_add_def u)
  let ?r' = "r\<lparr>r_blob_size := r_blob_size r + s, r_tags := r_tags r @ [tag_from_desc b],
               r_chunks := r_chunks r @ [d_chunkinfo b]\<rparr>"
  have "BlobIoRange_merge r b max_gap = Inr ?r'"
  proof (cases "?e = ?off")
    case True
    then show ?thesis using add add2 by (simp add: BlobIoRange_merge_def Let_def s_def)
  next
    case False
    with le have "?off > ?e" by simp
    then show ?thesis using add g2 False by (simp add: BlobIoRange_merge_def Let_def s_def)
  qed
  moreover have "request_for (bs @ [b]) ?r'"
  proof -
    have "unat (r_blob_size r) + unat s < 2 ^ 64" using tot e sum lt by (simp add: c_end_def)
    then have "unat (r_blob_size r + s) = unat (r_blob_size r) + unat s" by (simp add: unat_add_less)
    then show ?thesis using assms(1) sum tot e by (simp add: request_for_def)
  qed
  ultimately show ?thesis by blast
qed

lemma merge_all_ok:
  "\<lbrakk>request_for as r; chain (unat max_gap) (last as # bs); \<forall>b \<in> set bs. bio_ok b\<rbrakk> \<Longrightarrow>
     \<exists>r'. merge_all r bs max_gap = Inr r' \<and> request_for (as @ bs) r'"
proof (induction bs arbitrary: as r)
  case Nil
  then show ?case by simp
next
  case (Cons b bs)
  then obtain r1 where r1: "BlobIoRange_merge r b max_gap = Inr r1" "request_for (as @ [b]) r1"
    using BlobIoRange_merge_ok [of as r b max_gap] by auto
  with Cons.IH [of "as @ [b]" r1] Cons.prems show ?case by auto
qed

section \<open>The state between two requests\<close>

definition span :: "BlobIoDesc list \<Rightarrow> nat" where
  "span bs = c_end (last bs) - c_start (hd bs)"

definition group_ok :: "u64 \<Rightarrow> u64 \<Rightarrow> BlobIoDesc list \<Rightarrow> bool" where
  "group_ok max_comp_size max_gap g \<longleftrightarrow> g \<noteq> [] \<and> chain (unat max_gap) g \<and> (\<forall>b \<in> set g. bio_ok b) \<and>
     span g \<le> unat max_comp_size + unat max_gap + 2 ^ 24"

text \<open>The sizes of a merged request fit into 32 bits.\<close>

definition merge_params_ok :: "u64 \<Rightarrow> u64 \<Rightarrow> bool" where
  "merge_params_ok max_comp_size max_gap \<longleftrightarrow> unat max_comp_size + unat max_gap + 2 ^ 24 < 2 ^ 32 - 1"

definition merge_state_ok :: "u64 \<Rightarrow> u64 \<Rightarrow> BlobIoMergeState \<Rightarrow> bool" where
  "merge_state_ok max_comp_size max_gap st \<longleftrightarrow>
     group_ok max_comp_size max_gap (ms_bios st) \<and> unat (ms_size st) = span (ms_bios st)"

text \<open>Two neighbouring requests were not joined for a reason.\<close>

fun cuts_ok :: "u64 \<Rightarrow> u64 \<Rightarrow> BlobIoDesc list list \<Rightarrow> bool" where
  "cuts_ok max_comp_size max_gap (g # h # gs) \<longleftrightarrow>
     (\<not> BlobIoDesc_is_continuous (last g) (hd h) max_gap \<or> unat max_comp_size \<le> span g) \<and>
     cuts_ok max_comp_size max_gap (h # gs)"
| "cuts_ok max_comp_size max_gap _ \<longleftrightarrow> True"

lemma chain_hd_le: "\<lbrakk>chain gap bs; bs \<noteq> []\<rbrakk> \<Longrightarrow> c_start (hd bs) \<le> c_end (last bs)"
proof (induction bs rule: induct_list012)
  case (3 a b bs)
  then show ?case by (simp add: c_end_def split: if_splits)
qed (simp_all add: c_end_def)

lemma chain_last_le: "\<lbrakk>chain gap bs; bs \<noteq> []\<rbrakk> \<Longrightarrow> c_start (hd bs) \<le> c_start (last bs)"
proof (induction bs rule: induct_list012)
  case (3 a b bs)
  then show ?case by (auto simp: c_end_def split: if_splits)
qed simp_all

lemma issue_ok:
  assumes "group_ok mc max_gap (ms_bios st)"
  shows "\<exists>r. BlobIoMergeState_issue st max_gap =
             Inr (st\<lparr>ms_issued := ms_issued st @ [r], ms_bios := [], ms_size := 0\<rparr>) \<and>
           request_for (ms_bios st) r"
proof -
  obtain b bs where bs: "ms_bios st = b # bs" using assms by (cases "ms_bios st") (auto simp: group_ok_def)
  have ok: "bio_ok b" "\<forall>x \<in> set bs. bio_ok x" "chain (unat max_gap) (b # bs)"
    using assms by (auto simp: group_ok_def bs)
  obtain r0 where r0: "BlobIoRange_new b = Inr r0" "request_for [b] r0" using BlobIoRange_new_ok [OF ok(1)] by blast
  from merge_all_ok [OF r0(2), of max_gap bs] ok obtain r
    where "merge_all r0 bs max_gap = Inr r" "request_for (b # bs) r" by auto
  with r0(1) bs show ?thesis by (auto simp: BlobIoMergeState_issue_def)
qed

lemma push_first:
  assumes "bio_ok b" and "ms_bios st = []" and "ms_size st = 0"
  shows "BlobIoMergeState_push st b = Inr (st\<lparr>ms_size := ci_compressed_size (d_chunkinfo b), ms_bios := [b]\<rparr>)"
  using assms unat_lt2p32 [of "ci_compressed_size (d_chunkinfo b)"]
  by (simp add: BlobIoMergeState_push_def Let_def checked_add_def)

lemma group_ok_single: "bio_ok b \<Longrightarrow> group_ok mc max_gap [b]"
  by (simp add: group_ok_def bio_ok_def span_def c_end_def)

lemma push_next:
  assumes st: "merge_state_ok mc max_gap st" and b: "bio_ok b" and par: "merge_params_ok mc max_gap"
    and small: "unat (ms_size st) < unat mc"
    and cont: "BlobIoDesc_is_continuous (last (ms_bios st)) b max_gap"
  shows "\<exists>s. BlobIoMergeState_push st b = Inr (st\<lparr>ms_size := s, ms_bios := ms_bios st @ [b]\<rparr>) \<and>
           unat s = span (ms_bios st @ [b]) \<and> group_ok mc max_gap (ms_bios st @ [b])"
proof -
  let ?bs = "ms_bios st" and ?l = "last (ms_bios st)"
  have g: "group_ok mc max_gap ?bs" and sz: "unat (ms_size st) = span ?bs" and ne: "?bs \<noteq> []"
    using st by (auto simp: merge_state_ok_def group_ok_def)
  have lok: "bio_ok ?l" using g ne by (simp add: group_ok_def)
  have c: "c_end ?l \<le> c_start b" "c_start b - c_end ?l \<le> unat max_gap"
    "ci_blob_index (d_chunkinfo ?l) = ci_blob_index (d_chunkinfo b)"
    using cont is_continuous_iff [OF lok b] by auto
  let ?start = "ci_compressed_offset (d_chunkinfo b)"
  let ?prev = "ci_compressed_offset (d_chunkinfo ?l) + ucast (ci_compressed_size (d_chunkinfo ?l))"
  have p: "unat ?prev = c_end ?l" by (rule unat_c_end [OF lok])
  have le: "?prev \<le> ?start" unfolding word_le_nat_alt p using c(1) .
  then have d: "unat (?start - ?prev) = c_start b - c_end ?l" by (simp add: unat_sub p)
  have cs: "c_size b \<le> 2 ^ 24" using b by (simp add: bio_ok_def)
  have par': "unat mc + unat max_gap + 2 ^ 24 < 2 ^ 32 - 1" using par by (simp add: merge_params_ok_def)
  have d32: "unat (?start - ?prev) < 2 ^ 32 - 1" using d c(2) par' by linarith
  then have lt: "?start - ?prev < 0xFFFFFFFF" unfolding word_less_nat_alt by simp
  define s where "s = (ucast (?start - ?prev) + ci_compressed_size (d_chunkinfo b) :: u32)"
  have "unat (ucast (?start - ?prev) :: u32) = c_start b - c_end ?l"
    using d d32 by (simp add: unat_ucast_small)
  then have s: "unat s = (c_start b - c_end ?l) + c_size b"
    unfolding s_def using c(2) cs par' by (subst unat_add_less) simp_all
  have tot: "unat (ms_size st) + unat s < 2 ^ 32" using s c(2) cs par' small by linarith
  then have u: "unat (ms_size st + s) = unat (ms_size st) + unat s" by (simp add: unat_add_less)
  have ca: "checked_add (ms_size st) s = Some (ms_size st + s)" using tot by (simp add: checked_add_def)
  have hd_le: "c_start (hd ?bs) \<le> c_end ?l" using chain_hd_le [of "unat max_gap" ?bs] g ne by (simp add: group_ok_def)
  have sp: "unat (ms_size st + s) = span (?bs @ [b])"
    using u s sz hd_le c(1) ne by (simp add: span_def c_end_def)
  have last_nth: "?bs ! (length ?bs - Suc 0) = ?l" using ne by (simp add: last_conv_nth)
  have "BlobIoMergeState_push st b = Inr (st\<lparr>ms_size := ms_size st + s, ms_bios := ?bs @ [b]\<rparr>)"
    using ne le lt ca by (simp add: BlobIoMergeState_push_def Let_def last_nth s_def [symmetric])
  moreover have "chain (unat max_gap) (?bs @ [b])"
  proof -
    have eq: "?bs @ [b] = butlast ?bs @ [?l, b]"
      using append_butlast_last_id [OF ne] by (metis append.assoc append_Cons append_Nil)
    show ?thesis
      unfolding eq using chain_append [of "unat max_gap" "butlast ?bs" ?l b] g ne c by (simp add: group_ok_def)
  qed
  then have "group_ok mc max_gap (?bs @ [b])"
    using g b sp u s c(2) cs small by (auto simp: group_ok_def)
  ultimately show ?thesis using sp by blast
qed

lemma cuts_ok_snoc:
  "cuts_ok mc mg (gs @ [g, h]) \<longleftrightarrow> cuts_ok mc mg (gs @ [g]) \<and>
     (\<not> BlobIoDesc_is_continuous (last g) (hd h) mg \<or> unat mc \<le> span g)"
proof (induction gs)
  case (Cons x gs)
  then show ?case by (cases gs) auto
qed simp

text \<open>The last group may still grow: a cut looks only at its first descriptor.\<close>

lemma cuts_ok_grow:
  "\<lbrakk>cuts_ok mc mg (gs @ [g]); hd h = hd g\<rbrakk> \<Longrightarrow> cuts_ok mc mg (gs @ [h])"
proof (induction gs)
  case (Cons x gs)
  then show ?case by (cases gs) auto
qed simp

lemma merge_loop_ok:
  assumes "merge_params_ok mc max_gap"
  shows "\<lbrakk>merge_state_ok mc max_gap st; last (ms_bios st) = prev; \<forall>b \<in> set bs. bio_ok b;
      list_all2 request_for gs (ms_issued st); \<forall>g \<in> set gs. group_ok mc max_gap g;
      cuts_ok mc max_gap (gs @ [ms_bios st])\<rbrakk> \<Longrightarrow>
    \<exists>st' gs'. merge_loop st prev bs mc max_gap = Inr st' \<and> merge_state_ok mc max_gap st' \<and>
      list_all2 request_for gs' (ms_issued st') \<and> (\<forall>g \<in> set gs'. group_ok mc max_gap g) \<and>
      cuts_ok mc max_gap (gs' @ [ms_bios st']) \<and>
      concat gs' @ ms_bios st' = concat gs @ ms_bios st @ bs"
proof (induction bs arbitrary: st prev gs)
  case Nil
  then show ?case by auto
next
  case (Cons b bs)
  have bok: "bio_ok b" using Cons.prems(3) by simp
  have g: "group_ok mc max_gap (ms_bios st)" and sz: "unat (ms_size st) = span (ms_bios st)"
    and ne: "ms_bios st \<noteq> []"
    using Cons.prems(1) by (auto simp: merge_state_ok_def group_ok_def)
  have u: "unat (ucast (ms_size st) :: u64) = unat (ms_size st)" by (rule unat_ucast_up) simp
  show ?case
  proof (cases "\<not> BlobIoDesc_is_continuous prev b max_gap \<or> ucast (ms_size st) \<ge> mc")
    case True
    obtain r where r: "BlobIoMergeState_issue st max_gap =
        Inr (st\<lparr>ms_issued := ms_issued st @ [r], ms_bios := [], ms_size := 0\<rparr>)" "request_for (ms_bios st) r"
      using issue_ok [OF g] by blast
    let ?st = "st\<lparr>ms_issued := ms_issued st @ [r], ms_size := ci_compressed_size (d_chunkinfo b), ms_bios := [b]\<rparr>"
    have push: "BlobIoMergeState_push (st\<lparr>ms_issued := ms_issued st @ [r], ms_bios := [], ms_size := 0\<rparr>) b = Inr ?st"
      using push_first [OF bok] by simp
    have "merge_state_ok mc max_gap ?st"
      using group_ok_single [OF bok] by (simp add: merge_state_ok_def span_def c_end_def)
    moreover have "list_all2 request_for (gs @ [ms_bios st]) (ms_issued ?st)"
      using Cons.prems(4) r(2) by (simp add: list_all2_appendI)
    moreover have "cuts_ok mc max_gap ((gs @ [ms_bios st]) @ [ms_bios ?st])"
      using Cons.prems(2,6) True u sz by (simp add: cuts_ok_snoc word_le_nat_alt)
    ultimately obtain st' gs' where "merge_loop ?st b bs mc max_gap = Inr st'" "merge_state_ok mc max_gap st'"
      "list_all2 request_for gs' (ms_issued st')" "\<forall>g \<in> set gs'. group_ok mc max_gap g"
      "cuts_ok mc max_gap (gs' @ [ms_bios st'])"
      "concat gs' @ ms_bios st' = concat (gs @ [ms_bios st]) @ ms_bios ?st @ bs"
      using Cons.IH [of ?st b "gs @ [ms_bios st]"] Cons.prems(3,5) g by auto
    with True r push show ?thesis by auto
  next
    case False
    then have cont: "BlobIoDesc_is_continuous (last (ms_bios st)) b max_gap"
      and small: "unat (ms_size st) < unat mc"
      using Cons.prems(2) u by (auto simp: word_le_nat_alt)
    obtain s where s: "BlobIoMergeState_push st b = Inr (st\<lparr>ms_size := s, ms_bios := ms_bios st @ [b]\<rparr>)"
      "unat s = span (ms_bios st @ [b])" "group_ok mc max_gap (ms_bios st @ [b])"
      using push_next [OF Cons.prems(1) bok assms small cont] by blast
    let ?st = "st\<lparr>ms_size := s, ms_bios := ms_bios st @ [b]\<rparr>"
    have "merge_state_ok mc max_gap ?st" using s by (simp add: merge_state_ok_def)
    moreover have "cuts_ok mc max_gap (gs @ [ms_bios ?st])"
      using cuts_ok_grow [OF Cons.prems(6)] ne by simp
    ultimately obtain st' gs' where "merge_loop ?st b bs mc max_gap = Inr st'" "merge_state_ok mc max_gap st'"
      "list_all2 request_for gs' (ms_issued st')" "\<forall>g \<in> set gs'. group_ok mc max_gap g"
      "cuts_ok mc max_gap (gs' @ [ms_bios st'])"
      "concat gs' @ ms_bios st' = concat gs @ ms_bios ?st @ bs"
      using Cons.IH [of ?st b gs] Cons.prems(3,4,5) by auto
    with False s(1) show ?thesis by auto
  qed
qed

lemma merge_and_issue_groups:
  assumes "merge_params_ok max_comp_size max_gap" and "\<forall>b \<in> set bios. bio_ok b"
  shows "\<exists>gs rs. merge_and_issue bios max_comp_size max_gap = Inr rs \<and> concat gs = bios \<and>
           list_all2 request_for gs rs \<and> (\<forall>g \<in> set gs. group_ok max_comp_size max_gap g) \<and>
           cuts_ok max_comp_size max_gap gs"
proof (cases bios)
  case Nil
  then have "merge_and_issue bios max_comp_size max_gap = Inr [] \<and> concat [] = bios \<and>
      list_all2 request_for [] [] \<and> (\<forall>g \<in> set []. group_ok max_comp_size max_gap g) \<and>
      cuts_ok max_comp_size max_gap []"
    by (simp add: merge_and_issue_def)
  then show ?thesis by blast
next
  case (Cons b bs)
  let ?st = "BlobIoMergeState_new b"
  have b: "bio_ok b" and bs: "\<forall>x \<in> set bs. bio_ok x" using assms(2) Cons by auto
  have "merge_state_ok max_comp_size max_gap ?st"
    using group_ok_single [OF b] by (simp add: merge_state_ok_def BlobIoMergeState_new_def span_def c_end_def)
  from merge_loop_ok [OF assms(1) this _ bs, of b "[]"] obtain st' gs where
    loop: "merge_loop ?st b bs max_comp_size max_gap = Inr st'" and st': "merge_state_ok max_comp_size max_gap st'"
    and gs: "list_all2 request_for gs (ms_issued st')" "\<forall>g \<in> set gs. group_ok max_comp_size max_gap g"
    "cuts_ok max_comp_size max_gap (gs @ [ms_bios st'])" "concat gs @ ms_bios st' = b # bs"
    by (auto simp: BlobIoMergeState_new_def)
  have g': "group_ok max_comp_size max_gap (ms_bios st')" using st' by (simp add: merge_state_ok_def)
  obtain r where r: "BlobIoMergeState_issue st' max_gap =
      Inr (st'\<lparr>ms_issued := ms_issued st' @ [r], ms_bios := [], ms_size := 0\<rparr>)" "request_for (ms_bios st') r"
    using issue_ok [OF g'] by blast
  have "merge_and_issue bios max_comp_size max_gap = Inr (ms_issued st' @ [r])"
    using loop r Cons by (simp add: merge_and_issue_def)
  moreover have "concat (gs @ [ms_bios st']) = bios" using gs(4) Cons by simp
  moreover have "list_all2 request_for (gs @ [ms_bios st']) (ms_issued st' @ [r])"
    using gs(1) r(2) by (simp add: list_all2_appendI)
  moreover have "\<forall>g \<in> set (gs @ [ms_bios st']). group_ok max_comp_size max_gap g" using gs(2) g' by simp
  ultimately show ?thesis using gs(3) by blast
qed

section \<open>Properties\<close>

text \<open>
  C14. Merging chunk requests loses nothing and never panics. For any list of descriptors of a blob
  that is not a legacy stargz blob, with sizes that fit into 32 bits, the descriptors are cut into
  groups in their order, one backend request is issued per group, and each request covers exactly the
  span from the start of the first to the end of the last chunk of its group, with the chunks and the
  user tags in order. Inside a group the chunks belong to one blob, follow each other, and leave gaps
  of at most \<open>max_gap\<close>; the span is at most \<open>max_comp_size + max_gap\<close> plus the size of a chunk; and two
  neighbouring requests are separate only if the chunks are not continuous or the first request has
  already reached \<open>max_comp_size\<close>.
\<close>

theorem merge_and_issue_covers:
  assumes "merge_params_ok max_comp_size max_gap" and "\<forall>b \<in> set bios. bio_ok b"
  shows "\<exists>gs rs. merge_and_issue bios max_comp_size max_gap = Inr rs \<and> concat gs = bios \<and>
           list_all2 request_for gs rs \<and> (\<forall>g \<in> set gs. group_ok max_comp_size max_gap g) \<and>
           cuts_ok max_comp_size max_gap gs"
  using assms by (rule merge_and_issue_groups)

definition demo_blob :: BlobInfo where
  "demo_blob = BlobInfo_new 1 ''blob'' 4096 4096 4096 1 0"

definition demo_bio :: "bool \<Rightarrow> u64 \<Rightarrow> u32 \<Rightarrow> BlobIoDesc" where
  "demo_bio legacy off sz =
     \<lparr>d_blob = demo_blob\<lparr>bi_is_legacy_stargz := legacy\<rparr>,
      d_chunkinfo = \<lparr>ci_chunk_id = [], ci_id = 0, ci_blob_index = 1, ci_compressed_offset = off,
        ci_compressed_size = sz, ci_uncompressed_offset = 0, ci_uncompressed_size = 0x1000,
        ci_is_compressed = True\<rparr>,
      d_offset = 0, d_size = 10, d_user_io = True\<rparr>"

theorem merge_and_issue_covers_witness:
  "\<exists>gs rs. merge_and_issue [demo_bio False 0 10, demo_bio False 12 10] 0x1000 16 = Inr rs \<and>
     concat gs = [demo_bio False 0 10, demo_bio False 12 10] \<and> list_all2 request_for gs rs"
proof -
  have "\<forall>b \<in> set [demo_bio False 0 10, demo_bio False 12 10]. bio_ok b"
    by (simp add: bio_ok_def demo_bio_def c_end_def)
  moreover have "merge_params_ok 0x1000 16" by (simp add: merge_params_ok_def)
  ultimately show ?thesis using merge_and_issue_covers by blast
qed

text \<open>
  For a legacy stargz blob merging can panic. \<open>is_continuous\<close> accepts a gap of up to
  \<open>8 * max_gap\<close> for such a blob, but \<open>BlobIoRange::merge\<close> asserts a gap of at most \<open>max_gap\<close>; so two
  neighbouring chunks with a gap in between these bounds bring the caller down.
\<close>

theorem legacy_stargz_merge_panics:
  assumes "bi_is_legacy_stargz (d_blob b)" and "ci_blob_index (d_chunkinfo a) = ci_blob_index (d_chunkinfo b)"
    and "c_end a \<le> c_start b" and "c_start b < 2 ^ 64" and "unat max_gap < c_start b - c_end a"
    and "c_start b - c_end a \<le> 8 * unat max_gap" and "8 * unat max_gap < 2 ^ 31"
    and "c_size a < unat max_comp_size" and "c_size a + c_size b < 2 ^ 31"
  shows "merge_and_issue [a, b] max_comp_size max_gap = Inl Panic"
proof -
  let ?off = "ci_compressed_offset (d_chunkinfo b)"
  let ?prev = "ci_compressed_offset (d_chunkinfo a) + ucast (ci_compressed_size (d_chunkinfo a))"
  have u: "unat (ucast (ci_compressed_size (d_chunkinfo a)) :: u64) = c_size a" by (rule unat_ucast_up) simp
  have lt: "c_start a + c_size a < 2 ^ 64" using assms(3,4) by (simp add: c_end_def)
  then have p: "unat ?prev = c_end a" by (subst unat_add_less) (simp_all add: u c_end_def)
  have le: "?prev \<le> ?off" unfolding word_le_nat_alt p using assms(3) .
  then have d: "unat (?off - ?prev) = c_start b - c_end a" by (simp add: unat_sub p)
  have m8: "unat (max_gap * 8) = 8 * unat max_gap" using assms(7) by (simp add: unat_word_ariths)
  have cont: "BlobIoDesc_is_continuous a b max_gap"
    using assms(1,2,6) le d m8 by (simp add: BlobIoDesc_is_continuous_def Let_def word_le_nat_alt)
  have small: "\<not> ucast (ci_compressed_size (d_chunkinfo a)) \<ge> max_comp_size"
    using assms(8) u by (simp add: word_le_nat_alt)
  have lt2: "?off - ?prev < 0xFFFFFFFF" unfolding word_less_nat_alt using d assms(6,7) by simp
  have ud: "unat (ucast (?off - ?prev) :: u32) = c_start b - c_end a"
    using d assms(6,7) by (simp add: unat_ucast_small)
  have us: "unat (ucast (?off - ?prev) + ci_compressed_size (d_chunkinfo b)) = c_start b - c_end a + c_size b"
    using ud assms(6,7,9) by (subst unat_add_less) simp_all
  have ca: "checked_add (ci_compressed_size (d_chunkinfo a)) (ucast (?off - ?prev) + ci_compressed_size (d_chunkinfo b)) \<noteq> None"
    using us assms(6,7,9) by (simp add: checked_add_def)
  have push: "BlobIoMergeState_push (BlobIoMergeState_new a) b =
      Inr \<lparr>ms_size = ci_compressed_size (d_chunkinfo a) + (ucast (?off - ?prev) + ci_compressed_size (d_chunkinfo b)),
           ms_bios = [a, b], ms_issued = []\<rparr>"
    using le lt2 ca by (simp add: BlobIoMergeState_push_def BlobIoMergeState_new_def Let_def)
  have "checked_add (ci_compressed_offset (d_chunkinfo a)) (ucast (ci_compressed_size (d_chunkinfo a))) \<noteq> None"
    using lt by (simp add: checked_add_def u)
  moreover have "?prev \<noteq> ?off" using d assms(5) by auto
  moreover have "\<not> ?off - ?prev \<le> max_gap" using d assms(5) by (simp add: word_le_nat_alt)
  ultimately have "BlobIoMergeState_issue \<lparr>ms_size = sz, ms_bios = [a, b], ms_issued = []\<rparr> max_gap = Inl Panic" for sz
    by (simp add: BlobIoMergeState_issue_def BlobIoRange_new_def BlobIoRange_merge_def Let_def)
  then show ?thesis
    using cont small push by (simp add: merge_and_issue_def) (simp add: BlobIoMergeState_new_def)
qed

theorem legacy_stargz_merge_panics_witness:
  "merge_and_issue [demo_bio True 0 10, demo_bio True 100 10] 0x1000 32 = Inl Panic"
  by (rule legacy_stargz_merge_panics) (simp_all add: demo_bio_def c_end_def)

text \<open>
  A merged request can be bigger than \<open>max_comp_size\<close>. The size is compared before a chunk is
  added, so a chunk is added to every request that is still below the limit: two adjacent chunks that
  are each just below the limit are merged into one request of almost twice the limit.
\<close>

theorem merged_request_exceeds_limit:
  "\<exists>r. merge_and_issue [demo_bio False 0 0xFFF, demo_bio False 0xFFF 0xFFF] 0x1000 0 = Inr [r] \<and>
       r_blob_size r = 0x1FFE"
  by (simp add: merge_and_issue_def demo_bio_def BlobIoMergeState_new_def BlobIoDesc_is_continuous_def
      BlobIoMergeState_push_def BlobIoMergeState_issue_def BlobIoRange_new_def BlobIoRange_merge_def
      checked_add_def demo_blob_def BlobInfo_new_def compute_features_def)

end
