(* ===== verification/Chunk_Info.thy ===== *)
theory Chunk_Info
  imports Blob_Device Rounding
begin

text \<open>
  The on-disk chunk information entries of \<open>storage/src/meta/chunk_info_v1.rs\<close> and
  \<open>chunk_info_v2.rs\<close>: two (three) little-endian 64-bit words that pack the compressed and
  uncompressed position of a chunk, and the zlib random access contexts of \<open>zran.rs\<close>. The
  machine is little-endian, so \<open>to_le\<close> and \<open>from_le\<close> are the identity. The trait
  \<open>BlobMetaChunkInfo\<close> is the locale \<open>chunk_entry\<close>, interpreted on both formats.
\<close>

section \<open>Format V1\<close>

definition BLOB_METADATA_CHUNK_SIZE_MASK :: u64 where "BLOB_METADATA_CHUNK_SIZE_MASK = 0xffffff"
definition V1_COMP_OFFSET_MASK :: u64 where "V1_COMP_OFFSET_MASK = 0xffffffffff"
definition V1_UNCOMP_OFFSET_MASK :: u64 where "V1_UNCOMP_OFFSET_MASK = 0xffffffff000"
definition V1_SIZE_LOW_MASK :: u64 where "V1_SIZE_LOW_MASK = 0x0fffff"
definition V1_SIZE_HIGH_MASK :: u64 where "V1_SIZE_HIGH_MASK = 0xf00000"
definition V1_SIZE_LOW_SHIFT :: nat where "V1_SIZE_LOW_SHIFT = 44"
definition V1_SIZE_HIGH_COMP_SHIFT :: nat where "V1_SIZE_HIGH_COMP_SHIFT = 20"
definition V1_SIZE_HIGH_UNCOMP_SHIFT :: nat where "V1_SIZE_HIGH_UNCOMP_SHIFT = 12"

record BlobChunkInfoV1Ondisk =
  v1_uncomp_info :: u64
  v1_comp_info :: u64

definition V1_compressed_offset :: "BlobChunkInfoV1Ondisk \<Rightarrow> u64" where
  "V1_compressed_offset c = v1_comp_info c AND V1_COMP_OFFSET_MASK"

definition V1_set_compressed_offset :: "BlobChunkInfoV1Ondisk \<Rightarrow> u64 \<Rightarrow> BlobChunkInfoV1Ondisk res" where
  "V1_set_compressed_offset c offset =
     asserting (offset AND NOT V1_COMP_OFFSET_MASK = 0) (
     Inr (c\<lparr>v1_comp_info := (v1_comp_info c AND NOT V1_COMP_OFFSET_MASK) OR (offset AND V1_COMP_OFFSET_MASK)\<rparr>))"

definition V1_compressed_size :: "BlobChunkInfoV1Ondisk \<Rightarrow> u32" where
  "V1_compressed_size c =
     (let bit20 = drop_bit V1_SIZE_LOW_SHIFT (v1_comp_info c);
          bit4 = drop_bit V1_SIZE_HIGH_COMP_SHIFT (v1_comp_info c AND 0xf0000000000)
      in ucast (bit4 OR bit20) + 1)"

definition V1_set_compressed_size :: "BlobChunkInfoV1Ondisk \<Rightarrow> u32 \<Rightarrow> BlobChunkInfoV1Ondisk res" where
  "V1_set_compressed_size c sz =
     (let size' = (ucast sz :: u64)
      in asserting (size' > 0 \<and> size' \<le> BLOB_METADATA_CHUNK_SIZE_MASK + 1) (
         let size_low = push_bit V1_SIZE_LOW_SHIFT ((size' - 1) AND V1_SIZE_LOW_MASK);
             size_high = push_bit V1_SIZE_HIGH_COMP_SHIFT ((size' - 1) AND V1_SIZE_HIGH_MASK);
             offset = v1_comp_info c AND V1_COMP_OFFSET_MASK
         in Inr (c\<lparr>v1_comp_info := size_low OR size_high OR offset\<rparr>)))"

definition V1_uncompressed_offset :: "BlobChunkInfoV1Ondisk \<Rightarrow> u64" where
  "V1_uncompressed_offset c = v1_uncomp_info c AND V1_UNCOMP_OFFSET_MASK"

definition V1_set_uncompressed_offset :: "BlobChunkInfoV1Ondisk \<Rightarrow> u64 \<Rightarrow> BlobChunkInfoV1Ondisk res" where
  "V1_set_uncompressed_offset c offset =
     asserting (offset AND NOT V1_UNCOMP_OFFSET_MASK = 0) (
     Inr (c\<lparr>v1_uncomp_info := (v1_uncomp_info c AND NOT V1_UNCOMP_OFFSET_MASK) OR (offset AND V1_UNCOMP_OFFSET_MASK)\<rparr>))"

definition V1_uncompressed_size :: "BlobChunkInfoV1Ondisk \<Rightarrow> u32" where
  "V1_uncompressed_size c =
     (let size_high = push_bit V1_SIZE_HIGH_UNCOMP_SHIFT (v1_uncomp_info c AND 0xf00);
          size_low = drop_bit V1_SIZE_LOW_SHIFT (v1_uncomp_info c)
      in ucast (size_high OR size_low) + 1)"

definition V1_set_uncompressed_size :: "BlobChunkInfoV1Ondisk \<Rightarrow> u32 \<Rightarrow> BlobChunkInfoV1Ondisk res" where
  "V1_set_uncompressed_size c sz =
     (let size' = (ucast sz :: u64)
      in asserting (size' \<noteq> 0 \<and> size' \<le> BLOB_METADATA_CHUNK_SIZE_MASK + 1) (
         let size_low = push_bit V1_SIZE_LOW_SHIFT ((size' - 1) AND V1_SIZE_LOW_MASK);
             size_high = drop_bit V1_SIZE_HIGH_UNCOMP_SHIFT ((size' - 1) AND V1_SIZE_HIGH_MASK);
             offset = v1_uncomp_info c AND V1_UNCOMP_OFFSET_MASK
         in Inr (c\<lparr>v1_uncomp_info := size_low OR offset OR size_high\<rparr>)))"

definition V1_is_compressed :: "BlobChunkInfoV1Ondisk \<Rightarrow> bool" where
  "V1_is_compressed c \<longleftrightarrow> V1_compressed_size c \<noteq> V1_uncompressed_size c"

section \<open>Format V2\<close>

definition CHUNK_V2_COMP_OFFSET_MASK :: u64 where "CHUNK_V2_COMP_OFFSET_MASK = 0xffffffffff"
definition CHUNK_V2_COMP_SIZE_SHIFT :: nat where "CHUNK_V2_COMP_SIZE_SHIFT = 40"
definition CHUNK_V2_UNCOMP_OFFSET_MASK :: u64 where "CHUNK_V2_UNCOMP_OFFSET_MASK = 0xffffffff"
definition CHUNK_V2_UNCOMP_OFFSET_SHIFT :: nat where "CHUNK_V2_UNCOMP_OFFSET_SHIFT = 12"
definition CHUNK_V2_UNCOMP_SIZE_SHIFT :: nat where "CHUNK_V2_UNCOMP_SIZE_SHIFT = 32"
definition CHUNK_V2_FLAG_MASK :: u64 where "CHUNK_V2_FLAG_MASK = push_bit 56 0xff"
definition CHUNK_V2_FLAG_COMPRESSED :: u64 where "CHUNK_V2_FLAG_COMPRESSED = push_bit 56 1"
definition CHUNK_V2_FLAG_ZRAN :: u64 where "CHUNK_V2_FLAG_ZRAN = push_bit 56 2"
definition CHUNK_V2_FLAG_VALID :: u64 where "CHUNK_V2_FLAG_VALID = push_bit 56 3"

record BlobChunkInfoV2Ondisk =
  v2_uncomp_info :: u64
  v2_comp_info :: u64
  v2_data :: u64

definition V2_set_compressed :: "BlobChunkInfoV2Ondisk \<Rightarrow> bool \<Rightarrow> BlobChunkInfoV2Ondisk" where
  "V2_set_compressed c compressed =
     (if compressed then c\<lparr>v2_uncomp_info := v2_uncomp_info c OR CHUNK_V2_FLAG_COMPRESSED\<rparr>
      else c\<lparr>v2_uncomp_info := v2_uncomp_info c AND NOT CHUNK_V2_FLAG_COMPRESSED\<rparr>)"

definition V2_set_zran :: "BlobChunkInfoV2Ondisk \<Rightarrow> bool \<Rightarrow> BlobChunkInfoV2Ondisk" where
  "V2_set_zran c zran =
     (if zran then c\<lparr>v2_uncomp_info := v2_uncomp_info c OR CHUNK_V2_FLAG_ZRAN\<rparr>
      else c\<lparr>v2_uncomp_info := v2_uncomp_info c AND NOT CHUNK_V2_FLAG_ZRAN\<rparr>)"

definition V2_set_data :: "BlobChunkInfoV2Ondisk \<Rightarrow> u64 \<Rightarrow> BlobChunkInfoV2Ondisk" where
  "V2_set_data c data = c\<lparr>v2_data := data\<rparr>"

definition V2_set_zran_index :: "BlobChunkInfoV2Ondisk \<Rightarrow> u32 \<Rightarrow> BlobChunkInfoV2Ondisk" where
  "V2_set_zran_index c index =
     c\<lparr>v2_data := (v2_data c AND NOT 0xffffffff00000000) OR push_bit 32 (ucast index)\<rparr>"

definition V2_set_zran_offset :: "BlobChunkInfoV2Ondisk \<Rightarrow> u32 \<Rightarrow> BlobChunkInfoV2Ondisk" where
  "V2_set_zran_offset c offset =
     c\<lparr>v2_data := (v2_data c AND NOT 0x00000000ffffffff) OR ucast offset\<rparr>"

definition V2_flags :: "BlobChunkInfoV2Ondisk \<Rightarrow> u8" where
  "V2_flags c = ucast (drop_bit 56 (v2_uncomp_info c AND CHUNK_V2_FLAG_MASK))"

definition V2_check_flags :: "BlobChunkInfoV2Ondisk \<Rightarrow> u8" where
  "V2_check_flags c = ucast (drop_bit 56 (v2_uncomp_info c AND NOT CHUNK_V2_FLAG_VALID))"

definition V2_compressed_offset :: "BlobChunkInfoV2Ondisk \<Rightarrow> u64" where
  "V2_compressed_offset c = v2_comp_info c AND CHUNK_V2_COMP_OFFSET_MASK"

definition V2_set_compressed_offset :: "BlobChunkInfoV2Ondisk \<Rightarrow> u64 \<Rightarrow> BlobChunkInfoV2Ondisk res" where
  "V2_set_compressed_offset c offset =
     asserting (offset AND NOT CHUNK_V2_COMP_OFFSET_MASK = 0) (
     Inr (c\<lparr>v2_comp_info := (v2_comp_info c AND NOT CHUNK_V2_COMP_OFFSET_MASK)
             OR (offset AND CHUNK_V2_COMP_OFFSET_MASK)\<rparr>))"

definition V2_compressed_size :: "BlobChunkInfoV2Ondisk \<Rightarrow> u32" where
  "V2_compressed_size c =
     ucast (drop_bit CHUNK_V2_COMP_SIZE_SHIFT (v2_comp_info c) AND BLOB_METADATA_CHUNK_SIZE_MASK)"

definition V2_set_compressed_size :: "BlobChunkInfoV2Ondisk \<Rightarrow> u32 \<Rightarrow> BlobChunkInfoV2Ondisk res" where
  "V2_set_compressed_size c sz =
     (let size' = (ucast sz :: u64)
      in asserting (size' \<le> BLOB_METADATA_CHUNK_SIZE_MASK) (
         Inr (c\<lparr>v2_comp_info :=
                 (v2_comp_info c AND NOT (push_bit CHUNK_V2_COMP_SIZE_SHIFT BLOB_METADATA_CHUNK_SIZE_MASK))
                 OR push_bit CHUNK_V2_COMP_SIZE_SHIFT size'\<rparr>)))"

definition V2_uncompressed_offset :: "BlobChunkInfoV2Ondisk \<Rightarrow> u64" where
  "V2_uncompressed_offset c =
     push_bit CHUNK_V2_UNCOMP_OFFSET_SHIFT (v2_uncomp_info c AND CHUNK_V2_UNCOMP_OFFSET_MASK)"

definition V2_set_uncompressed_offset :: "BlobChunkInfoV2Ondisk \<Rightarrow> u64 \<Rightarrow> BlobChunkInfoV2Ondisk res" where
  "V2_set_uncompressed_offset c offset =
     (let off = drop_bit CHUNK_V2_UNCOMP_OFFSET_SHIFT offset AND CHUNK_V2_UNCOMP_OFFSET_MASK
      in asserting (offset = push_bit CHUNK_V2_UNCOMP_OFFSET_SHIFT off) (
         Inr (c\<lparr>v2_uncomp_info := (v2_uncomp_info c AND NOT CHUNK_V2_UNCOMP_OFFSET_MASK) OR off\<rparr>)))"

definition V2_uncompressed_size :: "BlobChunkInfoV2Ondisk \<Rightarrow> u32" where
  "V2_uncompressed_size c =
     (let size' = drop_bit CHUNK_V2_UNCOMP_SIZE_SHIFT (v2_uncomp_info c)
      in ucast (size' AND BLOB_METADATA_CHUNK_SIZE_MASK) + 1)"

definition V2_set_uncompressed_size :: "BlobChunkInfoV2Ondisk \<Rightarrow> u32 \<Rightarrow> BlobChunkInfoV2Ondisk res" where
  "V2_set_uncompressed_size c sz =
     (let size' = (ucast sz :: u64)
      in asserting (size' \<noteq> 0 \<and> size' - 1 \<le> BLOB_METADATA_CHUNK_SIZE_MASK) (
         Inr (c\<lparr>v2_uncomp_info :=
                 (v2_uncomp_info c AND NOT (push_bit CHUNK_V2_UNCOMP_SIZE_SHIFT BLOB_METADATA_CHUNK_SIZE_MASK))
                 OR push_bit CHUNK_V2_UNCOMP_SIZE_SHIFT (size' - 1)\<rparr>)))"

definition V2_is_compressed :: "BlobChunkInfoV2Ondisk \<Rightarrow> bool" where
  "V2_is_compressed c \<longleftrightarrow> v2_uncomp_info c AND CHUNK_V2_FLAG_COMPRESSED \<noteq> 0"

definition V2_is_zran :: "BlobChunkInfoV2Ondisk \<Rightarrow> bool" where
  "V2_is_zran c \<longleftrightarrow> v2_uncomp_info c AND CHUNK_V2_FLAG_ZRAN \<noteq> 0"

definition V2_get_zran_index :: "BlobChunkInfoV2Ondisk \<Rightarrow> u32 res" where
  "V2_get_zran_index c = asserting (V2_is_zran c) (Inr (ucast (drop_bit 32 (v2_data c))))"

definition V2_get_zran_offset :: "BlobChunkInfoV2Ondisk \<Rightarrow> u32 res" where
  "V2_get_zran_offset c = asserting (V2_is_zran c) (Inr (ucast (v2_data c)))"

definition V2_get_data :: "BlobChunkInfoV2Ondisk \<Rightarrow> u64" where
  "V2_get_data c = v2_data c"

section \<open>Zlib random access contexts and the meta state\<close>

record ZranInflateContext =
  z_in_offset :: u64
  z_out_offset :: u64
  z_dict_offset :: u64
  z_in_len :: u32
  z_out_len :: u32
  z_dict_size :: u32
  z_ctx_byte :: u8
  z_ctx_bits :: u8

datatype BlobMetaChunkArray =
    V1 "BlobChunkInfoV1Ondisk list"
  | V2 "BlobChunkInfoV2Ondisk list"

record BlobMetaState =
  st_blob_index :: u32
  st_meta_flags :: u32
  st_compressed_size :: u64
  st_uncompressed_size :: u64
  st_chunk_info_array :: BlobMetaChunkArray
  st_zran_info_array :: "ZranInflateContext list"
  st_zran_dict_table :: "u8 list"

definition BLOB_META_FEATURE_ZRAN :: u32 where "BLOB_META_FEATURE_ZRAN = 8"

section \<open>The trait\<close>

text \<open>An entry of either format; the methods of \<open>BlobMetaChunkInfo\<close> dispatch on it.\<close>

datatype chunk_entry = E1 BlobChunkInfoV1Ondisk | E2 BlobChunkInfoV2Ondisk

fun e_compressed_offset :: "chunk_entry \<Rightarrow> u64" where
  "e_compressed_offset (E1 c) = V1_compressed_offset c"
| "e_compressed_offset (E2 c) = V2_compressed_offset c"

fun e_compressed_size :: "chunk_entry \<Rightarrow> u32" where
  "e_compressed_size (E1 c) = V1_compressed_size c"
| "e_compressed_size (E2 c) = V2_compressed_size c"

fun e_uncompressed_offset :: "chunk_entry \<Rightarrow> u64" where
  "e_uncompressed_offset (E1 c) = V1_uncompressed_offset c"
| "e_uncompressed_offset (E2 c) = V2_uncompressed_offset c"

fun e_uncompressed_size :: "chunk_entry \<Rightarrow> u32" where
  "e_uncompressed_size (E1 c) = V1_uncompressed_size c"
| "e_uncompressed_size (E2 c) = V2_uncompressed_size c"

fun e_is_compressed :: "chunk_entry \<Rightarrow> bool" where
  "e_is_compressed (E1 c) = V1_is_compressed c"
| "e_is_compressed (E2 c) = V2_is_compressed c"

fun e_is_zran :: "chunk_entry \<Rightarrow> bool" where
  "e_is_zran (E1 c) = False"
| "e_is_zran (E2 c) = V2_is_zran c"

fun e_get_zran_index :: "chunk_entry \<Rightarrow> u32 res" where
  "e_get_zran_index (E1 c) = Inl Panic"
| "e_get_zran_index (E2 c) = V2_get_zran_index c"

fun e_get_zran_offset :: "chunk_entry \<Rightarrow> u32 res" where
  "e_get_zran_offset (E1 c) = Inl Panic"
| "e_get_zran_offset (E2 c) = V2_get_zran_offset c"

fun e_get_data :: "chunk_entry \<Rightarrow> u64" where
  "e_get_data (E1 c) = 0"
| "e_get_data (E2 c) = V2_get_data c"

definition e_compressed_end :: "chunk_entry \<Rightarrow> u64" where
  "e_compressed_end e = e_compressed_offset e + ucast (e_compressed_size e)"

definition e_uncompressed_end :: "chunk_entry \<Rightarrow> u64" where
  "e_uncompressed_end e = e_uncompressed_offset e + ucast (e_uncompressed_size e)"

definition e_aligned_uncompressed_end :: "chunk_entry \<Rightarrow> u64" where
  "e_aligned_uncompressed_end e = round_up_4k (e_uncompressed_end e)"

definition V1_validate :: "BlobChunkInfoV1Ondisk \<Rightarrow> BlobMetaState \<Rightarrow> unit res" where
  "V1_validate c st =
     (if e_compressed_end (E1 c) > st_compressed_size st
         \<or> e_uncompressed_end (E1 c) > st_uncompressed_size st
         \<or> V1_uncompressed_size c = 0
         \<or> (\<not> V1_is_compressed c \<and> V1_uncompressed_size c \<noteq> V1_compressed_size c)
      then Inl EINVAL else Inr ())"

definition V2_validate :: "BlobChunkInfoV2Ondisk \<Rightarrow> BlobMetaState \<Rightarrow> unit res" where
  "V2_validate c st =
     (if e_compressed_end (E2 c) > st_compressed_size st
         \<or> e_uncompressed_end (E2 c) > st_uncompressed_size st
         \<or> V2_uncompressed_size c = 0
         \<or> (\<not> V2_is_zran c \<and> V2_compressed_size c = 0)
         \<or> (\<not> V2_is_compressed c \<and> V2_uncompressed_size c \<noteq> V2_compressed_size c)
      then Inl EINVAL
      else if V2_check_flags c \<noteq> 0 then Inl EINVAL
      else if st_meta_flags st AND BLOB_META_FEATURE_ZRAN = 0 \<and> V2_is_zran c then Inl EINVAL
      else if V2_is_zran c then
        and_then (V2_get_zran_index c) (\<lambda>index.
        if unat index \<ge> length (st_zran_info_array st) then Inl EINVAL
        else and_then (index_at (st_zran_info_array st) (unat index)) (\<lambda>ctx.
          and_then (V2_get_zran_offset c) (\<lambda>off.
          if off \<ge> z_out_len ctx \<or> off + V2_uncompressed_size c > z_out_len ctx
          then Inl EINVAL else Inr ())))
      else Inr ())"

fun e_validate :: "chunk_entry \<Rightarrow> BlobMetaState \<Rightarrow> unit res" where
  "e_validate (E1 c) st = V1_validate c st"
| "e_validate (E2 c) st = V2_validate c st"

fun entries :: "BlobMetaChunkArray \<Rightarrow> chunk_entry list" where
  "entries (V1 v) = map E1 v"
| "entries (V2 v) = map E2 v"

section \<open>Building entries\<close>

definition V1_default :: BlobChunkInfoV1Ondisk where
  "V1_default = \<lparr>v1_uncomp_info = 0, v1_comp_info = 0\<rparr>"

definition V2_default :: BlobChunkInfoV2Ondisk where
  "V2_default = \<lparr>v2_uncomp_info = 0, v2_comp_info = 0, v2_data = 0\<rparr>"

fun add_v1 :: "BlobMetaChunkArray \<Rightarrow> u64 \<Rightarrow> u32 \<Rightarrow> u64 \<Rightarrow> u32 \<Rightarrow> BlobMetaChunkArray res" where
  "add_v1 (V1 v) compressed_offset compressed_size uncompressed_offset uncompressed_size =
     and_then (V1_set_compressed_offset V1_default compressed_offset) (\<lambda>meta.
     and_then (V1_set_compressed_size meta compressed_size) (\<lambda>meta.
     and_then (V1_set_uncompressed_offset meta uncompressed_offset) (\<lambda>meta.
     and_then (V1_set_uncompressed_size meta uncompressed_size) (\<lambda>meta.
     Inr (V1 (v @ [meta]))))))"
| "add_v1 (V2 v) compressed_offset compressed_size uncompressed_offset uncompressed_size = Inl Panic"

fun add_v2 ::
  "BlobMetaChunkArray \<Rightarrow> u64 \<Rightarrow> u32 \<Rightarrow> u64 \<Rightarrow> u32 \<Rightarrow> bool \<Rightarrow> u64 \<Rightarrow> BlobMetaChunkArray res" where
  "add_v2 (V2 v) compressed_offset compressed_size uncompressed_offset uncompressed_size compressed data =
     and_then (V2_set_compressed_offset V2_default compressed_offset) (\<lambda>meta.
     and_then (V2_set_compressed_size meta compressed_size) (\<lambda>meta.
     and_then (V2_set_uncompressed_offset meta uncompressed_offset) (\<lambda>meta.
     and_then (V2_set_uncompressed_size meta uncompressed_size) (\<lambda>meta.
     Inr (V2 (v @ [V2_set_data (V2_set_compressed meta compressed) data]))))))"
| "add_v2 (V1 v) compressed_offset compressed_size uncompressed_offset uncompressed_size compressed data = Inl Panic"

fun add_v2_info :: "BlobMetaChunkArray \<Rightarrow> BlobChunkInfoV2Ondisk \<Rightarrow> BlobMetaChunkArray res" where
  "add_v2_info (V2 v) chunk_info = Inr (V2 (v @ [chunk_info]))"
| "add_v2_info (V1 v) chunk_info = Inl Panic"

text \<open>
  \<open>ZranContextGenerator::finish_chunk\<close>: \<open>info\<close> is what the generator reports for the chunk that
  was read (\<open>in_pos\<close>, \<open>in_len\<close>, \<open>ci_len\<close>, \<open>ci_index\<close>, \<open>ci_offset\<close>) and the running position in
  the uncompressed blob is passed along.
\<close>

record ZranChunkInfo =
  zi_ci_index :: u32
  zi_ci_offset :: u32
  zi_ci_len :: u32
  zi_in_pos :: u64
  zi_in_len :: u32

definition finish_chunk :: "ZranChunkInfo \<Rightarrow> u64 \<Rightarrow> (BlobChunkInfoV2Ondisk \<times> u64) res" where
  "finish_chunk info uncomp_pos =
     and_then (V2_set_compressed_offset V2_default (zi_in_pos info)) (\<lambda>chunk.
     and_then (V2_set_compressed_size chunk (zi_in_len info)) (\<lambda>chunk.
     and_then (V2_set_uncompressed_offset chunk uncomp_pos) (\<lambda>chunk.
     and_then (V2_set_uncompressed_size chunk (zi_ci_len info)) (\<lambda>chunk.
     let chunk = V2_set_zran_index chunk (zi_ci_index info);
         chunk = V2_set_zran_offset chunk (zi_ci_offset info);
         chunk = V2_set_zran chunk True;
         chunk = V2_set_compressed chunk True
     in Inr (chunk, uncomp_pos + round_up_4k (ucast (zi_ci_len info)))))))"

section \<open>Packing and unpacking\<close>

text \<open>The constants as bit masks, so that the fields can be compared bit by bit.\<close>

lemma mask_numerals:
  "(0xffffff :: u64) = mask 24" "(0xffffffffff :: u64) = mask 40"
  "(0xffffffff000 :: u64) = push_bit 12 (mask 32)" "(0x0fffff :: u64) = mask 20"
  "(0xf00000 :: u64) = push_bit 20 (mask 4)" "(0xf0000000000 :: u64) = push_bit 40 (mask 4)"
  "(0xf00 :: u64) = push_bit 8 (mask 4)" "(0xffffffff :: u64) = mask 32"
  "(0xffffffff00000000 :: u64) = push_bit 32 (mask 32)" "(0xfff :: u64) = mask 12"
  by (simp_all add: mask_eq_exp_minus_1 push_bit_eq_mult)

lemmas bit_distribs = drop_bit_and drop_bit_or push_bit_and push_bit_or

lemmas V1_consts = V1_COMP_OFFSET_MASK_def V1_UNCOMP_OFFSET_MASK_def V1_SIZE_LOW_MASK_def
  V1_SIZE_HIGH_MASK_def V1_SIZE_LOW_SHIFT_def V1_SIZE_HIGH_COMP_SHIFT_def
  V1_SIZE_HIGH_UNCOMP_SHIFT_def

lemmas V2_consts = CHUNK_V2_COMP_OFFSET_MASK_def CHUNK_V2_COMP_SIZE_SHIFT_def
  CHUNK_V2_UNCOMP_OFFSET_MASK_def CHUNK_V2_UNCOMP_OFFSET_SHIFT_def CHUNK_V2_UNCOMP_SIZE_SHIFT_def
  BLOB_METADATA_CHUNK_SIZE_MASK_def

lemma less_two_power_bit:
  fixes w :: "'a::len word"
  assumes "unat w < 2 ^ n" and "n \<le> k"
  shows "\<not> bit w k"
proof -
  have "take_bit n w = w"
    using assms(1) by (metis take_bit_nat_eq_self unsigned_take_bit_eq word_unat_eq_iff)
  then show ?thesis using assms(2) by (metis bit_take_bit_iff linorder_not_le)
qed

lemma size_fits:
  fixes sz :: u32
  assumes "0 < unat sz" and "unat sz \<le> 2 ^ 24"
  shows "unat (ucast sz - 1 :: u64) < 2 ^ 24" and "ucast (ucast sz - 1 :: u64) + 1 = sz"
proof -
  have u: "unat (ucast sz :: u64) = unat sz" by (rule unat_ucast_up) simp
  have m: "unat (ucast sz - 1 :: u64) = unat sz - 1"
    using assms(1) by (subst unat_minus_one) (auto simp: u simp flip: unat_eq_0)
  with assms show "unat (ucast sz - 1 :: u64) < 2 ^ 24" by linarith
  have "unat (ucast (ucast sz - 1 :: u64) :: u32) = unat sz - 1"
    using m unat_lt2p32 [of sz] by (subst unat_ucast_small) simp_all
  then have "unat (ucast (ucast sz - 1 :: u64) + 1 :: u32) = unat sz"
    using assms by (subst unat_add_less) simp_all
  then show "ucast (ucast sz - 1 :: u64) + 1 = sz" by (simp only: word_unat_eq_iff)
qed

text \<open>The values that fit into the fields of an entry.\<close>

definition comp_offset_fits :: "u64 \<Rightarrow> bool" where
  "comp_offset_fits off \<longleftrightarrow> unat off < 2 ^ 40"

definition uncomp_offset_fits :: "u64 \<Rightarrow> bool" where
  "uncomp_offset_fits off \<longleftrightarrow> unat off < 2 ^ 44 \<and> 2 ^ 12 dvd unat off"

definition V1_size_fits :: "u32 \<Rightarrow> bool" where
  "V1_size_fits sz \<longleftrightarrow> 0 < unat sz \<and> unat sz \<le> 2 ^ 24"

definition V2_size_fits :: "u32 \<Rightarrow> bool" where
  "V2_size_fits sz \<longleftrightarrow> unat sz < 2 ^ 24"

lemma comp_offset_bits: "off AND NOT (mask 40) = 0 \<longleftrightarrow> comp_offset_fits off"
proof -
  have "unat (off AND NOT (mask 40)) = unat off div 2 ^ 40 * 2 ^ 40" by (rule unat_and_not_mask)
  then have "off AND NOT (mask 40) = 0 \<longleftrightarrow> unat off div 2 ^ 40 = 0"
    by (simp flip: unat_eq_0)
  then show ?thesis by (auto simp: comp_offset_fits_def div_eq_0_iff)
qed

lemma V1_uncomp_offset_bits:
  "(off :: u64) AND NOT (push_bit 12 (mask 32)) = 0 \<longleftrightarrow> uncomp_offset_fits off"
proof -
  have "off AND NOT (push_bit 12 (mask 32)) = (off AND NOT (mask 44)) OR (off AND mask 12)"
    by (rule bit_word_eqI) (auto simp: bit_simps)
  moreover have "(a :: u64) OR b = 0 \<longleftrightarrow> a = 0 \<and> b = 0" for a b by (rule or_eq_0_iff)
  ultimately have "off AND NOT (push_bit 12 (mask 32)) = 0 \<longleftrightarrow>
      unat off div 2 ^ 44 * 2 ^ 44 = 0 \<and> unat off mod 2 ^ 12 = 0"
    by (simp only: unat_eq_0 [symmetric] unat_and_not_mask unat_and_mask)
  then show ?thesis by (auto simp: uncomp_offset_fits_def div_eq_0_iff dvd_eq_mod_eq_0)
qed

lemma V2_uncomp_offset_bits:
  "(off :: u64) = push_bit 12 (drop_bit 12 off AND mask 32) \<longleftrightarrow> uncomp_offset_fits off"
proof -
  have "off = push_bit 12 (drop_bit 12 off AND mask 32) \<longleftrightarrow> off AND push_bit 12 (mask 32) = off"
  proof -
    have "push_bit 12 (drop_bit 12 off AND mask 32) = off AND push_bit 12 (mask 32)"
      by (rule bit_word_eqI) (auto simp: bit_simps)
    then show ?thesis by metis
  qed
  also have "\<dots> \<longleftrightarrow> off AND NOT (push_bit 12 (mask 32)) = 0"
  proof -
    have "off AND NOT m = 0 \<longleftrightarrow> off AND m = off" for m :: u64
      by (auto simp: bit_eq_iff bit_simps)
    then show ?thesis by blast
  qed
  finally show ?thesis by (simp only: V1_uncomp_offset_bits)
qed

text \<open>
  The contract of the four setters of \<open>BlobMetaChunkInfo\<close>: a value that fits is read back and the
  other fields keep theirs, a value that does not fit panics.
\<close>

definition writes :: "('e \<Rightarrow> 'v) \<Rightarrow> ('e \<Rightarrow> 'e \<Rightarrow> bool) \<Rightarrow> ('v \<Rightarrow> bool) \<Rightarrow> ('e \<Rightarrow> 'v \<Rightarrow> 'e res) \<Rightarrow> bool" where
  "writes get frame fits set' \<longleftrightarrow>
     (\<forall>c x. if fits x then \<exists>c'. set' c x = Inr c' \<and> get c' = x \<and> frame c c' else set' c x = Inl Panic)"

lemma writesE:
  assumes "writes get frame fits set'" and "fits x"
  obtains c' where "set' c x = Inr c'" and "get c' = x" and "frame c c'"
  using assms unfolding writes_def by (metis (full_types))

lemma writes_panic:
  "writes get frame fits set' \<Longrightarrow> \<not> fits x \<Longrightarrow> set' c x = Inl Panic"
  unfolding writes_def by (metis (full_types))

locale chunk_format =
  fixes co :: "'e \<Rightarrow> u64" and cs :: "'e \<Rightarrow> u32" and uo :: "'e \<Rightarrow> u64" and us :: "'e \<Rightarrow> u32"
    and sco :: "'e \<Rightarrow> u64 \<Rightarrow> 'e res" and scs :: "'e \<Rightarrow> u32 \<Rightarrow> 'e res"
    and suo :: "'e \<Rightarrow> u64 \<Rightarrow> 'e res" and sus :: "'e \<Rightarrow> u32 \<Rightarrow> 'e res"
    and cs_fits :: "u32 \<Rightarrow> bool"
  assumes writes_co: "writes co (\<lambda>c c'. cs c' = cs c \<and> uo c' = uo c \<and> us c' = us c) comp_offset_fits sco"
    and writes_cs: "writes cs (\<lambda>c c'. co c' = co c \<and> uo c' = uo c \<and> us c' = us c) cs_fits scs"
    and writes_uo: "writes uo (\<lambda>c c'. co c' = co c \<and> cs c' = cs c \<and> us c' = us c) uncomp_offset_fits suo"
    and writes_us: "writes us (\<lambda>c c'. co c' = co c \<and> cs c' = cs c \<and> uo c' = uo c) V1_size_fits sus"
begin

text \<open>Setting all four fields, as every constructor of an entry does.\<close>

lemma set_all:
  assumes "comp_offset_fits a" and "cs_fits b" and "uncomp_offset_fits d" and "V1_size_fits e"
  shows "\<exists>c'. co c' = a \<and> cs c' = b \<and> uo c' = d \<and> us c' = e \<and>
           and_then (sco c a) (\<lambda>m. and_then (scs m b) (\<lambda>m. and_then (suo m d) (\<lambda>m.
             and_then (sus m e) k))) = k c'"
proof -
  obtain c1 where "sco c a = Inr c1" "co c1 = a"
    using writesE [OF writes_co assms(1)] by blast
  moreover obtain c2 where "scs c1 b = Inr c2" "cs c2 = b" "co c2 = co c1"
    using writesE [OF writes_cs assms(2)] by blast
  moreover obtain c3 where "suo c2 d = Inr c3" "uo c3 = d" "co c3 = co c2" "cs c3 = cs c2"
    using writesE [OF writes_uo assms(3)] by blast
  moreover obtain c4 where "sus c3 e = Inr c4" "us c4 = e" "co c4 = co c3" "cs c4 = cs c3" "uo c4 = uo c3"
    using writesE [OF writes_us assms(4)] by blast
  ultimately show ?thesis by (intro exI [of _ c4]) simp
qed

lemma set_all_panics:
  assumes "\<not> (comp_offset_fits a \<and> cs_fits b \<and> uncomp_offset_fits d \<and> V1_size_fits e)"
  shows "and_then (sco c a) (\<lambda>m. and_then (scs m b) (\<lambda>m. and_then (suo m d) (\<lambda>m.
           and_then (sus m e) k))) = Inl Panic"
proof -
  consider "\<not> comp_offset_fits a" | "comp_offset_fits a" "\<not> cs_fits b"
    | "comp_offset_fits a" "cs_fits b" "\<not> uncomp_offset_fits d"
    | "comp_offset_fits a" "cs_fits b" "uncomp_offset_fits d" "\<not> V1_size_fits e"
    using assms by blast
  then show ?thesis
  proof cases
    case 1
    then show ?thesis by (simp add: writes_panic [OF writes_co])
  next
    case 2
    with writesE [OF writes_co, of a c] obtain c1 where "sco c a = Inr c1" by blast
    with 2 show ?thesis by (simp add: writes_panic [OF writes_cs])
  next
    case 3
    with writesE [OF writes_co, of a c] obtain c1 where "sco c a = Inr c1" by blast
    moreover from 3 writesE [OF writes_cs, of b c1] obtain c2 where "scs c1 b = Inr c2" by blast
    ultimately show ?thesis using 3 by (simp add: writes_panic [OF writes_uo])
  next
    case 4
    with writesE [OF writes_co, of a c] obtain c1 where "sco c a = Inr c1" by blast
    moreover from 4 writesE [OF writes_cs, of b c1] obtain c2 where "scs c1 b = Inr c2" by blast
    moreover from 4 writesE [OF writes_uo, of d c2] obtain c3 where "suo c2 d = Inr c3" by blast
    ultimately show ?thesis using 4 by (simp add: writes_panic [OF writes_us])
  qed
qed

end

subsection \<open>Format V1\<close>

lemma comp_offset_mask: "comp_offset_fits off \<Longrightarrow> off AND mask 40 = off"
proof (rule bit_word_eqI)
  fix n assume "comp_offset_fits off" and "n < LENGTH(64)"
  then show "bit (off AND mask 40) n = bit off n"
    using less_two_power_bit [of off 40 n] by (cases "n < 40") (auto simp: comp_offset_fits_def bit_simps)
qed

lemma comp_offset_bit: "comp_offset_fits off \<Longrightarrow> bit off n \<Longrightarrow> n < 40"
  using less_two_power_bit [of off 40 n] by (auto simp: comp_offset_fits_def not_less [symmetric])

lemma uncomp_offset_mask: "uncomp_offset_fits off \<Longrightarrow> off AND push_bit 12 (mask 32) = off"
  using V1_uncomp_offset_bits [of off] by (auto simp: bit_eq_iff bit_simps)

lemma uncomp_offset_bit: "uncomp_offset_fits off \<Longrightarrow> bit off n \<Longrightarrow> 12 \<le> n \<and> n < 44"
  by (subst (asm) uncomp_offset_mask [symmetric]) (auto simp: bit_simps)

lemma V1_comp_size_word:
  fixes s w :: u64
  assumes "unat s < 2 ^ 24"
    and "w' = push_bit 44 (s AND mask 20) OR push_bit 20 (s AND push_bit 20 (mask 4)) OR (w AND mask 40)"
  shows "drop_bit 20 (w' AND push_bit 40 (mask 4)) OR drop_bit 44 w' = s"
    and "w' AND mask 40 = w AND mask 40"
proof -
  have s: "\<not> bit s k" if "24 \<le> k" for k using less_two_power_bit [OF assms(1) that] .
  show "drop_bit 20 (w' AND push_bit 40 (mask 4)) OR drop_bit 44 w' = s"
  proof (rule bit_word_eqI)
    fix n assume "n < LENGTH(64)"
    show "bit (drop_bit 20 (w' AND push_bit 40 (mask 4)) OR drop_bit 44 w') n = bit s n"
    proof (cases "24 \<le> n")
      case True
      with s [of n] show ?thesis by (auto simp: assms(2) bit_simps)
    next
      case False
      then show ?thesis by (auto simp: assms(2) bit_simps)
    qed
  qed
  show "w' AND mask 40 = w AND mask 40"
    by (rule bit_word_eqI) (auto simp: assms(2) bit_simps)
qed

lemma V1_uncomp_size_word:
  fixes s w :: u64
  assumes "unat s < 2 ^ 24"
    and "w' = push_bit 44 (s AND mask 20) OR (w AND push_bit 12 (mask 32)) OR drop_bit 12 (s AND push_bit 20 (mask 4))"
  shows "push_bit 12 (w' AND push_bit 8 (mask 4)) OR drop_bit 44 w' = s"
    and "w' AND push_bit 12 (mask 32) = w AND push_bit 12 (mask 32)"
proof -
  have s: "\<not> bit s k" if "24 \<le> k" for k using less_two_power_bit [OF assms(1) that] .
  show "push_bit 12 (w' AND push_bit 8 (mask 4)) OR drop_bit 44 w' = s"
  proof (rule bit_word_eqI)
    fix n assume "n < LENGTH(64)"
    show "bit (push_bit 12 (w' AND push_bit 8 (mask 4)) OR drop_bit 44 w') n = bit s n"
    proof (cases "24 \<le> n")
      case True
      with s [of n] show ?thesis by (auto simp: assms(2) bit_simps)
    next
      case False
      then show ?thesis by (auto simp: assms(2) bit_simps)
    qed
  qed
  show "w' AND push_bit 12 (mask 32) = w AND push_bit 12 (mask 32)"
    by (rule bit_word_eqI) (auto simp: assms(2) bit_simps)
qed

lemma unat_ucast_u32_u64: "unat (ucast (x :: u32) :: u64) = unat x"
  by (rule unat_ucast_up) simp

lemma V1_size_guard:
  "(ucast sz :: u64) \<noteq> 0 \<and> (ucast sz :: u64) \<le> BLOB_METADATA_CHUNK_SIZE_MASK + 1 \<longleftrightarrow> V1_size_fits sz"
proof -
  have "(ucast sz :: u64) \<noteq> 0 \<longleftrightarrow> 0 < unat sz"
    by (simp only: unat_eq_0 [symmetric] unat_ucast_u32_u64 neq0_conv)
  moreover have "(ucast sz :: u64) \<le> BLOB_METADATA_CHUNK_SIZE_MASK + 1 \<longleftrightarrow> unat sz \<le> 2 ^ 24"
    by (simp add: word_le_nat_alt unat_ucast_u32_u64 BLOB_METADATA_CHUNK_SIZE_MASK_def)
  ultimately show ?thesis by (simp only: V1_size_fits_def)
qed

lemma V1_writes_co:
  "writes V1_compressed_offset
     (\<lambda>c c'. V1_compressed_size c' = V1_compressed_size c \<and> V1_uncompressed_offset c' = V1_uncompressed_offset c
        \<and> V1_uncompressed_size c' = V1_uncompressed_size c) comp_offset_fits V1_set_compressed_offset"
proof -
  have "((w AND NOT (mask 40)) OR off) AND mask 40 = off"
    and "drop_bit 44 ((w AND NOT (mask 40)) OR off) = drop_bit 44 w"
    and "((w AND NOT (mask 40)) OR off) AND push_bit 40 (mask 4) = w AND push_bit 40 (mask 4)"
    if "comp_offset_fits off" for w off :: u64
    by (subst comp_offset_mask [OF that, symmetric], rule bit_word_eqI,
        use comp_offset_bit [OF that] in \<open>auto simp: bit_simps dest: bit_imp_le_length\<close>)+
  then show ?thesis
    by (auto simp: writes_def V1_set_compressed_offset_def V1_compressed_offset_def V1_compressed_size_def
        V1_uncompressed_offset_def V1_uncompressed_size_def V1_consts mask_numerals comp_offset_bits
        comp_offset_mask simp del: bit_distribs)
qed

lemma V1_writes_cs:
  "writes V1_compressed_size
     (\<lambda>c c'. V1_compressed_offset c' = V1_compressed_offset c \<and> V1_uncompressed_offset c' = V1_uncompressed_offset c
        \<and> V1_uncompressed_size c' = V1_uncompressed_size c) V1_size_fits V1_set_compressed_size"
proof -
  have "\<exists>c'. V1_set_compressed_size c sz = Inr c' \<and> V1_compressed_size c' = sz
      \<and> V1_compressed_offset c' = V1_compressed_offset c \<and> V1_uncompressed_offset c' = V1_uncompressed_offset c
      \<and> V1_uncompressed_size c' = V1_uncompressed_size c" if fits: "V1_size_fits sz" for c sz
  proof -
    let ?s = "ucast sz - 1 :: u64"
    note size_fits [of sz, OF fits [unfolded V1_size_fits_def, THEN conjunct1]
        fits [unfolded V1_size_fits_def, THEN conjunct2]]
    note V1_comp_size_word [OF this(1) refl, of "v1_comp_info c"] this(2)
    then show ?thesis
      using fits V1_size_guard [of sz]
      by (simp add: V1_set_compressed_size_def V1_compressed_offset_def V1_compressed_size_def
          V1_uncompressed_offset_def V1_uncompressed_size_def V1_consts mask_numerals word_neq_0_conv Let_def
          del: bit_distribs)
  qed
  moreover have "V1_set_compressed_size c sz = Inl Panic" if "\<not> V1_size_fits sz" for c sz
    using that V1_size_guard [of sz] by (auto simp: V1_set_compressed_size_def Let_def word_neq_0_conv)
  ultimately show ?thesis by (simp add: writes_def)
qed

lemma V1_writes_uo:
  "writes V1_uncompressed_offset
     (\<lambda>c c'. V1_compressed_offset c' = V1_compressed_offset c \<and> V1_compressed_size c' = V1_compressed_size c
        \<and> V1_uncompressed_size c' = V1_uncompressed_size c) uncomp_offset_fits V1_set_uncompressed_offset"
proof -
  have "((w AND NOT (push_bit 12 (mask 32))) OR off) AND push_bit 12 (mask 32) = off"
    and "drop_bit 44 ((w AND NOT (push_bit 12 (mask 32))) OR off) = drop_bit 44 w"
    and "((w AND NOT (push_bit 12 (mask 32))) OR off) AND push_bit 8 (mask 4) = w AND push_bit 8 (mask 4)"
    if "uncomp_offset_fits off" for w off :: u64
    by (subst uncomp_offset_mask [OF that, symmetric], rule bit_word_eqI,
        use uncomp_offset_bit [OF that] in \<open>auto simp: bit_simps dest: bit_imp_le_length\<close>)+
  then show ?thesis
    by (auto simp: writes_def V1_set_uncompressed_offset_def V1_compressed_offset_def V1_compressed_size_def
        V1_uncompressed_offset_def V1_uncompressed_size_def V1_consts mask_numerals V1_uncomp_offset_bits
        uncomp_offset_mask simp del: bit_distribs)
qed

lemma V1_writes_us:
  "writes V1_uncompressed_size
     (\<lambda>c c'. V1_compressed_offset c' = V1_compressed_offset c \<and> V1_compressed_size c' = V1_compressed_size c
        \<and> V1_uncompressed_offset c' = V1_uncompressed_offset c) V1_size_fits V1_set_uncompressed_size"
proof -
  have "\<exists>c'. V1_set_uncompressed_size c sz = Inr c' \<and> V1_uncompressed_size c' = sz
      \<and> V1_compressed_offset c' = V1_compressed_offset c \<and> V1_compressed_size c' = V1_compressed_size c
      \<and> V1_uncompressed_offset c' = V1_uncompressed_offset c" if fits: "V1_size_fits sz" for c sz
  proof -
    note size_fits [of sz, OF fits [unfolded V1_size_fits_def, THEN conjunct1]
        fits [unfolded V1_size_fits_def, THEN conjunct2]]
    note V1_uncomp_size_word [OF this(1) refl, of "v1_uncomp_info c"] this(2)
    then show ?thesis
      using fits V1_size_guard [of sz]
      by (simp add: V1_set_uncompressed_size_def V1_compressed_offset_def V1_compressed_size_def
          V1_uncompressed_offset_def V1_uncompressed_size_def V1_consts mask_numerals Let_def
          del: bit_distribs)
  qed
  moreover have "V1_set_uncompressed_size c sz = Inl Panic" if "\<not> V1_size_fits sz" for c sz
    using that V1_size_guard [of sz] by (auto simp: V1_set_uncompressed_size_def Let_def)
  ultimately show ?thesis by (simp add: writes_def)
qed

interpretation v1f: chunk_format V1_compressed_offset V1_compressed_size V1_uncompressed_offset
  V1_uncompressed_size V1_set_compressed_offset V1_set_compressed_size V1_set_uncompressed_offset
  V1_set_uncompressed_size V1_size_fits
  by unfold_locales (rule V1_writes_co V1_writes_cs V1_writes_uo V1_writes_us)+

subsection \<open>Format V2\<close>

lemma ucast_u64_u32 [simp]: "ucast (ucast (x :: u32) :: u64) = x"
  by (rule bit_word_eqI) (auto simp: bit_simps)

lemma V2_size_guard: "(ucast sz :: u64) \<le> BLOB_METADATA_CHUNK_SIZE_MASK \<longleftrightarrow> V2_size_fits sz"
proof -
  have "(ucast sz :: u64) \<le> BLOB_METADATA_CHUNK_SIZE_MASK \<longleftrightarrow> unat sz \<le> 2 ^ 24 - 1"
    by (simp add: word_le_nat_alt unat_ucast_u32_u64 BLOB_METADATA_CHUNK_SIZE_MASK_def)
  then show ?thesis by (auto simp: V2_size_fits_def)
qed

lemma V2_usize_guard:
  "(ucast sz :: u64) \<noteq> 0 \<and> (ucast sz :: u64) - 1 \<le> BLOB_METADATA_CHUNK_SIZE_MASK \<longleftrightarrow> V1_size_fits sz"
proof (cases "unat sz = 0")
  case True
  then show ?thesis by (simp add: V1_size_fits_def unat_eq_0)
next
  case False
  have "unat ((ucast sz :: u64) - 1) = unat sz - 1"
    using False by (subst unat_minus_one) (auto simp: unat_ucast_u32_u64 simp flip: unat_eq_0)
  then have "(ucast sz :: u64) - 1 \<le> BLOB_METADATA_CHUNK_SIZE_MASK \<longleftrightarrow> unat sz - 1 \<le> 2 ^ 24 - 1"
    by (simp add: word_le_nat_alt BLOB_METADATA_CHUNK_SIZE_MASK_def)
  moreover have "(ucast sz :: u64) \<noteq> 0"
    using False by (simp only: unat_eq_0 [symmetric] unat_ucast_u32_u64 not_False_eq_True)
  ultimately show ?thesis using False by (auto simp: V1_size_fits_def)
qed

lemmas V2_guards = V2_size_guard [unfolded BLOB_METADATA_CHUNK_SIZE_MASK_def mask_numerals]
  V2_usize_guard [unfolded BLOB_METADATA_CHUNK_SIZE_MASK_def mask_numerals]

lemma V2_writes_co:
  "writes V2_compressed_offset
     (\<lambda>c c'. V2_compressed_size c' = V2_compressed_size c \<and> V2_uncompressed_offset c' = V2_uncompressed_offset c
        \<and> V2_uncompressed_size c' = V2_uncompressed_size c) comp_offset_fits V2_set_compressed_offset"
proof -
  have "((w AND NOT (mask 40)) OR off) AND mask 40 = off"
    and "drop_bit 40 ((w AND NOT (mask 40)) OR off) = drop_bit 40 w"
    if "comp_offset_fits off" for w off :: u64
    by (subst comp_offset_mask [OF that, symmetric], rule bit_word_eqI,
        use comp_offset_bit [OF that] in \<open>auto simp: bit_simps dest: bit_imp_le_length\<close>)+
  then show ?thesis
    by (auto simp: writes_def V2_set_compressed_offset_def V2_compressed_offset_def V2_compressed_size_def
        V2_uncompressed_offset_def V2_uncompressed_size_def V2_consts mask_numerals comp_offset_bits
        comp_offset_mask simp del: bit_distribs)
qed

lemma V2_writes_cs:
  "writes V2_compressed_size
     (\<lambda>c c'. V2_compressed_offset c' = V2_compressed_offset c \<and> V2_uncompressed_offset c' = V2_uncompressed_offset c
        \<and> V2_uncompressed_size c' = V2_uncompressed_size c) V2_size_fits V2_set_compressed_size"
proof -
  have "(drop_bit 40 ((w AND NOT (push_bit 40 (mask 24))) OR push_bit 40 (ucast sz))) AND mask 24 = ucast sz"
    and "((w AND NOT (push_bit 40 (mask 24))) OR push_bit 40 (ucast sz)) AND mask 40 = w AND mask 40"
    if "V2_size_fits sz" for w :: u64 and sz :: u32
    by (rule bit_word_eqI, use less_two_power_bit [of sz 24] that
        in \<open>auto simp: V2_size_fits_def bit_simps not_less [symmetric]\<close>)+
  then show ?thesis
    by (auto simp: writes_def V2_set_compressed_size_def V2_compressed_offset_def V2_compressed_size_def
        V2_uncompressed_offset_def V2_uncompressed_size_def V2_guards Let_def
        V2_consts mask_numerals simp del: bit_distribs)
qed

lemma V2_writes_uo:
  "writes V2_uncompressed_offset
     (\<lambda>c c'. V2_compressed_offset c' = V2_compressed_offset c \<and> V2_compressed_size c' = V2_compressed_size c
        \<and> V2_uncompressed_size c' = V2_uncompressed_size c) uncomp_offset_fits V2_set_uncompressed_offset"
proof -
  have "push_bit 12 (((w AND NOT (mask 32)) OR (drop_bit 12 off AND mask 32)) AND mask 32) = off"
    and "drop_bit 32 ((w AND NOT (mask 32)) OR (drop_bit 12 off AND mask 32)) = drop_bit 32 w"
    if "uncomp_offset_fits off" for w off :: u64
  proof -
    show "push_bit 12 (((w AND NOT (mask 32)) OR (drop_bit 12 off AND mask 32)) AND mask 32) = off"
    proof (rule bit_word_eqI)
      fix n
      show "bit (push_bit 12 (((w AND NOT (mask 32)) OR (drop_bit 12 off AND mask 32)) AND mask 32)) n = bit off n"
        using uncomp_offset_bit [OF that, of n] bit_imp_le_length [of off n] by (auto simp: bit_simps)
    qed
    show "drop_bit 32 ((w AND NOT (mask 32)) OR (drop_bit 12 off AND mask 32)) = drop_bit 32 w"
      by (rule bit_word_eqI) (auto simp: bit_simps dest: bit_imp_le_length)
  qed
  then show ?thesis
    by (auto simp: writes_def V2_set_uncompressed_offset_def V2_compressed_offset_def V2_compressed_size_def
        V2_uncompressed_offset_def V2_uncompressed_size_def V2_consts mask_numerals V2_uncomp_offset_bits
        Let_def simp del: bit_distribs)
qed

lemma V2_writes_us:
  "writes V2_uncompressed_size
     (\<lambda>c c'. V2_compressed_offset c' = V2_compressed_offset c \<and> V2_compressed_size c' = V2_compressed_size c
        \<and> V2_uncompressed_offset c' = V2_uncompressed_offset c) V1_size_fits V2_set_uncompressed_size"
proof -
  have "drop_bit 32 ((w AND NOT (push_bit 32 (mask 24))) OR push_bit 32 s) AND mask 24 = s"
    and "((w AND NOT (push_bit 32 (mask 24))) OR push_bit 32 s) AND mask 32 = w AND mask 32"
    if "unat s < 2 ^ 24" for w s :: u64
    by (rule bit_word_eqI, use less_two_power_bit [OF that] in \<open>auto simp: bit_simps not_less [symmetric]\<close>)+
  then show ?thesis
    using size_fits
    by (auto simp: writes_def V2_set_uncompressed_size_def V2_compressed_offset_def V2_compressed_size_def
        V2_uncompressed_offset_def V2_uncompressed_size_def V2_guards Let_def V1_size_fits_def
        V2_consts mask_numerals simp del: bit_distribs)
qed

interpretation v2f: chunk_format V2_compressed_offset V2_compressed_size V2_uncompressed_offset
  V2_uncompressed_size V2_set_compressed_offset V2_set_compressed_size V2_set_uncompressed_offset
  V2_set_uncompressed_size V2_size_fits
  by unfold_locales (rule V2_writes_co V2_writes_cs V2_writes_uo V2_writes_us)+

lemma V2_is_compressed_bit: "V2_is_compressed c \<longleftrightarrow> bit (v2_uncomp_info c) 56"
  and V2_is_zran_bit: "V2_is_zran c \<longleftrightarrow> bit (v2_uncomp_info c) 57"
proof -
  have f: "CHUNK_V2_FLAG_COMPRESSED = 2 ^ 56" "CHUNK_V2_FLAG_ZRAN = 2 ^ 57"
    by (simp_all add: CHUNK_V2_FLAG_COMPRESSED_def CHUNK_V2_FLAG_ZRAN_def push_bit_eq_mult)
  have "w AND 2 ^ k \<noteq> 0 \<longleftrightarrow> bit w k" for w :: u64 and k
    by (simp add: and_exp_eq_0_iff_not_bit)
  then show "V2_is_compressed c \<longleftrightarrow> bit (v2_uncomp_info c) 56" "V2_is_zran c \<longleftrightarrow> bit (v2_uncomp_info c) 57"
    by (simp_all only: V2_is_compressed_def V2_is_zran_def f)
qed

text \<open>Marking a chunk leaves the four packed fields alone, and packing leaves flags and data alone.\<close>

lemma V2_flag_consts: "CHUNK_V2_FLAG_COMPRESSED = push_bit 56 (mask 1)"
  "CHUNK_V2_FLAG_ZRAN = push_bit 57 (mask 1)"
  by (simp_all add: CHUNK_V2_FLAG_COMPRESSED_def CHUNK_V2_FLAG_ZRAN_def push_bit_eq_mult mask_eq_exp_minus_1)

definition V2_same :: "BlobChunkInfoV2Ondisk \<Rightarrow> BlobChunkInfoV2Ondisk \<Rightarrow> bool" where
  "V2_same c c' \<longleftrightarrow> V2_compressed_offset c' = V2_compressed_offset c \<and>
     V2_compressed_size c' = V2_compressed_size c \<and>
     V2_uncompressed_offset c' = V2_uncompressed_offset c \<and> V2_uncompressed_size c' = V2_uncompressed_size c"

lemma V2_same_set_flags: "V2_same c (V2_set_compressed c b)" "V2_same c (V2_set_zran c b)"
proof -
  have *: "(w OR push_bit k m) AND mask 32 = w AND mask 32"
    "(w AND NOT (push_bit k m)) AND mask 32 = w AND mask 32"
    "drop_bit 32 (w OR push_bit k m) AND mask 24 = drop_bit 32 w AND mask 24"
    "drop_bit 32 (w AND NOT (push_bit k m)) AND mask 24 = drop_bit 32 w AND mask 24"
    if "56 \<le> k" for w m :: u64 and k
    by (rule bit_word_eqI, use that in \<open>auto simp: bit_simps\<close>)+
  have "56 \<le> (57 :: nat)" by simp
  note k = * [where m = "mask 1" and k = 56, OF order_refl, folded V2_flag_consts]
    * [where m = "mask 1" and k = 57, OF this, folded V2_flag_consts]
  show "V2_same c (V2_set_compressed c b)"
    by (simp add: V2_same_def V2_set_compressed_def V2_compressed_offset_def V2_compressed_size_def
        V2_uncompressed_offset_def V2_uncompressed_size_def V2_consts mask_numerals k
        del: bit_distribs)
  show "V2_same c (V2_set_zran c b)"
    by (simp add: V2_same_def V2_set_zran_def V2_compressed_offset_def V2_compressed_size_def
        V2_uncompressed_offset_def V2_uncompressed_size_def V2_consts mask_numerals k
        del: bit_distribs)
qed

lemma V2_set_data_same: "V2_same c (V2_set_data c d)" "V2_same c (V2_set_zran_index c i)"
  "V2_same c (V2_set_zran_offset c i)"
  by (simp_all add: V2_same_def V2_set_data_def V2_set_zran_index_def V2_set_zran_offset_def
      V2_compressed_offset_def V2_compressed_size_def V2_uncompressed_offset_def V2_uncompressed_size_def)

lemma bit_exp_u64: "bit (2 ^ m :: u64) n \<longleftrightarrow> n < 64 \<and> n = m"
  by (auto simp: bit_exp_iff)

lemma V2_flag_bits:
  "bit CHUNK_V2_FLAG_COMPRESSED k \<longleftrightarrow> k = 56" "bit CHUNK_V2_FLAG_ZRAN k \<longleftrightarrow> k = 57"
proof -
  have f: "CHUNK_V2_FLAG_COMPRESSED = 2 ^ 56" "CHUNK_V2_FLAG_ZRAN = 2 ^ 57"
    by (simp_all add: CHUNK_V2_FLAG_COMPRESSED_def CHUNK_V2_FLAG_ZRAN_def push_bit_eq_mult)
  show "bit CHUNK_V2_FLAG_COMPRESSED k \<longleftrightarrow> k = 56" "bit CHUNK_V2_FLAG_ZRAN k \<longleftrightarrow> k = 57"
    unfolding f bit_exp_u64 by auto
qed

lemma V2_set_flag_bits:
  "bit (v2_uncomp_info (V2_set_compressed c b)) k = (if k = 56 then b else bit (v2_uncomp_info c) k)"
  "bit (v2_uncomp_info (V2_set_zran c b)) k = (if k = 57 then b else bit (v2_uncomp_info c) k)"
  by (auto simp: V2_set_compressed_def V2_set_zran_def V2_flag_bits bit_simps dest: bit_imp_le_length)

lemma V2_set_flag_data [simp]: "v2_data (V2_set_compressed c b) = v2_data c"
  "v2_data (V2_set_zran c b) = v2_data c"
  by (simp_all add: V2_set_compressed_def V2_set_zran_def)

definition V2_high :: "BlobChunkInfoV2Ondisk \<Rightarrow> u64 \<times> u64" where
  "V2_high c = (drop_bit 56 (v2_uncomp_info c), v2_data c)"

lemma V2_high_bit:
  assumes "V2_high c = V2_high c'" and "56 \<le> k"
  shows "bit (v2_uncomp_info c) k = bit (v2_uncomp_info c') k"
proof -
  have "bit (drop_bit 56 (v2_uncomp_info c)) (k - 56) = bit (drop_bit 56 (v2_uncomp_info c')) (k - 56)"
    using assms(1) by (simp add: V2_high_def)
  then show ?thesis using assms(2) by (simp add: bit_drop_bit_eq)
qed

lemma V2_set_high:
  "V2_set_compressed_offset c x = Inr c' \<Longrightarrow> V2_high c' = V2_high c"
  "V2_set_compressed_size c sz = Inr c' \<Longrightarrow> V2_high c' = V2_high c"
  "V2_set_uncompressed_offset c x = Inr c' \<Longrightarrow> V2_high c' = V2_high c"
  "V2_set_uncompressed_size c sz = Inr c' \<Longrightarrow> V2_high c' = V2_high c"
proof -
  have "drop_bit 56 ((w AND NOT (mask 32)) OR (y AND mask 32)) = drop_bit 56 w" for w y :: u64
    by (rule bit_word_eqI) (auto simp: bit_simps dest: bit_imp_le_length)
  then show "V2_set_uncompressed_offset c x = Inr c' \<Longrightarrow> V2_high c' = V2_high c"
    by (auto simp: V2_set_uncompressed_offset_def V2_high_def asserting_eq_Inr Let_def V2_consts mask_numerals
        simp del: bit_distribs)
  have "drop_bit 56 ((w AND NOT (push_bit 32 (mask 24))) OR push_bit 32 y) = drop_bit 56 w"
    if "unat y < 2 ^ 24" for w y :: u64
    by (rule bit_word_eqI)
      (use less_two_power_bit [OF that] in \<open>auto simp: bit_simps dest: bit_imp_le_length\<close>)
  then show "V2_set_uncompressed_size c sz = Inr c' \<Longrightarrow> V2_high c' = V2_high c"
    using size_fits(1) [of sz] V2_guards(2) [of sz]
    by (auto simp: V2_set_uncompressed_size_def V2_high_def asserting_eq_Inr Let_def V2_consts mask_numerals
        V1_size_fits_def simp del: bit_distribs)
qed (auto simp: V2_set_compressed_offset_def V2_set_compressed_size_def V2_high_def asserting_eq_Inr Let_def)

lemma V2_build:
  assumes "comp_offset_fits a" and "V2_size_fits b" and "uncomp_offset_fits d" and "V1_size_fits e"
  shows "\<exists>c'. V2_compressed_offset c' = a \<and> V2_compressed_size c' = b \<and> V2_uncompressed_offset c' = d \<and>
           V2_uncompressed_size c' = e \<and> V2_high c' = V2_high c \<and>
           and_then (V2_set_compressed_offset c a) (\<lambda>m. and_then (V2_set_compressed_size m b) (\<lambda>m.
             and_then (V2_set_uncompressed_offset m d) (\<lambda>m. and_then (V2_set_uncompressed_size m e) k))) = k c'"
proof -
  obtain c' where c': "V2_compressed_offset c' = a" "V2_compressed_size c' = b" "V2_uncompressed_offset c' = d"
      "V2_uncompressed_size c' = e"
    and "and_then (V2_set_compressed_offset c a) (\<lambda>m. and_then (V2_set_compressed_size m b) (\<lambda>m.
          and_then (V2_set_uncompressed_offset m d) (\<lambda>m. and_then (V2_set_uncompressed_size m e) Inr))) = Inr c'"
    using v2f.set_all [OF assms, of c Inr] by blast
  then obtain c1 c2 c3 where steps: "V2_set_compressed_offset c a = Inr c1"
      "V2_set_compressed_size c1 b = Inr c2" "V2_set_uncompressed_offset c2 d = Inr c3"
      "V2_set_uncompressed_size c3 e = Inr c'"
    by (auto simp: and_then_eq_Inr)
  then have "V2_high c' = V2_high c"
    using V2_set_high by metis
  with c' steps show ?thesis by (intro exI [of _ c']) simp
qed

text \<open>
  What the image builder stores with \<open>BlobMetaChunkArray::add_v1\<close> is what the runtime reads:
  an entry whose compressed offset is below \<open>2^40\<close>, whose uncompressed offset is 4K aligned and
  below \<open>2^44\<close> and whose sizes are in \<open>1..=2^24\<close> is appended and its accessors give back the four
  values; anything else panics.
\<close>

theorem add_v1_roundtrip:
  "if comp_offset_fits co \<and> V1_size_fits cs \<and> uncomp_offset_fits uo \<and> V1_size_fits us
   then \<exists>meta. add_v1 (V1 v) co cs uo us = Inr (V1 (v @ [meta])) \<and>
          V1_compressed_offset meta = co \<and> V1_compressed_size meta = cs \<and>
          V1_uncompressed_offset meta = uo \<and> V1_uncompressed_size meta = us
   else add_v1 (V1 v) co cs uo us = Inl Panic"
proof (cases "comp_offset_fits co \<and> V1_size_fits cs \<and> uncomp_offset_fits uo \<and> V1_size_fits us")
  case True
  with v1f.set_all [of co cs uo us V1_default "\<lambda>m. Inr (V1 (v @ [m]))"] show ?thesis
    unfolding add_v1.simps by auto
next
  case False
  from v1f.set_all_panics [OF this] show ?thesis by (simp only: False if_False add_v1.simps)
qed

text \<open>
  The same for \<open>BlobMetaChunkArray::add_v2\<close>, which also stores the compression flag and the
  attached data and leaves the ZRan flag and the reserved flag bits clear. The compressed size must
  be below \<open>2^24\<close> here, not up to \<open>2^24\<close>.
\<close>

theorem add_v2_roundtrip:
  "if comp_offset_fits co \<and> V2_size_fits cs \<and> uncomp_offset_fits uo \<and> V1_size_fits us
   then \<exists>meta. add_v2 (V2 v) co cs uo us compressed data = Inr (V2 (v @ [meta])) \<and>
          V2_compressed_offset meta = co \<and> V2_compressed_size meta = cs \<and>
          V2_uncompressed_offset meta = uo \<and> V2_uncompressed_size meta = us \<and>
          V2_is_compressed meta = compressed \<and> \<not> V2_is_zran meta \<and>
          V2_check_flags meta = 0 \<and> V2_get_data meta = data
   else add_v2 (V2 v) co cs uo us compressed data = Inl Panic"
proof (cases "comp_offset_fits co \<and> V2_size_fits cs \<and> uncomp_offset_fits uo \<and> V1_size_fits us")
  case True
  then obtain c' where c': "V2_compressed_offset c' = co" "V2_compressed_size c' = cs"
      "V2_uncompressed_offset c' = uo" "V2_uncompressed_size c' = us" "V2_high c' = V2_high V2_default"
    and k: "add_v2 (V2 v) co cs uo us compressed data =
              Inr (V2 (v @ [V2_set_data (V2_set_compressed c' compressed) data]))"
    using V2_build [of co cs uo us V2_default
      "\<lambda>m. Inr (V2 (v @ [V2_set_data (V2_set_compressed m compressed) data]))"]
    unfolding add_v2.simps by blast
  let ?m = "V2_set_data (V2_set_compressed c' compressed) data"
  have "V2_same c' ?m"
    using V2_same_set_flags(1) [of c' compressed] V2_set_data_same(1) [of "V2_set_compressed c' compressed" data]
    by (simp add: V2_same_def)
  moreover have bits: "bit (v2_uncomp_info ?m) k \<longleftrightarrow> k = 56 \<and> compressed" if "56 \<le> k" for k
    using V2_high_bit [OF c'(5) that]
    by (auto simp: V2_set_data_def V2_set_flag_bits V2_default_def)
  moreover have "V2_check_flags ?m = 0"
    by (rule bit_word_eqI)
      (auto simp: V2_check_flags_def CHUNK_V2_FLAG_VALID_def bit_simps bits)
  ultimately show ?thesis
    using True c' k
    by (simp add: V2_same_def V2_is_compressed_bit V2_is_zran_bit V2_get_data_def V2_set_data_def)
next
  case False
  from v2f.set_all_panics [OF this] show ?thesis by (simp only: False if_False add_v2.simps)
qed

text \<open>
  A chunk of the maximal size 16 MiB that does not compress can be recorded in format V1 but
  not in format V2: \<open>set_compressed_size\<close> of V2 stores the size itself in 24 bits, where the other
  three sizes are stored minus one, and its assertion fails.
\<close>

theorem add_v2_max_chunk_panics:
  "add_v2 (V2 v) 0 0x1000000 0 0x1000000 False data = Inl Panic \<and> is_ok (add_v1 (V1 w) 0 0x1000000 0 0x1000000)"
proof
  have zero: "comp_offset_fits 0" "uncomp_offset_fits 0"
    by (simp_all add: comp_offset_fits_def uncomp_offset_fits_def)
  have "\<not> V2_size_fits 0x1000000" by (simp add: V2_size_fits_def)
  then show "add_v2 (V2 v) 0 0x1000000 0 0x1000000 False data = Inl Panic"
    unfolding add_v2.simps by (intro v2f.set_all_panics) blast
  have size: "V1_size_fits 0x1000000" by (simp add: V1_size_fits_def)
  from v1f.set_all [OF zero(1) size zero(2) size, of V1_default "\<lambda>m. Inr (V1 (w @ [m]))"]
  show "is_ok (add_v1 (V1 w) 0 0x1000000 0 0x1000000)"
    unfolding add_v1.simps by auto
qed

lemma V2_set_zran_data:
  "ucast (drop_bit 32 (v2_data (V2_set_zran_offset (V2_set_zran_index c i) j))) = i"
  "ucast (v2_data (V2_set_zran_offset (V2_set_zran_index c i) j)) = j"
proof -
  let ?w = "((v2_data c AND NOT (push_bit 32 (mask 32))) OR push_bit 32 (ucast i)) AND NOT (mask 32) OR ucast j"
  have "v2_data (V2_set_zran_offset (V2_set_zran_index c i) j) = ?w"
    by (simp add: V2_set_zran_offset_def V2_set_zran_index_def mask_numerals)
  moreover have "ucast (drop_bit 32 ?w) = i"
    by (rule bit_word_eqI) (auto simp: bit_simps dest: bit_imp_le_length)
  moreover have "ucast ?w = j"
    by (rule bit_word_eqI) (auto simp: bit_simps)
  ultimately show "ucast (drop_bit 32 (v2_data (V2_set_zran_offset (V2_set_zran_index c i) j))) = i"
    "ucast (v2_data (V2_set_zran_offset (V2_set_zran_index c i) j)) = j"
    by simp_all
qed

text \<open>
  \<open>ZranContextGenerator::finish_chunk\<close> records a ZRan chunk so that the runtime reads back its
  compressed range, its uncompressed size, the inflate context index and the offset in the output
  of that context, and places consecutive chunks at 4K aligned positions.
\<close>

theorem finish_chunk_roundtrip:
  assumes "comp_offset_fits (zi_in_pos info)" and "V2_size_fits (zi_in_len info)"
    and "uncomp_offset_fits pos" and "V1_size_fits (zi_ci_len info)"
  shows "\<exists>c. finish_chunk info pos = Inr (c, pos + round_up_4k (ucast (zi_ci_len info))) \<and>
           V2_compressed_offset c = zi_in_pos info \<and> V2_compressed_size c = zi_in_len info \<and>
           V2_uncompressed_offset c = pos \<and> V2_uncompressed_size c = zi_ci_len info \<and>
           V2_is_compressed c \<and> V2_get_zran_index c = Inr (zi_ci_index info) \<and>
           V2_get_zran_offset c = Inr (zi_ci_offset info)"
proof -
  define mk where "mk m = V2_set_compressed (V2_set_zran (V2_set_zran_offset
     (V2_set_zran_index m (zi_ci_index info)) (zi_ci_offset info)) True) True" for m
  obtain c' where c': "V2_compressed_offset c' = zi_in_pos info" "V2_compressed_size c' = zi_in_len info"
      "V2_uncompressed_offset c' = pos" "V2_uncompressed_size c' = zi_ci_len info"
    and k: "finish_chunk info pos = Inr (mk c', pos + round_up_4k (ucast (zi_ci_len info)))"
    using V2_build [OF assms, of V2_default "\<lambda>m. Inr (mk m, pos + round_up_4k (ucast (zi_ci_len info)))"]
    unfolding finish_chunk_def mk_def Let_def by blast
  have "V2_same c' (mk c')"
    unfolding mk_def using V2_same_set_flags V2_set_data_same by (simp add: V2_same_def)
  moreover have "V2_is_compressed (mk c')" "V2_is_zran (mk c')"
    by (simp_all add: mk_def V2_is_compressed_bit V2_is_zran_bit V2_set_flag_bits)
  moreover have "v2_data (mk c') = v2_data (V2_set_zran_offset (V2_set_zran_index c' (zi_ci_index info)) (zi_ci_offset info))"
    by (simp add: mk_def)
  ultimately show ?thesis
    using c' k V2_set_zran_data [of c' "zi_ci_index info" "zi_ci_offset info"]
    by (intro exI [of _ "mk c'"]) (simp add: V2_same_def V2_get_zran_index_def V2_get_zran_offset_def)
qed

theorem finish_chunk_roundtrip_witness:
  "\<exists>c. finish_chunk \<lparr>zi_ci_index = 3, zi_ci_offset = 5, zi_ci_len = 7, zi_in_pos = 9, zi_in_len = 11\<rparr> 4096 = Inr (c, 8192) \<and>
     V2_get_zran_index c = Inr 3 \<and> V2_get_zran_offset c = Inr 5"
  using finish_chunk_roundtrip [of "\<lparr>zi_ci_index = 3, zi_ci_offset = 5, zi_ci_len = 7, zi_in_pos = 9, zi_in_len = 11\<rparr>" 4096]
  by (auto simp: comp_offset_fits_def uncomp_offset_fits_def V1_size_fits_def V2_size_fits_def round_up_4k_def)

section \<open>Validation\<close>

text \<open>The fields are narrow, so the ends of a chunk are computed without wrap-around.\<close>

lemma unat_less_two_power:
  fixes w :: "'a::len word"
  shows "(\<And>k. n \<le> k \<Longrightarrow> \<not> bit w k) \<Longrightarrow> unat w < 2 ^ n"
proof -
  assume "\<And>k. n \<le> k \<Longrightarrow> \<not> bit w k"
  then have "take_bit n w = w" by (intro bit_word_eqI) (auto simp: bit_simps not_less [symmetric])
  then have "unat w = take_bit n (unat w)" by (metis unsigned_take_bit_eq)
  then show ?thesis using take_bit_nat_less_exp [of n "unat w"] by simp
qed

lemma unat_size_field: "unat (w :: u64) < 2 ^ 24 \<Longrightarrow> unat (ucast w + 1 :: u32) = unat w + 1"
proof -
  assume "unat w < 2 ^ 24"
  then have "unat (ucast w :: u32) = unat w" by (intro unat_ucast_small) simp
  with \<open>unat w < 2 ^ 24\<close> show ?thesis by (subst unat_add_less) simp_all
qed

lemma e_compressed_offset_less: "unat (e_compressed_offset e) < 2 ^ 40"
  by (cases e; rule unat_less_two_power)
    (auto simp: V1_compressed_offset_def V2_compressed_offset_def V1_consts V2_consts mask_numerals bit_simps)

lemma e_uncompressed_offset_less: "unat (e_uncompressed_offset e) < 2 ^ 44"
  by (cases e; rule unat_less_two_power)
    (auto simp: V1_uncompressed_offset_def V2_uncompressed_offset_def V1_consts V2_consts mask_numerals bit_simps)

lemma e_compressed_size_le: "unat (e_compressed_size e) \<le> 2 ^ 24"
proof (cases e)
  case (E1 c)
  let ?w = "drop_bit 20 (v1_comp_info c AND push_bit 40 (mask 4)) OR drop_bit 44 (v1_comp_info c)"
  have "unat ?w < 2 ^ 24"
    by (rule unat_less_two_power) (auto simp: bit_simps dest: bit_imp_le_length)
  moreover have "V1_compressed_size c = ucast ?w + 1"
    by (simp add: V1_compressed_size_def V1_consts mask_numerals del: bit_distribs)
  ultimately show ?thesis using E1 unat_size_field [of ?w] by simp
next
  case (E2 c)
  let ?w = "drop_bit 40 (v2_comp_info c) AND mask 24"
  have "unat ?w < 2 ^ 24"
    by (rule unat_less_two_power) (auto simp: bit_simps)
  moreover have "V2_compressed_size c = ucast ?w"
    by (simp add: V2_compressed_size_def V2_consts mask_numerals)
  ultimately show ?thesis using E2 unat_ucast_small [of ?w, where ?'b = 32] by simp
qed

lemma e_uncompressed_size_le: "0 < unat (e_uncompressed_size e) \<and> unat (e_uncompressed_size e) \<le> 2 ^ 24"
proof (cases e)
  case (E1 c)
  let ?w = "push_bit 12 (v1_uncomp_info c AND push_bit 8 (mask 4)) OR drop_bit 44 (v1_uncomp_info c)"
  have "unat ?w < 2 ^ 24"
    by (rule unat_less_two_power) (auto simp: bit_simps dest: bit_imp_le_length)
  moreover have "V1_uncompressed_size c = ucast ?w + 1"
    by (simp add: V1_uncompressed_size_def V1_consts mask_numerals del: bit_distribs)
  ultimately show ?thesis using E1 unat_size_field [of ?w] by simp
next
  case (E2 c)
  let ?w = "drop_bit 32 (v2_uncomp_info c) AND mask 24"
  have "unat ?w < 2 ^ 24"
    by (rule unat_less_two_power) (auto simp: bit_simps)
  moreover have "V2_uncompressed_size c = ucast ?w + 1"
    by (simp add: V2_uncompressed_size_def V2_consts mask_numerals)
  ultimately show ?thesis using E2 unat_size_field [of ?w] by simp
qed

lemma unat_e_compressed_end:
  "unat (e_compressed_end e) = unat (e_compressed_offset e) + unat (e_compressed_size e)"
proof -
  have "unat (e_compressed_offset e) + unat (ucast (e_compressed_size e) :: u64) < 2 ^ LENGTH(64)"
    using e_compressed_offset_less [of e] e_compressed_size_le [of e] by (simp add: unat_ucast_u32_u64)
  then show ?thesis unfolding e_compressed_end_def by (simp only: unat_add_less unat_ucast_u32_u64)
qed

lemma unat_e_uncompressed_end:
  "unat (e_uncompressed_end e) = unat (e_uncompressed_offset e) + unat (e_uncompressed_size e)"
proof -
  have "unat (e_uncompressed_offset e) + unat (ucast (e_uncompressed_size e) :: u64) < 2 ^ LENGTH(64)"
    using e_uncompressed_offset_less [of e] e_uncompressed_size_le [of e] by (simp add: unat_ucast_u32_u64)
  then show ?thesis unfolding e_uncompressed_end_def by (simp only: unat_add_less unat_ucast_u32_u64)
qed

lemma V1_compressed_size_pos: "0 < unat (V1_compressed_size c)"
proof -
  let ?w = "drop_bit 20 (v1_comp_info c AND push_bit 40 (mask 4)) OR drop_bit 44 (v1_comp_info c)"
  have "unat ?w < 2 ^ 24"
    by (rule unat_less_two_power) (auto simp: bit_simps dest: bit_imp_le_length)
  moreover have "V1_compressed_size c = ucast ?w + 1"
    by (simp add: V1_compressed_size_def V1_consts mask_numerals del: bit_distribs)
  ultimately show ?thesis using unat_size_field [of ?w] by simp
qed

lemma e_validate_ends:
  assumes "e_validate e st = Inr ()"
  shows "unat (e_compressed_end e) \<le> unat (st_compressed_size st)"
    and "unat (e_uncompressed_end e) \<le> unat (st_uncompressed_size st)"
  using assms
  by (cases e; auto simp: V1_validate_def V2_validate_def word_le_nat_alt [symmetric] not_less split: if_splits)+

lemma e_validate_zran:
  assumes "e_validate e st = Inr ()" and "e_is_zran e"
  shows "\<exists>i j. e_get_zran_index e = Inr i \<and> e_get_zran_offset e = Inr j \<and>
           unat i < length (st_zran_info_array st) \<and> j < z_out_len (st_zran_info_array st ! unat i) \<and>
           j + e_uncompressed_size e \<le> z_out_len (st_zran_info_array st ! unat i)"
  using assms
  by (cases e) (auto simp: V2_validate_def V2_get_zran_index_def V2_get_zran_offset_def not_le not_less
      split: if_splits)

text \<open>
  C29. A chunk entry that \<open>validate\<close> accepts lies inside the blob, in the compressed and in the
  uncompressed address space, with sizes added without wrap-around; it is not empty; and if it is
  a ZRan chunk its context exists and, when the output of that context is at most
  \<open>2^32 - 2^24\<close> bytes long, the chunk lies inside that output. So indexing the context array with
  the index of an accepted chunk cannot panic.
\<close>

theorem validate_sound:
  assumes "e_validate e st = Inr ()"
  shows "unat (e_compressed_offset e) + unat (e_compressed_size e) \<le> unat (st_compressed_size st) \<and>
    unat (e_uncompressed_offset e) + unat (e_uncompressed_size e) \<le> unat (st_uncompressed_size st) \<and>
    0 < unat (e_uncompressed_size e) \<and> (e_is_zran e \<or> 0 < unat (e_compressed_size e)) \<and>
    (e_is_zran e \<longrightarrow> (\<exists>i j. e_get_zran_index e = Inr i \<and> e_get_zran_offset e = Inr j \<and>
       unat i < length (st_zran_info_array st) \<and>
       (let ctx = st_zran_info_array st ! unat i in unat (z_out_len ctx) \<le> 2 ^ 32 - 2 ^ 24 \<longrightarrow>
          unat j + unat (e_uncompressed_size e) \<le> unat (z_out_len ctx))))"
proof (intro conjI impI)
  show "unat (e_compressed_offset e) + unat (e_compressed_size e) \<le> unat (st_compressed_size st)"
    "unat (e_uncompressed_offset e) + unat (e_uncompressed_size e) \<le> unat (st_uncompressed_size st)"
    using e_validate_ends [OF assms] by (simp_all only: unat_e_compressed_end unat_e_uncompressed_end)
  show "0 < unat (e_uncompressed_size e)" using e_uncompressed_size_le by blast
  show "e_is_zran e \<or> 0 < unat (e_compressed_size e)"
    using assms V1_compressed_size_pos
    by (cases e) (auto simp: V2_validate_def unat_gt_0 split: if_splits)
next
  assume "e_is_zran e"
  from e_validate_zran [OF assms this] obtain i j where ij: "e_get_zran_index e = Inr i"
      "e_get_zran_offset e = Inr j" "unat i < length (st_zran_info_array st)"
      "j < z_out_len (st_zran_info_array st ! unat i)"
      "j + e_uncompressed_size e \<le> z_out_len (st_zran_info_array st ! unat i)" (is "_ \<le> ?out") by blast
  moreover have "unat j + unat (e_uncompressed_size e) \<le> unat ?out" if "unat ?out \<le> 2 ^ 32 - 2 ^ 24"
  proof -
    have "unat j < unat ?out" using ij(4) by (simp only: word_less_nat_alt)
    with that have "unat j + unat (e_uncompressed_size e) < 2 ^ LENGTH(32)"
      using e_uncompressed_size_le [of e] by simp
    then have "unat (j + e_uncompressed_size e) = unat j + unat (e_uncompressed_size e)" by (rule unat_add_less)
    with ij(5) show ?thesis by (simp only: word_le_nat_alt)
  qed
  ultimately show "\<exists>i j. e_get_zran_index e = Inr i \<and> e_get_zran_offset e = Inr j \<and>
       unat i < length (st_zran_info_array st) \<and>
       (let ctx = st_zran_info_array st ! unat i in unat (z_out_len ctx) \<le> 2 ^ 32 - 2 ^ 24 \<longrightarrow>
          unat j + unat (e_uncompressed_size e) \<le> unat (z_out_len ctx))"
    by (intro exI [of _ i] exI [of _ j]) (simp add: Let_def)
qed

definition demo_zran_state :: "u32 \<Rightarrow> BlobMetaState" where
  "demo_zran_state out_len =
     \<lparr>st_blob_index = 0, st_meta_flags = 0xc, st_compressed_size = 100, st_uncompressed_size = 4096,
      st_chunk_info_array = V2 [], st_zran_info_array =
        [\<lparr>z_in_offset = 0, z_out_offset = 0, z_dict_offset = 0, z_in_len = 50, z_out_len = out_len,
          z_dict_size = 0, z_ctx_byte = 0, z_ctx_bits = 0\<rparr>],
      st_zran_dict_table = []\<rparr>"

text \<open>A compressed ZRan chunk of two bytes at the given offset of the output of context 0.\<close>

definition demo_zran_entry :: "u64 \<Rightarrow> chunk_entry" where
  "demo_zran_entry off = E2 \<lparr>v2_uncomp_info = 0x0300000100000000, v2_comp_info = 0x0000320000000000, v2_data = off\<rparr>"

lemmas V2_eval = V2_validate_def e_compressed_end_def e_uncompressed_end_def V2_compressed_offset_def
  V2_compressed_size_def V2_uncompressed_offset_def V2_uncompressed_size_def V2_is_zran_def V2_is_compressed_def
  V2_check_flags_def V2_get_zran_index_def V2_get_zran_offset_def V2_consts CHUNK_V2_FLAG_COMPRESSED_def
  CHUNK_V2_FLAG_ZRAN_def CHUNK_V2_FLAG_VALID_def BLOB_META_FEATURE_ZRAN_def

theorem validate_sound_witness:
  "e_validate (demo_zran_entry 3) (demo_zran_state 10) = Inr () \<and>
     unat (e_compressed_offset (demo_zran_entry 3)) + unat (e_compressed_size (demo_zran_entry 3)) \<le> 100"
proof -
  have "e_validate (demo_zran_entry 3) (demo_zran_state 10) = Inr ()"
    by (simp add: demo_zran_entry_def demo_zran_state_def V2_eval)
  with validate_sound [OF this] show ?thesis by (simp add: demo_zran_state_def)
qed

text \<open>
  For a larger inflate context the check of \<open>validate\<close> wraps: the 32-bit sum of the offset and
  the size can be small, and an entry that ends beyond the output of its context is accepted.
\<close>

theorem validate_zran_wraps:
  "e_validate (demo_zran_entry 0xfffffffe) (demo_zran_state 0xffffffff) = Inr () \<and>
     e_get_zran_offset (demo_zran_entry 0xfffffffe) = Inr 0xfffffffe \<and>
     unat (0xfffffffe :: u32) + unat (e_uncompressed_size (demo_zran_entry 0xfffffffe)) > unat (0xffffffff :: u32)"
  by (simp add: demo_zran_entry_def demo_zran_state_def V2_eval)

end
