(* ===== verification/Blob_Meta.thy ===== *)
theory Blob_Meta
  imports Chunk_Info Io_Merge
begin

text \<open>
  The queries on blob metadata of \<open>storage/src/meta/mod.rs\<close>: the binary search for the chunk at an
  address, the chunks that cover a range of the uncompressed or of the compressed blob, the
  amplification of a request by neighbouring chunks, and the lookup of inflate contexts. The
  generic functions over \<open>T: BlobMetaChunkInfo\<close> work on the entries of the array of the state.
\<close>

section \<open>Chunks of the metadata\<close>

definition RAFS_MAX_CHUNKS_PER_BLOB :: u32 where "RAFS_MAX_CHUNKS_PER_BLOB = push_bit 24 1"

abbreviation st_entries :: "BlobMetaState \<Rightarrow> chunk_entry list" where
  "st_entries st \<equiv> entries (st_chunk_info_array st)"

text \<open>
  The object \<open>BlobMetaChunk\<close> with the values that its methods return; \<open>chunk_id\<close> panics there and
  is the empty digest here.
\<close>

definition meta_chunk :: "BlobMetaState \<Rightarrow> nat \<Rightarrow> BlobChunkInfo" where
  "meta_chunk st chunk_index =
     (let e = st_entries st ! chunk_index
      in \<lparr>ci_chunk_id = [], ci_id = of_nat chunk_index, ci_blob_index = st_blob_index st,
          ci_compressed_offset = e_compressed_offset e, ci_compressed_size = e_compressed_size e,
          ci_uncompressed_offset = e_uncompressed_offset e, ci_uncompressed_size = e_uncompressed_size e,
          ci_is_compressed = e_is_compressed e\<rparr>)"

definition BlobMetaChunk_new :: "nat \<Rightarrow> BlobMetaState \<Rightarrow> BlobChunkInfo res" where
  "BlobMetaChunk_new chunk_index st =
     asserting (chunk_index \<le> unat RAFS_MAX_CHUNKS_PER_BLOB) (Inr (meta_chunk st chunk_index))"

definition get_chunk_entry :: "BlobMetaState \<Rightarrow> nat \<Rightarrow> chunk_entry res" where
  "get_chunk_entry st index =
     asserting (index < length (st_entries st)) (
     and_then (e_validate (st_entries st ! index) st) (\<lambda>_. Inr (st_entries st ! index)))"

section \<open>Binary search\<close>

definition e_start :: "bool \<Rightarrow> chunk_entry \<Rightarrow> u64" where
  "e_start compressed e = (if compressed then e_compressed_offset e else e_uncompressed_offset e)"

definition e_end :: "bool \<Rightarrow> chunk_entry \<Rightarrow> u64" where
  "e_end compressed e = (if compressed then e_compressed_end e else e_uncompressed_end e)"

text \<open>
  The variable \<open>size\<close> of the loop is \<open>right - left\<close> whenever the loop condition is evaluated.
\<close>

function search_loop :: "chunk_entry list \<Rightarrow> u64 \<Rightarrow> bool \<Rightarrow> nat \<Rightarrow> nat \<Rightarrow> nat res" where
  "search_loop chunks addr compressed left right =
     (if left < right then
        let mid = left + (right - left) div 2
        in and_then (index_at chunks mid) (\<lambda>entry.
           if e_start compressed entry > addr then search_loop chunks addr compressed left mid
           else if e_end compressed entry \<le> addr then search_loop chunks addr compressed (mid + 1) right
           else Inr mid)
      else Inl EINVAL)"
  by pat_completeness auto
termination
  by (relation "measure (\<lambda>(_, _, _, left, right). right - left)") auto

declare search_loop.simps [simp del]

definition get_chunk_index_nocheck :: "chunk_entry list \<Rightarrow> u64 \<Rightarrow> bool \<Rightarrow> nat res" where
  "get_chunk_index_nocheck chunks addr compressed = search_loop chunks addr compressed 0 (length chunks)"

section \<open>Chunks covering a range\<close>

text \<open>Going back to the first chunk of the same inflate context.\<close>

fun zran_head :: "BlobMetaState \<Rightarrow> u32 \<Rightarrow> nat \<Rightarrow> nat res" where
  "zran_head st zran_index 0 = Inr 0"
| "zran_head st zran_index (Suc i) =
     and_then (get_chunk_entry st i) (\<lambda>entry.
     if \<not> e_is_zran entry then Inl EINVAL
     else and_then (e_get_zran_index entry) (\<lambda>zi.
       if zi \<noteq> zran_index then Inr (Suc i) else zran_head st zran_index i))"

text \<open>The loops over the entries from there on; \<open>index\<close> is not changed by them.\<close>

fun zran_uncompressed_loop ::
  "BlobMetaState \<Rightarrow> u64 \<Rightarrow> u64 \<Rightarrow> nat \<Rightarrow> chunk_entry list \<Rightarrow> u64 \<Rightarrow> u32 \<Rightarrow> BlobChunkInfo list
    \<Rightarrow> BlobChunkInfo list res" where
  "zran_uncompressed_loop st end' batch_size index [] count' zran_last vec = Inr vec"
| "zran_uncompressed_loop st end' batch_size index (entry # es) count' zran_last vec =
     and_then (e_validate entry st) (\<lambda>_.
     if \<not> e_is_zran entry then Inl EINVAL
     else and_then (e_get_zran_index entry) (\<lambda>zi.
       if zi \<noteq> zran_last then
         and_then (index_at (st_zran_info_array st) (unat zi)) (\<lambda>ctx.
         if count' + ucast (z_out_len ctx) > batch_size \<and> e_uncompressed_offset entry > end' then Inr vec
         else and_then (BlobMetaChunk_new index st) (\<lambda>c.
           zran_uncompressed_loop st end' batch_size index es (count' + ucast (z_out_len ctx)) zi (vec @ [c])))
       else and_then (BlobMetaChunk_new index st) (\<lambda>c.
         zran_uncompressed_loop st end' batch_size index es count' zran_last (vec @ [c]))))"

fun uncompressed_loop ::
  "BlobMetaState \<Rightarrow> u64 \<Rightarrow> u64 \<Rightarrow> nat list \<Rightarrow> u64 \<Rightarrow> BlobChunkInfo list \<Rightarrow> BlobChunkInfo list res" where
  "uncompressed_loop st end' batch_end [] last_end vec = Inl EINVAL"
| "uncompressed_loop st end' batch_end (index # is) last_end vec =
     and_then (get_chunk_entry st index) (\<lambda>entry.
     if e_uncompressed_offset entry \<noteq> last_end then Inl EINVAL
     else if last_end \<ge> end' \<and> e_aligned_uncompressed_end entry > batch_end then Inr vec
     else and_then (BlobMetaChunk_new index st) (\<lambda>c.
       let last_end = e_aligned_uncompressed_end entry
       in if last_end \<ge> batch_end then Inr (vec @ [c])
          else uncompressed_loop st end' batch_end is last_end (vec @ [c])))"

definition get_chunks_uncompressed' ::
  "BlobMetaState \<Rightarrow> u64 \<Rightarrow> u64 \<Rightarrow> u64 \<Rightarrow> u64 \<Rightarrow> BlobChunkInfo list res" where
  "get_chunks_uncompressed' st start end' batch_end batch_size =
     and_then (get_chunk_index_nocheck (st_entries st) start False) (\<lambda>index.
     and_then (get_chunk_entry st index) (\<lambda>entry.
     if e_is_zran entry then
       and_then (e_get_zran_index entry) (\<lambda>zran_index.
       and_then (index_at (st_zran_info_array st) (unat zran_index)) (\<lambda>ctx.
       and_then (zran_head st zran_index index) (\<lambda>index.
       zran_uncompressed_loop st end' batch_size index (drop index (st_entries st))
         (ucast (z_out_len ctx)) zran_index [])))
     else and_then (BlobMetaChunk_new index st) (\<lambda>c.
       let last_end = e_aligned_uncompressed_end entry
       in if last_end \<ge> batch_end then Inr [c]
          else uncompressed_loop st end' batch_end [Suc index..<length (st_entries st)] last_end [c])))"

definition get_chunks_uncompressed :: "BlobMetaState \<Rightarrow> u64 \<Rightarrow> u64 \<Rightarrow> u64 \<Rightarrow> BlobChunkInfo list res" where
  "get_chunks_uncompressed st start size' batch_size =
     and_then (ok_or EINVAL (checked_add start size')) (\<lambda>end'.
     if end' > st_uncompressed_size st then Inl EINVAL
     else
       let batch_end = (if batch_size \<le> size' then end'
                        else min (case checked_add start batch_size of None \<Rightarrow> end' | Some b \<Rightarrow> b)
                               (st_uncompressed_size st));
           batch_size = (if batch_size < size' then size' else batch_size)
       in get_chunks_uncompressed' st start end' batch_end batch_size)"

fun zran_compressed_loop ::
  "BlobMetaState \<Rightarrow> u64 \<Rightarrow> u64 \<Rightarrow> nat \<Rightarrow> chunk_entry list \<Rightarrow> u64 \<Rightarrow> u32 \<Rightarrow> BlobChunkInfo list
    \<Rightarrow> BlobChunkInfo list res" where
  "zran_compressed_loop st end' batch_size index [] pos zran_last vec = Inr vec"
| "zran_compressed_loop st end' batch_size index (entry # es) pos zran_last vec =
     and_then (e_validate entry st) (\<lambda>_.
     if \<not> e_is_zran entry then Inl EINVAL
     else and_then (e_get_zran_index entry) (\<lambda>zi.
       if zi \<noteq> zran_last then
         and_then (index_at (st_zran_info_array st) (unat zi)) (\<lambda>ctx.
         if z_in_offset ctx + ucast (z_in_len ctx) - pos > batch_size \<and> e_compressed_offset entry > end'
         then Inr vec
         else and_then (BlobMetaChunk_new index st) (\<lambda>c.
           zran_compressed_loop st end' batch_size index es pos zi (vec @ [c])))
       else and_then (BlobMetaChunk_new index st) (\<lambda>c.
         zran_compressed_loop st end' batch_size index es pos zran_last (vec @ [c]))))"

fun compressed_loop ::
  "BlobMetaState \<Rightarrow> u64 \<Rightarrow> u64 \<Rightarrow> nat list \<Rightarrow> u64 \<Rightarrow> BlobChunkInfo list \<Rightarrow> BlobChunkInfo list res" where
  "compressed_loop st end' batch_end [] last_end vec = Inl EINVAL"
| "compressed_loop st end' batch_end (index # is) last_end vec =
     and_then (get_chunk_entry st index) (\<lambda>entry.
     if last_end \<ge> end' \<and> e_compressed_end entry > batch_end then Inr vec
     else and_then (BlobMetaChunk_new index st) (\<lambda>c.
       let last_end = e_compressed_end entry
       in if last_end \<ge> batch_end then Inr (vec @ [c])
          else compressed_loop st end' batch_end is last_end (vec @ [c])))"

definition get_chunks_compressed' ::
  "BlobMetaState \<Rightarrow> u64 \<Rightarrow> u64 \<Rightarrow> u64 \<Rightarrow> u64 \<Rightarrow> BlobChunkInfo list res" where
  "get_chunks_compressed' st start end' batch_end batch_size =
     and_then (get_chunk_index_nocheck (st_entries st) start True) (\<lambda>index.
     and_then (get_chunk_entry st index) (\<lambda>entry.
     if e_is_zran entry then
       and_then (e_get_zran_index entry) (\<lambda>zran_index.
       and_then (index_at (st_zran_info_array st) (unat zran_index)) (\<lambda>ctx.
       and_then (zran_head st zran_index index) (\<lambda>index.
       zran_compressed_loop st end' batch_size index (drop index (st_entries st))
         (z_in_offset ctx) zran_index [])))
     else and_then (BlobMetaChunk_new index st) (\<lambda>c.
       let last_end = e_compressed_end entry
       in if last_end \<ge> batch_end then Inr [c]
          else compressed_loop st end' batch_end [Suc index..<length (st_entries st)] last_end [c])))"

definition get_chunks_compressed :: "BlobMetaState \<Rightarrow> u64 \<Rightarrow> u64 \<Rightarrow> u64 \<Rightarrow> BlobChunkInfo list res" where
  "get_chunks_compressed st start size' batch_size =
     and_then (ok_or EINVAL (checked_add start size')) (\<lambda>end'.
     if end' > st_compressed_size st then Inl EINVAL
     else
       let batch_end = (if batch_size \<le> size' then end'
                        else min (case checked_add start batch_size of None \<Rightarrow> end' | Some b \<Rightarrow> b)
                               (st_compressed_size st))
       in get_chunks_compressed' st start end' batch_end batch_size)"

section \<open>Amplifying a request\<close>

fun zran_more_loop ::
  "BlobMetaState \<Rightarrow> u64 \<Rightarrow> nat \<Rightarrow> chunk_entry list \<Rightarrow> u32 \<Rightarrow> BlobChunkInfo list \<Rightarrow> BlobChunkInfo list res" where
  "zran_more_loop st batch_end index [] last_zran_idx vec = Inr vec"
| "zran_more_loop st batch_end index (entry # es) last_zran_idx vec =
     (if \<not> is_ok (e_validate entry st) \<or> \<not> e_is_zran entry then Inl EINVAL
      else and_then (e_get_zran_index entry) (\<lambda>zi.
        if zi > last_zran_idx then
          if e_compressed_end entry + RAFS_MAX_CHUNK_SIZE \<le> batch_end \<and> zi = last_zran_idx + 1
          then and_then (BlobMetaChunk_new index st) (\<lambda>c.
                 zran_more_loop st batch_end (Suc index) es (last_zran_idx + 1) (vec @ [c]))
          else Inr vec
        else and_then (BlobMetaChunk_new index st) (\<lambda>c.
          zran_more_loop st batch_end (Suc index) es last_zran_idx (vec @ [c]))))"

text \<open>The chunks between two requested chunks.\<close>

fun gap_loop :: "BlobMetaState \<Rightarrow> nat list \<Rightarrow> BlobChunkInfo list \<Rightarrow> BlobChunkInfo list res" where
  "gap_loop st [] vec = Inr vec"
| "gap_loop st (i # is) vec =
     and_then (index_at (st_entries st) i) (\<lambda>entry.
     if is_ok (e_validate entry st)
     then and_then (BlobMetaChunk_new i st) (\<lambda>c. gap_loop st is (vec @ [c]))
     else gap_loop st is vec)"

fun pairs_loop :: "BlobMetaState \<Rightarrow> u64 \<Rightarrow> BlobChunkInfo list \<Rightarrow> BlobChunkInfo list \<Rightarrow> BlobChunkInfo list res" where
  "pairs_loop st batch_end [] vec = Inl Panic"
| "pairs_loop st batch_end [chunk] vec = Inr (vec @ [chunk])"
| "pairs_loop st batch_end (chunk # next' # rest) vec =
     (let next_end = ci_compressed_offset next' + ucast (ci_compressed_size next');
          vec = vec @ [chunk]
      in and_then
           (if ci_id chunk + 1 \<noteq> ci_id next' \<and> next_end \<le> batch_end
            then gap_loop st [unat (ci_id chunk + 1)..<unat (ci_id next')] vec else Inr vec)
           (\<lambda>vec. pairs_loop st batch_end (next' # rest) vec))"

text \<open>The chunks after the last requested one.\<close>

fun tail_loop :: "BlobMetaState \<Rightarrow> u64 \<Rightarrow> nat list \<Rightarrow> BlobChunkInfo list \<Rightarrow> BlobChunkInfo list res" where
  "tail_loop st batch_end [] vec = Inr vec"
| "tail_loop st batch_end (i # is) vec =
     and_then (index_at (st_entries st) i) (\<lambda>entry.
     if \<not> is_ok (e_validate entry st) \<or> e_compressed_end entry > batch_end then Inr vec
     else and_then (BlobMetaChunk_new i st) (\<lambda>c. tail_loop st batch_end is (vec @ [c])))"

definition add_more_chunks :: "BlobMetaState \<Rightarrow> BlobChunkInfo list \<Rightarrow> u64 \<Rightarrow> BlobChunkInfo list res" where
  "add_more_chunks st chunks max_size =
     and_then (index_at chunks 0) (\<lambda>first.
     let batch_end = ci_compressed_offset first + max_size;
         first_idx = unat (ci_id first)
     in and_then (get_chunk_entry st first_idx) (\<lambda>first_entry.
        let last_idx = unat (ci_id (last chunks))
        in and_then (get_chunk_entry st last_idx) (\<lambda>last_entry.
           if e_is_zran last_entry then
             and_then (e_get_zran_index first_entry) (\<lambda>first_zran_idx.
             and_then (e_get_zran_index last_entry) (\<lambda>last_zran_idx.
             and_then (zran_head st first_zran_idx first_idx) (\<lambda>index.
             zran_more_loop st batch_end index (drop index (st_entries st)) last_zran_idx [])))
           else
             and_then (pairs_loop st batch_end chunks []) (\<lambda>vec.
             tail_loop st batch_end [Suc last_idx..<length (st_entries st)] vec))))"

section \<open>Inflate contexts\<close>

record ZranContext =
  zc_in_offset :: u64
  zc_out_offset :: u64
  zc_in_len :: u32
  zc_out_len :: u32
  zc_ctx_byte :: u8
  zc_ctx_bits :: u8
  zc_dict :: "u8 list"

definition ZranContext_from :: "ZranInflateContext \<Rightarrow> ZranContext" where
  "ZranContext_from ctx =
     \<lparr>zc_in_offset = z_in_offset ctx, zc_out_offset = z_out_offset ctx, zc_in_len = z_in_len ctx,
      zc_out_len = z_out_len ctx, zc_ctx_byte = z_ctx_byte ctx, zc_ctx_bits = z_ctx_bits ctx, zc_dict = []\<rparr>"

definition get_zran_index :: "BlobMetaState \<Rightarrow> u32 \<Rightarrow> u32 res" where
  "get_zran_index st chunk_index = and_then (index_at (st_entries st) (unat chunk_index)) e_get_zran_index"

definition get_zran_offset :: "BlobMetaState \<Rightarrow> u32 \<Rightarrow> u32 res" where
  "get_zran_offset st chunk_index = and_then (index_at (st_entries st) (unat chunk_index)) e_get_zran_offset"

definition get_zran_context :: "BlobMetaState \<Rightarrow> u32 \<Rightarrow> (ZranContext \<times> u8 list) option" where
  "get_zran_context st zran_index =
     (if unat zran_index < length (st_zran_info_array st) then
        let entry = st_zran_info_array st ! unat zran_index;
            dict_off = z_dict_offset entry; dict_size = (ucast (z_dict_size entry) :: usize)
        in if checked_add dict_off dict_size = None
              \<or> unat (dict_off + dict_size) > length (st_zran_dict_table st)
           then None
           else Some (ZranContext_from entry,
                  take (unat (dict_off + dict_size) - unat dict_off) (drop (unat dict_off) (st_zran_dict_table st)))
      else None)"

section \<open>Description of the features\<close>

definition BLOB_META_FEATURE_4K_ALIGNED :: u32 where "BLOB_META_FEATURE_4K_ALIGNED = 1"
definition BLOB_META_FEATURE_SEPARATE :: u32 where "BLOB_META_FEATURE_SEPARATE = 2"
definition BLOB_META_FEATURE_MASK :: u32 where "BLOB_META_FEATURE_MASK = 15"

text \<open>\<open>str::trim_end\<close>, for the spaces that occur here.\<close>

definition trim_end :: "string \<Rightarrow> string" where
  "trim_end s = rev (dropWhile (\<lambda>c. c = CHR '' '') (rev s))"

definition format_blob_meta_features :: "u32 \<Rightarrow> string" where
  "format_blob_meta_features features =
     trim_end (concat
       [if features AND BLOB_META_FEATURE_4K_ALIGNED \<noteq> 0 then ''4K-align '' else [],
        if features AND BLOB_META_FEATURE_SEPARATE \<noteq> 0 then ''separate '' else [],
        if features AND BLOB_META_FEATURE_CHUNK_INFO_V2 \<noteq> 0 then ''chunk-v2 '' else [],
        if features AND BLOB_META_FEATURE_ZRAN \<noteq> 0 then ''zran '' else []])"

section \<open>The binary search finds the chunk\<close>

text \<open>The entries are in order and do not overlap.\<close>

definition ordered :: "bool \<Rightarrow> chunk_entry list \<Rightarrow> bool" where
  "ordered compressed es \<longleftrightarrow>
     (\<forall>i j. i < j \<and> j < length es \<longrightarrow> e_end compressed (es ! i) \<le> e_start compressed (es ! j))"

definition contains :: "bool \<Rightarrow> chunk_entry \<Rightarrow> u64 \<Rightarrow> bool" where
  "contains compressed e addr \<longleftrightarrow> e_start compressed e \<le> addr \<and> addr < e_end compressed e"

lemma e_start_le_end: "e_start c e \<le> e_end c e"
  by (simp add: e_start_def e_end_def word_le_nat_alt unat_e_compressed_end unat_e_uncompressed_end)

lemma orderedD:
  "ordered c es \<Longrightarrow> i < j \<Longrightarrow> j < length es \<Longrightarrow> e_end c (es ! i) \<le> e_start c (es ! j)"
  by (simp add: ordered_def)

lemma search_loop_correct:
  assumes "ordered c es" and "right \<le> length es"
    and "\<And>i. i < length es \<Longrightarrow> contains c (es ! i) addr \<Longrightarrow> left \<le> i \<and> i < right"
  shows "(\<exists>i < length es. search_loop es addr c left right = Inr i \<and> contains c (es ! i) addr) \<or>
         (search_loop es addr c left right = Inl EINVAL \<and> (\<forall>i < length es. \<not> contains c (es ! i) addr))"
  using assms
proof (induction es addr c left right rule: search_loop.induct)
  case (1 es addr c left right)
  note inside = "1.prems"(3)
  show ?case
  proof (cases "left < right")
    case False
    then show ?thesis using inside by (subst (1 2) search_loop.simps) force
  next
    case True
    define mid where "mid = left + (right - left) div 2"
    have mid: "mid < length es" "left \<le> mid" "mid < right"
      using True "1.prems"(2) by (auto simp: mid_def)
    let ?e = "es ! mid"
    have step: "search_loop es addr c left right =
        (if e_start c ?e > addr then search_loop es addr c left mid
         else if e_end c ?e \<le> addr then search_loop es addr c (mid + 1) right else Inr mid)"
      using True mid(1) by (subst search_loop.simps) (simp add: mid_def [symmetric])
    consider (left') "e_start c ?e > addr" | (right') "\<not> e_start c ?e > addr" "e_end c ?e \<le> addr"
      | (found) "\<not> e_start c ?e > addr" "\<not> e_end c ?e \<le> addr" by blast
    then show ?thesis
    proof cases
      case left'
      have "i < mid" if "i < length es" "contains c (es ! i) addr" for i
      proof (rule ccontr)
        assume "\<not> i < mid"
        then have "e_start c ?e \<le> e_start c (es ! i)"
          using orderedD [OF "1.prems"(1), of mid i] that(1) e_start_le_end [of c ?e]
          by (cases "i = mid") (auto intro: order_trans)
        with left' that(2) show False by (auto simp: contains_def dest: order_trans)
      qed
      with inside show ?thesis
        unfolding step using "1.IH"(1) [OF True mid_def index_at_less [OF mid(1)] left' "1.prems"(1)] mid left'
        by simp
    next
      case right'
      have "mid + 1 \<le> i" if "i < length es" "contains c (es ! i) addr" for i
      proof (rule ccontr)
        assume "\<not> mid + 1 \<le> i"
        then have "e_end c (es ! i) \<le> e_end c ?e"
          using orderedD [OF "1.prems"(1), of i mid] mid(1) e_start_le_end [of c ?e]
          by (cases "i = mid") (auto intro: order_trans)
        with right' that(2) show False by (auto simp: contains_def dest: order_trans)
      qed
      with inside show ?thesis
        unfolding step using "1.IH"(2) [OF True mid_def index_at_less [OF mid(1)] right' "1.prems"(1,2)] mid right'
        by simp
    next
      case found
      then show ?thesis unfolding step using mid by (auto simp: contains_def not_less not_le)
    qed
  qed
qed

lemma contains_unique:
  assumes "ordered c es" and "i < length es" and "j < length es"
    and "contains c (es ! i) addr" and "contains c (es ! j) addr"
  shows "i = j"
proof (rule ccontr)
  assume "i \<noteq> j"
  then consider "i < j" | "j < i" by linarith
  then show False
  proof cases
    case 1
    from orderedD [OF assms(1) this assms(3)] assms(4,5) show False by (auto simp: contains_def)
  next
    case 2
    from orderedD [OF assms(1) this assms(2)] assms(4,5) show False by (auto simp: contains_def)
  qed
qed

lemma index_nocheck_iff:
  assumes "ordered c es"
  shows "get_chunk_index_nocheck es addr c = Inr i \<longleftrightarrow> i < length es \<and> contains c (es ! i) addr"
  using search_loop_correct [OF assms, of "length es" addr 0] contains_unique [OF assms]
  by (auto simp: get_chunk_index_nocheck_def)

text \<open>
  C16. On entries that are in order and do not overlap, the binary search for the chunk at an
  address gives what a linear scan gives: the one chunk whose range contains the address, and
  EINVAL if the address lies in a gap or beyond the last chunk. It never indexes out of bounds.
\<close>

theorem search_equals_scan:
  assumes "ordered c es"
  shows "get_chunk_index_nocheck es addr c =
           ok_or EINVAL (find (\<lambda>i. contains c (es ! i) addr) [0..<length es])"
proof (cases "find (\<lambda>i. contains c (es ! i) addr) [0..<length es]")
  case None
  then have "\<forall>i < length es. \<not> contains c (es ! i) addr" by (simp add: find_None_iff)
  then show ?thesis
    using search_loop_correct [OF assms, of "length es" addr 0] None
    by (auto simp: get_chunk_index_nocheck_def)
next
  case (Some i)
  then have "i < length es" "contains c (es ! i) addr"
    by (auto simp: find_Some_iff)
  then show ?thesis using Some index_nocheck_iff [OF assms, of addr i] by simp
qed

definition demo_entries :: "chunk_entry list" where
  "demo_entries = [E1 \<lparr>v1_uncomp_info = 0x0000f00000000000, v1_comp_info = 0x0000900000000000\<rparr>,
                   E1 \<lparr>v1_uncomp_info = 0x0000f00000001000, v1_comp_info = 0x000090000000000a\<rparr>]"

lemmas V1_eval = V1_compressed_offset_def V1_compressed_size_def V1_uncompressed_offset_def
  V1_uncompressed_size_def V1_consts

lemma demo_entries_ordered: "ordered c demo_entries"
proof -
  have "e_end c (demo_entries ! 0) \<le> e_start c (demo_entries ! 1)"
    by (simp add: demo_entries_def e_end_def e_start_def e_compressed_end_def e_uncompressed_end_def V1_eval)
  moreover have "i = 0 \<and> j = 1" if "i < j" "j < length demo_entries" for i j
    using that by (auto simp: demo_entries_def)
  ultimately show ?thesis by (auto simp: ordered_def)
qed

theorem search_equals_scan_witness:
  "get_chunk_index_nocheck demo_entries 12 True = Inr 1 \<and> get_chunk_index_nocheck demo_entries 20 True = Inl EINVAL"
  using search_equals_scan [OF demo_entries_ordered, of 12 True] search_equals_scan [OF demo_entries_ordered, of 20 True]
  by (simp add: demo_entries_def contains_def e_end_def e_start_def e_compressed_end_def V1_eval upt_rec)

section \<open>The chunks of a range\<close>

text \<open>Metadata of a blob without inflate contexts in which every entry is valid.\<close>

definition meta_wf :: "BlobMetaState \<Rightarrow> bool" where
  "meta_wf st \<longleftrightarrow> st_entries st \<noteq> [] \<and> length (st_entries st) \<le> 2 ^ 24 \<and>
     (\<forall>e \<in> set (st_entries st). e_validate e st = Inr () \<and> \<not> e_is_zran e)"

text \<open>The uncompressed chunks follow each other at 4K aligned positions and fill the blob.\<close>

definition uncompressed_contiguous :: "BlobMetaState \<Rightarrow> bool" where
  "uncompressed_contiguous st \<longleftrightarrow>
     (\<forall>i. Suc i < length (st_entries st) \<longrightarrow>
        e_uncompressed_offset (st_entries st ! Suc i) = e_aligned_uncompressed_end (st_entries st ! i)) \<and>
     e_aligned_uncompressed_end (last (st_entries st)) = st_uncompressed_size st"

lemma unat_max_chunks: "unat RAFS_MAX_CHUNKS_PER_BLOB = 2 ^ 24"
  by (simp add: RAFS_MAX_CHUNKS_PER_BLOB_def)

lemma meta_wf_get:
  assumes "meta_wf st" and "i < length (st_entries st)"
  shows "get_chunk_entry st i = Inr (st_entries st ! i)"
    and "BlobMetaChunk_new i st = Inr (meta_chunk st i)"
    and "\<not> e_is_zran (st_entries st ! i)"
  using assms
  by (simp_all add: meta_wf_def get_chunk_entry_def BlobMetaChunk_new_def unat_max_chunks)

lemma unat_e_aligned:
  "unat (e_aligned_uncompressed_end e) = ceil4k (unat (e_uncompressed_end e))"
proof -
  have "unat (e_uncompressed_end e) \<le> 2 ^ 44 + 2 ^ 24"
    using e_uncompressed_offset_less [of e] e_uncompressed_size_le [of e] by (simp add: unat_e_uncompressed_end)
  then show ?thesis
    unfolding e_aligned_uncompressed_end_def by (intro unat_round_up_4k) simp
qed

lemma e_uncompressed_end_le_aligned: "e_uncompressed_end e \<le> e_aligned_uncompressed_end e"
  using ceil4k_ge by (simp add: word_le_nat_alt unat_e_aligned)

lemma uncompressed_loop_covers:
  assumes "meta_wf st" and "uncompressed_contiguous st"
    and "end' \<le> batch_end" and "batch_end \<le> st_uncompressed_size st"
    and "0 < k" and "k \<le> length (st_entries st)"
    and "last_end = e_aligned_uncompressed_end (st_entries st ! (k - 1))" and "last_end < batch_end"
  shows "\<exists>j. k - 1 \<le> j \<and> j < length (st_entries st) \<and>
     uncompressed_loop st end' batch_end [k..<length (st_entries st)] last_end vec =
       Inr (vec @ map (meta_chunk st) [k..<Suc j]) \<and>
     end' \<le> e_aligned_uncompressed_end (st_entries st ! j) \<and>
     (\<forall>m. k \<le> m \<and> m \<le> j \<longrightarrow> e_uncompressed_offset (st_entries st ! m) < end' \<or>
        e_aligned_uncompressed_end (st_entries st ! m) \<le> batch_end)"
  using assms(5-8)
proof (induction "length (st_entries st) - k" arbitrary: k vec last_end)
  case 0
  then have "k = length (st_entries st)" by simp
  with 0 assms(1,2,4) have False
    by (auto simp: uncompressed_contiguous_def meta_wf_def last_conv_nth)
  then show ?case ..
next
  case (Suc n)
  let ?es = "st_entries st"
  from Suc.hyps(2) have k: "k < length ?es" by simp
  then have upt: "[k..<length ?es] = k # [Suc k..<length ?es]" by (rule upt_conv_Cons)
  have off: "e_uncompressed_offset (?es ! k) = last_end"
    using assms(2) k Suc.prems(1,3) by (cases k) (auto simp: uncompressed_contiguous_def)
  note get = meta_wf_get [OF assms(1) k]
  let ?a = "e_aligned_uncompressed_end (?es ! k)"
  consider (stop) "end' \<le> last_end" "batch_end < ?a" | (enough) "\<not> (end' \<le> last_end \<and> batch_end < ?a)" "batch_end \<le> ?a"
    | (more) "?a < batch_end" by fastforce
  then show ?case
  proof cases
    case stop
    then show ?thesis using Suc.prems k get off
      by (intro exI [of _ "k - 1"]) (auto simp: upt)
  next
    case enough
    have "e_uncompressed_offset (?es ! k) < end' \<or> ?a \<le> batch_end" using enough off by auto
    moreover have "uncompressed_loop st end' batch_end [k..<length ?es] last_end vec = Inr (vec @ [meta_chunk st k])"
      using enough by (simp add: upt get off)
    ultimately show ?thesis using k enough assms(3) Suc.prems(1)
      by (intro exI [of _ k]) (auto intro: order_trans)
  next
    case more
    have "n = length ?es - Suc k" using Suc.hyps(2) by simp
    from Suc.hyps(1) [OF this, of ?a "vec @ [meta_chunk st k]"] k more obtain j where j: "k \<le> j" "j < length ?es"
      "uncompressed_loop st end' batch_end [Suc k..<length ?es] ?a (vec @ [meta_chunk st k]) =
         Inr ((vec @ [meta_chunk st k]) @ map (meta_chunk st) [Suc k..<Suc j])"
      "end' \<le> e_aligned_uncompressed_end (?es ! j)"
      "\<forall>m. Suc k \<le> m \<and> m \<le> j \<longrightarrow> e_uncompressed_offset (?es ! m) < end' \<or> e_aligned_uncompressed_end (?es ! m) \<le> batch_end"
      by (auto simp del: upt_Suc)
    have "uncompressed_loop st end' batch_end [k..<length ?es] last_end vec =
        Inr (vec @ map (meta_chunk st) [k..<Suc j])"
      using more j(1,3) by (auto simp: upt get off Let_def upt_conv_Cons [of k "Suc j"] simp del: upt_Suc)
    moreover have "\<forall>m. k \<le> m \<and> m \<le> j \<longrightarrow> e_uncompressed_offset (?es ! m) < end' \<or> e_aligned_uncompressed_end (?es ! m) \<le> batch_end"
      using j(5) more by (metis less_imp_le not_less_eq_eq order_antisym)
    ultimately show ?thesis using j by (intro exI [of _ j]) auto
  qed
qed

lemma contiguous_ordered:
  assumes "uncompressed_contiguous st"
  shows "ordered False (st_entries st)"
proof -
  let ?es = "st_entries st"
  have "e_uncompressed_end (?es ! i) \<le> e_uncompressed_offset (?es ! j)" if "i < j" "j < length ?es" for i j
    using that
  proof (induction j)
    case 0
    then show ?case by simp
  next
    case (Suc j)
    have step: "e_uncompressed_end (?es ! j) \<le> e_uncompressed_offset (?es ! Suc j)"
      using assms Suc.prems(2) e_uncompressed_end_le_aligned by (simp add: uncompressed_contiguous_def)
    show ?case
    proof (cases "i = j")
      case True
      with step show ?thesis by simp
    next
      case False
      with Suc have "e_uncompressed_end (?es ! i) \<le> e_uncompressed_offset (?es ! j)" by simp
      also have "\<dots> \<le> e_uncompressed_end (?es ! j)"
        using e_start_le_end [of False] by (simp add: e_start_def e_end_def)
      also note step
      finally show ?thesis .
    qed
  qed
  then show ?thesis by (simp add: ordered_def e_start_def e_end_def)
qed

text \<open>The end of the window of a query, bounded by the size of the blob.\<close>

definition window_end :: "u64 \<Rightarrow> u64 \<Rightarrow> u64 \<Rightarrow> u64 \<Rightarrow> u64" where
  "window_end blob_size start size' batch_size =
     (if batch_size \<le> size' then start + size'
      else min (case checked_add start batch_size of None \<Rightarrow> start + size' | Some b \<Rightarrow> b) blob_size)"

lemma window_end_bounds:
  assumes "unat start + unat size' < 2 ^ 64" and "start + size' \<le> blob_size"
  shows "start + size' \<le> window_end blob_size start size' batch_size"
    and "window_end blob_size start size' batch_size \<le> blob_size"
proof -
  have u: "unat (start + size') = unat start + unat size'"
    using assms(1) by (intro unat_add_less) simp
  have "start + size' \<le> start + batch_size"
    if "\<not> batch_size \<le> size'" "checked_add start batch_size = Some (start + batch_size)"
    using that checked_add_SomeD [OF that(2)] by (simp add: word_le_nat_alt u)
  then show "start + size' \<le> window_end blob_size start size' batch_size"
    using assms(2) by (auto simp: window_end_def checked_add_def)
  show "window_end blob_size start size' batch_size \<le> blob_size"
    using assms(2) by (simp add: window_end_def)
qed

lemma get_chunks_uncompressed_unfold:
  assumes "unat start + unat size' < 2 ^ 64" and "start + size' \<le> st_uncompressed_size st"
  shows "get_chunks_uncompressed st start size' batch_size =
           get_chunks_uncompressed' st start (start + size')
             (window_end (st_uncompressed_size st) start size' batch_size) (max batch_size size')"
  using assms
  by (auto simp: get_chunks_uncompressed_def checked_add_def window_end_def Let_def not_less max_def)


definition demo_meta :: BlobMetaState where
  "demo_meta =
     \<lparr>st_blob_index = 0, st_meta_flags = 0, st_compressed_size = 20, st_uncompressed_size = 8192,
      st_chunk_info_array = V1 [\<lparr>v1_uncomp_info = 0x0000f00000000000, v1_comp_info = 0x0000900000000000\<rparr>,
        \<lparr>v1_uncomp_info = 0x0000f00000001000, v1_comp_info = 0x000090000000000a\<rparr>],
      st_zran_info_array = [], st_zran_dict_table = []\<rparr>"

lemma demo_meta_entries: "st_entries demo_meta = demo_entries"
  by (simp add: demo_meta_def demo_entries_def)

lemma demo_meta_sizes: "st_uncompressed_size demo_meta = 8192" "st_compressed_size demo_meta = 20"
  "length demo_entries = 2"
  by (simp_all add: demo_meta_def demo_entries_def)

lemma demo_meta_wf: "meta_wf demo_meta"
proof -
  have "e_validate (demo_entries ! 0) demo_meta = Inr ()" "e_validate (demo_entries ! 1) demo_meta = Inr ()"
    by (simp_all add: demo_entries_def demo_meta_def V1_validate_def e_compressed_end_def e_uncompressed_end_def
        V1_is_compressed_def V1_eval)
  then show ?thesis
    by (simp add: meta_wf_def demo_meta_entries) (simp add: demo_entries_def)
qed

lemma demo_meta_contiguous: "uncompressed_contiguous demo_meta"
  by (simp add: uncompressed_contiguous_def demo_meta_entries)
    (simp add: demo_entries_def demo_meta_def e_aligned_uncompressed_end_def e_uncompressed_end_def V1_eval
      round_up_4k_def)


subsection \<open>Compressed ranges\<close>

lemma compressed_loop_covers:
  assumes "meta_wf st" and "end' \<le> batch_end" and "batch_end \<le> e_compressed_end (last (st_entries st))"
    and "0 < k" and "k \<le> length (st_entries st)"
    and "last_end = e_compressed_end (st_entries st ! (k - 1))" and "last_end < batch_end"
  shows "\<exists>j. k - 1 \<le> j \<and> j < length (st_entries st) \<and>
     compressed_loop st end' batch_end [k..<length (st_entries st)] last_end vec =
       Inr (vec @ map (meta_chunk st) [k..<Suc j]) \<and>
     end' \<le> e_compressed_end (st_entries st ! j) \<and>
     (\<forall>m. k \<le> m \<and> m \<le> j \<longrightarrow> e_compressed_end (st_entries st ! (m - 1)) < end' \<or>
        e_compressed_end (st_entries st ! m) \<le> batch_end)"
  using assms(4-7)
proof (induction "length (st_entries st) - k" arbitrary: k vec last_end)
  case 0
  then have "k = length (st_entries st)" by simp
  with 0 assms(1,3) have False by (auto simp: meta_wf_def last_conv_nth)
  then show ?case ..
next
  case (Suc n)
  let ?es = "st_entries st"
  from Suc.hyps(2) have k: "k < length ?es" by simp
  then have upt: "[k..<length ?es] = k # [Suc k..<length ?es]" by (rule upt_conv_Cons)
  note get = meta_wf_get [OF assms(1) k]
  let ?a = "e_compressed_end (?es ! k)"
  consider (stop) "end' \<le> last_end" "batch_end < ?a" | (enough) "\<not> (end' \<le> last_end \<and> batch_end < ?a)" "batch_end \<le> ?a"
    | (more) "?a < batch_end" by fastforce
  then show ?case
  proof cases
    case stop
    then show ?thesis using Suc.prems k get
      by (intro exI [of _ "k - 1"]) (auto simp: upt)
  next
    case enough
    have "e_compressed_end (?es ! (k - 1)) < end' \<or> ?a \<le> batch_end" using enough Suc.prems(3) by auto
    moreover have "compressed_loop st end' batch_end [k..<length ?es] last_end vec = Inr (vec @ [meta_chunk st k])"
      using enough by (simp add: upt get)
    ultimately show ?thesis using k enough assms(2) Suc.prems(1)
      by (intro exI [of _ k]) (auto dest: le_antisym intro: order_trans)
  next
    case more
    have "n = length ?es - Suc k" using Suc.hyps(2) by simp
    from Suc.hyps(1) [OF this, of ?a "vec @ [meta_chunk st k]"] k more obtain j where j: "k \<le> j" "j < length ?es"
      "compressed_loop st end' batch_end [Suc k..<length ?es] ?a (vec @ [meta_chunk st k]) =
         Inr ((vec @ [meta_chunk st k]) @ map (meta_chunk st) [Suc k..<Suc j])"
      "end' \<le> e_compressed_end (?es ! j)"
      "\<forall>m. Suc k \<le> m \<and> m \<le> j \<longrightarrow> e_compressed_end (?es ! (m - 1)) < end' \<or> e_compressed_end (?es ! m) \<le> batch_end"
      by (auto simp del: upt_Suc)
    have "compressed_loop st end' batch_end [k..<length ?es] last_end vec =
        Inr (vec @ map (meta_chunk st) [k..<Suc j])"
      using more j(1,3) by (auto simp: upt get Let_def upt_conv_Cons [of k "Suc j"] simp del: upt_Suc)
    moreover have "\<forall>m. k \<le> m \<and> m \<le> j \<longrightarrow> e_compressed_end (?es ! (m - 1)) < end' \<or> e_compressed_end (?es ! m) \<le> batch_end"
      using j(5) more by (metis less_imp_le not_less_eq_eq order_antisym)
    ultimately show ?thesis using j by (intro exI [of _ j]) auto
  qed
qed

text \<open>
  The same for \<open>get_chunks_compressed\<close>, which the prefetch workers use: on entries that are in
  order, a range that starts inside a chunk, with a batch window that ends at or before the end of
  the last chunk, is answered with consecutive chunks that cover the range, and a chunk beyond the
  range is only added if it ends within the batch window.
\<close>

theorem get_chunks_compressed_covers:
  assumes "meta_wf st" and "ordered True (st_entries st)"
    and "unat start + unat size' < 2 ^ 64" and "start + size' \<le> st_compressed_size st"
    and "n < length (st_entries st)" and "contains True (st_entries st ! n) start"
    and "window_end (st_compressed_size st) start size' batch_size \<le> e_compressed_end (last (st_entries st))"
  shows "\<exists>j. n \<le> j \<and> j < length (st_entries st) \<and>
     get_chunks_compressed st start size' batch_size = Inr (map (meta_chunk st) [n..<Suc j]) \<and>
     start + size' \<le> e_compressed_end (st_entries st ! j) \<and>
     (\<forall>m. n < m \<and> m \<le> j \<longrightarrow> e_compressed_end (st_entries st ! (m - 1)) < start + size' \<or>
        e_compressed_end (st_entries st ! m) \<le> window_end (st_compressed_size st) start size' batch_size)"
proof -
  let ?es = "st_entries st" and ?stop = "start + size'"
  let ?b = "window_end (st_compressed_size st) start size' batch_size"
  let ?a = "e_compressed_end (?es ! n)"
  note b = window_end_bounds [OF assms(3,4), of batch_size]
  have idx: "get_chunk_index_nocheck ?es start True = Inr n"
    using index_nocheck_iff [OF assms(2)] assms(5,6) by blast
  note get = meta_wf_get [OF assms(1,5)]
  have "get_chunks_compressed st start size' batch_size = get_chunks_compressed' st start ?stop ?b batch_size"
    using assms(3,4) by (auto simp: get_chunks_compressed_def checked_add_def window_end_def Let_def not_less)
  then have q: "get_chunks_compressed st start size' batch_size =
      (if ?b \<le> ?a then Inr [meta_chunk st n]
       else compressed_loop st ?stop ?b [Suc n..<length ?es] ?a [meta_chunk st n])"
    by (simp add: get_chunks_compressed'_def idx get)
  show ?thesis
  proof (cases "?b \<le> ?a")
    case True
    with q b(1) assms(5) show ?thesis by (intro exI [of _ n]) (auto intro: order_trans)
  next
    case False
    obtain j where "Suc n - 1 \<le> j" "j < length ?es"
      "compressed_loop st ?stop ?b [Suc n..<length ?es] ?a [meta_chunk st n] =
         Inr ([meta_chunk st n] @ map (meta_chunk st) [Suc n..<Suc j])"
      "?stop \<le> e_compressed_end (?es ! j)"
      "\<forall>m. Suc n \<le> m \<and> m \<le> j \<longrightarrow> e_compressed_end (?es ! (m - 1)) < ?stop \<or> e_compressed_end (?es ! m) \<le> ?b"
      using compressed_loop_covers [OF assms(1) b(1) assms(7), of "Suc n" ?a "[meta_chunk st n]"] assms(5) False
      by (auto simp: not_le)
    with False q show ?thesis
      by (intro exI [of _ j]) (auto simp: upt_conv_Cons [of n "Suc j"] Suc_le_eq simp del: upt_Suc)
  qed
qed

theorem get_chunks_compressed_covers_witness:
  "\<exists>j. j < 2 \<and> get_chunks_compressed demo_meta 5 10 0 = Inr (map (meta_chunk demo_meta) [0..<Suc j]) \<and>
     15 \<le> e_compressed_end (demo_entries ! j)"
proof -
  have "contains True (st_entries demo_meta ! 0) 5"
    by (simp add: demo_meta_entries)
      (simp add: demo_entries_def contains_def e_start_def e_end_def e_compressed_end_def V1_eval)
  moreover have "window_end 20 5 10 0 \<le> e_compressed_end (last demo_entries)"
    by (simp add: window_end_def demo_entries_def e_compressed_end_def V1_eval)
  ultimately show ?thesis
    using get_chunks_compressed_covers [OF demo_meta_wf demo_entries_ordered [folded demo_meta_entries], of 5 10 0 0]
    by (auto simp: demo_meta_entries demo_meta_sizes simp del: upt_Suc)
qed

section \<open>Queries on blobs with inflate contexts\<close>

lemma zran_uncompressed_loop_replicate:
  "zran_uncompressed_loop st end' batch_size i es count' last' (replicate k (meta_chunk st i)) = Inr vec \<Longrightarrow>
     \<exists>k. vec = replicate k (meta_chunk st i)"
proof (induction es arbitrary: k count' last')
  case Nil
  then show ?case by auto
next
  case (Cons e es)
  have snoc: "replicate k x @ [x] = replicate (Suc k) x" for k and x :: BlobChunkInfo
    by (simp add: replicate_append_same)
  from Cons.prems show ?case
    by (auto simp: result_iffs BlobMetaChunk_new_def snoc split: if_splits simp del: replicate.simps dest!: Cons.IH)
qed

lemma zran_head_le: "zran_head st zi n = Inr i \<Longrightarrow> i \<le> n"
  by (induction n) (auto simp: result_iffs split: if_splits)

text \<open>
  A query on a blob with inflate contexts returns copies of a single chunk: the loop that
  collects the chunks of the covered contexts never advances its index, so that every element of
  the answer is the first chunk of the first context, whatever range was asked for.
\<close>

theorem zran_query_repeats_first_chunk:
  assumes "get_chunks_uncompressed st start size' batch_size = Inr vec"
    and "get_chunk_index_nocheck (st_entries st) start False = Inr n"
    and "e_is_zran (st_entries st ! n)"
  shows "\<exists>i k. i \<le> n \<and> vec = replicate k (meta_chunk st i)"
proof -
  from assms(1) obtain end' b where "get_chunks_uncompressed' st start end' b (max batch_size size') = Inr vec"
    by (auto simp: get_chunks_uncompressed_def result_iffs Let_def max_def split: if_splits)
  then obtain zi ctx i where "zran_head st zi n = Inr i"
    and loop: "zran_uncompressed_loop st end' (max batch_size size') i (drop i (st_entries st)) ctx zi [] = Inr vec"
    using assms(2,3) by (auto simp: get_chunks_uncompressed'_def get_chunk_entry_def result_iffs)
  moreover from zran_uncompressed_loop_replicate [of _ _ _ _ _ _ _ 0, simplified, OF loop]
  obtain k where "vec = replicate k (meta_chunk st i)" by blast
  ultimately show ?thesis using zran_head_le by blast
qed

definition demo_zran_meta :: BlobMetaState where
  "demo_zran_meta = (demo_zran_state 10)\<lparr>st_uncompressed_size := 8192, st_chunk_info_array :=
     V2 [\<lparr>v2_uncomp_info = 0x0300000100000000, v2_comp_info = 0x0000320000000000, v2_data = 0\<rparr>,
         \<lparr>v2_uncomp_info = 0x0300000100000001, v2_comp_info = 0x0000320000000000, v2_data = 2\<rparr>]\<rparr>"

lemma demo_zran_search: "get_chunk_index_nocheck (st_entries demo_zran_meta) 4096 False = Inr 1"
  by (simp add: get_chunk_index_nocheck_def search_loop.simps demo_zran_meta_def e_start_def e_end_def V2_eval
      index_at_def)

lemma demo_zran_eval:
  "e_validate (st_entries demo_zran_meta ! 0) demo_zran_meta = Inr ()"
  "e_validate (st_entries demo_zran_meta ! Suc 0) demo_zran_meta = Inr ()"
  "length (st_entries demo_zran_meta) = 2" "st_uncompressed_size demo_zran_meta = 8192"
  "length (st_zran_info_array demo_zran_meta) = 1"
  "e_is_zran (st_entries demo_zran_meta ! 0)" "e_is_zran (st_entries demo_zran_meta ! Suc 0)"
  "e_get_zran_index (st_entries demo_zran_meta ! 0) = Inr 0"
  "e_get_zran_index (st_entries demo_zran_meta ! Suc 0) = Inr 0"
  by (simp_all add: demo_zran_meta_def demo_zran_state_def V2_eval)

lemma demo_zran_query:
  "get_chunks_uncompressed demo_zran_meta 4096 2 b = Inr [meta_chunk demo_zran_meta 0, meta_chunk demo_zran_meta 0]"
proof -
  note v = demo_zran_eval
  have es: "st_entries demo_zran_meta = [st_entries demo_zran_meta ! 0, st_entries demo_zran_meta ! Suc 0]"
    by (simp add: demo_zran_meta_def)
  have loop: "zran_uncompressed_loop demo_zran_meta 4098 k 0 (st_entries demo_zran_meta) c 0 [] =
      Inr [meta_chunk demo_zran_meta 0, meta_chunk demo_zran_meta 0]" for c k
    by (subst es) (simp add: v BlobMetaChunk_new_def unat_max_chunks)
  have head: "zran_head demo_zran_meta 0 (Suc 0) = Inr 0"
    by (simp add: get_chunk_entry_def v)
  have "get_chunks_uncompressed' demo_zran_meta 4096 4098 batch_end k =
      Inr [meta_chunk demo_zran_meta 0, meta_chunk demo_zran_meta 0]" for batch_end k
    using head by (simp add: get_chunks_uncompressed'_def demo_zran_search get_chunk_entry_def v loop)
  then show ?thesis
    by (simp add: get_chunks_uncompressed_def checked_add_def v Let_def)
qed

theorem zran_query_repeats_first_chunk_witness:
  "get_chunks_uncompressed demo_zran_meta 4096 2 0 = Inr [meta_chunk demo_zran_meta 0, meta_chunk demo_zran_meta 0] \<and>
     (\<exists>i k. i \<le> 1 \<and> [meta_chunk demo_zran_meta 0, meta_chunk demo_zran_meta 0] = replicate k (meta_chunk demo_zran_meta i))"
  using zran_query_repeats_first_chunk [OF demo_zran_query [of 0] demo_zran_search demo_zran_eval(7) [folded One_nat_def]]
    demo_zran_query [of 0] by blast

section \<open>Amplified requests\<close>

text \<open>The indices that amplification adds between and after the requested ones.\<close>

definition ends_by :: "BlobMetaState \<Rightarrow> u64 \<Rightarrow> nat \<Rightarrow> bool" where
  "ends_by st batch_end i \<longleftrightarrow> e_compressed_end (st_entries st ! i) \<le> batch_end"

fun fill_gaps :: "BlobMetaState \<Rightarrow> u64 \<Rightarrow> nat list \<Rightarrow> nat list" where
  "fill_gaps st batch_end [] = []"
| "fill_gaps st batch_end [i] = [i]"
| "fill_gaps st batch_end (i # j # is) =
     i # (if ends_by st batch_end j then [Suc i..<j] else []) @ fill_gaps st batch_end (j # is)"

lemma gap_loop_eq:
  "meta_wf st \<Longrightarrow> \<forall>i \<in> set is. i < length (st_entries st) \<Longrightarrow>
     gap_loop st is vec = Inr (vec @ map (meta_chunk st) is)"
  by (induction "is" arbitrary: vec) (auto simp: meta_wf_def BlobMetaChunk_new_def unat_max_chunks)

lemma tail_loop_eq:
  "meta_wf st \<Longrightarrow> \<forall>i \<in> set is. i < length (st_entries st) \<Longrightarrow>
     tail_loop st b is vec = Inr (vec @ map (meta_chunk st) (takeWhile (ends_by st b) is))"
  by (induction "is" arbitrary: vec)
    (auto simp: meta_wf_def BlobMetaChunk_new_def unat_max_chunks ends_by_def not_le)

lemma meta_chunk_id:
  assumes "meta_wf st" and "i < length (st_entries st)"
  shows "unat (ci_id (meta_chunk st i)) = i" and "unat (ci_id (meta_chunk st i) + 1) = Suc i"
proof -
  have "i < 2 ^ 24" using assms by (simp add: meta_wf_def)
  then show i: "unat (ci_id (meta_chunk st i)) = i"
    by (simp add: meta_chunk_def Let_def unat_of_nat_less)
  with \<open>i < 2 ^ 24\<close> show "unat (ci_id (meta_chunk st i) + 1) = Suc i"
    by (subst unat_add_less) simp_all
qed

lemma meta_chunk_end:
  "ci_compressed_offset (meta_chunk st i) + ucast (ci_compressed_size (meta_chunk st i)) =
     e_compressed_end (st_entries st ! i)"
  by (simp add: meta_chunk_def Let_def e_compressed_end_def)

lemma pairs_loop_eq:
  assumes "meta_wf st" and "sorted_wrt (<) is" and "\<forall>i \<in> set is. i < length (st_entries st)" and "is \<noteq> []"
  shows "pairs_loop st b (map (meta_chunk st) is) vec = Inr (vec @ map (meta_chunk st) (fill_gaps st b is))"
  using assms(2-)
proof (induction "is" arbitrary: vec rule: induct_list012)
  case (3 i j "is")
  have ij: "i < j" "i < length (st_entries st)" "j < length (st_entries st)" using "3.prems" by auto
  note id = meta_chunk_id [OF assms(1) ij(2)] meta_chunk_id [OF assms(1) ij(3)]
  have ne: "ci_id (meta_chunk st i) + 1 \<noteq> ci_id (meta_chunk st j) \<longleftrightarrow> Suc i \<noteq> j"
    using id by (metis word_unat_eq_iff)
  have gap: "gap_loop st [Suc i..<j] v = Inr (v @ map (meta_chunk st) [Suc i..<j])" for v
    using ij by (intro gap_loop_eq [OF assms(1)]) auto
  have "pairs_loop st b (map (meta_chunk st) (i # j # is)) vec =
      pairs_loop st b (map (meta_chunk st) (j # is))
        (vec @ meta_chunk st i # (if ends_by st b j then map (meta_chunk st) [Suc i..<j] else []))"
    by (auto simp: meta_chunk_end ne gap id ends_by_def Let_def)
  also have "\<dots> = Inr (vec @ map (meta_chunk st) (fill_gaps st b (i # j # is)))"
    using "3.prems" by (subst "3.IH"(2)) auto
  finally show ?case .
qed simp_all

lemma fill_gaps_sorted:
  assumes "sorted_wrt (<) is" and "is \<noteq> []"
  shows "sorted_wrt (<) (fill_gaps st b is) \<and> set is \<subseteq> set (fill_gaps st b is) \<and>
    (\<forall>x \<in> set (fill_gaps st b is). hd is \<le> x \<and> x \<le> last is) \<and>
    (\<forall>x \<in> set (fill_gaps st b is) - set is. \<exists>j \<in> set is. x < j \<and> ends_by st b j)"
  using assms
proof (induction "is" rule: induct_list012)
  case (3 i j "is")
  have ij: "i < j" and sorted: "sorted_wrt (<) (j # is)" using "3.prems"(1) by auto
  let ?f = "fill_gaps st b (j # is)" and ?g = "if ends_by st b j then [Suc i..<j] else []"
  have f: "fill_gaps st b (i # j # is) = i # ?g @ ?f" by simp
  from "3.IH"(2) [OF sorted] have IH: "sorted_wrt (<) ?f" "set (j # is) \<subseteq> set ?f"
    "\<forall>x \<in> set ?f. j \<le> x \<and> x \<le> last (j # is)"
    "\<forall>x \<in> set ?f - set (j # is). \<exists>k \<in> set (j # is). x < k \<and> ends_by st b k"
    by auto
  have "j \<le> last (j # is)" using IH(2,3) by auto
  show ?case
    unfolding f
  proof (intro conjI ballI)
    show "sorted_wrt (<) (i # ?g @ ?f)"
      using IH(1,3) ij by (fastforce simp: sorted_wrt_append)
    show "set (i # j # is) \<subseteq> set (i # ?g @ ?f)" using IH(2) by auto
  next
    fix x assume "x \<in> set (i # ?g @ ?f)"
    then show "hd (i # j # is) \<le> x" using IH(3) ij by (auto split: if_splits)
  next
    fix x assume "x \<in> set (i # ?g @ ?f)"
    then have "x \<le> j \<or> x \<le> last (j # is)" using IH(3) ij by (auto split: if_splits)
    then show "x \<le> last (i # j # is)" using \<open>j \<le> last (j # is)\<close> by auto
  next
    fix x assume "x \<in> set (i # ?g @ ?f) - set (i # j # is)"
    then show "\<exists>k \<in> set (i # j # is). x < k \<and> ends_by st b k"
      using IH(4) by (auto split: if_splits)
  qed
qed simp_all

text \<open>
  C23. Amplifying a request on a blob without inflate contexts: asked with chunks in ascending order,
  \<open>add_more_chunks\<close> succeeds and returns chunks in strictly ascending order that contain all the
  requested ones, and every chunk that it adds ends within \<open>max_size\<close> bytes of the start of the
  first requested chunk.
\<close>

theorem add_more_chunks_amplifies:
  assumes "meta_wf st" and "ordered True (st_entries st)"
    and "ids \<noteq> []" and "sorted_wrt (<) ids" and "\<forall>i \<in> set ids. i < length (st_entries st)"
  shows "\<exists>js. add_more_chunks st (map (meta_chunk st) ids) max_size = Inr (map (meta_chunk st) js) \<and>
     sorted_wrt (<) js \<and> set ids \<subseteq> set js \<and>
     (\<forall>j \<in> set js - set ids. j < length (st_entries st) \<and>
        e_compressed_end (st_entries st ! j) \<le> e_compressed_offset (st_entries st ! hd ids) + max_size)"
proof -
  let ?es = "st_entries st" and ?l = "last ids"
  let ?b = "e_compressed_offset (?es ! hd ids) + max_size"
  define tail where "tail = takeWhile (ends_by st ?b) [Suc ?l..<length ?es]"
  define js where "js = fill_gaps st ?b ids @ tail"
  have in_es: "hd ids < length ?es" "?l < length ?es" using assms(3,5) by auto
  have b: "ci_compressed_offset (meta_chunk st (hd ids)) + max_size = ?b"
    by (simp add: meta_chunk_def Let_def)
  have "tail_loop st ?b [Suc ?l..<length ?es] v = Inr (v @ map (meta_chunk st) tail)" for v
    unfolding tail_def by (intro tail_loop_eq [OF assms(1)]) auto
  then have "add_more_chunks st (map (meta_chunk st) ids) max_size = Inr (map (meta_chunk st) js)"
    using assms(3) pairs_loop_eq [OF assms(1,4,5,3), of ?b "[]"] meta_wf_get [OF assms(1) in_es(1)]
      meta_wf_get [OF assms(1) in_es(2)] meta_chunk_id(1) [OF assms(1) in_es(1)] meta_chunk_id(1) [OF assms(1) in_es(2)]
    by (simp add: add_more_chunks_def Let_def hd_conv_nth [symmetric] hd_map last_map b js_def)
  note fill = fill_gaps_sorted [OF assms(4,3), of st ?b]
  have tail: "x \<in> set tail \<Longrightarrow> ?l < x \<and> x < length ?es \<and> ends_by st ?b x" for x
    unfolding tail_def by (auto dest: set_takeWhileD)
  have "sorted_wrt (<) tail"
    unfolding tail_def by (metis sorted_wrt_append sorted_wrt_upt takeWhile_dropWhile_id)
  then have "sorted_wrt (<) js" using fill tail by (fastforce simp: js_def sorted_wrt_append)
  moreover have "j < length ?es \<and> e_compressed_end (?es ! j) \<le> ?b" if "j \<in> set js - set ids" for j
  proof (cases "j \<in> set tail")
    case True
    then show ?thesis using tail by (simp add: ends_by_def)
  next
    case False
    with that have "j \<in> set (fill_gaps st ?b ids) - set ids" by (simp add: js_def)
    with fill obtain k where k: "k \<in> set ids" "j < k" "ends_by st ?b k" by blast
    then have "e_compressed_end (?es ! j) \<le> e_compressed_offset (?es ! k)"
      using orderedD [OF assms(2), of j k] assms(5) by (simp add: e_end_def e_start_def)
    also have "\<dots> \<le> e_compressed_end (?es ! k)"
      using e_start_le_end [of True] by (simp add: e_start_def e_end_def)
    finally show ?thesis using k assms(5) by (auto simp: ends_by_def)
  qed
  ultimately show ?thesis
    using \<open>add_more_chunks st _ _ = _\<close> fill by (intro exI [of _ js]) (auto simp: js_def)
qed

theorem add_more_chunks_amplifies_witness:
  "\<exists>js. add_more_chunks demo_meta [meta_chunk demo_meta 0] 100 = Inr (map (meta_chunk demo_meta) js) \<and> 0 \<in> set js"
  using add_more_chunks_amplifies [OF demo_meta_wf demo_entries_ordered [folded demo_meta_entries], of "[0]" 100]
  by (auto simp: demo_meta_entries demo_meta_sizes)

end
