(* ===== verification/Meta_File.thy ===== *)
theory Meta_File
  imports Blob_Meta Persist_Recovery
begin

text \<open>
  The blob metadata file of \<open>storage/src/meta/mod.rs\<close>: its header, the checks of \<open>validate_header\<close>,
  downloading the metadata and opening the file with \<open>BlobMetaInfo::new\<close>, and the inflate context
  table that \<open>ZranContextGenerator::store\<close> writes. The backend reader and the codecs are parameters.
  Operations on an open file (\<open>metadata\<close>, \<open>set_len\<close>, \<open>sync_data\<close>) are taken to succeed.
\<close>

section \<open>The header\<close>

definition BLOB_METADATA_MAGIC :: u32 where "BLOB_METADATA_MAGIC = 0xb10bb10b"
definition BLOB_METADATA_HEADER_SIZE :: u64 where "BLOB_METADATA_HEADER_SIZE = 0x1000"
definition BLOB_METADATA_V1_MAX_SIZE :: u64 where "BLOB_METADATA_V1_MAX_SIZE = RAFS_MAX_CHUNK_SIZE * 16"
definition BLOB_METADATA_V2_MAX_SIZE :: u64 where "BLOB_METADATA_V2_MAX_SIZE = RAFS_MAX_CHUNK_SIZE * 24"
definition BLOB_METADATA_V2_RESERVED_SIZE :: u64 where
  "BLOB_METADATA_V2_RESERVED_SIZE = BLOB_METADATA_HEADER_SIZE - 64"

record BlobMetaHeaderOndisk =
  s_magic :: u32
  s_features :: u32
  s_ci_compressor :: u32
  s_ci_entries :: u32
  s_ci_offset :: u64
  s_ci_compressed_size :: u64
  s_ci_uncompressed_size :: u64
  s_ci_zran_offset :: u64
  s_ci_zran_size :: u64
  s_ci_zran_count :: u32
  s_reserved :: "u8 list"
  s_magic2 :: u32

definition header_default :: BlobMetaHeaderOndisk where
  "header_default =
     \<lparr>s_magic = BLOB_METADATA_MAGIC, s_features = 0, s_ci_compressor = algorithm_u32 Lz4Block,
      s_ci_entries = 0, s_ci_offset = 0, s_ci_compressed_size = 0, s_ci_uncompressed_size = 0,
      s_ci_zran_offset = 0, s_ci_zran_size = 0, s_ci_zran_count = 0,
      s_reserved = replicate (unat BLOB_METADATA_V2_RESERVED_SIZE) 0, s_magic2 = BLOB_METADATA_MAGIC\<rparr>"

definition ci_compressor :: "BlobMetaHeaderOndisk \<Rightarrow> compress_algorithm" where
  "ci_compressor h =
     (if s_ci_compressor h = algorithm_u32 Lz4Block then Lz4Block
      else if s_ci_compressor h = algorithm_u32 GZip then GZip
      else if s_ci_compressor h = algorithm_u32 Zstd then Zstd
      else NoCompress)"

definition set_ci_compressor :: "BlobMetaHeaderOndisk \<Rightarrow> compress_algorithm \<Rightarrow> BlobMetaHeaderOndisk" where
  "set_ci_compressor h algo = h\<lparr>s_ci_compressor := algorithm_u32 algo\<rparr>"

definition set_ci_entries :: "BlobMetaHeaderOndisk \<Rightarrow> u32 \<Rightarrow> BlobMetaHeaderOndisk" where
  "set_ci_entries h n = h\<lparr>s_ci_entries := n\<rparr>"

definition set_ci_compressed_offset :: "BlobMetaHeaderOndisk \<Rightarrow> u64 \<Rightarrow> BlobMetaHeaderOndisk" where
  "set_ci_compressed_offset h offset = h\<lparr>s_ci_offset := offset\<rparr>"

definition set_ci_compressed_size :: "BlobMetaHeaderOndisk \<Rightarrow> u64 \<Rightarrow> BlobMetaHeaderOndisk" where
  "set_ci_compressed_size h n = h\<lparr>s_ci_compressed_size := n\<rparr>"

definition set_ci_uncompressed_size :: "BlobMetaHeaderOndisk \<Rightarrow> u64 \<Rightarrow> BlobMetaHeaderOndisk" where
  "set_ci_uncompressed_size h n = h\<lparr>s_ci_uncompressed_size := n\<rparr>"

definition set_ci_zran_count :: "BlobMetaHeaderOndisk \<Rightarrow> u32 \<Rightarrow> BlobMetaHeaderOndisk" where
  "set_ci_zran_count h n = h\<lparr>s_ci_zran_count := n\<rparr>"

definition set_ci_zran_offset :: "BlobMetaHeaderOndisk \<Rightarrow> u64 \<Rightarrow> BlobMetaHeaderOndisk" where
  "set_ci_zran_offset h offset = h\<lparr>s_ci_zran_offset := offset\<rparr>"

definition set_ci_zran_size :: "BlobMetaHeaderOndisk \<Rightarrow> u64 \<Rightarrow> BlobMetaHeaderOndisk" where
  "set_ci_zran_size h n = h\<lparr>s_ci_zran_size := n\<rparr>"

definition is_4k_aligned :: "BlobMetaHeaderOndisk \<Rightarrow> bool" where
  "is_4k_aligned h \<longleftrightarrow> s_features h AND BLOB_META_FEATURE_4K_ALIGNED \<noteq> 0"

definition set_feature :: "u32 \<Rightarrow> BlobMetaHeaderOndisk \<Rightarrow> bool \<Rightarrow> BlobMetaHeaderOndisk" where
  "set_feature bit' h enable =
     (if enable then h\<lparr>s_features := s_features h OR bit'\<rparr> else h\<lparr>s_features := s_features h AND NOT bit'\<rparr>)"

definition set_4k_aligned :: "BlobMetaHeaderOndisk \<Rightarrow> bool \<Rightarrow> BlobMetaHeaderOndisk" where
  "set_4k_aligned = set_feature BLOB_META_FEATURE_4K_ALIGNED"

definition set_chunk_info_v2 :: "BlobMetaHeaderOndisk \<Rightarrow> bool \<Rightarrow> BlobMetaHeaderOndisk" where
  "set_chunk_info_v2 = set_feature BLOB_META_FEATURE_CHUNK_INFO_V2"

definition set_ci_separate :: "BlobMetaHeaderOndisk \<Rightarrow> bool \<Rightarrow> BlobMetaHeaderOndisk" where
  "set_ci_separate = set_feature BLOB_META_FEATURE_SEPARATE"

definition set_ci_zran :: "BlobMetaHeaderOndisk \<Rightarrow> bool \<Rightarrow> BlobMetaHeaderOndisk" where
  "set_ci_zran = set_feature BLOB_META_FEATURE_ZRAN"

definition header_as_bytes :: "BlobMetaHeaderOndisk \<Rightarrow> u8 list" where
  "header_as_bytes h =
     le32 (s_magic h) @ le32 (s_features h) @ le32 (s_ci_compressor h) @ le32 (s_ci_entries h) @
     le64 (s_ci_offset h) @ le64 (s_ci_compressed_size h) @ le64 (s_ci_uncompressed_size h) @
     le64 (s_ci_zran_offset h) @ le64 (s_ci_zran_size h) @ le32 (s_ci_zran_count h) @
     s_reserved h @ le32 (s_magic2 h)"

text \<open>The header as it is seen through the mapping, at a given offset.\<close>

definition header_of :: "u8 list \<Rightarrow> nat \<Rightarrow> BlobMetaHeaderOndisk" where
  "header_of bs i =
     \<lparr>s_magic = rd32 bs i, s_features = rd32 bs (i + 4), s_ci_compressor = rd32 bs (i + 8),
      s_ci_entries = rd32 bs (i + 12), s_ci_offset = rd64 bs (i + 16),
      s_ci_compressed_size = rd64 bs (i + 24), s_ci_uncompressed_size = rd64 bs (i + 32),
      s_ci_zran_offset = rd64 bs (i + 40), s_ci_zran_size = rd64 bs (i + 48), s_ci_zran_count = rd32 bs (i + 56),
      s_reserved = take (unat BLOB_METADATA_V2_RESERVED_SIZE) (drop (i + 60) bs), s_magic2 = rd32 bs (i + 4092)\<rparr>"

definition put_header :: "u8 list \<Rightarrow> nat \<Rightarrow> BlobMetaHeaderOndisk \<Rightarrow> u8 list" where
  "put_header bs i h = take i bs @ header_as_bytes h @ drop (i + length (header_as_bytes h)) bs"

section \<open>Checking the header\<close>

definition header_matches :: "BlobInfo \<Rightarrow> BlobMetaHeaderOndisk \<Rightarrow> bool" where
  "header_matches bi h \<longleftrightarrow>
     s_magic h = BLOB_METADATA_MAGIC \<and> s_magic2 h = BLOB_METADATA_MAGIC \<and>
     s_ci_entries h = bi_chunk_count bi \<and> s_features h = bi_meta_flags bi \<and>
     s_ci_compressor h = algorithm_u32 (meta_ci_compressor bi) \<and> s_ci_offset h = bi_meta_ci_offset bi \<and>
     s_ci_compressed_size h = bi_meta_ci_compressed_size bi \<and>
     s_ci_uncompressed_size h = bi_meta_ci_uncompressed_size bi"

definition zran_matches :: "BlobInfo \<Rightarrow> BlobMetaHeaderOndisk \<Rightarrow> bool" where
  "zran_matches bi h \<longleftrightarrow> s_ci_zran_count h = bi_meta_ci_zran_count bi \<and>
     s_ci_zran_offset h = bi_meta_ci_zran_offset bi \<and> s_ci_zran_size h = bi_meta_ci_zran_size bi"

definition validate_header :: "BlobInfo \<Rightarrow> BlobMetaHeaderOndisk \<Rightarrow> bool res" where
  "validate_header bi h =
     (let zran = bi_meta_flags bi AND BLOB_META_FEATURE_ZRAN \<noteq> 0 in
      if \<not> header_matches bi h then Inr False
      else if zran \<and> \<not> zran_matches bi h then Inr False
      else
        let chunk_count = bi_chunk_count bi; n = (ucast chunk_count :: u64);
            info_size = s_ci_uncompressed_size h; aligned_info_size = round_up_4k info_size;
            ZRAN = BLOB_META_FEATURE_CHUNK_INFO_V2 OR BLOB_META_FEATURE_ZRAN;
            kind = bi_meta_flags bi AND ZRAN
        in if chunk_count = 0 \<or> chunk_count > RAFS_MAX_CHUNKS_PER_BLOB then Inl EINVAL
           else and_then
             (if kind = ZRAN then if info_size < n * 24 then Inl EINVAL else Inr ()
              else if kind = BLOB_META_FEATURE_CHUNK_INFO_V2 then
                if info_size \<noteq> n * 24 \<or> aligned_info_size > BLOB_METADATA_V2_MAX_SIZE then Inl EINVAL else Inr ()
              else if kind = 0 then
                if info_size \<noteq> n * 16 \<or> aligned_info_size > BLOB_METADATA_V1_MAX_SIZE then Inl EINVAL else Inr ()
              else Inl EINVAL) (\<lambda>_.
             if zran then
               let offset = bi_meta_ci_zran_offset bi; zran_count = (ucast (bi_meta_ci_zran_count bi) :: u64);
                   size' = zran_count * 40
               in if offset \<noteq> n * 24 then Inl EINVAL
                  else if offset + bi_meta_ci_zran_size bi > info_size then Inl EINVAL
                  else if zran_count > n then Inl EINVAL
                  else if size' > bi_meta_ci_zran_size bi then Inl EINVAL
                  else Inr True
             else Inr True))"

section \<open>Downloading the metadata\<close>

text \<open>\<open>reader offset n\<close> reads at most \<open>n\<close> bytes of the backend blob at \<open>offset\<close>.\<close>

type_synonym blob_reader = "u64 \<Rightarrow> nat \<Rightarrow> u8 list res"

definition reader_read :: "blob_reader \<Rightarrow> u8 list \<Rightarrow> u64 \<Rightarrow> (nat \<times> u8 list) res" where
  "reader_read rd buffer offset =
     and_then (rd offset (length buffer)) (\<lambda>bs. Inr (fill (take (length buffer) bs) buffer))"

text \<open>The contents of the buffer and the outcome.\<close>

definition read_metadata :: "codecs \<Rightarrow> BlobInfo \<Rightarrow> blob_reader \<Rightarrow> u8 list \<Rightarrow> u8 list \<times> unit res" where
  "read_metadata cs bi rd buffer =
     (if meta_ci_compressor bi = NoCompress then
        case reader_read rd buffer (bi_meta_ci_offset bi) of
          Inl _ \<Rightarrow> (buffer, Inl EIO)
        | Inr (size', buffer) \<Rightarrow>
            (buffer, if of_nat size' \<noteq> bi_meta_ci_uncompressed_size bi then Inl EIO else Inr ())
      else
        let compressed_size = bi_meta_ci_compressed_size bi
        in case reader_read rd (replicate (unat compressed_size) 0) (bi_meta_ci_offset bi) of
             Inl _ \<Rightarrow> (buffer, Inl EIO)
           | Inr (size', buf) \<Rightarrow>
               if of_nat size' \<noteq> compressed_size then (buffer, Inl EIO)
               else (case decompress cs buf (replicate (length buffer) 0) (meta_ci_compressor bi) of
                       Inl e \<Rightarrow> (buffer, Inl e)
                     | Inr (_, uncom_buf) \<Rightarrow>
                         if length uncom_buf = length buffer then (uncom_buf, Inr ()) else (buffer, Inl Panic)))"

text \<open>
  Filling a file whose header is not valid. The second lookup of the header makes the same check as
  the first and is not repeated.
\<close>

definition header_for :: "BlobInfo \<Rightarrow> BlobMetaHeaderOndisk \<Rightarrow> BlobMetaHeaderOndisk" where
  "header_for bi h =
     (let h = h\<lparr>s_features := bi_meta_flags bi, s_ci_compressor := algorithm_u32 (meta_ci_compressor bi),
                s_ci_entries := bi_chunk_count bi, s_ci_offset := bi_meta_ci_offset bi,
                s_ci_compressed_size := bi_meta_ci_compressed_size bi,
                s_ci_uncompressed_size := bi_meta_ci_uncompressed_size bi\<rparr>
      in if bi_meta_flags bi AND BLOB_META_FEATURE_ZRAN \<noteq> 0
         then h\<lparr>s_ci_zran_count := bi_meta_ci_zran_count bi, s_ci_zran_offset := bi_meta_ci_zran_offset bi,
                s_ci_zran_size := bi_meta_ci_zran_size bi\<rparr> else h)"

definition fill_meta_file :: "codecs \<Rightarrow> BlobInfo \<Rightarrow> blob_reader \<Rightarrow> nat \<Rightarrow> u8 list \<Rightarrow> u8 list \<times> unit res" where
  "fill_meta_file cs bi rd header_off data =
     (let info_size = unat (bi_meta_ci_uncompressed_size bi)
      in if info_size > length data then (data, Inl Panic)
         else
           let data = take info_size data @ replicate (length data - info_size) 0;
               (buffer, r) = read_metadata cs bi rd (take info_size data);
               data = buffer @ drop info_size data
           in case r of
                Inl e \<Rightarrow> (data, Inl e)
              | Inr _ \<Rightarrow>
                  let data = put_header data header_off (header_for bi (header_of data header_off));
                      data = put_header data header_off
                        ((header_of data header_off)\<lparr>s_magic := BLOB_METADATA_MAGIC, s_magic2 := BLOB_METADATA_MAGIC\<rparr>)
                  in (data, asserting (is_ok (validate_header bi (header_of data header_off))) (Inr ())))"

section \<open>The arrays in the file\<close>

definition V1_at :: "u8 list \<Rightarrow> nat \<Rightarrow> BlobChunkInfoV1Ondisk" where
  "V1_at bs i = \<lparr>v1_uncomp_info = rd64 bs i, v1_comp_info = rd64 bs (i + 8)\<rparr>"

definition V2_at :: "u8 list \<Rightarrow> nat \<Rightarrow> BlobChunkInfoV2Ondisk" where
  "V2_at bs i = \<lparr>v2_uncomp_info = rd64 bs i, v2_comp_info = rd64 bs (i + 8), v2_data = rd64 bs (i + 16)\<rparr>"

definition zran_ctx_at :: "u8 list \<Rightarrow> nat \<Rightarrow> ZranInflateContext" where
  "zran_ctx_at bs i =
     \<lparr>z_in_offset = rd64 bs i, z_out_offset = rd64 bs (i + 8), z_dict_offset = rd64 bs (i + 16),
      z_in_len = rd32 bs (i + 24), z_out_len = rd32 bs (i + 28), z_dict_size = rd32 bs (i + 32),
      z_ctx_byte = bs ! (i + 36), z_ctx_bits = bs ! (i + 37)\<rparr>"

definition array_at :: "(u8 list \<Rightarrow> nat \<Rightarrow> 'a) \<Rightarrow> nat \<Rightarrow> u8 list \<Rightarrow> nat \<Rightarrow> nat \<Rightarrow> 'a list" where
  "array_at item_at item_size bs start n = map (\<lambda>k. item_at bs (start + k * item_size)) [0..<n]"

definition from_file_map :: "FileMapState \<Rightarrow> BlobInfo \<Rightarrow> BlobMetaChunkArray res" where
  "from_file_map fm bi =
     (let chunk_count = bi_chunk_count bi; n = (ucast chunk_count :: usize)
      in if bi_meta_flags bi AND BLOB_META_FEATURE_CHUNK_INFO_V2 \<noteq> 0
         then and_then (FileMapState_validate_range fm 0 (n * 24)) (\<lambda>_.
                Inr (V2 (array_at V2_at 24 (fm_data fm) 0 (unat chunk_count))))
         else and_then (FileMapState_validate_range fm 0 (n * 16)) (\<lambda>_.
                Inr (V1 (array_at V1_at 16 (fm_data fm) 0 (unat chunk_count)))))"

definition load_zran :: "FileMapState \<Rightarrow> BlobInfo \<Rightarrow> (ZranInflateContext list \<times> u8 list) res" where
  "load_zran fm bi =
     (if bi_meta_flags bi AND BLOB_META_FEATURE_ZRAN \<noteq> 0 then
        let zran_offset = bi_meta_ci_zran_offset bi; zran_count = bi_meta_ci_zran_count bi;
            zran_size = (ucast zran_count :: usize) * 40
        in and_then (FileMapState_validate_range fm zran_offset zran_size) (\<lambda>_.
           let zran_dict_size = bi_meta_ci_zran_size bi - zran_size
           in and_then (FileMapState_validate_range fm (zran_offset + zran_size) zran_dict_size) (\<lambda>_.
              Inr (array_at zran_ctx_at 40 (fm_data fm) (unat zran_offset) (unat zran_count),
                   take (unat zran_dict_size) (drop (unat (zran_offset + zran_size)) (fm_data fm)))))
      else Inr ([], []))"

definition BlobMetaInfo_load :: "FileMapState \<Rightarrow> BlobInfo \<Rightarrow> BlobMetaState res" where
  "BlobMetaInfo_load fm bi =
     and_then (from_file_map fm bi) (\<lambda>chunk_infos.
     and_then (load_zran fm bi) (\<lambda>(contexts, dicts).
     Inr \<lparr>st_blob_index = bi_blob_index bi, st_meta_flags = bi_meta_flags bi,
          st_compressed_size = bi_compressed_size bi,
          st_uncompressed_size = round_up_4k (bi_uncompressed_size bi),
          st_chunk_info_array = chunk_infos, st_zran_info_array = contexts, st_zran_dict_table = dicts\<rparr>))"

section \<open>Opening the file\<close>

definition meta_file_size :: "BlobInfo \<Rightarrow> usize" where
  "meta_file_size bi = BLOB_METADATA_HEADER_SIZE + round_up_4k (bi_meta_ci_uncompressed_size bi)"

definition BlobMetaInfo_map ::
  "codecs \<Rightarrow> BlobInfo \<Rightarrow> blob_reader option \<Rightarrow> FileMapState \<Rightarrow> u8 list \<times> BlobMetaState res" where
  "BlobMetaInfo_map cs bi reader fm =
     (case and_then (FileMapState_validate_range fm 0 (meta_file_size bi)) (\<lambda>_.
           and_then (FileMapState_get_ref fm BLOB_METADATA_HEADER_SIZE 8
                       (round_up_4k (bi_meta_ci_uncompressed_size bi))) (\<lambda>off.
           and_then (validate_header bi (header_of (fm_data fm) off)) (\<lambda>valid. Inr (off, valid)))) of
        Inl e \<Rightarrow> (fm_data fm, Inl e)
      | Inr (off, True) \<Rightarrow> (fm_data fm, BlobMetaInfo_load fm bi)
      | Inr (off, False) \<Rightarrow>
          (case reader of
             None \<Rightarrow> (fm_data fm, Inl ENOENT)
           | Some rd \<Rightarrow>
               let (data, r) = fill_meta_file cs bi rd off (fm_data fm)
               in (data, and_then r (\<lambda>_. BlobMetaInfo_load (fm\<lparr>fm_data := data\<rparr>) bi))))"

text \<open>
  \<open>disk\<close> is the content of the metadata file, \<open>None\<close> if there is no such file. The result is the
  content afterwards and the outcome.
\<close>

definition BlobMetaInfo_new ::
  "mmap_call \<Rightarrow> codecs \<Rightarrow> u8 list option \<Rightarrow> BlobInfo \<Rightarrow> blob_reader option \<Rightarrow> u8 list option \<times> BlobMetaState res" where
  "BlobMetaInfo_new mmap cs disk bi reader =
     (let chunk_count = bi_chunk_count bi; enable_write = (reader \<noteq> None) in
      if chunk_count = 0 \<or> chunk_count > RAFS_MAX_CHUNKS_PER_BLOB then (disk, Inl EINVAL)
      else if disk = None \<and> \<not> enable_write then (disk, Inl EINVAL)
      else
        let expected_size = meta_file_size bi;
            file = (case disk of None \<Rightarrow> [] | Some c \<Rightarrow> c);
            file = (if file = [] \<and> enable_write then set_len (unat expected_size) file else file)
        in if length file \<noteq> unat expected_size then (Some file, Inl EINVAL)
           else (case FileMapState_new mmap enable_write file expected_size enable_write of
                   Inl e \<Rightarrow> (Some file, Inl e)
                 | Inr fm \<Rightarrow> let (data, r) = BlobMetaInfo_map cs bi reader fm in (Some data, r)))"

section \<open>Header round trip\<close>

lemma header_consts: "unat BLOB_METADATA_HEADER_SIZE = 4096" "unat BLOB_METADATA_V2_RESERVED_SIZE = 4032"
  by (simp_all add: BLOB_METADATA_HEADER_SIZE_def BLOB_METADATA_V2_RESERVED_SIZE_def)

definition header_wf :: "BlobMetaHeaderOndisk \<Rightarrow> bool" where
  "header_wf h \<longleftrightarrow> length (s_reserved h) = 4032"

lemma length_header_as_bytes: "header_wf h \<Longrightarrow> length (header_as_bytes h) = 4096"
  by (simp add: header_as_bytes_def header_wf_def)

lemma rd_append:
  "rd32 (xs @ ys) (length xs + i) = rd32 ys i" "rd64 (xs @ ys) (length xs + i) = rd64 ys i"
  by (simp_all add: rd32_def rd64_def)

lemma header_of_append: "header_of (xs @ ys) (length xs) = header_of ys 0"
  using rd_append [of xs ys] rd_append(1) [of xs ys 0]
  by (simp add: header_of_def add.assoc)

lemma header_of_as_bytes:
  assumes "header_wf h"
  shows "header_of (header_as_bytes h @ ys) 0 = h"
  using assms
  by (simp add: header_of_def header_as_bytes_def rd32_def rd64_def header_consts header_wf_def)

lemma header_of_wf: "i + 4096 \<le> length bs \<Longrightarrow> header_wf (header_of bs i)"
  by (simp add: header_of_def header_wf_def header_consts)

lemma header_of_put:
  assumes "header_wf h" and "i + 4096 \<le> length bs"
  shows "header_of (put_header bs i h) i = h"
    and "length (put_header bs i h) = length bs"
    and "take i (put_header bs i h) = take i bs"
proof -
  have "length (take i bs) = i" using assms(2) by simp
  with header_of_append [of "take i bs"] header_of_as_bytes [OF assms(1)]
  show "header_of (put_header bs i h) i = h" by (simp add: put_header_def)
  show "length (put_header bs i h) = length bs" "take i (put_header bs i h) = take i bs"
    using assms by (simp_all add: put_header_def length_header_as_bytes)
qed

section \<open>Opening a file that an earlier process wrote\<close>

lemma and_4095_take_bit: "(x :: u64) AND 4095 = take_bit 12 x"
  by (simp only: mask12 take_bit_eq_mask)

lemma get_ref_aligned:
  assumes "wf_filemap m" and "offset AND 4095 = 0"
  shows "FileMapState_get_ref m size_T 8 offset =
           (if unat offset + unat size_T \<le> length (fm_data m) then Inr (unat offset) else Inl EINVAL)"
proof -
  have page: "x = push_bit 12 (drop_bit 12 x)" if "x AND 4095 = 0" for x :: u64
  proof (rule bit_word_eqI)
    fix n assume "n < LENGTH(64)"
    have "\<not> bit x n" if "n < 12"
      using \<open>x AND 4095 = 0\<close> that \<open>n < LENGTH(64)\<close> unfolding and_4095_take_bit
      by (metis bit_0_eq bit_take_bit_iff bot_apply bot_bool_def)
    then show "bit x n = bit (push_bit 12 (drop_bit 12 x)) n"
      using \<open>n < LENGTH(64)\<close> by (cases "n < 12") (auto simp: bit_simps)
  qed
  have "fm_base m + offset = push_bit 12 (drop_bit 12 (fm_base m) + drop_bit 12 offset)"
    using page [of "fm_base m"] page [of offset] assms by (metis push_bit_add wf_filemap_def)
  then have "take_bit 3 (fm_base m + offset) = 0"
    by (simp add: take_bit_push_bit)
  moreover have "x AND 7 = take_bit 3 x" for x :: u64
    by (simp add: take_bit_eq_mask mask_eq_exp_minus_1)
  ultimately show ?thesis
    using range_check_iff [OF assms(1), of offset size_T] by (auto simp: FileMapState_get_ref_def Let_def)
qed

lemma round_up_4k_aligned: "round_up_4k x AND 4095 = 0"
  by (simp add: round_up_4k_def and.assoc)

lemma BlobMetaInfo_load_cong:
  assumes "wf_filemap fm" and "wf_filemap fm'" and "fm_data fm = fm_data fm'"
  shows "BlobMetaInfo_load fm bi = BlobMetaInfo_load fm' bi"
  using assms
  by (auto simp: BlobMetaInfo_load_def from_file_map_def load_zran_def validate_range_eq Let_def)

lemma read_metadata_length:
  assumes "read_metadata cs bi rd buffer = (buffer', r)"
  shows "length buffer' = length buffer"
  using assms
  by (auto simp: read_metadata_def reader_read_def result_iffs fill_def Let_def
      split: if_splits sum.splits prod.splits)

lemma header_for_matches:
  "header_matches bi ((header_for bi h)\<lparr>s_magic := BLOB_METADATA_MAGIC, s_magic2 := BLOB_METADATA_MAGIC\<rparr>)"
  by (simp add: header_matches_def header_for_def Let_def)

lemma header_for_zran_matches:
  "bi_meta_flags bi AND BLOB_META_FEATURE_ZRAN \<noteq> 0 \<Longrightarrow>
     zran_matches bi ((header_for bi h)\<lparr>s_magic := BLOB_METADATA_MAGIC, s_magic2 := BLOB_METADATA_MAGIC\<rparr>)"
  by (simp add: zran_matches_def header_for_def)

lemma validate_header_not_false:
  assumes "header_matches bi h" and "bi_meta_flags bi AND BLOB_META_FEATURE_ZRAN \<noteq> 0 \<Longrightarrow> zran_matches bi h"
  shows "validate_header bi h \<noteq> Inr False"
  using assms by (auto simp: validate_header_def Let_def result_iffs split: if_splits)

lemma fill_meta_file_ok:
  assumes "fill_meta_file cs bi rd off data = (data', Inr ())" and "off + 4096 \<le> length data"
  shows "length data' = length data" and "validate_header bi (header_of data' off) = Inr True"
proof -
  let ?n = "unat (bi_meta_ci_uncompressed_size bi)"
  let ?d0 = "take ?n data @ replicate (length data - ?n) 0"
  obtain buffer r where rd: "read_metadata cs bi rd (take ?n ?d0) = (buffer, r)" by fastforce
  define d1 where "d1 = buffer @ drop ?n ?d0"
  define d2 where "d2 = put_header d1 off (header_for bi (header_of d1 off))"
  define h where "h = (header_of d2 off)\<lparr>s_magic := BLOB_METADATA_MAGIC, s_magic2 := BLOB_METADATA_MAGIC\<rparr>"
  from assms(1) have n: "?n \<le> length data" and r: "r = Inr ()" and data': "data' = put_header d2 off h"
    and ok: "is_ok (validate_header bi (header_of data' off))"
    using rd by (auto simp: fill_meta_file_def Let_def asserting_eq_Inr h_def d2_def d1_def split: if_splits sum.splits)
  have d1: "length d1 = length data"
    using read_metadata_length [OF rd] n by (simp add: d1_def)
  then have hf: "header_wf (header_for bi (header_of d1 off))"
    using header_of_wf [of off d1] assms(2) by (simp add: header_for_def header_wf_def Let_def)
  note d2 = header_of_put [OF hf, of off d1, unfolded d1, OF assms(2), folded d2_def]
  have h: "h = (header_for bi (header_of d1 off))\<lparr>s_magic := BLOB_METADATA_MAGIC, s_magic2 := BLOB_METADATA_MAGIC\<rparr>"
    using d2(1) by (simp add: h_def)
  then have "header_wf h" using hf by (simp add: header_wf_def)
  note d3 = header_of_put [OF this, of off d2, unfolded d2(2), OF assms(2), folded data']
  show "length data' = length data" by (rule d3(2))
  have "validate_header bi h \<noteq> Inr False"
    unfolding h using header_for_matches header_for_zran_matches by (rule validate_header_not_false)
  with ok d3(1) show "validate_header bi (header_of data' off) = Inr True"
    by (cases "validate_header bi h") auto
qed

lemma validate_range_all:
  "wf_filemap m \<Longrightarrow> length (fm_data m) = unat sz \<Longrightarrow> FileMapState_validate_range m 0 sz = Inr (fm_base m)"
  by (simp add: validate_range_eq)

lemma wf_filemap_data: "wf_filemap m \<Longrightarrow> length data = length (fm_data m) \<Longrightarrow> wf_filemap (m\<lparr>fm_data := data\<rparr>)"
  by (simp add: wf_filemap_def)

definition header_pos :: "BlobInfo \<Rightarrow> nat" where
  "header_pos bi = unat (round_up_4k (bi_meta_ci_uncompressed_size bi))"

text \<open>What a successful pass over the mapping leaves in the file and returns.\<close>

lemma BlobMetaInfo_map_ok:
  assumes "wf_filemap fm" and "length (fm_data fm) = unat (meta_file_size bi)"
    and "BlobMetaInfo_map cs bi reader fm = (data, Inr st)"
  shows "header_pos bi + 4096 \<le> length data" and "length data = length (fm_data fm)"
    and "validate_header bi (header_of data (header_pos bi)) = Inr True"
    and "BlobMetaInfo_load (fm\<lparr>fm_data := data\<rparr>) bi = Inr st"
proof -
  let ?off = "header_pos bi"
  note ref = get_ref_aligned [OF assms(1) round_up_4k_aligned, of BLOB_METADATA_HEADER_SIZE "bi_meta_ci_uncompressed_size bi",
      folded header_pos_def, unfolded header_consts]
  have map: "BlobMetaInfo_map cs bi reader fm =
      (if ?off + 4096 \<le> length (fm_data fm) then
         case validate_header bi (header_of (fm_data fm) ?off) of
           Inl e \<Rightarrow> (fm_data fm, Inl e)
         | Inr True \<Rightarrow> (fm_data fm, BlobMetaInfo_load fm bi)
         | Inr False \<Rightarrow> (case reader of None \<Rightarrow> (fm_data fm, Inl ENOENT)
             | Some rd \<Rightarrow> let (data, r) = fill_meta_file cs bi rd ?off (fm_data fm)
                 in (data, and_then r (\<lambda>_. BlobMetaInfo_load (fm\<lparr>fm_data := data\<rparr>) bi)))
       else (fm_data fm, Inl EINVAL))"
    unfolding BlobMetaInfo_map_def validate_range_all [OF assms(1,2)] ref
    by (auto split: sum.splits bool.splits)
  have off: "?off + 4096 \<le> length (fm_data fm)" using assms(3) map by (auto split: if_splits)
  have "length data = length (fm_data fm) \<and> validate_header bi (header_of data ?off) = Inr True \<and>
      BlobMetaInfo_load (fm\<lparr>fm_data := data\<rparr>) bi = Inr st"
  proof (cases "validate_header bi (header_of (fm_data fm) ?off) = Inr True")
    case True
    then show ?thesis using assms(3) off unfolding map by auto
  next
    case False
    with assms(3) off obtain rd r where rd: "reader = Some rd" "fill_meta_file cs bi rd ?off (fm_data fm) = (data, r)"
      and "and_then r (\<lambda>_. BlobMetaInfo_load (fm\<lparr>fm_data := data\<rparr>) bi) = Inr st"
      unfolding map by (auto split: sum.splits bool.splits option.splits prod.splits)
    then show ?thesis using fill_meta_file_ok [of cs bi rd ?off "fm_data fm" data] off
      by (auto simp: and_then_eq_Inr)
  qed
  with off show "?off + 4096 \<le> length data" "length data = length (fm_data fm)"
    "validate_header bi (header_of data ?off) = Inr True" "BlobMetaInfo_load (fm\<lparr>fm_data := data\<rparr>) bi = Inr st"
    by simp_all
qed

lemma BlobMetaInfo_map_valid:
  assumes "wf_filemap fm" and "length (fm_data fm) = unat (meta_file_size bi)"
    and "header_pos bi + 4096 \<le> length (fm_data fm)"
    and "validate_header bi (header_of (fm_data fm) (header_pos bi)) = Inr True"
  shows "BlobMetaInfo_map cs bi reader fm = (fm_data fm, BlobMetaInfo_load fm bi)"
  using get_ref_aligned [OF assms(1) round_up_4k_aligned, of BLOB_METADATA_HEADER_SIZE "bi_meta_ci_uncompressed_size bi",
      folded header_pos_def, unfolded header_consts] assms(3,4)
  unfolding BlobMetaInfo_map_def validate_range_all [OF assms(1,2)] by simp

lemma BlobMetaInfo_new_ok:
  assumes "mmap_spec mmap" and "BlobMetaInfo_new mmap cs disk bi reader = (disk', Inr st)"
  obtains fm data where "disk' = Some data" and "wf_filemap fm"
    and "length (fm_data fm) = unat (meta_file_size bi)"
    and "BlobMetaInfo_map cs bi reader fm = (data, Inr st)"
    and "bi_chunk_count bi \<noteq> 0" and "\<not> bi_chunk_count bi > RAFS_MAX_CHUNKS_PER_BLOB"
proof -
  define f0 where "f0 = (case disk of None \<Rightarrow> [] | Some c \<Rightarrow> c)"
  define f1 where "f1 = (if f0 = [] \<and> reader \<noteq> None then set_len (unat (meta_file_size bi)) f0 else f0)"
  from assms(2) obtain fm data where len: "length f1 = unat (meta_file_size bi)"
    and new: "FileMapState_new mmap (reader \<noteq> None) f1 (meta_file_size bi) (reader \<noteq> None) = Inr fm"
    and map: "BlobMetaInfo_map cs bi reader fm = (data, Inr st)" and "disk' = Some data"
    and "bi_chunk_count bi \<noteq> 0" "\<not> bi_chunk_count bi > RAFS_MAX_CHUNKS_PER_BLOB"
    unfolding BlobMetaInfo_new_def Let_def f0_def [symmetric] f1_def [symmetric]
    by (auto split: if_splits sum.splits prod.splits)
  with that FileMapState_new_wf [OF assms(1) new len] show thesis by auto
qed

text \<open>The mapping of a metadata file in the mode of a reader is granted.\<close>

definition maps_meta :: "mmap_call \<Rightarrow> blob_reader option \<Rightarrow> BlobInfo \<Rightarrow> bool" where
  "maps_meta mmap reader bi \<longleftrightarrow>
     mmap (reader \<noteq> None) (reader \<noteq> None) (meta_file_size bi) \<noteq> MAP_FAILED \<and>
     mmap (reader \<noteq> None) (reader \<noteq> None) (meta_file_size bi) \<noteq> 0"

lemma maps_meta_new:
  assumes "maps_meta mmap reader bi"
  obtains fm where "FileMapState_new mmap (reader \<noteq> None) content (meta_file_size bi) (reader \<noteq> None) = Inr fm"
  using assms by (auto simp: maps_meta_def FileMapState_new_def Let_def)

text \<open>
  C24. A metadata file survives its writer: after a successful \<open>BlobMetaInfo::new\<close>, whether it
  downloaded the metadata or found them on disk, every later \<open>BlobMetaInfo::new\<close> for the same blob,
  with or without a backend reader, accepts the file, leaves it as it is and gives the same chunk
  array, contexts and dictionaries.
\<close>

theorem meta_file_reopen:
  assumes "mmap_spec mmap" and "BlobMetaInfo_new mmap cs disk bi reader = (disk', Inr st)"
    and "maps_meta mmap reader' bi"
  shows "BlobMetaInfo_new mmap cs' disk' bi reader' = (disk', Inr st)"
proof -
  from BlobMetaInfo_new_ok [OF assms(1,2)] obtain fm data where disk': "disk' = Some data" and fm: "wf_filemap fm"
    "length (fm_data fm) = unat (meta_file_size bi)" and map: "BlobMetaInfo_map cs bi reader fm = (data, Inr st)"
    and count: "bi_chunk_count bi \<noteq> 0" "\<not> bi_chunk_count bi > RAFS_MAX_CHUNKS_PER_BLOB" by metis
  note ok = BlobMetaInfo_map_ok [OF fm map]
  from maps_meta_new [OF assms(3)] obtain fm' where
    new: "FileMapState_new mmap (reader' \<noteq> None) data (meta_file_size bi) (reader' \<noteq> None) = Inr fm'" by blast
  have len: "length data = unat (meta_file_size bi)" using ok(2) fm(2) by simp
  note fm' = FileMapState_new_wf [OF assms(1) new len]
  have "BlobMetaInfo_map cs' bi reader' fm' = (data, BlobMetaInfo_load fm' bi)"
    using BlobMetaInfo_map_valid [of fm' bi cs' reader'] fm' len ok by simp
  also have "BlobMetaInfo_load fm' bi = Inr st"
    using BlobMetaInfo_load_cong [OF fm'(1) wf_filemap_data [OF fm(1) ok(2)]] fm'(2) ok(4) by simp
  finally have "BlobMetaInfo_map cs' bi reader' fm' = (data, Inr st)" .
  moreover have "data \<noteq> []" using ok(1) by auto
  ultimately show ?thesis
    using new count len by (simp add: BlobMetaInfo_new_def disk' Let_def del: not_None_eq)
qed

section \<open>Creating a file\<close>

text \<open>The checks of \<open>validate_header\<close> that only depend on the blob, not on the file.\<close>

definition consistent :: "BlobInfo \<Rightarrow> bool" where
  "consistent bi \<longleftrightarrow> is_ok (validate_header bi (header_for bi header_default))"

lemma validate_header_matching:
  assumes "header_matches bi h" and "bi_meta_flags bi AND BLOB_META_FEATURE_ZRAN \<noteq> 0 \<Longrightarrow> zran_matches bi h"
  shows "is_ok (validate_header bi h) \<longleftrightarrow> consistent bi"
proof -
  have "header_matches bi (header_for bi header_default)"
    "bi_meta_flags bi AND BLOB_META_FEATURE_ZRAN \<noteq> 0 \<Longrightarrow> zran_matches bi (header_for bi header_default)"
    "s_ci_uncompressed_size (header_for bi header_default) = bi_meta_ci_uncompressed_size bi"
    by (simp_all add: header_matches_def zran_matches_def header_for_def header_default_def Let_def)
  moreover have "s_ci_uncompressed_size h = bi_meta_ci_uncompressed_size bi"
    using assms(1) by (simp add: header_matches_def)
  ultimately show ?thesis
    using assms unfolding consistent_def validate_header_def Let_def by simp
qed

lemma rd_zero: "i + 4 \<le> n \<Longrightarrow> rd32 (replicate n 0) i = 0"
  by (simp add: rd32_def of_le32_def)

lemma fill_meta_file_eq:
  assumes "unat (bi_meta_ci_uncompressed_size bi) \<le> length data" and "off + 4096 \<le> length data"
    and "read_metadata cs bi rd (take (unat (bi_meta_ci_uncompressed_size bi)) data) = (buf, Inr ())"
  shows "\<exists>data'. length data' = length data \<and>
           fill_meta_file cs bi rd off data = (data', if consistent bi then Inr () else Inl Panic)"
proof -
  let ?n = "unat (bi_meta_ci_uncompressed_size bi)"
  let ?d0 = "take ?n data @ replicate (length data - ?n) 0"
  define d1 where "d1 = buf @ drop ?n ?d0"
  define d2 where "d2 = put_header d1 off (header_for bi (header_of d1 off))"
  define h where "h = (header_of d2 off)\<lparr>s_magic := BLOB_METADATA_MAGIC, s_magic2 := BLOB_METADATA_MAGIC\<rparr>"
  have d1: "length d1 = length data"
    using read_metadata_length [OF assms(3)] assms(1) by (simp add: d1_def)
  then have hf: "header_wf (header_for bi (header_of d1 off))"
    using header_of_wf [of off d1] assms(2) by (simp add: header_for_def header_wf_def Let_def)
  note d2 = header_of_put [OF hf, of off d1, unfolded d1, OF assms(2), folded d2_def]
  have h: "h = (header_for bi (header_of d1 off))\<lparr>s_magic := BLOB_METADATA_MAGIC, s_magic2 := BLOB_METADATA_MAGIC\<rparr>"
    using d2(1) by (simp add: h_def)
  then have "header_wf h" using hf by (simp add: header_wf_def)
  note d3 = header_of_put [OF this, of off d2, unfolded d2(2), OF assms(2)]
  have "is_ok (validate_header bi h) \<longleftrightarrow> consistent bi"
    unfolding h using header_for_matches header_for_zran_matches by (rule validate_header_matching)
  moreover have "fill_meta_file cs bi rd off data =
      (put_header d2 off h, asserting (is_ok (validate_header bi (header_of (put_header d2 off h) off))) (Inr ()))"
    using assms(1,3) by (simp add: fill_meta_file_def Let_def d1_def d2_def h_def not_less [symmetric])
  ultimately show ?thesis using d3 by (auto simp: asserting_def)
qed

lemma meta_sizes:
  assumes "unat (bi_meta_ci_uncompressed_size bi) < 2 ^ 63"
  shows "unat (bi_meta_ci_uncompressed_size bi) \<le> header_pos bi"
    and "unat (meta_file_size bi) = header_pos bi + 4096"
proof -
  let ?n = "unat (bi_meta_ci_uncompressed_size bi)"
  have pos: "header_pos bi = ceil4k ?n"
    using assms unfolding header_pos_def by (intro unat_round_up_4k) simp
  with ceil4k_ge show "?n \<le> header_pos bi" by simp
  have "header_pos bi < 2 ^ 63 + 4096" using ceil4k_less [of ?n] assms pos by linarith
  then show "unat (meta_file_size bi) = header_pos bi + 4096"
    unfolding meta_file_size_def header_pos_def
    by (subst unat_add_less) (simp_all add: header_consts)
qed

text \<open>The first open of a blob by a process with a backend reader.\<close>

lemma BlobMetaInfo_new_fresh:
  assumes "mmap_spec mmap" and "maps_meta mmap (Some rd) bi" and "unat (bi_meta_ci_uncompressed_size bi) < 2 ^ 63"
    and "bi_chunk_count bi \<noteq> 0" and "\<not> bi_chunk_count bi > RAFS_MAX_CHUNKS_PER_BLOB"
    and "read_metadata cs bi rd (replicate (unat (bi_meta_ci_uncompressed_size bi)) 0) = (buf, Inr ())"
  shows "\<exists>fm. wf_filemap fm \<and> length (fm_data fm) = header_pos bi + 4096 \<and>
     BlobMetaInfo_new mmap cs None bi (Some rd) =
       (Some (fm_data fm), if consistent bi then BlobMetaInfo_load fm bi else Inl Panic)"
proof -
  let ?n = "unat (bi_meta_ci_uncompressed_size bi)" and ?N = "header_pos bi + 4096"
  note sizes = meta_sizes [OF assms(3)]
  let ?file = "replicate ?N (0 :: u8)"
  from maps_meta_new [OF assms(2)] obtain fm where
    new: "FileMapState_new mmap True ?file (meta_file_size bi) True = Inr fm" by auto
  note fm = FileMapState_new_wf [OF assms(1) new, unfolded sizes(2) length_replicate, OF refl]
  have "s_magic (header_of (fm_data fm) (header_pos bi)) \<noteq> BLOB_METADATA_MAGIC"
    by (simp add: fm(2) header_of_def rd_zero BLOB_METADATA_MAGIC_def)
  then have "validate_header bi (header_of (fm_data fm) (header_pos bi)) = Inr False"
    by (simp add: validate_header_def header_matches_def)
  moreover have "read_metadata cs bi rd (take ?n (fm_data fm)) = (buf, Inr ())"
    using assms(6) sizes(1) by (simp only: fm(2) take_replicate) (simp add: min_def)
  ultimately obtain data where data: "length data = ?N" and
    fill: "fill_meta_file cs bi rd (header_pos bi) (fm_data fm) = (data, if consistent bi then Inr () else Inl Panic)"
    using fill_meta_file_eq [of bi "fm_data fm" "header_pos bi" cs rd buf] sizes(1) fm(2) by auto
  have len: "length (fm_data fm) = unat (meta_file_size bi)" by (simp only: fm(2) length_replicate sizes(2))
  have "BlobMetaInfo_map cs bi (Some rd) fm =
      (data, if consistent bi then BlobMetaInfo_load (fm\<lparr>fm_data := data\<rparr>) bi else Inl Panic)"
    unfolding BlobMetaInfo_map_def validate_range_all [OF fm(1) len]
    using get_ref_aligned [OF fm(1) round_up_4k_aligned, of BLOB_METADATA_HEADER_SIZE "bi_meta_ci_uncompressed_size bi",
        folded header_pos_def, unfolded header_consts] \<open>validate_header bi _ = _\<close> len sizes(2) fill
    by (simp add: Let_def)
  moreover have "set_len (unat (meta_file_size bi)) [] = ?file" by (simp add: set_len_def sizes(2))
  ultimately have "BlobMetaInfo_new mmap cs None bi (Some rd) =
      (Some data, if consistent bi then BlobMetaInfo_load (fm\<lparr>fm_data := data\<rparr>) bi else Inl Panic)"
    using assms(4,5) new sizes(2) by (simp add: BlobMetaInfo_new_def Let_def del: replicate_add)
  moreover have "wf_filemap (fm\<lparr>fm_data := data\<rparr>)"
    using wf_filemap_data [OF fm(1)] data len sizes(2) by simp
  ultimately show ?thesis using data by (intro exI [of _ "fm\<lparr>fm_data := data\<rparr>"]) simp
qed

text \<open>
  The metadata description of a blob comes from the bootstrap of the image. If it is
  inconsistent, for instance because the size of the chunk array does not fit the number of chunks,
  the first \<open>BlobMetaInfo::new\<close> of a process with a backend reader does not return the error that
  \<open>validate_header\<close> reports: it asserts that there is none and panics, after it has written a file
  with valid magic numbers.
\<close>

theorem inconsistent_meta_panics:
  assumes "mmap_spec mmap" and "maps_meta mmap (Some rd) bi" and "unat (bi_meta_ci_uncompressed_size bi) < 2 ^ 63"
    and "bi_chunk_count bi \<noteq> 0" and "\<not> bi_chunk_count bi > RAFS_MAX_CHUNKS_PER_BLOB"
    and "read_metadata cs bi rd (replicate (unat (bi_meta_ci_uncompressed_size bi)) 0) = (buf, Inr ())"
    and "\<not> consistent bi"
  shows "snd (BlobMetaInfo_new mmap cs None bi (Some rd)) = Inl Panic"
  using BlobMetaInfo_new_fresh [OF assms(1-6)] assms(7) by auto

definition demo_info :: "u64 \<Rightarrow> BlobInfo" where
  "demo_info info_size = set_blob_meta_info (BlobInfo_new 0 ''b'' 16 10 0x100000 1 0) 0 10 info_size info_size 0"

definition demo_reader :: blob_reader where
  "demo_reader offset n = Inr (replicate n 0)"

lemmas demo_info_eval = demo_info_def BlobInfo_new_def set_blob_meta_info_def compute_features_def

lemma demo_info_fields:
  "bi_chunk_count (demo_info n) = 1" "bi_meta_flags (demo_info n) = 0" "bi_meta_ci_uncompressed_size (demo_info n) = n"
  "meta_ci_compressor (demo_info n) = NoCompress"
  by (simp_all add: demo_info_eval meta_ci_compressor_def)

lemma demo_consistent: "consistent (demo_info 16)" "\<not> consistent (demo_info 24)"
  by (simp_all add: consistent_def validate_header_def header_matches_def header_for_def header_default_def
      demo_info_fields Let_def BLOB_META_FEATURE_CHUNK_INFO_V2_def BLOB_META_FEATURE_ZRAN_def
      RAFS_MAX_CHUNKS_PER_BLOB_def round_up_4k_def BLOB_METADATA_V1_MAX_SIZE_def RAFS_MAX_CHUNK_SIZE_def)

lemma demo_read:
  "read_metadata cs (demo_info n) demo_reader (replicate (unat (bi_meta_ci_uncompressed_size (demo_info n))) 0) =
     (replicate (unat n) 0, Inr ())"
  by (simp add: read_metadata_def demo_info_fields reader_read_def demo_reader_def fill_def)

lemma demo_maps: "unat n < 2 ^ 62 \<Longrightarrow> maps_meta demo_mmap reader (demo_info n)"
proof -
  assume n: "unat n < 2 ^ 62"
  have "header_pos (demo_info n) = ceil4k (unat n)"
    unfolding header_pos_def demo_info_fields using n by (intro unat_round_up_4k) simp
  then have "unat (meta_file_size (demo_info n)) < 2 ^ 63"
    using meta_sizes(2) [of "demo_info n"] ceil4k_less [of "unat n"] n by (simp add: demo_info_fields)
  then show ?thesis by (cases reader) (simp_all add: maps_meta_def demo_mmap_def MAP_FAILED_def)
qed

theorem inconsistent_meta_panics_witness:
  "snd (BlobMetaInfo_new demo_mmap rle_codecs None (demo_info 24) (Some demo_reader)) = Inl Panic"
  by (rule inconsistent_meta_panics [OF demo_mmap_spec demo_maps _ _ _ demo_read demo_consistent(2)])
    (simp_all add: demo_info_fields RAFS_MAX_CHUNKS_PER_BLOB_def)

lemma demo_new_ok:
  "\<exists>data st. BlobMetaInfo_new demo_mmap rle_codecs None (demo_info 16) (Some demo_reader) = (Some data, Inr st)"
proof -
  have small: "unat (16 :: u64) < 2 ^ 62" by simp
  have "unat (bi_meta_ci_uncompressed_size (demo_info 16)) < 2 ^ 63" "bi_chunk_count (demo_info 16) \<noteq> 0"
    "\<not> bi_chunk_count (demo_info 16) > RAFS_MAX_CHUNKS_PER_BLOB"
    by (simp_all add: demo_info_fields RAFS_MAX_CHUNKS_PER_BLOB_def)
  from BlobMetaInfo_new_fresh [OF demo_mmap_spec demo_maps [OF small] this demo_read, of rle_codecs] demo_consistent(1)
  obtain fm where fm: "wf_filemap fm" "length (fm_data fm) = header_pos (demo_info 16) + 4096"
    "BlobMetaInfo_new demo_mmap rle_codecs None (demo_info 16) (Some demo_reader) =
       (Some (fm_data fm), BlobMetaInfo_load fm (demo_info 16))" by auto
  moreover have "\<exists>st. BlobMetaInfo_load fm (demo_info 16) = Inr st"
    using fm(1,2) by (simp add: BlobMetaInfo_load_def from_file_map_def load_zran_def demo_info_fields validate_range_eq)
  ultimately show ?thesis by auto
qed

theorem meta_file_reopen_witness:
  "\<exists>disk st. BlobMetaInfo_new demo_mmap rle_codecs None (demo_info 16) (Some demo_reader) = (disk, Inr st) \<and>
     BlobMetaInfo_new demo_mmap rle_codecs disk (demo_info 16) None = (disk, Inr st)"
proof -
  have small: "unat (16 :: u64) < 2 ^ 62" by simp
  from demo_new_ok obtain data st where
    "BlobMetaInfo_new demo_mmap rle_codecs None (demo_info 16) (Some demo_reader) = (Some data, Inr st)" by blast
  with meta_file_reopen [OF demo_mmap_spec this demo_maps [OF small], of rle_codecs None] show ?thesis by blast
qed

section \<open>The arrays lie inside the mapping\<close>



section \<open>The inflate context table\<close>

definition zran_ctx_bytes :: "u64 \<Rightarrow> ZranContext \<Rightarrow> u8 list" where
  "zran_ctx_bytes dict_off info =
     le64 (zc_in_offset info) @ le64 (zc_out_offset info) @ le64 dict_off @ le32 (zc_in_len info) @
     le32 (zc_out_len info) @ le32 (of_nat (length (zc_dict info))) @
     [zc_ctx_byte info, zc_ctx_bits info, 0, 0]"

fun store_contexts :: "u64 \<Rightarrow> ZranContext list \<Rightarrow> u8 list" where
  "store_contexts dict_off [] = []"
| "store_contexts dict_off (info # records) =
     zran_ctx_bytes dict_off info @ store_contexts (dict_off + of_nat (length (zc_dict info))) records"

text \<open>
  \<open>ZranContextGenerator::store\<close> on the records of the generator: the bytes that it writes, their
  number and the number of records.
\<close>

definition zran_store :: "ZranContext list \<Rightarrow> u8 list \<times> nat \<times> u32" where
  "zran_store records =
     (store_contexts 0 records @ concat (map zc_dict records),
      length records * 40 + sum_list (map (\<lambda>r. length (zc_dict r)) records), of_nat (length records))"

lemma length_zran_ctx_bytes [simp]: "length (zran_ctx_bytes off r) = 40"
  by (simp add: zran_ctx_bytes_def)

lemma length_store_contexts [simp]: "length (store_contexts off rs) = 40 * length rs"
  by (induction rs arbitrary: off) simp_all

lemma zran_ctx_at_append: "zran_ctx_at (xs @ ys) (length xs + i) = zran_ctx_at ys i"
  by (simp add: zran_ctx_at_def rd32_def rd64_def nth_append add.assoc)

lemma zran_ctx_at_bytes:
  "zran_ctx_at (zran_ctx_bytes off r @ ys) 0 =
     \<lparr>z_in_offset = zc_in_offset r, z_out_offset = zc_out_offset r, z_dict_offset = off, z_in_len = zc_in_len r,
      z_out_len = zc_out_len r, z_dict_size = of_nat (length (zc_dict r)), z_ctx_byte = zc_ctx_byte r,
      z_ctx_bits = zc_ctx_bits r\<rparr>"
  by (simp add: zran_ctx_at_def zran_ctx_bytes_def rd32_def rd64_def nth_append)

definition dict_pos :: "ZranContext list \<Rightarrow> nat \<Rightarrow> nat" where
  "dict_pos rs k = sum_list (map (\<lambda>r. length (zc_dict r)) (take k rs))"

lemma zran_ctx_at_store:
  "k < length rs \<Longrightarrow> zran_ctx_at (store_contexts off rs @ ys) (k * 40) =
     \<lparr>z_in_offset = zc_in_offset (rs ! k), z_out_offset = zc_out_offset (rs ! k),
      z_dict_offset = off + of_nat (dict_pos rs k), z_in_len = zc_in_len (rs ! k),
      z_out_len = zc_out_len (rs ! k), z_dict_size = of_nat (length (zc_dict (rs ! k))),
      z_ctx_byte = zc_ctx_byte (rs ! k), z_ctx_bits = zc_ctx_bits (rs ! k)\<rparr>"
proof (induction rs arbitrary: k off)
  case Nil
  then show ?case by simp
next
  case (Cons r rs)
  show ?case
  proof (cases k)
    case 0
    then show ?thesis by (simp add: zran_ctx_at_bytes dict_pos_def)
  next
    case (Suc m)
    have "zran_ctx_at (store_contexts off (r # rs) @ ys) (Suc m * 40) =
        zran_ctx_at (zran_ctx_bytes off r @ (store_contexts (off + of_nat (length (zc_dict r))) rs @ ys))
          (length (zran_ctx_bytes off r) + m * 40)"
      by simp
    also have "\<dots> = zran_ctx_at (store_contexts (off + of_nat (length (zc_dict r))) rs @ ys) (m * 40)"
      by (rule zran_ctx_at_append)
    finally show ?thesis using Cons.IH [of m] Cons.prems Suc by (simp add: dict_pos_def add.assoc)
  qed
qed

lemma take_drop_concat:
  "k < length xss \<Longrightarrow> take (length (xss ! k)) (drop (sum_list (map length (take k xss))) (concat xss)) = xss ! k"
proof (induction xss arbitrary: k)
  case (Cons xs xss)
  then show ?case by (cases k) auto
qed simp

text \<open>
  Inflate contexts written by \<open>ZranContextGenerator::store\<close> are read back: the number of bytes
  and of records that it reports are right, and when the table and the dictionaries are taken from
  these bytes, \<open>get_zran_context\<close> gives for every index the parameters of that context and its own
  dictionary, and none beyond the last. (Dictionaries of together less than 4 GiB.)
\<close>

theorem zran_store_roundtrip:
  assumes "sum_list (map (\<lambda>r. length (zc_dict r)) rs) < 2 ^ 32" and "length rs < 2 ^ 32"
    and "zran_store rs = (bytes, written, n)"
    and "st_zran_info_array st = array_at zran_ctx_at 40 bytes 0 (unat n)"
    and "st_zran_dict_table st = drop (unat n * 40) bytes"
  shows "written = length bytes \<and>
     get_zran_context st i =
       (if unat i < length rs then Some ((rs ! unat i)\<lparr>zc_dict := []\<rparr>, zc_dict (rs ! unat i)) else None)"
proof
  let ?dicts = "map zc_dict rs"
  have bytes: "bytes = store_contexts 0 rs @ concat ?dicts" and n: "unat n = length rs"
    and written: "written = length rs * 40 + sum_list (map length ?dicts)"
    using assms(2,3) by (auto simp: zran_store_def unat_of_nat_less comp_def)
  show "written = length bytes" by (simp add: bytes written length_concat)
  have table: "st_zran_dict_table st = concat ?dicts" by (simp add: assms(5) bytes n)
  have len: "length (st_zran_info_array st) = length rs" by (simp add: assms(4) array_at_def n)
  show "get_zran_context st i =
      (if unat i < length rs then Some ((rs ! unat i)\<lparr>zc_dict := []\<rparr>, zc_dict (rs ! unat i)) else None)"
  proof (cases "unat i < length rs")
    case False
    then show ?thesis by (simp add: get_zran_context_def len)
  next
    case True
    let ?k = "unat i" and ?d = "zc_dict (rs ! unat i)"
    have pos: "dict_pos rs ?k = sum_list (map length (take ?k ?dicts))"
      by (simp add: dict_pos_def take_map comp_def)
    have "sum_list (map length (take (Suc ?k) ?dicts)) = dict_pos rs ?k + length ?d"
      using True by (simp add: pos take_Suc_conv_app_nth)
    moreover have "sum_list (map length (take (Suc ?k) ?dicts)) \<le> length (concat ?dicts)"
      by (metis append_take_drop_id concat_append le_add1 length_append length_concat)
    moreover have "length (concat ?dicts) < 2 ^ 32"
      using assms(1) by (simp add: length_concat comp_def)
    ultimately have fits: "dict_pos rs ?k + length ?d \<le> length (concat ?dicts)"
      "dict_pos rs ?k + length ?d < 2 ^ 32" by simp_all
    let ?e = "st_zran_info_array st ! ?k"
    have e: "?e = zran_ctx_at bytes (?k * 40)" using True by (simp add: assms(4) array_at_def n)
    note ctx = trans [OF e, unfolded bytes, OF zran_ctx_at_store [OF True]]
    have off: "unat (z_dict_offset ?e) = dict_pos rs ?k" and sz: "unat (ucast (z_dict_size ?e) :: u64) = length ?d"
      using fits(2) by (simp_all add: ctx unat_of_nat_less unat_ucast_u32_u64)
    have sum: "unat (z_dict_offset ?e + ucast (z_dict_size ?e)) = dict_pos rs ?k + length ?d"
      using fits(2) by (subst unat_add_less) (simp_all add: off sz)
    have "checked_add (z_dict_offset ?e) (ucast (z_dict_size ?e)) \<noteq> None"
      using fits(2) by (simp add: checked_add_def off sz)
    then have "get_zran_context st i = Some (ZranContext_from ?e,
        take (length ?d) (drop (dict_pos rs ?k) (concat ?dicts)))"
      using True fits(1) by (simp add: get_zran_context_def len Let_def sum off table)
    moreover have "take (length ?d) (drop (dict_pos rs ?k) (concat ?dicts)) = ?d"
      using take_drop_concat [of ?k ?dicts] True by (simp add: pos)
    moreover have "ZranContext_from ?e = (rs ! ?k)\<lparr>zc_dict := []\<rparr>"
      by (simp add: ZranContext_from_def ctx)
    ultimately show ?thesis using True by simp
  qed
qed

definition demo_ctx :: "u8 \<Rightarrow> u8 list \<Rightarrow> ZranContext" where
  "demo_ctx b d = \<lparr>zc_in_offset = 1, zc_out_offset = 2, zc_in_len = 3, zc_out_len = 4, zc_ctx_byte = b,
     zc_ctx_bits = 5, zc_dict = d\<rparr>"

theorem zran_store_roundtrip_witness:
  "\<exists>bytes written n. zran_store [demo_ctx 6 [7, 8], demo_ctx 9 [10]] = (bytes, written, n) \<and>
     get_zran_context (demo_meta\<lparr>st_zran_info_array := array_at zran_ctx_at 40 bytes 0 (unat n),
       st_zran_dict_table := drop (unat n * 40) bytes\<rparr>) 1 = Some (demo_ctx 9 [], [10])"
proof -
  obtain bytes written n where store: "zran_store [demo_ctx 6 [7, 8], demo_ctx 9 [10]] = (bytes, written, n)"
    by (metis surj_pair)
  from zran_store_roundtrip [OF _ _ this, of "demo_meta\<lparr>st_zran_info_array := array_at zran_ctx_at 40 bytes 0 (unat n),
       st_zran_dict_table := drop (unat n * 40) bytes\<rparr>" 1] store
  show ?thesis by (auto simp: demo_ctx_def)
qed

end
