(* ===== verification/Mem_Cursor.thy ===== *)
theory Mem_Cursor
  imports Rounding
begin

text \<open>
  Copying into scattered user memory, of \<open>storage/src/utils.rs\<close>: \<open>copyv\<close> and \<open>MemSliceCursor\<close>.
  User memory is a list of slices, each a list of bytes; a position in it is a slice index and an
  offset. Lengths are natural numbers, as none of the sums can reach the address space limit. The
  write to a volatile slice is library code: the parameter \<open>vw slice buf off\<close> gives the slice after
  the write and the number of bytes written.
\<close>

section \<open>Copying\<close>

type_synonym volatile_write = "u8 list \<Rightarrow> u8 list \<Rightarrow> nat \<Rightarrow> (u8 list \<times> nat) res"

text \<open>The inner loop, which may run forever if the library writes nothing.\<close>

partial_function (option) copy_one ::
  "volatile_write \<Rightarrow> u8 list \<Rightarrow> nat \<Rightarrow> nat \<Rightarrow> u8 list list \<Rightarrow> nat \<Rightarrow> nat \<Rightarrow> nat
    \<Rightarrow> (u8 list list \<times> (nat \<times> nat \<times> nat) res) option" where
  "copy_one vw s src_offset buffer_len dst dst_index dst_offset copied =
     (if dst_index \<ge> length dst then Some (dst, Inl MemOverflow)
      else case vw (dst ! dst_index) (take buffer_len (drop src_offset s)) dst_offset of
        Inl e \<Rightarrow> Some (dst, Inl e)
      | Inr (slice', written) \<Rightarrow>
          (let copied = copied + written;
               (i, off) = (if length (dst ! dst_index) - dst_offset = written then (dst_index + 1, 0)
                           else (dst_index, dst_offset + written));
               dst = dst[dst_index := slice']
           in if written = buffer_len then Some (dst, Inr (copied, i, off))
              else copy_one vw s (src_offset + written) (buffer_len - written) dst i off copied))"

fun copy_sources ::
  "volatile_write \<Rightarrow> nat \<Rightarrow> u8 list list \<Rightarrow> nat \<Rightarrow> u8 list list \<Rightarrow> nat \<Rightarrow> nat \<Rightarrow> nat
    \<Rightarrow> (u8 list list \<times> (nat \<times> nat \<times> nat) res) option" where
  "copy_sources vw len [] src_offset dst i off copied = Some (dst, Inr (copied, i, off))"
| "copy_sources vw len (s # ss) src_offset dst i off copied =
     (let buffer_len = min (length s - src_offset) (len - copied)
      in case copy_one vw s src_offset buffer_len dst i off copied of
           None \<Rightarrow> None
         | Some (dst, Inl e) \<Rightarrow> Some (dst, Inl e)
         | Some (dst, Inr (copied, i, off)) \<Rightarrow> copy_sources vw len ss 0 dst i off copied)"

text \<open>The memory afterwards with the number of bytes copied and the final position.\<close>

definition copyv ::
  "volatile_write \<Rightarrow> u8 list list \<Rightarrow> u8 list list \<Rightarrow> nat \<Rightarrow> nat \<Rightarrow> nat \<Rightarrow> nat
    \<Rightarrow> (u8 list list \<times> (nat \<times> nat \<times> nat) res) option" where
  "copyv vw src dst offset len dst_index dst_offset =
     (if src = [] \<or> len = 0 then Some (dst, Inr (0, dst_index, dst_offset))
      else if offset > length (src ! 0) \<or> dst_index \<ge> length dst \<or> dst_offset > length (dst ! dst_index)
      then Some (dst, Inl MemOverflow)
      else copy_sources vw len src offset dst dst_index dst_offset 0)"

section \<open>The cursor\<close>

record MemSliceCursor =
  mc_lens :: "nat list"
  mc_index :: nat
  mc_offset :: nat

definition MemSliceCursor_new :: "nat list \<Rightarrow> MemSliceCursor" where
  "MemSliceCursor_new lens = \<lparr>mc_lens = lens, mc_index = 0, mc_offset = 0\<rparr>"

function move_cursor :: "MemSliceCursor \<Rightarrow> nat \<Rightarrow> MemSliceCursor" where
  "move_cursor mc n =
     (if n > 0 \<and> mc_index mc < length (mc_lens mc) then
        let this_left = mc_lens mc ! mc_index mc - mc_offset mc
        in if this_left = n then mc\<lparr>mc_index := mc_index mc + 1, mc_offset := 0\<rparr>
           else if this_left > n then mc\<lparr>mc_offset := mc_offset mc + n\<rparr>
           else move_cursor (mc\<lparr>mc_index := mc_index mc + 1, mc_offset := 0\<rparr>) (n - this_left)
      else mc)"
  by pat_completeness auto
termination
  by (relation "measure (\<lambda>(mc, _). length (mc_lens mc) - mc_index mc)") auto

text \<open>The vectors are slice index, offset and length of each piece of memory handed out.\<close>

function consume :: "MemSliceCursor \<Rightarrow> nat \<Rightarrow> MemSliceCursor \<times> (nat \<times> nat \<times> nat) list" where
  "consume mc n =
     (if n > 0 \<and> mc_index mc < length (mc_lens mc) then
        let this_left = mc_lens mc ! mc_index mc - mc_offset mc
        in if this_left > n then
             (mc\<lparr>mc_offset := mc_offset mc + n\<rparr>, [(mc_index mc, mc_offset mc, n)])
           else if this_left = n then
             (mc\<lparr>mc_index := mc_index mc + 1, mc_offset := 0\<rparr>, [(mc_index mc, mc_offset mc, n)])
           else
             let (mc', vectors) = consume (mc\<lparr>mc_index := mc_index mc + 1, mc_offset := 0\<rparr>) (n - this_left)
             in (mc', (mc_index mc, mc_offset mc, this_left) # vectors)
      else (mc, []))"
  by pat_completeness auto
termination
  by (relation "measure (\<lambda>(mc, _). length (mc_lens mc) - mc_index mc)") auto

declare move_cursor.simps [simp del] consume.simps [simp del]

section \<open>Readahead\<close>

text \<open>The ranges that \<open>readahead\<close> asks for, as offset and count.\<close>

function readahead_loop :: "u64 \<Rightarrow> u64 \<Rightarrow> (u64 \<times> u64) list" where
  "readahead_loop offset end' =
     (if offset < end' then
        let count' = min (push_bit 10 128) (end' - offset)
        in (offset, count') # readahead_loop (offset + count') end'
      else [])"
  by pat_completeness auto
termination
proof (relation "measure (\<lambda>(offset, end'). unat end' - unat offset)")
  fix offset end' count' :: u64
  assume "offset < end'" and count: "count' = min (push_bit 10 128) (end' - offset)"
  then have le: "count' \<le> end' - offset" and pos: "0 < count'"
    by (auto simp: min_def word_neq_0_conv [symmetric])
  have sub: "unat (end' - offset) = unat end' - unat offset"
    using \<open>offset < end'\<close> by (intro unat_sub) simp
  have "unat offset + unat count' \<le> unat end'"
    using le sub \<open>offset < end'\<close> by (simp add: word_le_nat_alt word_less_nat_alt)
  then have "unat (offset + count') = unat offset + unat count'"
    using unat_lt2p64 [of end'] by (intro unat_add_less) simp
  with pos \<open>unat offset + unat count' \<le> unat end'\<close>
  show "((offset + count', end'), (offset, end')) \<in> measure (\<lambda>(offset, end'). unat end' - unat offset)"
    by (simp add: word_less_nat_alt)
qed simp

declare readahead_loop.simps [simp del]

definition readahead :: "u64 \<Rightarrow> u64 \<Rightarrow> (u64 \<times> u64) list" where
  "readahead offset end' = readahead_loop (round_down_4k offset) end'"


section \<open>Memory as one sequence of bytes\<close>

text \<open>
  What the library documents of a write: nothing to write succeeds; a write that starts inside the
  slice fills as much of it as it can; any other is refused.
\<close>

definition volatile_spec :: "volatile_write \<Rightarrow> bool" where
  "volatile_spec vw \<longleftrightarrow>
     (\<forall>slice off. vw slice [] off = Inr (slice, 0)) \<and>
     (\<forall>slice buf off. buf \<noteq> [] \<longrightarrow> off < length slice \<longrightarrow>
        vw slice buf off =
          (let b = take (length slice - off) buf
           in Inr (take off slice @ b @ drop (off + length b) slice, length b))) \<and>
     (\<forall>slice buf off. buf \<noteq> [] \<longrightarrow> length slice \<le> off \<longrightarrow> (\<exists>e. vw slice buf off = Inl e))"

definition volatile_store :: volatile_write where
  "volatile_store sl buf off =
     (if buf = [] then Inr (sl, 0)
      else if length sl \<le> off then Inl EINVAL
      else let b = take (length sl - off) buf
           in Inr (take off sl @ b @ drop (off + length b) sl, length b))"

lemma volatile_store_spec: "volatile_spec volatile_store"
  by (auto simp: volatile_spec_def volatile_store_def Let_def)

definition mem_pos :: "'a list list \<Rightarrow> nat \<Rightarrow> nat \<Rightarrow> nat" where
  "mem_pos dst i off = length (concat (take i dst)) + off"

definition pos_ok :: "'a list list \<Rightarrow> nat \<Rightarrow> nat \<Rightarrow> bool" where
  "pos_ok dst i off \<longleftrightarrow>
     i < length dst \<and> off < length (dst ! i) \<or> i = length dst \<and> off = 0"

definition overwrite :: "'a list \<Rightarrow> nat \<Rightarrow> 'a list \<Rightarrow> 'a list" where
  "overwrite m p b = take p m @ b @ drop (p + length b) m"

lemma overwrite_Nil [simp]: "overwrite m p [] = m"
  by (simp add: overwrite_def)

lemma length_overwrite [simp]: "p + length b \<le> length m \<Longrightarrow> length (overwrite m p b) = length m"
  by (simp add: overwrite_def)

lemma overwrite_append:
  assumes "p + length b + length c \<le> length m"
  shows "overwrite (overwrite m p b) (p + length b) c = overwrite m p (b @ c)"
  using assms by (simp add: overwrite_def drop_append ac_simps)

lemma concat_split_at:
  assumes "i < length dst"
  shows "concat dst = concat (take i dst) @ dst ! i @ concat (drop (Suc i) dst)"
  by (subst id_take_nth_drop [OF assms]) simp

lemma concat_update:
  assumes "i < length dst"
  shows "concat (dst[i := s]) = concat (take i dst) @ s @ concat (drop (Suc i) dst)"
  by (subst upd_conv_take_nth_drop [OF assms]) simp

lemma concat_overwrite:
  assumes "i < length dst" and "off + length b \<le> length (dst ! i)"
  shows "concat (dst[i := overwrite (dst ! i) off b]) = overwrite (concat dst) (mem_pos dst i off) b"
  using assms(2)
  by (simp add: concat_update [OF assms(1)] concat_split_at [OF assms(1)] overwrite_def mem_pos_def)

lemma mem_pos_Suc: "i < length dst \<Longrightarrow> mem_pos dst (Suc i) 0 = mem_pos dst i (length (dst ! i))"
  by (simp add: mem_pos_def take_Suc_conv_app_nth)

lemma length_concat_map: "map length a = map length b \<Longrightarrow> length (concat a) = length (concat b)"
  by (simp add: length_concat)

lemma mem_pos_lengths:
  assumes "map length a = map length b"
  shows "mem_pos a i off = mem_pos b i off"
proof -
  have "map length (take i a) = map length (take i b)"
    by (simp only: take_map [symmetric] assms)
  from length_concat_map [OF this] show ?thesis
    by (simp add: mem_pos_def)
qed

lemma mem_pos_end: "mem_pos dst (length dst) 0 = length (concat dst)"
  by (simp add: mem_pos_def)

lemma pos_ok_le:
  assumes "i < length dst" "off \<le> length (dst ! i)"
  shows "mem_pos dst i off \<le> length (concat dst)"
    and "length (concat dst) - mem_pos dst i off = length (dst ! i) - off + length (concat (drop (Suc i) dst))"
  using assms(2) by (simp_all add: mem_pos_def concat_split_at [OF assms(1)])

text \<open>A position inside memory is before its end exactly when a slice is left.\<close>

lemma pos_ok_less_iff:
  assumes "pos_ok dst i off"
  shows "mem_pos dst i off < length (concat dst) \<longleftrightarrow> i < length dst"
proof (cases "i < length dst")
  case True
  then have "off < length (dst ! i)"
    using assms by (simp add: pos_ok_def)
  then show ?thesis
    using True by (simp add: mem_pos_def concat_split_at [OF True])
next
  case False
  then show ?thesis
    using assms by (simp add: pos_ok_def mem_pos_end)
qed

lemma pos_ok_next:
  assumes "[] \<notin> set dst" and "i < length dst" and "off + n \<le> length (dst ! i)"
  defines "at' \<equiv> if length (dst ! i) - off = n then (i + 1, 0) else (i, off + n)"
  shows "pos_ok dst (fst at') (snd at')" and "mem_pos dst (fst at') (snd at') = mem_pos dst i off + n"
proof -
  have "Suc i < length dst \<Longrightarrow> dst ! Suc i \<noteq> []"
    using assms(1) by (metis nth_mem)
  then show "pos_ok dst (fst at') (snd at')"
    using assms(2,3) by (auto simp: pos_ok_def at'_def)
  show "mem_pos dst (fst at') (snd at') = mem_pos dst i off + n"
    using assms(2,3) by (auto simp: at'_def mem_pos_Suc) (auto simp: mem_pos_def)
qed

lemma pos_ok_lengths:
  assumes "map length a = map length b"
  shows "pos_ok a i off = pos_ok b i off"
proof -
  have "length a = length b"
    using assms by (metis length_map)
  moreover have "i < length a \<Longrightarrow> length (a ! i) = length (b ! i)"
    using assms \<open>length a = length b\<close> by (metis nth_map)
  ultimately show ?thesis
    by (auto simp: pos_ok_def)
qed

lemma nonempty_lengths:
  assumes "map length a = map length b"
  shows "[] \<in> set a \<longleftrightarrow> [] \<in> set b"
proof -
  have "\<And>xs :: 'c list list. [] \<in> set xs \<longleftrightarrow> 0 \<in> set (map length xs)"
    by auto
  then show ?thesis
    by (metis assms list.set_map length_0_conv image_iff)
qed

section \<open>What the copy does\<close>

text \<open>One source: the bytes land at the position, or memory is too small.\<close>

definition copied_to :: "u8 list list \<Rightarrow> nat \<Rightarrow> u8 list \<Rightarrow> nat \<Rightarrow> nat
    \<Rightarrow> u8 list list \<times> (nat \<times> nat \<times> nat) res \<Rightarrow> bool" where
  "copied_to dst copied b i off r \<longleftrightarrow>
     (\<exists>dst' i' off'. r = (dst', Inr (copied + length b, i', off')) \<and>
        map length dst' = map length dst \<and> pos_ok dst' i' off' \<and>
        mem_pos dst' i' off' = mem_pos dst i off + length b \<and>
        concat dst' = overwrite (concat dst) (mem_pos dst i off) b)"

lemma copied_to_append:
  assumes "copied_to dst copied b i off (dst', Inr (copied', i', off'))"
    and "copied_to dst' copied' c i' off' r"
    and "mem_pos dst i off + length b + length c \<le> length (concat dst)"
  shows "copied_to dst copied (b @ c) i off r"
  using assms by (auto simp: copied_to_def overwrite_append)

lemma volatile_write_inside:
  assumes "volatile_spec vw" and "off < length sl"
  shows "vw sl buf off =
     Inr (overwrite sl off (take (length sl - off) buf), min (length sl - off) (length buf))"
  using assms by (cases "buf = []") (auto simp: volatile_spec_def overwrite_def Let_def)

lemma copied_to_one:
  assumes "[] \<notin> set dst" and "i < length dst" and "off + length b \<le> length (dst ! i)"
  defines "at' \<equiv> if length (dst ! i) - off = length b then (i + 1, 0) else (i, off + length b)"
  shows "copied_to dst copied b i off
    (dst[i := overwrite (dst ! i) off b], Inr (copied + length b, fst at', snd at'))"
proof -
  have lens: "map length (dst[i := overwrite (dst ! i) off b]) = map length dst"
    using assms(2,3) by (simp add: map_update list_update_same_conv)
  show ?thesis
    using pos_ok_next [OF assms(1-3)] concat_overwrite [OF assms(2,3)]
    by (simp add: copied_to_def lens pos_ok_lengths [OF lens] mem_pos_lengths [OF lens] at'_def
        split: if_splits)
qed

lemma copy_one_correct:
  assumes "volatile_spec vw" and "[] \<notin> set dst" and "pos_ok dst i off"
    and "src_offset + n \<le> length s"
  shows "\<exists>r. copy_one vw s src_offset n dst i off copied = Some r \<and>
    (if i < length dst \<and> mem_pos dst i off + n \<le> length (concat dst)
     then copied_to dst copied (take n (drop src_offset s)) i off r
     else snd r = Inl MemOverflow)"
  using assms(2-4)
proof (induction "length dst - i" arbitrary: dst i off src_offset n copied rule: less_induct)
  case less
  show ?case
  proof (cases "i < length dst")
    case False
    then show ?thesis
      by (subst copy_one.simps) simp
  next
    case True
    define buf where "buf = take n (drop src_offset s)"
    define room where "room = length (dst ! i) - off"
    define b where "b = take room buf"
    define at' where "at' = (if room = length b then (i + 1, 0) else (i, off + length b))"
    define dst' where "dst' = dst[i := overwrite (dst ! i) off b]"
    have off: "off < length (dst ! i)"
      using less.prems(2) True by (simp add: pos_ok_def)
    have len_buf: "length buf = n" and len_b: "length b = min room n"
      using less.prems(3) by (simp_all add: buf_def b_def)
    have fits: "off + length b \<le> length (dst ! i)"
      using off by (simp add: len_b room_def)
    have step: "copied_to dst copied b i off (dst', Inr (copied + length b, fst at', snd at'))"
      using copied_to_one [OF less.prems(1) True fits] by (simp add: at'_def dst'_def room_def)
    have unfolded: "copy_one vw s src_offset n dst i off copied =
      (if length b = n then Some (dst', Inr (copied + length b, fst at', snd at'))
       else copy_one vw s (src_offset + length b) (n - length b) dst' (fst at') (snd at') (copied + length b))"
      using True off len_b
      by (subst copy_one.simps)
        (simp add: volatile_write_inside [OF assms(1)] buf_def [symmetric] room_def [symmetric]
          b_def [symmetric] len_buf dst'_def at'_def split: prod.splits)
    have lens: "map length dst' = map length dst" and pos': "pos_ok dst' (fst at') (snd at')"
      and mpos': "mem_pos dst' (fst at') (snd at') = mem_pos dst i off + length b"
      using step by (auto simp: copied_to_def)
    have total_room: "mem_pos dst i off + room \<le> length (concat dst)"
      using pos_ok_le [OF True, of off] off by (simp add: room_def)
    show ?thesis
    proof (cases "n \<le> room")
      case True': True
      then have "b = buf"
        by (simp add: b_def len_buf)
      then show ?thesis
        using step True True' total_room len_buf by (simp add: unfolded buf_def [symmetric])
    next
      case False
      then have len_room: "length b = room" and at_next: "at' = (Suc i, 0)"
        by (simp_all add: len_b at'_def)
      have len': "length dst' = length dst" and conc': "length (concat dst') = length (concat dst)"
        using lens length_concat_map by (metis length_map, blast)
      have ih: "\<exists>r. copy_one vw s (src_offset + room) (n - room) dst' (Suc i) 0 (copied + room) = Some r \<and>
        (if Suc i < length dst' \<and> mem_pos dst' (Suc i) 0 + (n - room) \<le> length (concat dst')
         then copied_to dst' (copied + room) (take (n - room) (drop (src_offset + room) s)) (Suc i) 0 r
         else snd r = Inl MemOverflow)"
        using True len' nonempty_lengths [OF lens] less.prems(1,3) pos' at_next False
        by (intro less.hyps) simp_all
      obtain r where r: "copy_one vw s (src_offset + room) (n - room) dst' (Suc i) 0 (copied + room) = Some r"
        and r_if: "if Suc i < length dst' \<and> mem_pos dst' (Suc i) 0 + (n - room) \<le> length (concat dst')
          then copied_to dst' (copied + room) (take (n - room) (drop (src_offset + room) s)) (Suc i) 0 r
          else snd r = Inl MemOverflow"
        using ih by blast
      have result: "copy_one vw s src_offset n dst i off copied = Some r"
        using False r by (simp add: unfolded len_room at_next)
      have inside: "Suc i < length dst'" if "mem_pos dst i off + n \<le> length (concat dst)"
        using that False mpos' pos_ok_less_iff [OF pos'] conc' by (simp add: at_next len_room)
      have split: "b @ take (n - room) (drop (src_offset + room) s) = take n (drop src_offset s)"
      proof -
        have "b = take room (drop src_offset s)"
          using False by (simp only: b_def buf_def take_take) (simp add: min_absorb1)
        then show ?thesis
          using False take_add [of room "n - room" "drop src_offset s"] by (simp add: add.commute)
      qed
      show ?thesis
      proof (cases "mem_pos dst i off + n \<le> length (concat dst)")
        case fit: True
        then have "copied_to dst' (copied + length b) (take (n - room) (drop (src_offset + room) s)) (Suc i) 0 r"
          using r_if inside mpos' conc' False by (simp add: at_next len_room)
        then have "copied_to dst copied (b @ take (n - room) (drop (src_offset + room) s)) i off r"
          using copied_to_append [OF step] fit less.prems(3) False len_room at_next by simp
        then show ?thesis
          using result fit True split by auto
      next
        case nofit: False
        then have "snd r = Inl MemOverflow"
          using r_if mpos' conc' False by (auto simp: at_next len_room split: if_splits)
        then show ?thesis
          using result nofit by auto
      qed
    qed
  qed
qed

text \<open>
  All sources: the copy succeeds exactly when the data fit and memory is not yet full where the last
  source begins.
\<close>

definition copy_fits :: "nat \<Rightarrow> u8 list list \<Rightarrow> nat \<Rightarrow> nat \<Rightarrow> nat \<Rightarrow> bool" where
  "copy_fits len src src_offset p room \<longleftrightarrow>
     p + length (take len (drop src_offset (concat src))) \<le> room \<and>
     (src \<noteq> [] \<longrightarrow> p + min len (length (concat (butlast src)) - src_offset) < room)"

lemma copy_fits_Cons:
  fixes len :: nat
  assumes "src_offset \<le> length s"
  defines "n \<equiv> min (length s - src_offset) len"
  shows "copy_fits len (s # ss) src_offset p room \<longleftrightarrow>
    p < room \<and> p + n \<le> room \<and> copy_fits (len - n) ss 0 (p + n) room"
proof (cases "ss = []")
  case True
  then show ?thesis
    using assms(1) by (auto simp: copy_fits_def n_def)
next
  case False
  have "min len (length s + k - src_offset) = n + min (len - n) k" for k
    using assms(1) by (simp add: n_def min_def) arith
  then show ?thesis
    using False assms(1) unfolding copy_fits_def length_take length_drop concat.simps length_append
    by (simp add: min.commute) linarith
qed

lemma take_drop_concat_Cons:
  fixes len :: nat
  assumes "src_offset \<le> length s"
  defines "n \<equiv> min (length s - src_offset) len"
  shows "take len (drop src_offset (concat (s # ss))) =
    take n (drop src_offset s) @ take (len - n) (concat ss)"
  using assms(1) by (auto simp: n_def min_def)

lemma copy_sources_correct:
  assumes "volatile_spec vw" and "[] \<notin> set dst" and "pos_ok dst i off"
    and "src = [] \<or> src_offset \<le> length (hd src)" and "copied \<le> len"
  shows "\<exists>r. copy_sources vw len src src_offset dst i off copied = Some r \<and>
    (if copy_fits (len - copied) src src_offset (mem_pos dst i off) (length (concat dst))
     then copied_to dst copied (take (len - copied) (drop src_offset (concat src))) i off r
     else snd r = Inl MemOverflow)"
  using assms(2-5)
proof (induction src arbitrary: dst i off src_offset copied)
  case Nil
  then show ?case
    using pos_ok_le [of i dst off]
    by (auto simp: copy_fits_def copied_to_def pos_ok_def mem_pos_end)
next
  case (Cons s ss)
  define n where "n = min (length s - src_offset) (len - copied)"
  define b where "b = take n (drop src_offset s)"
  let ?p = "mem_pos dst i off" and ?m = "length (concat dst)"
  have le: "src_offset \<le> length s"
    using Cons.prems by simp
  have len_b: "length b = n"
    by (simp add: b_def n_def)
  have "src_offset + n \<le> length s"
    using le by (simp add: n_def)
  from copy_one_correct [OF assms(1) Cons.prems(1,2) this, of copied]
  obtain r1 where r1: "copy_one vw s src_offset n dst i off copied = Some r1"
    and r1_if: "if i < length dst \<and> ?p + n \<le> ?m then copied_to dst copied b i off r1
      else snd r1 = Inl MemOverflow"
    unfolding b_def by blast
  note fits = copy_fits_Cons [OF le, of "len - copied" ss ?p ?m, folded n_def]
  show ?case
  proof (cases "i < length dst \<and> ?p + n \<le> ?m")
    case False
    then have "\<not> copy_fits (len - copied) (s # ss) src_offset ?p ?m"
      using fits pos_ok_less_iff [OF Cons.prems(2)] by auto
    moreover obtain d where "r1 = (d, Inl MemOverflow)"
      using r1_if False by (cases r1) auto
    ultimately show ?thesis
      using r1 by (auto simp: n_def [symmetric])
  next
    case True
    then obtain dst' i' off' where r1_eq: "r1 = (dst', Inr (copied + n, i', off'))"
      and step: "copied_to dst copied b i off (dst', Inr (copied + n, i', off'))"
      using r1_if len_b by (auto simp: copied_to_def)
    then have lens: "map length dst' = map length dst" and pos': "pos_ok dst' i' off'"
      and mpos': "mem_pos dst' i' off' = ?p + n"
      by (auto simp: copied_to_def len_b)
    note conc' = length_concat_map [OF lens]
    have fits': "copy_fits (len - copied) (s # ss) src_offset ?p ?m
        \<longleftrightarrow> copy_fits (len - (copied + n)) ss 0 (mem_pos dst' i' off') (length (concat dst'))"
      using fits True pos_ok_less_iff [OF Cons.prems(2)] by (simp add: mpos' conc')
    have ih: "\<exists>r. copy_sources vw len ss 0 dst' i' off' (copied + n) = Some r \<and>
      (if copy_fits (len - (copied + n)) ss 0 (mem_pos dst' i' off') (length (concat dst'))
       then copied_to dst' (copied + n) (take (len - (copied + n)) (drop 0 (concat ss))) i' off' r
       else snd r = Inl MemOverflow)"
      using Cons.prems(1,4) nonempty_lengths [OF lens] pos'
      by (intro Cons.IH) (simp_all add: n_def)
    then obtain r where r: "copy_sources vw len ss 0 dst' i' off' (copied + n) = Some r"
      and r_if: "if copy_fits (len - copied) (s # ss) src_offset ?p ?m
        then copied_to dst' (copied + n) (take (len - (copied + n)) (concat ss)) i' off' r
        else snd r = Inl MemOverflow"
      unfolding fits' drop_0 by blast
    have data: "take (len - copied) (drop src_offset (concat (s # ss))) =
        b @ take (len - (copied + n)) (concat ss)"
      using take_drop_concat_Cons [OF le, of "len - copied" ss] by (simp add: b_def n_def)
    have "copied_to dst copied (b @ take (len - (copied + n)) (concat ss)) i off r"
      if "copy_fits (len - copied) (s # ss) src_offset ?p ?m"
    proof (rule copied_to_append [OF step])
      show "copied_to dst' (copied + n) (take (len - (copied + n)) (concat ss)) i' off' r"
        using r_if that by simp
      show "?p + length b + length (take (len - (copied + n)) (concat ss)) \<le> ?m"
        using that by (simp add: copy_fits_def data del: concat.simps)
    qed
    then show ?thesis
      using r r1 r1_eq r_if data by (auto simp: n_def [symmetric] simp del: concat.simps)
  qed
qed

lemma copyv_result:
  assumes "volatile_spec vw" and "[] \<notin> set dst" and "i < length dst" and "off < length (dst ! i)"
    and "src \<noteq> []" and "offset \<le> length (src ! 0)" and "0 < len"
  shows "\<exists>r. copyv vw src dst offset len i off = Some r \<and>
    (if copy_fits len src offset (mem_pos dst i off) (length (concat dst))
     then copied_to dst 0 (take len (drop offset (concat src))) i off r
     else snd r = Inl MemOverflow)"
proof -
  have "pos_ok dst i off"
    using assms(3,4) by (simp add: pos_ok_def)
  from copy_sources_correct [OF assms(1,2) this, of src offset 0 len] assms(5,6)
  have "\<exists>r. copy_sources vw len src offset dst i off 0 = Some r \<and>
    (if copy_fits len src offset (mem_pos dst i off) (length (concat dst))
     then copied_to dst 0 (take len (drop offset (concat src))) i off r
     else snd r = Inl MemOverflow)"
    unfolding diff_zero by (metis hd_conv_nth zero_le)
  moreover have "copyv vw src dst offset len i off = copy_sources vw len src offset dst i off 0"
    using assms(3-7) by (simp add: copyv_def)
  ultimately show ?thesis
    by simp
qed

text \<open>
  C7. Copying scattered buffers into scattered memory. For memory slices that are not empty and a
  starting position inside them, \<open>copyv\<close> returns. When the wanted bytes of the sources fit, they
  are written one after the other at the position, nothing else changes, and the result is their
  number and the position after them. Otherwise it reports \<open>MemOverflow\<close>. They fit when there is
  room for them and memory is not already full where the last source begins.
\<close>

theorem copyv_correct:
  assumes "volatile_spec vw" and "[] \<notin> set dst" and "i < length dst" and "off < length (dst ! i)"
    and "src \<noteq> []" and "offset \<le> length (src ! 0)" and "0 < len"
  shows "\<exists>r. copyv vw src dst offset len i off = Some r \<and>
    (if copy_fits len src offset (mem_pos dst i off) (length (concat dst))
     then copied_to dst 0 (take len (drop offset (concat src))) i off r
     else snd r = Inl MemOverflow)"
  using assms by (rule copyv_result)

theorem copyv_correct_witness:
  "\<exists>dst. concat dst = [1, 7, 8, 9, 5, 6] \<and> map length dst = [3, 3] \<and>
     (\<exists>at'. copyv volatile_store [[0, 7], [8, 9, 9]] [[1, 2, 3], [4, 5, 6]] 1 3 0 1 = Some (dst, Inr (3, at')))"
proof -
  let ?dst = "[[1, 2, 3], [4, 5, 6]] :: u8 list list" and ?src = "[[0, 7], [8, 9, 9]] :: u8 list list"
  have "copy_fits 3 ?src 1 (mem_pos ?dst 0 1) (length (concat ?dst))"
    by (simp add: copy_fits_def mem_pos_def)
  with copyv_correct [OF volatile_store_spec, of ?dst 0 1 ?src 1 3]
  obtain r where "copyv volatile_store ?src ?dst 1 3 0 1 = Some r"
    and "copied_to ?dst 0 (take 3 (drop 1 (concat ?src))) 0 1 r"
    by auto
  then show ?thesis
    by (auto simp: copied_to_def overwrite_def mem_pos_def numeral_3_eq_3)
qed

text \<open>
  Exact fits can be refused. Copying as many bytes as the memory holds fails with
  \<open>MemOverflow\<close>, after every byte has been written, when a source is left over that the requested
  length does not reach: the loop still visits it, with nothing to copy, and finds the destination
  index at the end.
\<close>

theorem copyv_exact_fit_overflow:
  "\<exists>dst. copyv volatile_store [[7, 8], [9]] [[1, 2]] 0 2 0 0 = Some (dst, Inl MemOverflow) \<and>
     concat dst = [7, 8]"
proof -
  have one: "copy_one volatile_store [7, 8] 0 2 [[1, 2]] 0 0 0 = Some ([[7, 8]], Inr (2, 1, 0))"
    by (subst copy_one.simps) (simp add: volatile_store_def Let_def)
  have two: "copy_one volatile_store [9] 0 0 [[7, 8]] 1 0 2 = Some ([[7, 8]], Inl MemOverflow)"
    by (subst copy_one.simps) simp
  show ?thesis
    using one two by (simp add: copyv_def Let_def numeral_2_eq_2)
qed

section \<open>What the cursor does\<close>

definition mc_pos :: "MemSliceCursor \<Rightarrow> nat" where
  "mc_pos mc = sum_list (take (mc_index mc) (mc_lens mc)) + mc_offset mc"

text \<open>The offset of a cursor stays inside its slice.\<close>

definition mc_ok :: "MemSliceCursor \<Rightarrow> bool" where
  "mc_ok mc \<longleftrightarrow> mc_index mc < length (mc_lens mc) \<and> mc_offset mc \<le> mc_lens mc ! mc_index mc
     \<or> mc_index mc = length (mc_lens mc) \<and> mc_offset mc = 0"

lemma sum_list_split_at:
  "i < length xs \<Longrightarrow> sum_list xs = sum_list (take i xs) + xs ! i + sum_list (drop (Suc i) xs)"
  for xs :: "nat list"
  by (subst id_take_nth_drop [of i xs]) simp_all

lemma mc_next:
  assumes "mc_ok mc" and "mc_index mc < length (mc_lens mc)"
  defines "mc' \<equiv> mc\<lparr>mc_index := mc_index mc + 1, mc_offset := 0\<rparr>"
  shows "mc_ok mc'" and "mc_pos mc' = mc_pos mc + (mc_lens mc ! mc_index mc - mc_offset mc)"
    and "mc_pos mc + (mc_lens mc ! mc_index mc - mc_offset mc) \<le> sum_list (mc_lens mc)"
  using assms(1,2) sum_list_split_at [OF assms(2)]
  by (auto simp: mc_ok_def mc_pos_def mc'_def take_Suc_conv_app_nth)

lemma move_cursor_lens [simp]: "mc_lens (move_cursor mc n) = mc_lens mc"
  by (induction mc n rule: move_cursor.induct) (subst move_cursor.simps, simp add: Let_def)

lemma mc_stop: "mc_ok mc \<Longrightarrow> \<not> mc_index mc < length (mc_lens mc) \<Longrightarrow> mc_pos mc = sum_list (mc_lens mc)"
  by (auto simp: mc_ok_def mc_pos_def)

lemma mc_pos_le: "mc_ok mc \<Longrightarrow> mc_pos mc \<le> sum_list (mc_lens mc)"
  using mc_next(3) [of mc] mc_stop [of mc] by (cases "mc_index mc < length (mc_lens mc)") auto

lemma move_cursor_pos:
  "mc_ok mc \<Longrightarrow> mc_ok (move_cursor mc n) \<and>
     mc_pos (move_cursor mc n) = min (mc_pos mc + n) (sum_list (mc_lens mc))"
proof (induction mc n rule: move_cursor.induct)
  case (1 mc n)
  let ?left = "mc_lens mc ! mc_index mc - mc_offset mc"
  let ?next = "mc\<lparr>mc_index := mc_index mc + 1, mc_offset := 0\<rparr>"
  show ?case
  proof (cases "n > 0 \<and> mc_index mc < length (mc_lens mc)")
    case False
    then show ?thesis
      using "1.prems" mc_pos_le [of mc] mc_stop [of mc]
      by (subst (1 2) move_cursor.simps) auto
  next
    case True
    note next' = mc_next [OF "1.prems" conjunct2 [OF True]]
    consider (eq) "?left = n" | (more) "?left > n" | (less) "?left < n"
      by linarith
    then show ?thesis
    proof cases
      case eq
      then show ?thesis
        using True next' by (subst (1 2) move_cursor.simps) (simp add: Let_def)
    next
      case more
      then show ?thesis
        using True next'(3) "1.prems"
        by (subst (1 2) move_cursor.simps) (auto simp: Let_def mc_ok_def mc_pos_def)
    next
      case less
      then show ?thesis
        using True next' "1.IH" [OF True refl]
        by (subst (1 2) move_cursor.simps) (simp add: Let_def)
    qed
  qed
qed

text \<open>The bytes of memory, in its flat order, that the vectors name.\<close>

definition vector_bytes :: "nat list \<Rightarrow> (nat \<times> nat \<times> nat) list \<Rightarrow> nat list" where
  "vector_bytes lens vs = concat (map (\<lambda>(i, off, n). [sum_list (take i lens) + off ..< sum_list (take i lens) + off + n]) vs)"

lemma consume_moves: "fst (consume mc n) = move_cursor mc n"
proof (induction mc n rule: consume.induct)
  case (1 mc n)
  then show ?case
    by (subst consume.simps, subst move_cursor.simps) (auto simp: Let_def split: prod.splits)
qed

lemma consume_bytes:
  "mc_ok mc \<Longrightarrow> vector_bytes (mc_lens mc) (snd (consume mc n)) =
     [mc_pos mc ..< min (mc_pos mc + n) (sum_list (mc_lens mc))]"
proof (induction mc n rule: consume.induct)
  case (1 mc n)
  let ?left = "mc_lens mc ! mc_index mc - mc_offset mc"
  let ?next = "mc\<lparr>mc_index := mc_index mc + 1, mc_offset := 0\<rparr>"
  show ?case
  proof (cases "n > 0 \<and> mc_index mc < length (mc_lens mc)")
    case False
    then show ?thesis
      using "1.prems" mc_pos_le [of mc] mc_stop [of mc]
      by (subst consume.simps) (auto simp: vector_bytes_def)
  next
    case True
    note next' = mc_next [OF "1.prems" conjunct2 [OF True]]
    show ?thesis
    proof (cases "?left < n")
      case False
      then show ?thesis
        using True next'(3)
        by (subst consume.simps) (auto simp: Let_def vector_bytes_def mc_pos_def)
    next
      case less: True
      have "vector_bytes (mc_lens mc) (snd (consume mc n)) =
        [mc_pos mc ..< mc_pos mc + ?left] @ vector_bytes (mc_lens mc) (snd (consume ?next (n - ?left)))"
        using True less
        by (subst consume.simps) (auto simp: Let_def vector_bytes_def mc_pos_def split: prod.splits)
      also have "vector_bytes (mc_lens mc) (snd (consume ?next (n - ?left))) =
        [mc_pos mc + ?left ..< min (mc_pos mc + n) (sum_list (mc_lens mc))]"
        using "1.IH" [OF True refl] less next'(1,2) by simp
      finally show ?thesis
        using next'(3) less upt_add_eq_append [of "mc_pos mc" "mc_pos mc + ?left"]
        by (metis le_add1 le_iff_add min.boundedI nat_add_left_cancel_le less_imp_le_nat)
    qed
  qed
qed

text \<open>
  Handing out user memory. From a cursor inside its memory, \<open>consume\<close> names the next \<open>n\<close> bytes
  in order and without overlap, or all that are left, and leaves the cursor where \<open>move_cursor\<close>
  would, just after them.
\<close>

theorem consume_correct:
  assumes "mc_ok mc"
  shows "vector_bytes (mc_lens mc) (snd (consume mc n)) =
      [mc_pos mc ..< min (mc_pos mc + n) (sum_list (mc_lens mc))] \<and>
    fst (consume mc n) = move_cursor mc n \<and> mc_ok (move_cursor mc n) \<and>
    mc_pos (move_cursor mc n) = min (mc_pos mc + n) (sum_list (mc_lens mc))"
  using consume_bytes [OF assms] consume_moves move_cursor_pos [OF assms] by auto

theorem consume_correct_witness:
  "vector_bytes [4, 0, 6] (snd (consume (MemSliceCursor_new [4, 0, 6]) 7)) = [0, 1, 2, 3, 4, 5, 6] \<and>
   mc_pos (fst (consume (MemSliceCursor_new [4, 0, 6]) 7)) = 7"
  using consume_correct [of "MemSliceCursor_new [4, 0, 6]" 7]
  by (simp add: MemSliceCursor_new_def mc_ok_def mc_pos_def upt_rec)

section \<open>What readahead asks for\<close>

lemma readahead_count:
  fixes offset end' :: u64
  assumes "offset < end'"
  defines "count' \<equiv> min (push_bit 10 128) (end' - offset)"
  shows "unat (offset + count') = unat offset + unat count'"
    and "unat offset + unat count' \<le> unat end'"
proof -
  have "count' \<le> end' - offset"
    by (simp add: count'_def)
  moreover have "unat (end' - offset) = unat end' - unat offset"
    using \<open>offset < end'\<close> by (intro unat_sub) simp
  ultimately show le: "unat offset + unat count' \<le> unat end'"
    using \<open>offset < end'\<close> by (simp add: word_le_nat_alt word_less_nat_alt)
  show "unat (offset + count') = unat offset + unat count'"
    using le unat_lt2p64 [of end'] by (intro unat_add_less) simp
qed

lemma readahead_loop_covers:
  "concat (map (\<lambda>(o', c). [unat o' ..< unat o' + unat c]) (readahead_loop offset end')) =
     [unat offset ..< unat end'] \<and>
   (\<forall>(o', c) \<in> set (readahead_loop offset end'). unat c \<le> 2 ^ 17)"
proof (induction offset end' rule: readahead_loop.induct)
  case (1 offset end')
  show ?case
  proof (cases "offset < end'")
    case True
    define count' where "count' = min (push_bit 10 128) (end' - offset)"
    note count = readahead_count [OF True, folded count'_def]
    have small: "unat count' \<le> 2 ^ 17"
    proof -
      have "count' \<le> push_bit 10 128"
        by (simp add: count'_def)
      then show ?thesis
        by (simp add: word_le_nat_alt push_bit_eq_mult)
    qed
    have "[unat offset ..< unat end'] =
        [unat offset ..< unat offset + unat count'] @ [unat offset + unat count' ..< unat end']"
      using count(2) by (metis le_add1 le_iff_add upt_add_eq_append)
    moreover have "readahead_loop offset end' = (offset, count') # readahead_loop (offset + count') end'"
      using True by (subst readahead_loop.simps) (simp add: Let_def count'_def)
    ultimately show ?thesis
      using "1.IH" [OF True count'_def] count small by simp
  next
    case False
    then show ?thesis
      by (subst (1 2) readahead_loop.simps) (simp add: word_less_nat_alt not_less)
  qed
qed

lemma readahead_covers:
  "concat (map (\<lambda>(o', c). [unat o' ..< unat o' + unat c]) (readahead offset end')) =
     [unat offset div 4096 * 4096 ..< unat end']"
  using readahead_loop_covers by (simp add: readahead_def unat_round_down_4k)

end
