(* ===== verification/Chunk_Reader.thy ===== *)
theory Chunk_Reader
  imports Meta_File Mem_Cursor Chunk_Map
begin

text \<open>
  Reading and decoding chunks, the default methods of \<open>BlobReader\<close> (\<open>storage/src/backend/mod.rs\<close>)
  and \<open>BlobCache\<close> and the iterator \<open>ChunkDecompressState\<close> (\<open>storage/src/cache/mod.rs\<close>), with
  \<open>ZranDecoder::uncompress\<close> (\<open>utils/src/compress/zlib_random.rs\<close>). The hash functions and zlib are
  parameters, as are the contents of memory that was allocated and not initialised.
\<close>

section \<open>Buffers\<close>

text \<open>A \<open>Vec<u8>\<close>: its bytes and its capacity.\<close>

record vec_u8 =
  v_data :: "u8 list"
  v_cap :: nat

definition isize_MAX :: nat where "isize_MAX = 2 ^ 63 - 1"

text \<open>The layout is padded to pages; the bytes are whatever was in memory.\<close>

definition alloc_buf :: "(nat \<Rightarrow> u8) \<Rightarrow> nat \<Rightarrow> vec_u8 res" where
  "alloc_buf junk n =
     asserting (n < isize_MAX)
       (asserting (ceil4k n \<le> isize_MAX) (Inr \<lparr>v_data = map junk [0..<n], v_cap = ceil4k n\<rparr>))"

text \<open>\<open>to_vec\<close> allocates exactly the length.\<close>

definition to_vec :: "u8 list \<Rightarrow> vec_u8" where
  "to_vec bs = \<lparr>v_data = bs, v_cap = length bs\<rparr>"

section \<open>Reading from the backend\<close>

text \<open>\<open>try_read k\<close> is the outcome of attempt \<open>k\<close>; the second component is how many attempts were made.\<close>

fun BlobReader_read :: "(nat \<Rightarrow> 'a res) \<Rightarrow> nat \<Rightarrow> nat \<Rightarrow> 'a res \<times> nat" where
  "BlobReader_read try_read 0 k = (try_read k, Suc k)"
| "BlobReader_read try_read (Suc retry_count) k =
     (case try_read k of
        Inr x \<Rightarrow> (Inr x, Suc k)
      | Inl _ \<Rightarrow> BlobReader_read try_read retry_count (Suc k))"

text \<open>
  \<open>readv\<close>: a single large enough slice is read in place, otherwise the data go through a buffer.
\<close>

definition BlobReader_readv ::
  "volatile_write \<Rightarrow> (nat \<Rightarrow> u8) \<Rightarrow> blob_reader \<Rightarrow> u8 list list \<Rightarrow> u64 \<Rightarrow> nat
    \<Rightarrow> (u8 list list \<times> nat res) option" where
  "BlobReader_readv vw junk rd bufs offset max_size =
     (if length bufs = 1 \<and> max_size \<ge> length (bufs ! 0) then
        Some (case reader_read rd (bufs ! 0) offset of
          Inl e \<Rightarrow> (bufs, Inl e)
        | Inr (n, buf) \<Rightarrow> ([buf], Inr n))
      else
        let size' = min (foldl (\<lambda>size' s. size' + length s) 0 bufs) max_size
        in case and_then (alloc_buf junk size') (\<lambda>data. reader_read rd (v_data data) offset) of
             Inl e \<Rightarrow> Some (bufs, Inl e)
           | Inr (result, data) \<Rightarrow>
               (case copyv vw [data] bufs 0 result 0 0 of
                  None \<Rightarrow> None
                | Some (bufs, Inl e) \<Rightarrow> Some (bufs, Inl e)
                | Some (bufs, Inr (n, _)) \<Rightarrow> Some (bufs, Inr n)))"

section \<open>The cache object\<close>

text \<open>
  What the methods ask of a \<open>BlobCache\<close>, with the parameters: the reader, the codecs, the hash
  functions, \<open>bc_inflate prime dict input n\<close>, which sets bits and dictionary of a zlib stream and
  inflates at most \<open>n\<close> bytes from it, \<open>None\<close> for a return code other than \<open>Z_OK\<close>, and the contents
  of fresh memory.
\<close>

record blob_cache =
  bc_compressed_size :: u64
  bc_compressor :: compress_algorithm
  bc_digester :: digest_algorithm
  bc_is_legacy_stargz :: bool
  bc_is_zran :: bool
  bc_need_validation :: bool
  bc_meta_info :: "BlobMetaState option res"
  bc_reader :: blob_reader
  bc_codecs :: codecs
  bc_hash :: "digest_algorithm \<Rightarrow> u8 list \<Rightarrow> RafsDigest"
  bc_inflate :: "(u8 \<times> u8) option \<Rightarrow> u8 list \<Rightarrow> u8 list \<Rightarrow> nat \<Rightarrow> u8 list option"
  bc_junk :: "nat \<Rightarrow> u8"

definition check_digest :: "blob_cache \<Rightarrow> u8 list \<Rightarrow> RafsDigest \<Rightarrow> bool" where
  "check_digest bc data digest \<longleftrightarrow> digest = bc_hash bc (bc_digester bc) data"

definition get_legacy_stargz_size :: "blob_cache \<Rightarrow> u64 \<Rightarrow> usize \<Rightarrow> usize res" where
  "get_legacy_stargz_size bc offset uncomp_size =
     and_then (ok_or EINVAL (checked_sub (bc_compressed_size bc) offset))
       (\<lambda>max_size. Inr (compute_compressed_gzip_size uncomp_size max_size))"

definition decompress_chunk_data :: "blob_cache \<Rightarrow> u8 list \<Rightarrow> u8 list \<Rightarrow> bool \<Rightarrow> u8 list res" where
  "decompress_chunk_data bc raw_buffer buffer is_compressed =
     (if is_compressed then
        and_then (decompress (bc_codecs bc) raw_buffer buffer (bc_compressor bc)) (\<lambda>(ret, buffer).
          if ret \<noteq> length buffer then Inl EOTHER else Inr buffer)
      else asserting (length buffer = length raw_buffer) (Inr raw_buffer))"

definition validate_chunk_data :: "blob_cache \<Rightarrow> BlobChunkInfo \<Rightarrow> u8 list \<Rightarrow> bool \<Rightarrow> nat res" where
  "validate_chunk_data bc chunk buffer force_validation =
     (let d_size = unat (ci_uncompressed_size chunk)
      in if length buffer \<noteq> d_size then Inl EIO
         else if (bc_need_validation bc \<or> force_validation) \<and> \<not> bc_is_legacy_stargz bc
                 \<and> \<not> check_digest bc buffer (ci_chunk_id chunk)
         then Inl EIO
         else Inr d_size)"

section \<open>Decoding the chunks of a range\<close>

record ChunkDecompressState =
  ds_blob_offset :: u64
  ds_chunk_idx :: nat
  ds_zran_idx :: u32
  ds_chunks :: "BlobChunkInfo list"
  ds_c_buf :: "u8 list"
  ds_d_buf :: "u8 list"

definition ChunkDecompressState_new :: "u64 \<Rightarrow> BlobChunkInfo list \<Rightarrow> u8 list \<Rightarrow> ChunkDecompressState" where
  "ChunkDecompressState_new blob_offset chunks c_buf =
     \<lparr>ds_blob_offset = blob_offset, ds_chunk_idx = 0, ds_zran_idx = u32_MAX, ds_chunks = chunks,
      ds_c_buf = c_buf, ds_d_buf = []\<rparr>"

definition ZranDecoder_uncompress ::
  "blob_cache \<Rightarrow> ZranContext \<Rightarrow> u8 list option \<Rightarrow> u8 list \<Rightarrow> u8 list \<Rightarrow> (nat \<times> u8 list) res" where
  "ZranDecoder_uncompress bc ctx dict input output' =
     (if length input \<noteq> unat (zc_in_len ctx) then Inl EINVAL
      else if unat (zc_out_len ctx) > length output' then Inl EINVAL
      else
        let prime = (if zc_ctx_bits ctx \<noteq> 0 then Some (zc_ctx_bits ctx AND 7, zc_ctx_byte ctx) else None);
            dict = (case dict of None \<Rightarrow> zc_dict ctx | Some d \<Rightarrow> d)
        in case bc_inflate bc prime dict input (unat (zc_out_len ctx)) of
             None \<Rightarrow> Inl EIO
           | Some out \<Rightarrow>
               if length out \<noteq> unat (zc_out_len ctx) then Inl EIO
               else Inr (fill out output'))"

definition decompress_zran ::
  "blob_cache \<Rightarrow> BlobMetaState \<Rightarrow> ChunkDecompressState \<Rightarrow> ChunkDecompressState \<times> unit res" where
  "decompress_zran bc meta ds =
     (case get_zran_context meta (ds_zran_idx ds) of
        None \<Rightarrow> (ds, Inl EINVAL)
      | Some (ctx, dict) \<Rightarrow>
          (let c_offset = zc_in_offset ctx; c_size = (ucast (zc_in_len ctx) :: u64)
           in if c_offset < ds_blob_offset ds \<or> checked_add c_offset c_size = None
                 \<or> c_offset + c_size > ds_blob_offset ds + of_nat (length (ds_c_buf ds))
                 \<or> (ucast (zc_out_len ctx) :: u64) > RAFS_MAX_CHUNK_SIZE
              then (ds, Inl EINVAL)
              else
                let off = unat (c_offset - ds_blob_offset ds)
                in case and_then (asserting (off + unat c_size \<le> length (ds_c_buf ds))
                          (Inr (take (unat c_size) (drop off (ds_c_buf ds))))) (\<lambda>input.
                        and_then (alloc_buf (bc_junk bc) (unat (zc_out_len ctx))) (\<lambda>output'.
                        and_then (ZranDecoder_uncompress bc ctx (Some dict) input (v_data output')) (\<lambda>(_, output').
                        Inr output'))) of
                     Inl e \<Rightarrow> (ds, Inl e)
                   | Inr output' \<Rightarrow> (ds\<lparr>ds_d_buf := output'\<rparr>, Inr ())))"

definition next_zran ::
  "blob_cache \<Rightarrow> ChunkDecompressState \<Rightarrow> BlobChunkInfo \<Rightarrow> ChunkDecompressState \<times> vec_u8 res" where
  "next_zran bc ds chunk =
     (case and_then (bc_meta_info bc) (ok_or EINVAL) of
        Inl e \<Rightarrow> (ds, Inl e)
      | Inr meta \<Rightarrow>
          (case get_zran_index meta (ci_id chunk) of
             Inl e \<Rightarrow> (ds, Inl e)
           | Inr zran_idx \<Rightarrow>
               (let (ds, r) = (if zran_idx \<noteq> ds_zran_idx ds
                               then decompress_zran bc meta (ds\<lparr>ds_zran_idx := zran_idx\<rparr>)
                               else (ds, Inr ()))
                in (ds, and_then r (\<lambda>_. and_then (get_zran_offset meta (ci_id chunk)) (\<lambda>offset.
                     let end' = unat offset + unat (ci_uncompressed_size chunk)
                     in if end' > length (ds_d_buf ds) then Inl EINVAL
                        else Inr (to_vec (take (end' - unat offset) (drop (unat offset) (ds_d_buf ds))))))))))"

definition next_buf :: "blob_cache \<Rightarrow> ChunkDecompressState \<Rightarrow> BlobChunkInfo \<Rightarrow> vec_u8 res" where
  "next_buf bc ds chunk =
     (let c_offset = ci_compressed_offset chunk;
          c_size = (ucast (ci_compressed_size chunk) :: u64);
          d_size = unat (ci_uncompressed_size chunk)
      in if c_offset < ds_blob_offset ds \<or> checked_add c_offset c_size = None
            \<or> c_offset + c_size > ds_blob_offset ds + of_nat (length (ds_c_buf ds))
            \<or> (ucast (ci_uncompressed_size chunk) :: u64) > RAFS_MAX_CHUNK_SIZE
         then Inl EIO
         else
           let offset_merged = unat (c_offset - ds_blob_offset ds);
               end_merged = offset_merged + unat c_size
           in asserting (end_merged \<le> length (ds_c_buf ds))
                (and_then (alloc_buf (bc_junk bc) d_size) (\<lambda>buffer.
                 and_then (decompress_chunk_data bc (take (end_merged - offset_merged) (drop offset_merged (ds_c_buf ds)))
                   (v_data buffer) (ci_is_compressed chunk)) (\<lambda>bytes.
                 and_then (validate_chunk_data bc chunk bytes False) (\<lambda>_.
                 Inr (buffer\<lparr>v_data := bytes\<rparr>))))))"

definition ds_next :: "blob_cache \<Rightarrow> ChunkDecompressState \<Rightarrow> ChunkDecompressState \<times> vec_u8 res option" where
  "ds_next bc ds =
     (if ds_chunk_idx ds \<ge> length (ds_chunks ds) then (ds, None)
      else
        let chunk = ds_chunks ds ! ds_chunk_idx ds;
            ds = ds\<lparr>ds_chunk_idx := ds_chunk_idx ds + 1\<rparr>
        in if bc_is_zran bc then let (ds, r) = next_zran bc ds chunk in (ds, Some r)
           else (ds, Some (next_buf bc ds chunk)))"

section \<open>Reading chunks\<close>

definition read_chunks_from_backend ::
  "blob_cache \<Rightarrow> u64 \<Rightarrow> nat \<Rightarrow> BlobChunkInfo list \<Rightarrow> ChunkDecompressState res" where
  "read_chunks_from_backend bc blob_offset blob_size chunks =
     and_then (alloc_buf (bc_junk bc) blob_size) (\<lambda>c_buf.
       case reader_read (bc_reader bc) (v_data c_buf) blob_offset of
         Inl e \<Rightarrow> Inl EIO
       | Inr (nr_read, c_buf) \<Rightarrow>
           if nr_read \<noteq> blob_size then Inl EIO
           else Inr (ChunkDecompressState_new blob_offset chunks c_buf))"

text \<open>The filled buffer, beside the raw data of a compressed chunk.\<close>

definition read_chunk_from_backend ::
  "blob_cache \<Rightarrow> BlobChunkInfo \<Rightarrow> u8 list \<Rightarrow> (u8 list \<times> vec_u8 option) res" where
  "read_chunk_from_backend bc chunk buffer =
     (let offset = ci_compressed_offset chunk in
      if bc_is_zran bc then Inl ENOSYS
      else and_then
        (if ci_is_compressed chunk then
           and_then (if bc_is_legacy_stargz bc then get_legacy_stargz_size bc offset (of_nat (length buffer))
                     else Inr (ucast (ci_compressed_size chunk))) (\<lambda>c_size.
           and_then (alloc_buf (bc_junk bc) (unat c_size)) (\<lambda>raw_buffer.
           case reader_read (bc_reader bc) (v_data raw_buffer) offset of
             Inl e \<Rightarrow> Inl EIO
           | Inr (size', raw) \<Rightarrow>
               if size' \<noteq> length raw then Inl EIO
               else and_then (decompress_chunk_data bc raw buffer True) (\<lambda>buffer.
                 Inr (buffer, Some (raw_buffer\<lparr>v_data := raw\<rparr>)))))
         else
           (case reader_read (bc_reader bc) buffer offset of
              Inl e \<Rightarrow> Inl EIO
            | Inr (size', buffer) \<Rightarrow> if size' \<noteq> length buffer then Inl EIO else Inr (buffer, None)))
        (\<lambda>(buffer, c_buf). and_then (validate_chunk_data bc chunk buffer False) (\<lambda>_. Inr (buffer, c_buf))))"

section \<open>The contents of a chunk\<close>

text \<open>The decoders never produce more than they are asked for, and gzip exactly that much.\<close>

definition codec_bounded :: "codecs \<Rightarrow> bool" where
  "codec_bounded cs \<longleftrightarrow>
     (\<forall>src n out. lz4_decompress_safe cs src n = Some out \<longrightarrow> length out \<le> n) \<and>
     (\<forall>src n out. gz_read_exact cs src n = Inr out \<longrightarrow> length out = n) \<and>
     (\<forall>src n out. zstd_decompress_to_buffer cs src n = Inr out \<longrightarrow> length out \<le> n)"

definition decodes :: "codecs \<Rightarrow> compress_algorithm \<Rightarrow> u8 list \<Rightarrow> u8 list \<Rightarrow> bool" where
  "decodes cs alg raw d =
     (case alg of
        NoCompress \<Rightarrow> d = raw
      | Lz4Block \<Rightarrow> length d < i32_MAX \<and> 0 < lz4_bound cs (as_i32 (length d))
                   \<and> lz4_decompress_safe cs raw (length d) = Some d
      | GZip \<Rightarrow> gz_read_exact cs raw (length d) = Inr d
      | Zstd \<Rightarrow> zstd_decompress_to_buffer cs raw (length d) = Inr d)"

text \<open>\<open>d\<close> is what the chunk holds, given its bytes in the blob.\<close>

definition chunk_content :: "blob_cache \<Rightarrow> BlobChunkInfo \<Rightarrow> u8 list \<Rightarrow> u8 list \<Rightarrow> bool" where
  "chunk_content bc chunk raw d \<longleftrightarrow>
     length d = unat (ci_uncompressed_size chunk) \<and>
     (if ci_is_compressed chunk then decodes (bc_codecs bc) (bc_compressor bc) raw d else d = raw) \<and>
     (bc_need_validation bc \<and> \<not> bc_is_legacy_stargz bc \<longrightarrow> check_digest bc d (ci_chunk_id chunk))"

lemma decodes_unique:
  assumes "decodes cs alg raw d" and "decodes cs alg raw e" and "length d = length e"
  shows "d = e"
  using assms(1,2) unfolding decodes_def assms(3) by (cases alg) simp_all

lemma chunk_content_unique:
  "chunk_content bc chunk raw d \<Longrightarrow> chunk_content bc chunk raw e \<Longrightarrow> d = e"
  using decodes_unique [of "bc_codecs bc" "bc_compressor bc" raw d e]
  by (auto simp: chunk_content_def split: if_splits)

lemma decompress_decodes:
  assumes "codec_bounded cs"
  shows "decompress cs raw buffer alg = Inr (length buffer, d) \<and> length d = length buffer
    \<longleftrightarrow> decodes cs alg raw d \<and> length d = length buffer"
proof (cases alg)
  case Lz4Block
  show ?thesis
    unfolding Lz4Block decompress_def decodes_def lz4_decompress_def
    by (auto simp: fill_def not_le not_less split: option.splits)
next
  case Zstd
  show ?thesis
    unfolding Zstd decompress_def decodes_def by (auto simp: fill_def and_then_eq_Inr)
qed (auto simp: decompress_def decodes_def and_then_eq_Inr)

lemma decompress_length:
  assumes "codec_bounded cs" and "decompress cs raw buffer alg = Inr (n, d)"
  shows "length d = length buffer"
  using assms
  by (cases alg) (auto simp: decompress_def lz4_decompress_def codec_bounded_def fill_def
      and_then_eq_Inr split: if_splits option.splits)

lemma decompress_chunk_data_iff:
  assumes "codec_bounded (bc_codecs bc)"
  shows "decompress_chunk_data bc raw buffer c = Inr d \<longleftrightarrow>
    length d = length buffer \<and> (if c then decodes (bc_codecs bc) (bc_compressor bc) raw d else d = raw)"
proof (cases c)
  case True
  have "decompress_chunk_data bc raw buffer True = Inr d \<longleftrightarrow>
      decompress (bc_codecs bc) raw buffer (bc_compressor bc) = Inr (length buffer, d) \<and> length d = length buffer"
    using decompress_length [OF assms]
    by (auto simp: decompress_chunk_data_def and_then_eq_Inr split: if_splits)
  then show ?thesis
    using True decompress_decodes [OF assms] by auto
next
  case False
  then show ?thesis
    by (auto simp: decompress_chunk_data_def asserting_eq_Inr)
qed

text \<open>The decoded bytes do not depend on what the buffer held before.\<close>

lemma decompress_chunk_data_fresh:
  assumes "codec_bounded (bc_codecs bc)" and "length b1 = length b2"
  shows "decompress_chunk_data bc raw b1 c = Inr d \<longleftrightarrow> decompress_chunk_data bc raw b2 c = Inr d"
  using assms by (simp add: decompress_chunk_data_iff)

lemma validate_chunk_data_ok:
  "validate_chunk_data bc chunk buffer False = Inr n \<longleftrightarrow>
     n = length buffer \<and> length buffer = unat (ci_uncompressed_size chunk) \<and>
     (bc_need_validation bc \<and> \<not> bc_is_legacy_stargz bc \<longrightarrow> check_digest bc buffer (ci_chunk_id chunk))"
  by (auto simp: validate_chunk_data_def Let_def)

lemma alloc_buf_Inr:
  "alloc_buf junk n = Inr v \<longleftrightarrow>
     n < isize_MAX \<and> ceil4k n \<le> isize_MAX \<and> v = \<lparr>v_data = map junk [0..<n], v_cap = ceil4k n\<rparr>"
  by (auto simp: alloc_buf_def asserting_eq_Inr)

lemma alloc_buf_small: "n \<le> 2 ^ 62 \<Longrightarrow> alloc_buf junk n = Inr \<lparr>v_data = map junk [0..<n], v_cap = ceil4k n\<rparr>"
  using ceil4k_less [of n] by (simp add: alloc_buf_Inr isize_MAX_def)

section \<open>Reading from the blob\<close>

text \<open>Every read of the backend gives a prefix of the requested part of the blob.\<close>

definition serves :: "blob_reader \<Rightarrow> u8 list \<Rightarrow> bool" where
  "serves rd blob \<longleftrightarrow>
     (\<forall>off n bs. rd off n = Inr bs \<longrightarrow> (\<exists>k. bs = take k (take n (drop (unat off) blob))))"

definition slice_of :: "u8 list \<Rightarrow> u64 \<Rightarrow> nat \<Rightarrow> u8 list" where
  "slice_of blob off n = take n (drop (unat off) blob)"

abbreviation chunk_raw :: "u8 list \<Rightarrow> BlobChunkInfo \<Rightarrow> u8 list" where
  "chunk_raw blob chunk \<equiv> slice_of blob (ci_compressed_offset chunk) (unat (ci_compressed_size chunk))"

lemma reader_read_full:
  assumes "serves rd blob" and "reader_read rd buffer off = Inr (length buffer, buffer')"
  shows "buffer' = slice_of blob off (length buffer) \<and> length buffer' = length buffer"
proof -
  obtain bs where bs: "rd off (length buffer) = Inr bs"
    and fill: "fill (take (length buffer) bs) buffer = (length buffer, buffer')"
    using assms(2) by (auto simp: reader_read_def and_then_eq_Inr)
  obtain k where k: "bs = take k (slice_of blob off (length buffer))"
    using assms(1) bs unfolding serves_def slice_of_def by blast
  have len: "length (take (length buffer) bs) = length buffer" and buf: "buffer' = take (length buffer) bs"
    using fill by (auto simp: fill_def)
  have "length (slice_of blob off (length buffer)) \<le> length buffer"
    by (simp add: slice_of_def)
  then have "take (length buffer) bs = slice_of blob off (length buffer)"
    using len k by auto
  then show ?thesis
    using buf len by simp
qed

lemma reader_read_count:
  assumes "reader_read rd buffer off = Inr (n, buffer')"
  shows "length buffer' = length buffer"
  using assms by (auto simp: reader_read_def and_then_eq_Inr fill_def)

lemma read_chunks_from_backend_state:
  assumes "serves (bc_reader bc) blob"
    and "read_chunks_from_backend bc blob_offset blob_size chunks = Inr ds"
  shows "ds = ChunkDecompressState_new blob_offset chunks (slice_of blob blob_offset blob_size)
    \<and> length (slice_of blob blob_offset blob_size) = blob_size"
proof -
  obtain v c_buf where v: "alloc_buf (bc_junk bc) blob_size = Inr v"
    and c_buf: "reader_read (bc_reader bc) (v_data v) blob_offset = Inr (blob_size, c_buf)"
    and ds: "ds = ChunkDecompressState_new blob_offset chunks c_buf"
  proof -
    obtain v where v: "alloc_buf (bc_junk bc) blob_size = Inr v"
      using assms(2) by (auto simp: read_chunks_from_backend_def and_then_eq_Inr)
    then show thesis
      using assms(2) that [OF v]
      by (cases "reader_read (bc_reader bc) (v_data v) blob_offset")
        (auto simp: read_chunks_from_backend_def split: if_splits)
  qed
  have len: "length (v_data v) = blob_size"
    using v by (auto simp: alloc_buf_Inr)
  with reader_read_full [OF assms(1), of "v_data v" blob_offset c_buf] c_buf ds show ?thesis
    by auto
qed

section \<open>Decoding\<close>

text \<open>The range that was read covers the chunk, whose size is within the limit.\<close>

definition chunk_in :: "u64 \<Rightarrow> nat \<Rightarrow> BlobChunkInfo \<Rightarrow> bool" where
  "chunk_in blob_offset blob_size chunk \<longleftrightarrow>
     blob_offset \<le> ci_compressed_offset chunk \<and>
     unat (ci_compressed_offset chunk) + unat (ci_compressed_size chunk) \<le> unat blob_offset + blob_size \<and>
     unat (ci_uncompressed_size chunk) \<le> unat RAFS_MAX_CHUNK_SIZE"

lemma slice_of_slice:
  assumes "unat off \<le> unat off'" and "unat off' + n \<le> unat off + m"
  shows "take n (drop (unat off' - unat off) (slice_of blob off m)) = slice_of blob off' n"
  using assms by (simp add: slice_of_def drop_take min_absorb1)

lemma next_buf_Inr_iff:
  assumes "codec_bounded (bc_codecs bc)" and "unat (ds_blob_offset ds) + length (ds_c_buf ds) < 2 ^ 64"
    and "ds_c_buf ds = slice_of blob (ds_blob_offset ds) (length (ds_c_buf ds))"
  shows "next_buf bc ds chunk = Inr v \<longleftrightarrow>
    chunk_in (ds_blob_offset ds) (length (ds_c_buf ds)) chunk \<and>
    chunk_content bc chunk (chunk_raw blob chunk) (v_data v) \<and>
    v_cap v = ceil4k (unat (ci_uncompressed_size chunk))"
proof -
  define off where "off = ds_blob_offset ds"
  define n where "n = length (ds_c_buf ds)"
  define co where "co = ci_compressed_offset chunk"
  define cs where "cs = unat (ci_compressed_size chunk)"
  define d where "d = unat (ci_uncompressed_size chunk)"
  have sum: "unat (off + of_nat n) = unat off + n"
    using assms(2) by (simp add: off_def n_def unat_word_ariths unat_of_nat)
  have cs64: "unat (ucast (ci_compressed_size chunk) :: u64) = cs"
    by (simp add: cs_def unat_ucast_u32_u64)
  have d_big: "RAFS_MAX_CHUNK_SIZE < (ucast (ci_uncompressed_size chunk) :: u64) \<longleftrightarrow> unat RAFS_MAX_CHUNK_SIZE < d"
    by (simp add: word_less_nat_alt unat_ucast_u32_u64 d_def del: ucast_u64_u32)
  have bound: "unat off + n < 2 ^ 64"
    using assms(2) by (simp add: off_def n_def)
  have guard: "co < off \<or> checked_add co (ucast (ci_compressed_size chunk)) = None \<or>
      off + of_nat n < co + ucast (ci_compressed_size chunk) \<or>
      RAFS_MAX_CHUNK_SIZE < (ucast (ci_uncompressed_size chunk) :: u64)
      \<longleftrightarrow> \<not> chunk_in off n chunk"
  proof (cases "unat co + cs < 2 ^ 64")
    case True
    then have "unat (co + ucast (ci_compressed_size chunk)) = unat co + cs"
      using cs64 unat_add_less [of co "ucast (ci_compressed_size chunk)"] by simp
    then show ?thesis
      using True cs64 sum unfolding d_big
      by (auto simp: chunk_in_def co_def [symmetric] cs_def [symmetric] d_def [symmetric]
          checked_add_def word_less_nat_alt word_le_nat_alt)
  next
    case False
    then show ?thesis
      using cs64 bound
      by (auto simp: chunk_in_def co_def [symmetric] cs_def [symmetric] checked_add_def)
  qed
  show ?thesis
  proof (cases "chunk_in off n chunk")
    case False
    then show ?thesis
      using guard by (simp add: next_buf_def Let_def co_def off_def n_def)
  next
    case True
    then have le: "unat off \<le> unat co" "unat co + cs \<le> unat off + n" "d \<le> 2 ^ 62"
      by (auto simp: chunk_in_def co_def cs_def d_def word_le_nat_alt RAFS_MAX_CHUNK_SIZE_def)
    then have sub: "unat (co - off) = unat co - unat off"
      by (simp add: unat_sub word_le_nat_alt)
    have raw: "take cs (drop (unat co - unat off) (ds_c_buf ds)) = slice_of blob co cs"
      using slice_of_slice [OF le(1,2)] assms(3) unfolding off_def n_def by metis
    have "checked_add co (ucast (ci_compressed_size chunk)) \<noteq> None"
      using guard True by metis
    moreover have "unat co + cs - unat off \<le> n"
      using le(2) by linarith
    ultimately have "next_buf bc ds chunk =
        and_then (decompress_chunk_data bc (slice_of blob co cs) (map (bc_junk bc) [0..<d]) (ci_is_compressed chunk))
          (\<lambda>bytes. and_then (validate_chunk_data bc chunk bytes False)
            (\<lambda>_. Inr \<lparr>v_data = bytes, v_cap = ceil4k d\<rparr>))"
      using guard le sub raw cs64 True unfolding not_not de_Morgan_disj
      by (simp add: next_buf_def Let_def co_def [symmetric] off_def [symmetric] n_def [symmetric]
          d_def [symmetric] alloc_buf_small del: not_None_eq)
    then show ?thesis
      using True
      by (cases v) (auto simp: and_then_eq_Inr decompress_chunk_data_iff [OF assms(1)] validate_chunk_data_ok
          chunk_content_def d_def co_def cs_def off_def n_def)
  qed
qed

text \<open>The iterator after \<open>i\<close> calls.\<close>

definition ds_after :: "blob_cache \<Rightarrow> ChunkDecompressState \<Rightarrow> nat \<Rightarrow> ChunkDecompressState" where
  "ds_after bc ds i = ((\<lambda>ds. fst (ds_next bc ds)) ^^ i) ds"

lemma ds_after_plain:
  assumes "\<not> bc_is_zran bc" and "i \<le> length chunks"
  shows "ds_after bc (ChunkDecompressState_new off chunks c_buf) i =
    (ChunkDecompressState_new off chunks c_buf)\<lparr>ds_chunk_idx := i\<rparr>"
  using assms(2)
proof (induction i)
  case (Suc i)
  then show ?case
    using assms(1) by (simp add: ds_after_def ds_next_def ChunkDecompressState_new_def Let_def)
qed (simp add: ds_after_def ChunkDecompressState_new_def)

lemma plain_results:
  assumes "serves (bc_reader bc) blob" and "codec_bounded (bc_codecs bc)" and "\<not> bc_is_zran bc"
    and "unat off + n < 2 ^ 64" and "read_chunks_from_backend bc off n chunks = Inr ds"
  shows "\<forall>i < length chunks. \<exists>r. snd (ds_next bc (ds_after bc ds i)) = Some r \<and>
      (\<forall>v. r = Inr v \<longleftrightarrow> chunk_in off n (chunks ! i) \<and>
         chunk_content bc (chunks ! i) (chunk_raw blob (chunks ! i)) (v_data v) \<and>
         v_cap v = ceil4k (unat (ci_uncompressed_size (chunks ! i))))"
    and "snd (ds_next bc (ds_after bc ds (length chunks))) = None"
proof -
  have ds: "ds = ChunkDecompressState_new off chunks (slice_of blob off n)"
    and len: "length (slice_of blob off n) = n"
    using read_chunks_from_backend_state [OF assms(1,5)] by auto
  have next': "snd (ds_next bc (ds_after bc ds i)) =
      (if i < length chunks then Some (next_buf bc (ds\<lparr>ds_chunk_idx := Suc i\<rparr>) (chunks ! i)) else None)"
    if "i \<le> length chunks" for i
    using that assms(3) unfolding ds ds_after_plain [OF assms(3) that]
    by (auto simp: ds_next_def Let_def ChunkDecompressState_new_def)
  have "next_buf bc (ds\<lparr>ds_chunk_idx := Suc i\<rparr>) (chunks ! i) = Inr v \<longleftrightarrow>
      chunk_in off n (chunks ! i) \<and> chunk_content bc (chunks ! i) (chunk_raw blob (chunks ! i)) (v_data v) \<and>
      v_cap v = ceil4k (unat (ci_uncompressed_size (chunks ! i)))" for i v
    using next_buf_Inr_iff [OF assms(2), of "ds\<lparr>ds_chunk_idx := Suc i\<rparr>" blob "chunks ! i" v] assms(4) len
    by (simp add: ds ChunkDecompressState_new_def)
  then show "\<forall>i < length chunks. \<exists>r. snd (ds_next bc (ds_after bc ds i)) = Some r \<and>
      (\<forall>v. r = Inr v \<longleftrightarrow> chunk_in off n (chunks ! i) \<and>
         chunk_content bc (chunks ! i) (chunk_raw blob (chunks ! i)) (v_data v) \<and>
         v_cap v = ceil4k (unat (ci_uncompressed_size (chunks ! i))))"
    using next' by simp
  show "snd (ds_next bc (ds_after bc ds (length chunks))) = None"
    using next' by simp
qed


definition demo_cache :: "u8 list \<Rightarrow> blob_cache" where
  "demo_cache blob =
     \<lparr>bc_compressed_size = of_nat (length blob), bc_compressor = Lz4Block, bc_digester = Sha256,
      bc_is_legacy_stargz = False, bc_is_zran = False, bc_need_validation = True,
      bc_meta_info = Inr None, bc_reader = (\<lambda>off n. Inr (slice_of blob off n)),
      bc_codecs = rle_codecs, bc_hash = (\<lambda>_ data. data), bc_inflate = (\<lambda>_ _ _ _. None), bc_junk = of_nat\<rparr>"

definition demo_chunk :: "u32 \<Rightarrow> u64 \<Rightarrow> u64 \<Rightarrow> u8 list \<Rightarrow> BlobChunkInfo" where
  "demo_chunk id' coff uoff bs =
     \<lparr>ci_chunk_id = bs, ci_id = id', ci_blob_index = 0, ci_compressed_offset = coff,
      ci_compressed_size = of_nat (length bs), ci_uncompressed_offset = uoff,
      ci_uncompressed_size = of_nat (length bs), ci_is_compressed = False\<rparr>"

lemma demo_cache_serves: "serves (bc_reader (demo_cache blob)) blob"
proof -
  have "slice_of blob off n = take n (take n (drop (unat off) blob))" for off n
    by (simp add: slice_of_def)
  then show ?thesis
    unfolding serves_def demo_cache_def by (simp only: blob_cache.simps sum.inject) metis
qed

lemma rle_codecs_bounded: "codec_bounded rle_codecs"
  by (auto simp: codec_bounded_def rle_codecs_def unrle_def split: if_splits)


section \<open>ZRan chunks\<close>

text \<open>\<open>out\<close> is the inflated data of context \<open>idx\<close>.\<close>

definition context_out :: "blob_cache \<Rightarrow> u8 list \<Rightarrow> BlobMetaState \<Rightarrow> u32 \<Rightarrow> u8 list \<Rightarrow> bool" where
  "context_out bc blob meta idx out \<longleftrightarrow>
     (\<exists>ctx dict. get_zran_context meta idx = Some (ctx, dict) \<and>
        bc_inflate bc (if zc_ctx_bits ctx \<noteq> 0 then Some (zc_ctx_bits ctx AND 7, zc_ctx_byte ctx) else None)
          dict (slice_of blob (zc_in_offset ctx) (unat (zc_in_len ctx))) (unat (zc_out_len ctx)) = Some out \<and>
        length out = unat (zc_out_len ctx))"

definition zran_cached :: "blob_cache \<Rightarrow> u8 list \<Rightarrow> BlobMetaState \<Rightarrow> ChunkDecompressState \<Rightarrow> bool" where
  "zran_cached bc blob meta ds \<longleftrightarrow>
     ds_c_buf ds = slice_of blob (ds_blob_offset ds) (length (ds_c_buf ds)) \<and>
     unat (ds_blob_offset ds) + length (ds_c_buf ds) < 2 ^ 64 \<and>
     (ds_zran_idx ds = u32_MAX \<and> ds_d_buf ds = [] \<or> context_out bc blob meta (ds_zran_idx ds) (ds_d_buf ds))"

lemma decompress_zran_ok:
  assumes "ds_c_buf ds = slice_of blob (ds_blob_offset ds) (length (ds_c_buf ds))"
    and "unat (ds_blob_offset ds) + length (ds_c_buf ds) < 2 ^ 64"
    and "decompress_zran bc meta ds = (ds', Inr ())"
  shows "\<exists>out. ds' = ds\<lparr>ds_d_buf := out\<rparr> \<and> context_out bc blob meta (ds_zran_idx ds) out"
proof -
  obtain ctx dict where ctx: "get_zran_context meta (ds_zran_idx ds) = Some (ctx, dict)"
    using assms(3) by (cases "get_zran_context meta (ds_zran_idx ds)") (auto simp: decompress_zran_def)
  define off where "off = unat (zc_in_offset ctx - ds_blob_offset ds)"
  define input where "input = take (unat (zc_in_len ctx)) (drop off (ds_c_buf ds))"
  define bad where "bad \<longleftrightarrow> zc_in_offset ctx < ds_blob_offset ds \<or>
      checked_add (zc_in_offset ctx) (ucast (zc_in_len ctx)) = None \<or>
      zc_in_offset ctx + ucast (zc_in_len ctx) > ds_blob_offset ds + of_nat (length (ds_c_buf ds)) \<or>
      (ucast (zc_out_len ctx) :: u64) > RAFS_MAX_CHUNK_SIZE"
  define work where "work = and_then (asserting (off + unat (zc_in_len ctx) \<le> length (ds_c_buf ds)) (Inr input)) (\<lambda>input.
      and_then (alloc_buf (bc_junk bc) (unat (zc_out_len ctx))) (\<lambda>output'.
      and_then (ZranDecoder_uncompress bc ctx (Some dict) input (v_data output')) (\<lambda>(_, output'). Inr output')))"
  have unfolded: "decompress_zran bc meta ds =
      (if bad then (ds, Inl EINVAL)
       else case work of Inl e \<Rightarrow> (ds, Inl e) | Inr out \<Rightarrow> (ds\<lparr>ds_d_buf := out\<rparr>, Inr ()))"
    unfolding decompress_zran_def ctx bad_def work_def input_def off_def
    by (simp only: option.case prod.case Let_def unat_ucast_u32_u64)
  then have "\<not> bad"
    using assms(3) by (auto split: if_splits)
  obtain out where out: "work = Inr out" and ds': "ds' = ds\<lparr>ds_d_buf := out\<rparr>"
    using unfolded assms(3) \<open>\<not> bad\<close> by (cases work) auto
  have guard: "ds_blob_offset ds \<le> zc_in_offset ctx"
    using \<open>\<not> bad\<close> unfolding bad_def by (simp add: not_less)
  obtain v k where v: "alloc_buf (bc_junk bc) (unat (zc_out_len ctx)) = Inr v"
    and inside: "off + unat (zc_in_len ctx) \<le> length (ds_c_buf ds)"
    and unc: "ZranDecoder_uncompress bc ctx (Some dict) input (v_data v) = Inr (k, out)"
    using out unfolding work_def by (auto simp: result_iffs)
  have off: "off = unat (zc_in_offset ctx) - unat (ds_blob_offset ds)"
    using guard by (simp add: off_def unat_sub)
  have "unat (ds_blob_offset ds) \<le> unat (zc_in_offset ctx)"
    using guard by (simp add: word_le_nat_alt)
  moreover have "unat (zc_in_offset ctx) + unat (zc_in_len ctx) \<le> unat (ds_blob_offset ds) + length (ds_c_buf ds)"
    using inside calculation by (simp add: off)
  ultimately have "input = slice_of blob (zc_in_offset ctx) (unat (zc_in_len ctx))"
    using slice_of_slice [of "ds_blob_offset ds" "zc_in_offset ctx" "unat (zc_in_len ctx)"
        "length (ds_c_buf ds)" blob]
    unfolding assms(1) [symmetric] input_def off by blast
  moreover have "bc_inflate bc (if zc_ctx_bits ctx \<noteq> 0 then Some (zc_ctx_bits ctx AND 7, zc_ctx_byte ctx) else None)
      dict input (unat (zc_out_len ctx)) = Some out \<and> length out = unat (zc_out_len ctx)"
    using unc v
    by (auto simp: ZranDecoder_uncompress_def Let_def alloc_buf_Inr fill_def split: if_splits option.splits)
  ultimately show ?thesis
    using ctx ds' by (auto simp: context_out_def)
qed

lemma next_zran_correct:
  assumes meta: "bc_meta_info bc = Inr (Some meta)" and cached: "zran_cached bc blob meta ds"
    and pos: "0 < ci_uncompressed_size chunk" and ok: "next_zran bc ds chunk = (ds', Inr v)"
  shows "zran_cached bc blob meta ds' \<and>
    (\<exists>idx off out. get_zran_index meta (ci_id chunk) = Inr idx \<and> get_zran_offset meta (ci_id chunk) = Inr off \<and>
       context_out bc blob meta idx out \<and>
       unat off + unat (ci_uncompressed_size chunk) \<le> length out \<and>
       v = to_vec (take (unat (ci_uncompressed_size chunk)) (drop (unat off) out)))"
proof -
  obtain idx where idx: "get_zran_index meta (ci_id chunk) = Inr idx"
    using ok by (cases "get_zran_index meta (ci_id chunk)") (auto simp: next_zran_def meta ok_or_def)
  define step where "step = (if idx \<noteq> ds_zran_idx ds
      then decompress_zran bc meta (ds\<lparr>ds_zran_idx := idx\<rparr>) else (ds, Inr ()))"
  have "next_zran bc ds chunk = (fst step, and_then (snd step) (\<lambda>_. and_then (get_zran_offset meta (ci_id chunk)) (\<lambda>offset.
      let end' = unat offset + unat (ci_uncompressed_size chunk)
      in if end' > length (ds_d_buf (fst step)) then Inl EINVAL
         else Inr (to_vec (take (end' - unat offset) (drop (unat offset) (ds_d_buf (fst step))))))))"
    by (simp add: next_zran_def meta ok_or_def idx step_def [symmetric] case_prod_beta)
  then have fst_step: "fst step = ds'" and "and_then (snd step) (\<lambda>_. and_then (get_zran_offset meta (ci_id chunk)) (\<lambda>offset.
      let end' = unat offset + unat (ci_uncompressed_size chunk)
      in if end' > length (ds_d_buf ds') then Inl EINVAL
         else Inr (to_vec (take (end' - unat offset) (drop (unat offset) (ds_d_buf ds')))))) = Inr v"
    using ok by auto
  then obtain off where step: "step = (ds', Inr ())" and off: "get_zran_offset meta (ci_id chunk) = Inr off"
    and inside: "unat off + unat (ci_uncompressed_size chunk) \<le> length (ds_d_buf ds')"
    and v: "v = to_vec (take (unat (ci_uncompressed_size chunk)) (drop (unat off) (ds_d_buf ds')))"
    by (cases step) (auto simp: and_then_eq_Inr Let_def split: if_splits)
  have same: "ds_c_buf ds = slice_of blob (ds_blob_offset ds) (length (ds_c_buf ds))"
    and bound: "unat (ds_blob_offset ds) + length (ds_c_buf ds) < 2 ^ 64"
    using cached by (auto simp: zran_cached_def)
  have "context_out bc blob meta idx (ds_d_buf ds') \<and> zran_cached bc blob meta ds'"
  proof (cases "idx = ds_zran_idx ds")
    case True
    then have "ds' = ds"
      using step by (simp add: step_def)
    moreover have "ds_d_buf ds \<noteq> []"
      using inside pos \<open>ds' = ds\<close> by (auto simp: word_gt_0 unat_eq_0)
    ultimately show ?thesis
      using cached True by (auto simp: zran_cached_def)
  next
    case False
    then have "decompress_zran bc meta (ds\<lparr>ds_zran_idx := idx\<rparr>) = (ds', Inr ())"
      using step by (simp add: step_def)
    from decompress_zran_ok [OF _ _ this, of blob] same bound
    obtain out where "ds' = ds\<lparr>ds_zran_idx := idx, ds_d_buf := out\<rparr>" and "context_out bc blob meta idx out"
      by auto
    then show ?thesis
      using same bound by (simp add: zran_cached_def)
  qed
  then show ?thesis
    using idx off inside v by blast
qed

text \<open>
  The digest plays no part on this path, unlike for ordinary chunks: validation has no effect.
\<close>

lemma next_zran_not_validated:
  "next_zran (bc\<lparr>bc_need_validation := b, bc_hash := h\<rparr>) ds chunk = next_zran bc ds chunk"
proof -
  let ?bc = "bc\<lparr>bc_need_validation := b, bc_hash := h\<rparr>"
  have fields: "bc_junk ?bc = bc_junk bc" "bc_inflate ?bc = bc_inflate bc" "bc_meta_info ?bc = bc_meta_info bc"
    by simp_all
  have uncompress: "ZranDecoder_uncompress ?bc = ZranDecoder_uncompress bc"
    by (intro ext, unfold ZranDecoder_uncompress_def fields) (rule refl)
  have decompress: "decompress_zran ?bc = decompress_zran bc"
    by (intro ext, unfold decompress_zran_def fields uncompress) (rule refl)
  show ?thesis
    by (unfold next_zran_def fields decompress) (rule refl)
qed

section \<open>Reading one chunk\<close>

lemma read_chunk_from_backend_ok:
  assumes "serves (bc_reader bc) blob" and "codec_bounded (bc_codecs bc)" and "\<not> bc_is_legacy_stargz bc"
    and "read_chunk_from_backend bc chunk buffer = Inr (d, c_buf)"
    and "\<not> ci_is_compressed chunk \<longrightarrow> ci_compressed_size chunk = ci_uncompressed_size chunk"
    and "length buffer = unat (ci_uncompressed_size chunk)"
  shows "chunk_content bc chunk (chunk_raw blob chunk) d \<and>
    (case c_buf of None \<Rightarrow> \<not> ci_is_compressed chunk | Some v \<Rightarrow> ci_is_compressed chunk \<and> v_data v = chunk_raw blob chunk)"
proof (cases "ci_is_compressed chunk")
  case True
  have sz: "unat (ucast (ci_compressed_size chunk) :: usize) = unat (ci_compressed_size chunk)"
    by (rule unat_ucast_u32_u64)
  obtain w where w: "alloc_buf (bc_junk bc) (unat (ci_compressed_size chunk)) = Inr w"
    using assms(3,4) True sz
    by (cases "alloc_buf (bc_junk bc) (unat (ci_compressed_size chunk))")
      (auto simp: read_chunk_from_backend_def Let_def split: if_splits)
  then have len: "length (v_data w) = unat (ci_compressed_size chunk)"
    by (auto simp: alloc_buf_Inr)
  obtain n raw where rr: "reader_read (bc_reader bc) (v_data w) (ci_compressed_offset chunk) = Inr (n, raw)"
    using assms(3,4) True sz w
    by (cases "reader_read (bc_reader bc) (v_data w) (ci_compressed_offset chunk)")
      (auto simp: read_chunk_from_backend_def Let_def split: if_splits)
  then have n: "n = length (v_data w)"
    and rest: "decompress_chunk_data bc raw buffer True = Inr d" "is_ok (validate_chunk_data bc chunk d False)"
    and c_buf: "c_buf = Some (w\<lparr>v_data := raw\<rparr>)"
    using assms(3,4) True sz w reader_read_count [OF rr]
    by (auto simp: read_chunk_from_backend_def Let_def and_then_eq_Inr split: if_splits)
  have "raw = chunk_raw blob chunk"
    using reader_read_full [OF assms(1), of "v_data w"] rr n len by auto
  moreover obtain m where "validate_chunk_data bc chunk d False = Inr m"
    using rest(2) by (auto simp: is_ok_def split: sum.splits)
  ultimately show ?thesis
    using rest(1) True c_buf
    by (auto simp: decompress_chunk_data_iff [OF assms(2)] validate_chunk_data_ok chunk_content_def)
next
  case False
  obtain n raw where rr: "reader_read (bc_reader bc) buffer (ci_compressed_offset chunk) = Inr (n, raw)"
    using assms(3,4) False
    by (cases "reader_read (bc_reader bc) buffer (ci_compressed_offset chunk)")
      (auto simp: read_chunk_from_backend_def Let_def split: if_splits)
  then have n: "n = length buffer" and d: "d = raw" "c_buf = None"
    and ok: "is_ok (validate_chunk_data bc chunk d False)"
    using assms(3,4) False reader_read_count [OF rr]
    by (auto simp: read_chunk_from_backend_def Let_def and_then_eq_Inr split: if_splits)
  have "raw = chunk_raw blob chunk"
    using reader_read_full [OF assms(1), of buffer] rr n assms(5,6) False by auto
  moreover obtain m where "validate_chunk_data bc chunk d False = Inr m"
    using ok by (auto simp: is_ok_def split: sum.splits)
  ultimately show ?thesis
    using d False by (auto simp: validate_chunk_data_ok chunk_content_def)
qed

section \<open>Retries\<close>

text \<open>At most one attempt more than the limit is made, and the first success is the result.\<close>

lemma BlobReader_read_attempts:
  "k < snd (BlobReader_read try_read limit k) \<and> snd (BlobReader_read try_read limit k) \<le> k + limit + 1 \<and>
   fst (BlobReader_read try_read limit k) = try_read (snd (BlobReader_read try_read limit k) - 1) \<and>
   (\<forall>j. k \<le> j \<and> j < snd (BlobReader_read try_read limit k) - 1 \<longrightarrow> \<not> is_ok (try_read j))"
proof (induction limit arbitrary: k)
  case 0
  then show ?case by auto
next
  case (Suc limit)
  show ?case
  proof (cases "try_read k")
    case (Inl e)
    then have "\<not> is_ok (try_read k)"
      by simp
    then have "\<not> is_ok (try_read j)" if "Suc k \<le> j \<longrightarrow> \<not> is_ok (try_read j)" and "k \<le> j" for j
      using that by (cases "j = k") auto
    then show ?thesis
      using Inl Suc [of "Suc k"] by auto
  next
    case (Inr x)
    then show ?thesis by auto
  qed
qed

end
