(* ===== verification/Cached_File.thy ===== *)
theory Cached_File
  imports Chunk_Reader Blob_State_Map
begin

text \<open>
  The cached blob file of \<open>storage/src/cache/cachedfile.rs\<close>: fetching chunks from the backend,
  storing them in the cache file and keeping the chunk map up to date. The chunk map is a trait
  object: the record \<open>chunk_map_obj\<close> holds its methods on a state of any type. Tasks handed to the
  runtime wait in a list until they run. The operating system decides how much of a buffer a write
  stores: \<open>fe_writes\<close> lists the outcomes to come, after which every write is complete.
\<close>

section \<open>The entry\<close>

record 'm range_map_obj =
  rm_check_range_ready_and_mark_pending :: "'m \<Rightarrow> u32 \<Rightarrow> u32 \<Rightarrow> 'm \<times> u32 list option res"
  rm_clear_range_pending :: "'m \<Rightarrow> u32 \<Rightarrow> u32 \<Rightarrow> 'm"
  rm_wait_for_range_ready :: "'m \<Rightarrow> u32 \<Rightarrow> u32 \<Rightarrow> 'm \<times> bool res"

record 'm chunk_map_obj =
  cm_is_ready :: "'m \<Rightarrow> BlobChunkInfo \<Rightarrow> bool res"
  cm_check_ready_and_mark_pending :: "'m \<Rightarrow> BlobChunkInfo \<Rightarrow> 'm \<times> bool res"
  cm_set_ready_and_clear_pending :: "'m \<Rightarrow> BlobChunkInfo \<Rightarrow> 'm \<times> unit res"
  cm_clear_pending :: "'m \<Rightarrow> BlobChunkInfo \<Rightarrow> 'm"
  cm_is_persist :: bool
  cm_as_range_map :: "'m range_map_obj option"

datatype pwrite_result = Wrote nat | Interrupted | Write_error err

record 'm FileCacheEntry =
  fe_blob_id :: string
  fe_cache :: blob_cache
  fe_chunk_map :: 'm
  fe_file :: "u8 list"
  fe_writes :: "pwrite_result list"
  fe_delayed :: "(BlobChunkInfo \<times> u8 list \<times> bool) list"
  fe_is_get_blob_object_supported :: bool
  fe_is_compressed :: bool
  fe_is_direct_chunkmap :: bool
  fe_dio_enabled :: bool
  fe_batch_size :: u64
  fe_merging_size :: usize
  fe_prefetch_state :: u32

abbreviation fe_is_zran :: "'m FileCacheEntry \<Rightarrow> bool" where
  "fe_is_zran e \<equiv> bc_is_zran (fe_cache e)"

text \<open>\<open>get_blob_size\<close>: only legacy stargz blobs ask the backend, through \<open>blob_size\<close>.\<close>

definition get_blob_size :: "u64 res \<Rightarrow> BlobInfo \<Rightarrow> u64 res" where
  "get_blob_size blob_size blob_info =
     (if bi_is_legacy_stargz blob_info
      then (case blob_size of Inl _ \<Rightarrow> Inl EINVAL | Inr n \<Rightarrow> Inr n)
      else Inr 0)"

section \<open>Storing data\<close>

text \<open>A write past the end fills the gap with zeros.\<close>

definition pwrite_bytes :: "u8 list \<Rightarrow> nat \<Rightarrow> u8 list \<Rightarrow> u8 list" where
  "pwrite_bytes f off bs =
     (if bs = [] then f else take off f @ replicate (off - length f) 0 @ bs @ drop (off + length bs) f)"

fun pwrite_loop :: "pwrite_result list \<Rightarrow> u8 list \<Rightarrow> nat \<Rightarrow> u8 list \<Rightarrow> pwrite_result list \<times> u8 list \<times> nat res" where
  "pwrite_loop [] f off buffer = ([], pwrite_bytes f off buffer, Inr (length buffer))"
| "pwrite_loop (Wrote n # ws) f off buffer =
     (ws, pwrite_bytes f off (take n buffer), Inr (min n (length buffer)))"
| "pwrite_loop (Interrupted # ws) f off buffer = pwrite_loop ws f off buffer"
| "pwrite_loop (Write_error err # ws) f off buffer = (ws, f, Inl err)"

definition persist_cached_data :: "'m FileCacheEntry \<Rightarrow> u64 \<Rightarrow> u8 list \<Rightarrow> 'm FileCacheEntry \<times> unit res" where
  "persist_cached_data e offset buffer =
     (if bit offset 63 then (e, Inl EINVAL)
      else let (ws, f, r) = pwrite_loop (fe_writes e) (fe_file e) (unat offset) buffer
        in (e\<lparr>fe_writes := ws, fe_file := f\<rparr>,
            and_then r (\<lambda>n. if n \<noteq> length buffer then Inl EIO else Inr ())))"

definition update_chunk_pending_status ::
  "'m chunk_map_obj \<Rightarrow> 'm FileCacheEntry \<Rightarrow> BlobChunkInfo \<Rightarrow> bool \<Rightarrow> 'm FileCacheEntry" where
  "update_chunk_pending_status ops e chunk success =
     e\<lparr>fe_chunk_map :=
         (if success then fst (cm_set_ready_and_clear_pending ops (fe_chunk_map e) chunk)
          else cm_clear_pending ops (fe_chunk_map e) chunk)\<rparr>"

definition persist_chunk_data ::
  "'m chunk_map_obj \<Rightarrow> 'm FileCacheEntry \<Rightarrow> BlobChunkInfo \<Rightarrow> u8 list \<Rightarrow> 'm FileCacheEntry" where
  "persist_chunk_data ops e chunk buf =
     (let (e, r) = persist_cached_data e (ci_uncompressed_offset chunk) buf
      in update_chunk_pending_status ops e chunk (is_ok r))"

definition delay_persist_chunk_data ::
  "'m FileCacheEntry \<Rightarrow> BlobChunkInfo \<Rightarrow> u8 list \<Rightarrow> bool \<Rightarrow> 'm FileCacheEntry res" where
  "delay_persist_chunk_data e chunk buffer compressed =
     asserting (fe_is_compressed e = compressed)
       (Inr (e\<lparr>fe_delayed := fe_delayed e @ [(chunk, buffer, compressed)]\<rparr>))"

text \<open>The closure that \<open>delay_persist_chunk_data\<close> spawns; the runtime picks any waiting task.\<close>

definition run_delayed :: "'m chunk_map_obj \<Rightarrow> 'm FileCacheEntry \<Rightarrow> nat \<Rightarrow> 'm FileCacheEntry" where
  "run_delayed ops e k =
     (if k < length (fe_delayed e) then
        let (chunk, buffer, compressed) = fe_delayed e ! k;
            offset = (if compressed then ci_compressed_offset chunk else ci_uncompressed_offset chunk);
            (e, r) = persist_cached_data (e\<lparr>fe_delayed := take k (fe_delayed e) @ drop (Suc k) (fe_delayed e)\<rparr>)
                       offset buffer
        in update_chunk_pending_status ops e chunk (is_ok r)
      else e)"

definition adjust_buffer_for_dio :: "vec_u8 \<Rightarrow> vec_u8 res" where
  "adjust_buffer_for_dio buf =
     asserting (v_cap buf mod 0x1000 = 0)
       (Inr (if length (v_data buf) \<noteq> v_cap buf
             then buf\<lparr>v_data := v_data buf @ replicate (v_cap buf - length (v_data buf)) 0\<rparr> else buf))"

section \<open>Choosing what to fetch\<close>

definition prefetch_batch_size :: "'m FileCacheEntry \<Rightarrow> u64" where
  "prefetch_batch_size e = (if fe_merging_size e < 0x20000 then 0x20000 else fe_merging_size e)"

definition ondemand_batch_size :: "'m FileCacheEntry \<Rightarrow> u64" where
  "ondemand_batch_size e = (if fe_batch_size e < 0x20000 then 0x20000 else fe_batch_size e)"

fun zran_pending_set ::
  "'m chunk_map_obj \<Rightarrow> 'm \<Rightarrow> BlobMetaState \<Rightarrow> BlobChunkInfo list \<Rightarrow> u32 list res" where
  "zran_pending_set ops m meta [] = Inr []"
| "zran_pending_set ops m meta (c # cs) =
     (if cm_is_ready ops m c = Inr True then zran_pending_set ops m meta cs
      else and_then (get_zran_index meta (ci_id c)) (\<lambda>z.
           and_then (zran_pending_set ops m meta cs) (\<lambda>zs. Inr (List.insert z zs))))"

fun strip_start :: "BlobMetaState \<Rightarrow> u32 list \<Rightarrow> u32 \<Rightarrow> BlobChunkInfo list \<Rightarrow> nat \<Rightarrow> nat res" where
  "strip_start meta set' first' [] start = Inr start"
| "strip_start meta set' first' (c # cs) start =
     (if ci_id c = first' then Inr start
      else and_then (get_zran_index meta (ci_id c)) (\<lambda>z.
        if z \<in> set set' then Inr start else strip_start meta set' first' cs (start + 1)))"

fun strip_stop :: "BlobMetaState \<Rightarrow> u32 list \<Rightarrow> u32 \<Rightarrow> BlobChunkInfo list \<Rightarrow> nat \<Rightarrow> nat \<Rightarrow> nat res" where
  "strip_stop meta set' last' cs start 0 = Inr 0"
| "strip_stop meta set' last' cs start (Suc k) =
     (if Suc k > start then
        and_then (index_at cs (Suc k)) (\<lambda>c.
          if ci_id c = last' then Inr (Suc k)
          else and_then (get_zran_index meta (ci_id c)) (\<lambda>z.
            if z \<in> set set' then Inr (Suc k) else strip_stop meta set' last' cs start k))
      else Inr (Suc k))"

fun strip_tail :: "'m chunk_map_obj \<Rightarrow> 'm \<Rightarrow> BlobChunkInfo list \<Rightarrow> BlobChunkInfo list" where
  "strip_tail ops m [] = []"
| "strip_tail ops m (c # cs) = (if cm_is_ready ops m c = Inr True then strip_tail ops m cs else c # cs)"

text \<open>
  With no chunks at all the index arithmetic of the ZRan branch wraps and the first access panics.
  Trailing chunks are popped one by one.
\<close>

definition strip_ready_chunks ::
  "'m chunk_map_obj \<Rightarrow> 'm FileCacheEntry \<Rightarrow> BlobMetaState \<Rightarrow> BlobChunkInfo list option
    \<Rightarrow> BlobChunkInfo list \<Rightarrow> BlobChunkInfo list res" where
  "strip_ready_chunks ops e meta old_chunks extended_chunks =
     (if fe_is_zran e then
        and_then (zran_pending_set ops (fe_chunk_map e) meta extended_chunks) (\<lambda>set'.
        and_then (case old_chunks of None \<Rightarrow> Inr u32_MAX | Some v \<Rightarrow> and_then (index_at v 0) (\<lambda>c. Inr (ci_id c))) (\<lambda>first'.
        and_then (strip_start meta set' first' extended_chunks 0) (\<lambda>start.
        and_then (case old_chunks of None \<Rightarrow> Inr u32_MAX
                  | Some v \<Rightarrow> and_then (index_at v (length v - 1)) (\<lambda>c. Inr (ci_id c))) (\<lambda>last'.
        asserting (extended_chunks \<noteq> [])
          (and_then (strip_stop meta set' last' extended_chunks start (length extended_chunks - 1)) (\<lambda>end'.
           asserting (end' \<ge> start) (Inr (drop start (take (Suc end') extended_chunks))))))))) 
      else Inr (rev (strip_tail ops (fe_chunk_map e) (rev extended_chunks))))"

definition extend_pending_chunks ::
  "'m chunk_map_obj \<Rightarrow> 'm FileCacheEntry \<Rightarrow> BlobChunkInfo list \<Rightarrow> u64 \<Rightarrow> BlobChunkInfo list option res" where
  "extend_pending_chunks ops e chunks batch_size =
     asserting (chunks \<noteq> [])
       (and_then (bc_meta_info (fe_cache e)) (\<lambda>m.
          case m of
            None \<Rightarrow> Inr None
          | Some bm \<Rightarrow>
              and_then (add_more_chunks bm chunks batch_size) (\<lambda>v.
              and_then (strip_ready_chunks ops e bm (Some chunks) v) (\<lambda>v. Inr (Some v)))))"

definition get_blob_range :: "'m FileCacheEntry \<Rightarrow> BlobChunkInfo list \<Rightarrow> (u64 \<times> u64 \<times> nat) res" where
  "get_blob_range e chunks =
     asserting (chunks \<noteq> [])
       (and_then
          (if fe_is_zran e then
             and_then (and_then (bc_meta_info (fe_cache e)) (ok_or EINVAL)) (\<lambda>meta.
             and_then (get_zran_index meta (ci_id (hd chunks))) (\<lambda>zran_index.
             and_then (ok_or EINVAL (get_zran_context meta zran_index)) (\<lambda>(ctx, _).
             let blob_start = zc_in_offset ctx in
             and_then (get_zran_index meta (ci_id (last chunks))) (\<lambda>zran_index.
             and_then (ok_or EINVAL (get_zran_context meta zran_index)) (\<lambda>(ctx, _).
             let blob_end = zc_in_offset ctx + ucast (zc_in_len ctx) in
             Inr (blob_start, blob_end))))))
           else Inr (ci_compressed_offset (hd chunks), ci_compressed_end (last chunks)))
          (\<lambda>(start, end').
             let size' = end' - start
             in if end' - start > 0xFFFFFFFF then Inl EINVAL else Inr (start, end', unat size')))"

section \<open>Prefetch state\<close>

definition start_prefetch :: "'m FileCacheEntry \<Rightarrow> 'm FileCacheEntry \<times> unit res" where
  "start_prefetch e = (e\<lparr>fe_prefetch_state := fe_prefetch_state e + 1\<rparr>, Inr ())"

text \<open>
  The loop of \<open>stop_prefetch\<close> while no other thread changes the counter, so that every exchange
  succeeds.
\<close>

function stop_prefetch_loop :: "u32 \<Rightarrow> u32" where
  "stop_prefetch_loop val =
     (let state = (if val > 0 then val - 1 else val)
      in if val = 0 \<or> val = 1 then state else stop_prefetch_loop state)"
  by pat_completeness auto
termination
proof (relation "measure unat")
  fix val state :: u32
  assume "state = (if val > 0 then val - 1 else val)" "\<not> (val = 0 \<or> val = 1)"
  then show "(state, val) \<in> measure unat"
    by (simp add: word_gt_0 measure_unat)
qed simp

declare stop_prefetch_loop.simps [simp del]

definition is_prefetch_active :: "'m FileCacheEntry \<Rightarrow> bool" where
  "is_prefetch_active e \<longleftrightarrow> fe_prefetch_state e > 0"

definition get_blob_object :: "'m FileCacheEntry \<Rightarrow> 'm FileCacheEntry option" where
  "get_blob_object e = (if fe_is_get_blob_object_supported e then Some e else None)"

section \<open>Fetching chunks\<close>

fun ids_consecutive :: "BlobChunkInfo list \<Rightarrow> bool" where
  "ids_consecutive (c # d # cs) \<longleftrightarrow> ci_id c + 1 = ci_id d \<and> ids_consecutive (d # cs)"
| "ids_consecutive _ \<longleftrightarrow> True"

text \<open>Marking the chunks to store, with the lowest and highest of their positions.\<close>

fun mark_status :: "u32 \<Rightarrow> u32 list \<Rightarrow> bool list \<Rightarrow> u32 \<Rightarrow> u32 \<Rightarrow> (bool list \<times> u32 \<times> u32) res" where
  "mark_status chunk_index [] status start end' = Inr (status, start, end')"
| "mark_status chunk_index (k # ks) status start end' =
     asserting (unat (k - chunk_index) < length status)
       (mark_status chunk_index ks (status[unat (k - chunk_index) := True])
          (min (k - chunk_index) start) (max (k - chunk_index) end'))"

definition clear_pending_from ::
  "'m range_map_obj \<Rightarrow> BlobChunkInfo list \<Rightarrow> bool list \<Rightarrow> nat list \<Rightarrow> 'm FileCacheEntry \<Rightarrow> 'm FileCacheEntry" where
  "clear_pending_from rm chunks status idxs e =
     foldl (\<lambda>e idx. if status ! idx
                    then e\<lparr>fe_chunk_map := rm_clear_range_pending rm (fe_chunk_map e) (ci_id (chunks ! idx)) 1\<rparr>
                    else e) e idxs"

text \<open>Storing the decoded chunks: a decoding error releases the chunks that are left.\<close>

fun store_chunks ::
  "'m chunk_map_obj \<Rightarrow> 'm range_map_obj \<Rightarrow> BlobChunkInfo list \<Rightarrow> bool list \<Rightarrow> nat list
    \<Rightarrow> 'm FileCacheEntry \<Rightarrow> ChunkDecompressState \<Rightarrow> 'm FileCacheEntry \<times> unit res" where
  "store_chunks ops rm chunks status [] e bufs = (e, Inr ())"
| "store_chunks ops rm chunks status (idx # idxs) e bufs =
     (let (bufs, r) = ds_next (fe_cache e) bufs in
      case r of
        None \<Rightarrow> (e, Inl EINVAL)
      | Some (Inl Panic) \<Rightarrow> (e, Inl Panic)
      | Some (Inl err) \<Rightarrow> (clear_pending_from rm chunks status (idx # idxs) e, Inl err)
      | Some (Inr buf) \<Rightarrow>
          if status ! idx then
            case (if fe_dio_enabled e then adjust_buffer_for_dio buf else Inr buf) of
              Inl err \<Rightarrow> (e, Inl err)
            | Inr buf \<Rightarrow>
                store_chunks ops rm chunks status idxs
                  (persist_chunk_data ops e (chunks ! idx) (v_data buf)) bufs
          else store_chunks ops rm chunks status idxs e bufs)"

fun retry_chunks ::
  "'m chunk_map_obj \<Rightarrow> BlobChunkInfo list \<Rightarrow> 'm FileCacheEntry \<Rightarrow> 'm FileCacheEntry \<times> unit res" where
  "retry_chunks ops [] e = (e, Inr ())"
| "retry_chunks ops (chunk # rest) e =
     (let (m, r) = cm_check_ready_and_mark_pending ops (fe_chunk_map e) chunk; e = e\<lparr>fe_chunk_map := m\<rparr> in
      case r of
        Inl err \<Rightarrow> (e, Inl EIO)
      | Inr True \<Rightarrow> retry_chunks ops rest e
      | Inr False \<Rightarrow>
          (case alloc_buf (bc_junk (fe_cache e)) (unat (ci_uncompressed_size chunk)) of
             Inl err \<Rightarrow> (e, Inl err)
           | Inr buf \<Rightarrow>
               (case read_chunk_from_backend (fe_cache e) chunk (v_data buf) of
                  Inl Panic \<Rightarrow> (e, Inl Panic)
                | Inl err \<Rightarrow> (update_chunk_pending_status ops e chunk False, Inl EIO)
                | Inr (bytes, _) \<Rightarrow>
                    (case (if fe_dio_enabled e then adjust_buffer_for_dio (buf\<lparr>v_data := bytes\<rparr>)
                           else Inr (buf\<lparr>v_data := bytes\<rparr>)) of
                       Inl err \<Rightarrow> (e, Inl err)
                     | Inr buf \<Rightarrow> retry_chunks ops rest (persist_chunk_data ops e chunk (v_data buf))))))"

text \<open>The read of the range \<open>start_idx ..= end_idx\<close>, and what follows from it.\<close>

definition fetch_range ::
  "'m chunk_map_obj \<Rightarrow> 'm range_map_obj \<Rightarrow> BlobChunkInfo list \<Rightarrow> bool list \<Rightarrow> nat \<Rightarrow> nat
    \<Rightarrow> 'm FileCacheEntry \<Rightarrow> 'm FileCacheEntry \<times> unit res" where
  "fetch_range ops rm chunks status start_idx end_idx e =
     (if \<not> (start_idx < length chunks \<and> end_idx < length chunks \<and> start_idx \<le> Suc end_idx) then (e, Inl Panic)
      else
        let part = drop start_idx (take (Suc end_idx) chunks) in
        case get_blob_range e part of
          Inl err \<Rightarrow> (e, Inl err)
        | Inr (blob_offset, blob_end, blob_size) \<Rightarrow>
            (case read_chunks_from_backend (fe_cache e) blob_offset blob_size part of
               Inl Panic \<Rightarrow> (e, Inl Panic)
             | Inl err \<Rightarrow> (clear_pending_from rm chunks status [0..<length chunks] e, Inl err)
             | Inr bufs \<Rightarrow>
                 if fe_is_compressed e then
                   let (e, res') = persist_cached_data e blob_offset (ds_c_buf bufs)
                   in (foldl (\<lambda>e idx. if status ! idx then update_chunk_pending_status ops e (chunks ! idx) (is_ok res') else e)
                         e [start_idx..<Suc end_idx], Inr ())
                 else store_chunks ops rm chunks status [start_idx..<Suc end_idx] e bufs))"

definition do_fetch_chunks ::
  "'m chunk_map_obj \<Rightarrow> 'm FileCacheEntry \<Rightarrow> BlobChunkInfo list \<Rightarrow> bool \<Rightarrow> 'm FileCacheEntry \<times> unit res" where
  "do_fetch_chunks ops e chunks prefetch' =
     (if \<not> (chunks \<noteq> [] \<and> ids_consecutive chunks) then (e, Inl Panic)
      else case cm_as_range_map ops of
        None \<Rightarrow> (e, Inl EINVAL)
      | Some bitmap \<Rightarrow>
          (let chunk_index = ci_id (hd chunks); count' = (of_nat (length chunks) :: u32);
               (m, r) = rm_check_range_ready_and_mark_pending bitmap (fe_chunk_map e) chunk_index count';
               e = e\<lparr>fe_chunk_map := m\<rparr>
           in case r of
                Inl err \<Rightarrow> (e, Inl err)
              | Inr None \<Rightarrow> (e, Inr ())
              | Inr (Some pending) \<Rightarrow>
                  (case mark_status chunk_index pending (replicate (unat count') False) u32_MAX 0 of
                     Inl err \<Rightarrow> (e, Inl err)
                   | Inr (status, start, end') \<Rightarrow>
                       if \<not> fe_is_zran e \<and> end' < start then (e, Inr ())
                       else
                         let (start_idx, end_idx) = (if fe_is_zran e then (0, length pending) else (unat start, unat end'));
                             (e, r) = fetch_range ops bitmap chunks status start_idx end_idx e
                         in case r of
                              Inl err \<Rightarrow> (e, Inl err)
                            | Inr _ \<Rightarrow>
                                (let (m, ready) = rm_wait_for_range_ready bitmap (fe_chunk_map e) chunk_index count';
                                     e = e\<lparr>fe_chunk_map := m\<rparr>
                                 in case ready of
                                      Inl err \<Rightarrow> (e, Inl err)
                                    | Inr True \<Rightarrow> (e, Inr ())
                                    | Inr False \<Rightarrow>
                                        if prefetch' then (e, Inl EIO) else retry_chunks ops chunks e))))"

section \<open>Ranges of the blob\<close>

definition fetch_stripped ::
  "'m chunk_map_obj \<Rightarrow> 'm FileCacheEntry \<Rightarrow> BlobChunkInfo list res \<Rightarrow> bool \<Rightarrow> 'm FileCacheEntry \<times> unit res" where
  "fetch_stripped ops e found prefetch' =
     (case and_then found (\<lambda>chunks. and_then (bc_meta_info (fe_cache e)) (\<lambda>m.
             case m of None \<Rightarrow> Inr chunks | Some meta \<Rightarrow> strip_ready_chunks ops e meta None chunks)) of
        Inl err \<Rightarrow> (e, Inl err)
      | Inr chunks \<Rightarrow> if chunks = [] then (e, Inr ()) else do_fetch_chunks ops e chunks prefetch')"

text \<open>The metadata object of the entry, an error when it is absent or could not be loaded.\<close>

definition meta_of :: "'m FileCacheEntry \<Rightarrow> BlobMetaState res" where
  "meta_of e = (case bc_meta_info (fe_cache e) of Inr (Some meta) \<Rightarrow> Inr meta | _ \<Rightarrow> Inl EINVAL)"

definition fetch_range_compressed ::
  "'m chunk_map_obj \<Rightarrow> 'm FileCacheEntry \<Rightarrow> u64 \<Rightarrow> u64 \<Rightarrow> 'm FileCacheEntry \<times> unit res" where
  "fetch_range_compressed ops e offset size' =
     fetch_stripped ops e
       (and_then (meta_of e) (\<lambda>meta. get_chunks_compressed meta offset size' (prefetch_batch_size e))) True"

definition fetch_range_uncompressed ::
  "'m chunk_map_obj \<Rightarrow> 'm FileCacheEntry \<Rightarrow> u64 \<Rightarrow> u64 \<Rightarrow> 'm FileCacheEntry \<times> unit res" where
  "fetch_range_uncompressed ops e offset size' =
     fetch_stripped ops e
       (and_then (meta_of e) (\<lambda>meta. get_chunks_uncompressed meta offset size' (ondemand_batch_size e))) False"

text \<open>The longest run of consecutive chunk ids at the front, and the rest.\<close>

fun split_run :: "BlobChunkInfo list \<Rightarrow> BlobChunkInfo list \<times> BlobChunkInfo list" where
  "split_run (c # d # cs) =
     (if ci_id d = ci_id c + 1 then let (run, rest) = split_run (d # cs) in (c # run, rest)
      else ([c], d # cs))"
| "split_run cs = (cs, [])"

lemma split_run_append: "split_run cs = (run, rest) \<Longrightarrow> run @ rest = cs \<and> (cs \<noteq> [] \<longrightarrow> run \<noteq> [])"
  by (induction cs arbitrary: run rest rule: split_run.induct) (auto split: prod.splits if_splits)

lemma split_run_length [termination_simp]: "(run, rest) = split_run (c # cs) \<Longrightarrow> length rest < Suc (length cs)"
  using split_run_append [of "c # cs" run rest] by (cases run) auto

function fetch_runs ::
  "'m chunk_map_obj \<Rightarrow> 'm FileCacheEntry \<Rightarrow> BlobChunkInfo list \<Rightarrow> 'm FileCacheEntry \<times> unit res" where
  "fetch_runs ops e [] = (e, Inr ())"
| "fetch_runs ops e (c # cs) =
     (let (run, rest) = split_run (c # cs); (e, r) = do_fetch_chunks ops e run True
      in case r of Inl err \<Rightarrow> (e, Inl err) | Inr _ \<Rightarrow> fetch_runs ops e rest)"
  by pat_completeness auto
termination
  by (relation "measure (\<lambda>(_, _, cs). length cs)") (auto dest: split_run_length)

definition prefetch_chunks ::
  "'m chunk_map_obj \<Rightarrow> 'm FileCacheEntry \<Rightarrow> BlobIoRange \<Rightarrow> 'm FileCacheEntry \<times> unit res" where
  "prefetch_chunks ops e req =
     (case extend_pending_chunks ops e (r_chunks req) (prefetch_batch_size e) of
        Inl err \<Rightarrow> (e, Inl err)
      | Inr None \<Rightarrow> fetch_runs ops e (r_chunks req)
      | Inr (Some v) \<Rightarrow> fetch_runs ops e v)"

section \<open>Reading the cache file\<close>

text \<open>\<open>FileRangeReader\<close> yields the part of the file it covers; \<open>read_exact\<close> wants \<open>n\<close> bytes of it.\<close>

definition FileRangeReader_read_exact :: "u8 list \<Rightarrow> u64 \<Rightarrow> u64 \<Rightarrow> nat \<Rightarrow> u8 list res" where
  "FileRangeReader_read_exact f offset size' n =
     (let bs = slice_of f offset (min (unat size') n) in if length bs < n then Inl EIO else Inr bs)"

definition Decoder_read_exact :: "codecs \<Rightarrow> compress_algorithm \<Rightarrow> u8 list \<Rightarrow> nat \<Rightarrow> u8 list res" where
  "Decoder_read_exact cs alg src n =
     (case alg of
        NoCompress \<Rightarrow> if length src < n then Inl EIO else Inr (take n src)
      | GZip \<Rightarrow> gz_read_exact cs src n
      | Lz4Block \<Rightarrow> Inl Panic
      | Zstd \<Rightarrow> zstd_read_exact cs src n)"

definition read_file_cache :: "'m FileCacheEntry \<Rightarrow> BlobChunkInfo \<Rightarrow> u8 list \<Rightarrow> u8 list res" where
  "read_file_cache e chunk buffer =
     (let bc = fe_cache e in
      and_then
        (if fe_is_compressed e then
           let offset = ci_compressed_offset chunk in
           and_then (if bc_is_legacy_stargz bc
                     then get_legacy_stargz_size bc offset (ucast (ci_uncompressed_size chunk))
                     else Inr (ucast (ci_compressed_size chunk))) (\<lambda>size'.
           if bc_compressor bc = Lz4Block then
             and_then (alloc_buf (bc_junk bc) (unat size')) (\<lambda>_.
             and_then (FileRangeReader_read_exact (fe_file e) offset size' (unat size')) (\<lambda>buf.
             and_then (decompress (bc_codecs bc) buf buffer (bc_compressor bc)) (\<lambda>(n, buffer).
             if n \<noteq> length buffer then Inl EINVAL else Inr buffer)))
           else Decoder_read_exact (bc_codecs bc) (bc_compressor bc)
                  (slice_of (fe_file e) offset (unat size')) (length buffer))
         else
           FileRangeReader_read_exact (fe_file e) (ci_uncompressed_offset chunk)
             (ucast (ci_uncompressed_size chunk)) (length buffer))
        (\<lambda>buffer. and_then (validate_chunk_data bc chunk buffer False) (\<lambda>_. Inr buffer)))"

section \<open>Prefetching for the filesystem\<close>

text \<open>The chunks to fetch: with a map that is not persistent, data found in the cache file will do.\<close>

fun prefetch_select ::
  "'m chunk_map_obj \<Rightarrow> 'm FileCacheEntry \<Rightarrow> BlobChunkInfo list \<Rightarrow> 'm FileCacheEntry \<times> BlobChunkInfo list res" where
  "prefetch_select ops e [] = (e, Inr [])"
| "prefetch_select ops e (c # cs) =
     (let (m, r) = cm_check_ready_and_mark_pending ops (fe_chunk_map e) c; e = e\<lparr>fe_chunk_map := m\<rparr> in
      if r = Inr True then prefetch_select ops e cs
      else
        let hit = (if cm_is_persist ops then Inl EIO
                   else read_file_cache e c (map (bc_junk (fe_cache e)) [0..<unat (ci_uncompressed_size c)]))
        in case hit of
             Inl Panic \<Rightarrow> (e, Inl Panic)
           | Inl _ \<Rightarrow> (let (e, rest) = prefetch_select ops e cs in (e, and_then rest (\<lambda>p. Inr (c # p))))
           | Inr _ \<Rightarrow> prefetch_select ops (update_chunk_pending_status ops e c True) cs)"

fun prefetch_store ::
  "'m chunk_map_obj \<Rightarrow> BlobChunkInfo list \<Rightarrow> 'm FileCacheEntry \<Rightarrow> ChunkDecompressState \<Rightarrow> 'm FileCacheEntry \<times> unit res" where
  "prefetch_store ops [] e bufs = (e, Inr ())"
| "prefetch_store ops (c # cs) e bufs =
     (let (bufs, r) = ds_next (fe_cache e) bufs in
      case r of
        None \<Rightarrow> (e, Inl EINVAL)
      | Some (Inl Panic) \<Rightarrow> (e, Inl Panic)
      | Some (Inl err) \<Rightarrow> (foldl (\<lambda>e c. update_chunk_pending_status ops e c False) e (c # cs), Inl err)
      | Some (Inr buf) \<Rightarrow> prefetch_store ops cs (persist_chunk_data ops e c (v_data buf)) bufs)"

definition prefetch_run ::
  "'m chunk_map_obj \<Rightarrow> 'm FileCacheEntry \<Rightarrow> BlobChunkInfo list \<Rightarrow> 'm FileCacheEntry \<times> nat res" where
  "prefetch_run ops e run =
     (case get_blob_range e run of
        Inl err \<Rightarrow> (e, Inl err)
      | Inr (blob_offset, _, blob_size) \<Rightarrow>
          (case read_chunks_from_backend (fe_cache e) blob_offset blob_size run of
             Inl Panic \<Rightarrow> (e, Inl Panic)
           | Inl _ \<Rightarrow> (foldl (\<lambda>e c. update_chunk_pending_status ops e c False) e run, Inr 0)
           | Inr bufs \<Rightarrow>
               if fe_is_compressed e then
                 let (e, res') = persist_cached_data e blob_offset (ds_c_buf bufs)
                 in (foldl (\<lambda>e c. update_chunk_pending_status ops e c (is_ok res')) e run, Inr blob_size)
               else let (e, r) = prefetch_store ops run e bufs in (e, and_then r (\<lambda>_. Inr blob_size))))"

function prefetch_runs ::
  "'m chunk_map_obj \<Rightarrow> 'm FileCacheEntry \<Rightarrow> nat \<Rightarrow> BlobChunkInfo list \<Rightarrow> 'm FileCacheEntry \<times> nat res" where
  "prefetch_runs ops e total_size [] = (e, Inr total_size)"
| "prefetch_runs ops e total_size (c # cs) =
     (let (run, rest) = split_run (c # cs); (e, r) = prefetch_run ops e run
      in case r of Inl err \<Rightarrow> (e, Inl err) | Inr n \<Rightarrow> prefetch_runs ops e (total_size + n) rest)"
  by pat_completeness auto
termination
  by (relation "measure (\<lambda>(_, _, _, cs). length cs)") (auto dest: split_run_length)

definition prefetch_range ::
  "'m chunk_map_obj \<Rightarrow> 'm FileCacheEntry \<Rightarrow> BlobIoRange \<Rightarrow> 'm FileCacheEntry \<times> nat res" where
  "prefetch_range ops e req =
     (let (e, r) = prefetch_select ops e (r_chunks req) in
      case r of Inl err \<Rightarrow> (e, Inl err) | Inr pending \<Rightarrow> prefetch_runs ops e 0 pending)"

section \<open>Indexed chunk maps\<close>

text \<open>
  The chunk map of a direct-mapped blob, \<open>BlobStateMap<IndexedChunkMap>\<close>, as the methods run while no
  other thread does: waiting for a chunk that is pending ends in a time-out.
\<close>

definition bsm_check_alone ::
  "('c, 'i) chunk_ops \<Rightarrow> ('c, 'i) BlobStateMap \<Rightarrow> BlobChunkInfo \<Rightarrow> ('c, 'i) BlobStateMap \<times> bool res" where
  "bsm_check_alone ops m chunk =
     (case bsm_check_first ops m chunk of
        Some (Answer b) \<Rightarrow> (m, Inr b)
      | Some (Fails err) \<Rightarrow> (m, Inl err)
      | _ \<Rightarrow> (case bsm_check_locked ops m chunk of
                (m, Answer b) \<Rightarrow> (m, Inr b)
              | (m, Fails err) \<Rightarrow> (m, Inl err)
              | (m, Wait_on s) \<Rightarrow> (m, Inl Timeout)))"

definition icsm_range_obj :: "(IndexedChunkMap, u32) BlobStateMap range_map_obj" where
  "icsm_range_obj =
     \<lparr>rm_check_range_ready_and_mark_pending = icsm_check_range_ready_and_mark_pending,
      rm_clear_range_pending = icsm_clear_range_pending,
      rm_wait_for_range_ready = (\<lambda>m start n.
        (m, case icsm_wait_for_range_ready [(m, Inl Timeout)] m start n of None \<Rightarrow> Inl Timeout | Some r \<Rightarrow> r))\<rparr>"

definition icsm_obj :: "(IndexedChunkMap, u32) BlobStateMap chunk_map_obj" where
  "icsm_obj =
     \<lparr>cm_is_ready = bsm_is_ready icm_ops,
      cm_check_ready_and_mark_pending = bsm_check_alone icm_ops,
      cm_set_ready_and_clear_pending = bsm_set_ready_and_clear_pending icm_ops,
      cm_clear_pending = bsm_clear_pending icm_ops,
      cm_is_persist = True,
      cm_as_range_map = Some icsm_range_obj\<rparr>"

end
