(* ===== verification/Cache_Coherence.thy ===== *)
theory Cache_Coherence
  imports Cached_File
begin

text \<open>
  The cache is coherent: every chunk that the chunk map reports as ready has its data in the cache
  file. Fetching keeps this invariant on every path, with failing reads, decoding errors and short
  writes, and a successful fetch makes its chunks ready. The proofs use the chunk map through the
  contract \<open>tracker\<close>, which the indexed chunk map fulfils.
\<close>

section \<open>Writing to the file\<close>

lemma pwrite_loop_writes:
  "\<exists>k \<le> length buf. fst (snd (pwrite_loop ws f off buf)) = pwrite_bytes f off (take k buf) \<and>
     (\<forall>n. snd (snd (pwrite_loop ws f off buf)) = Inr n \<longrightarrow> n = k)"
proof (induction ws f off buf rule: pwrite_loop.induct)
  case (1 f off buffer)
  then show ?case by (auto intro: exI [of _ "length buffer"])
next
  case (2 n ws f off buffer)
  then show ?case by (auto intro!: exI [of _ "min n (length buffer)"] simp: min_def)
next
  case (4 err ws f off buffer)
  then show ?case by (auto intro!: exI [of _ 0] simp: pwrite_bytes_def)
qed simp

lemma length_pwrite_bytes:
  "bs \<noteq> [] \<Longrightarrow> length (pwrite_bytes f off bs) = max (length f) (off + length bs)"
  by (auto simp: pwrite_bytes_def)

lemma nth_pwrite_bytes:
  assumes "i < length f \<or> off \<le> i \<and> i < off + length bs"
  shows "i < length (pwrite_bytes f off bs)"
    and "pwrite_bytes f off bs ! i = (if off \<le> i \<and> i < off + length bs then bs ! (i - off) else f ! i)"
proof -
  have len: "i < length (pwrite_bytes f off bs)" if "bs \<noteq> []"
    using assms that by (auto simp: length_pwrite_bytes)
  show "i < length (pwrite_bytes f off bs)"
    using len assms by (cases "bs = []") (auto simp: pwrite_bytes_def)
  show "pwrite_bytes f off bs ! i = (if off \<le> i \<and> i < off + length bs then bs ! (i - off) else f ! i)"
    using assms by (auto simp: pwrite_bytes_def nth_append min_def)
qed

text \<open>A part of the file after a write, when old and new bytes are those of \<open>d\<close>.\<close>

lemma slice_pwrite:
  assumes "length d = n"
    and "\<And>i. \<lbrakk>i < n; off \<le> unat p + i; unat p + i < off + length bs\<rbrakk> \<Longrightarrow> bs ! (unat p + i - off) = d ! i"
    and "\<And>i. \<lbrakk>i < n; \<not> (off \<le> unat p + i \<and> unat p + i < off + length bs)\<rbrakk> \<Longrightarrow>
      unat p + i < length f \<and> f ! (unat p + i) = d ! i"
  shows "slice_of (pwrite_bytes f off bs) p n = d"
proof (rule nth_equalityI)
  have inside: "unat p + i < length (pwrite_bytes f off bs)" if "i < n" for i
    using nth_pwrite_bytes(1) [of "unat p + i" f off bs] assms(3) [OF that] by blast
  have "n \<le> length (pwrite_bytes f off bs) - unat p"
  proof (cases n)
    case (Suc k)
    then show ?thesis using inside [of k] by simp
  qed simp
  then show len: "length (slice_of (pwrite_bytes f off bs) p n) = length d"
    using assms(1) by (simp add: slice_of_def)
  fix i assume "i < length (slice_of (pwrite_bytes f off bs) p n)"
  then have i: "i < n" using len assms(1) by simp
  then have "slice_of (pwrite_bytes f off bs) p n ! i = pwrite_bytes f off bs ! (unat p + i)"
    using inside [OF i] by (simp add: slice_of_def)
  also have "\<dots> = d ! i"
  proof (cases "off \<le> unat p + i \<and> unat p + i < off + length bs")
    case True
    then show ?thesis
      using nth_pwrite_bytes(2) [of "unat p + i" f off bs] assms(2) [OF i] by simp
  next
    case False
    then show ?thesis
      using nth_pwrite_bytes(2) [of "unat p + i" f off bs] assms(3) [OF i] by auto
  qed
  finally show "slice_of (pwrite_bytes f off bs) p n ! i = d ! i" .
qed

lemma slice_full:
  assumes "slice_of f p n = d" and "length d = n" and "i < n"
  shows "unat p + i < length f \<and> f ! (unat p + i) = d ! i"
proof -
  have "n \<le> length f - unat p"
    using assms(1,2) by (auto simp: slice_of_def)
  then have "unat p + i < length f"
    using assms(3) by simp
  then show ?thesis
    using assms(1,3) by (auto simp: slice_of_def)
qed

section \<open>The invariant\<close>

text \<open>What the cache file holds of a ready chunk.\<close>

definition chunk_stored :: "'m FileCacheEntry \<Rightarrow> u8 list \<Rightarrow> BlobChunkInfo \<Rightarrow> bool" where
  "chunk_stored e blob c \<longleftrightarrow>
     (if fe_is_compressed e
      then slice_of (fe_file e) (ci_compressed_offset c) (unat (ci_compressed_size c)) = chunk_raw blob c \<and>
           length (chunk_raw blob c) = unat (ci_compressed_size c)
      else chunk_content (fe_cache e) c (chunk_raw blob c)
             (slice_of (fe_file e) (ci_uncompressed_offset c) (unat (ci_uncompressed_size c))))"

definition coherent :: "('m \<Rightarrow> BlobChunkInfo \<Rightarrow> bool) \<Rightarrow> 'm FileCacheEntry \<Rightarrow> u8 list \<Rightarrow> BlobChunkInfo set \<Rightarrow> bool" where
  "coherent rdy e blob C \<longleftrightarrow> (\<forall>c \<in> C. rdy (fe_chunk_map e) c \<longrightarrow> chunk_stored e blob c)"

text \<open>The room a chunk takes in the file: with direct I/O the last page is filled up.\<close>

definition area :: "'m FileCacheEntry \<Rightarrow> BlobChunkInfo \<Rightarrow> nat" where
  "area e c = (if fe_dio_enabled e then ceil4k (unat (ci_uncompressed_size c)) else unat (ci_uncompressed_size c))"

text \<open>
  The blob \<open>blob\<close> with chunks \<open>C\<close> behind the entry: the backend serves it, and writing one chunk
  does not touch another.
\<close>

definition blob_setup :: "'m FileCacheEntry \<Rightarrow> u8 list \<Rightarrow> BlobChunkInfo set \<Rightarrow> bool" where
  "blob_setup e blob C \<longleftrightarrow>
     serves (bc_reader (fe_cache e)) blob \<and> codec_bounded (bc_codecs (fe_cache e)) \<and>
     \<not> bc_is_zran (fe_cache e) \<and> \<not> bc_is_legacy_stargz (fe_cache e) \<and> length blob < 2 ^ 64 \<and>
     (\<forall>c \<in> C. \<not> ci_is_compressed c \<longrightarrow> ci_compressed_size c = ci_uncompressed_size c) \<and>
     (\<forall>c \<in> C. \<forall>x \<in> C. c \<noteq> x \<longrightarrow>
        unat (ci_uncompressed_offset c) + area e c \<le> unat (ci_uncompressed_offset x) \<or>
        unat (ci_uncompressed_offset x) + unat (ci_uncompressed_size x) \<le> unat (ci_uncompressed_offset c))"

text \<open>The fields that no operation changes.\<close>

definition static :: "'m FileCacheEntry \<Rightarrow> blob_cache \<times> bool \<times> bool" where
  "static e = (fe_cache e, fe_is_compressed e, fe_dio_enabled e)"

lemma static_eqD:
  assumes "static e' = static e"
  shows "fe_cache e' = fe_cache e" "fe_is_compressed e' = fe_is_compressed e"
    "fe_dio_enabled e' = fe_dio_enabled e" "area e' = area e" "blob_setup e' blob C = blob_setup e blob C"
proof -
  show eqs: "fe_cache e' = fe_cache e" "fe_is_compressed e' = fe_is_compressed e"
    "fe_dio_enabled e' = fe_dio_enabled e"
    using assms by (simp_all add: static_def)
  show "area e' = area e"
    by (intro ext) (simp add: area_def eqs)
  then show "blob_setup e' blob C = blob_setup e blob C"
    by (simp add: blob_setup_def eqs)
qed

lemma static_update [simp]: "static (e\<lparr>fe_chunk_map := m\<rparr>) = static e"
  "static (e\<lparr>fe_writes := ws, fe_file := f\<rparr>) = static e"
  by (simp_all add: static_def)

lemma chunk_stored_update [simp]: "chunk_stored (e\<lparr>fe_chunk_map := m\<rparr>) blob c = chunk_stored e blob c"
  by (simp add: chunk_stored_def)

text \<open>What a write to the cache file can do.\<close>

lemma persist_cached_data_result:
  assumes "persist_cached_data e offset buf = (e', r)"
  shows "static e' = static e \<and> fe_chunk_map e' = fe_chunk_map e \<and>
    (fe_writes e = [] \<longrightarrow> fe_writes e' = [] \<and> (\<not> bit offset 63 \<longrightarrow> r = Inr ())) \<and>
    (\<exists>k \<le> length buf. fe_file e' = pwrite_bytes (fe_file e) (unat offset) (take k buf) \<and>
       (r = Inr () \<longrightarrow> k = length buf))"
proof (cases "bit offset 63")
  case True
  then show ?thesis
    using assms by (auto simp: persist_cached_data_def pwrite_bytes_def intro: exI [of _ 0])
next
  case False
  obtain k where "k \<le> length buf"
    and "fst (snd (pwrite_loop (fe_writes e) (fe_file e) (unat offset) buf)) =
      pwrite_bytes (fe_file e) (unat offset) (take k buf)"
    and "\<forall>n. snd (snd (pwrite_loop (fe_writes e) (fe_file e) (unat offset) buf)) = Inr n \<longrightarrow> n = k"
    using pwrite_loop_writes [of buf "fe_writes e" "fe_file e" "unat offset"] by blast
  then have "static e' = static e \<and> fe_chunk_map e' = fe_chunk_map e \<and>
    (\<exists>k \<le> length buf. fe_file e' = pwrite_bytes (fe_file e) (unat offset) (take k buf) \<and>
       (r = Inr () \<longrightarrow> k = length buf))"
    using assms False
    by (auto simp: persist_cached_data_def and_then_eq_Inr split: prod.splits if_splits intro!: exI [of _ k])
  moreover have "fe_writes e = [] \<longrightarrow> fe_writes e' = [] \<and> r = Inr ()"
    using assms False by (auto simp: persist_cached_data_def)
  ultimately show ?thesis
    by blast
qed

lemma persist_uncompressed:
  assumes su: "blob_setup e blob C" and c: "c \<in> C" and plain: "\<not> fe_is_compressed e"
    and d: "chunk_content (fe_cache e) c (chunk_raw blob c) d"
    and buf: "buf = d @ replicate z 0" "length buf \<le> area e c"
    and e': "persist_cached_data e (ci_uncompressed_offset c) buf = (e', r)"
  shows "\<And>x. x \<in> C \<Longrightarrow> chunk_stored e blob x \<Longrightarrow> chunk_stored e' blob x"
    and "r = Inr () \<Longrightarrow> chunk_stored e' blob c"
proof -
  let ?off = "unat (ci_uncompressed_offset c)"
  obtain k where k: "k \<le> length buf" "fe_file e' = pwrite_bytes (fe_file e) ?off (take k buf)"
    "r = Inr () \<longrightarrow> k = length buf" and st: "static e' = static e"
    using persist_cached_data_result [OF e'] by auto
  note same = static_eqD [OF st]
  have len: "length d = unat (ci_uncompressed_size c)"
    using d by (simp add: chunk_content_def)
  have nth: "take k buf ! j = d ! j" if "j < k" "j < length d" for j
    using that by (simp add: buf(1) nth_append)
  show "chunk_stored e' blob x" if x: "x \<in> C" "chunk_stored e blob x" for x
  proof -
    let ?n = "unat (ci_uncompressed_size x)" and ?p = "ci_uncompressed_offset x"
    define dx where "dx = slice_of (fe_file e) ?p ?n"
    have dx: "chunk_content (fe_cache e) x (chunk_raw blob x) dx"
      using x plain by (simp add: chunk_stored_def dx_def)
    then have len_dx: "length dx = ?n"
      by (simp add: chunk_content_def)
    have full: "unat ?p + i < length (fe_file e) \<and> fe_file e ! (unat ?p + i) = dx ! i" if "i < ?n" for i
      using slice_full [of "fe_file e" ?p ?n dx i] that len_dx dx_def by simp
    have "slice_of (fe_file e') ?p ?n = dx"
    proof (cases "x = c")
      case True
      then have "dx = d"
        using chunk_content_unique [OF dx] d by simp
      then show ?thesis
        unfolding k(2) using len_dx full nth True by (intro slice_pwrite) auto
    next
      case False
      then have "?off + area e c \<le> unat ?p \<or> unat ?p + ?n \<le> ?off"
        using su c x(1) by (auto simp: blob_setup_def)
      moreover have "length (take k buf) \<le> area e c"
        using buf(2) by simp
      ultimately show ?thesis
        unfolding k(2) using len_dx full by (intro slice_pwrite) auto
    qed
    then show ?thesis
      using dx plain by (simp add: chunk_stored_def same)
  qed
  show "chunk_stored e' blob c" if "r = Inr ()"
  proof -
    have kk: "take k buf = buf"
      using k(3) that by simp
    have "slice_of (fe_file e') (ci_uncompressed_offset c) (unat (ci_uncompressed_size c)) = d"
      unfolding k(2) kk using len buf(1) by (intro slice_pwrite) (auto simp: nth_append)
    then show ?thesis
      using d plain by (simp add: chunk_stored_def same)
  qed
qed

text \<open>In a compressed cache every write copies a part of the blob to the same place.\<close>

lemma slice_of_nth:
  assumes "length (slice_of blob p n) = n" and "i < n"
  shows "unat p + i < length blob \<and> slice_of blob p n ! i = blob ! (unat p + i)"
proof -
  have "n \<le> length blob - unat p"
    using assms(1) by (simp add: slice_of_def)
  then show ?thesis
    using assms(2) by (auto simp: slice_of_def)
qed

lemma persist_compressed:
  assumes comp: "fe_is_compressed e" and len: "length (slice_of blob off n) = n"
    and e': "persist_cached_data e off (slice_of blob off n) = (e', r)"
  shows "\<And>x. chunk_stored e blob x \<Longrightarrow> chunk_stored e' blob x"
    and "\<lbrakk>r = Inr (); chunk_in off n c\<rbrakk> \<Longrightarrow> chunk_stored e' blob c"
proof -
  let ?s = "slice_of blob off n"
  obtain k where k: "k \<le> n" "fe_file e' = pwrite_bytes (fe_file e) (unat off) (take k ?s)"
    "r = Inr () \<longrightarrow> k = n" and st: "static e' = static e"
    using persist_cached_data_result [OF e'] len by auto
  note same = static_eqD [OF st]
  have written: "take k ?s ! (unat p + i - unat off) = slice_of blob p m ! i"
    if "length (slice_of blob p m) = m" "i < m" "unat off \<le> unat p + i" "unat p + i < unat off + length (take k ?s)" for p m i
    using slice_of_nth [OF that(1,2)] slice_of_nth [OF len, of "unat p + i - unat off"] that(3,4) k(1) len by auto
  show "chunk_stored e' blob x" if x: "chunk_stored e blob x" for x
  proof -
    let ?m = "unat (ci_compressed_size x)" and ?p = "ci_compressed_offset x"
    have old: "slice_of (fe_file e) ?p ?m = slice_of blob ?p ?m" and lx: "length (slice_of blob ?p ?m) = ?m"
      using x comp by (auto simp: chunk_stored_def)
    have "slice_of (fe_file e') ?p ?m = slice_of blob ?p ?m"
      unfolding k(2) using slice_full [OF old lx] written [OF lx] by (intro slice_pwrite) (auto simp: lx)
    then show ?thesis
      using lx comp by (simp add: chunk_stored_def same)
  qed
  show "chunk_stored e' blob c" if "r = Inr ()" and c: "chunk_in off n c"
  proof -
    let ?m = "unat (ci_compressed_size c)" and ?p = "ci_compressed_offset c"
    have kk: "take k ?s = ?s" "length ?s = n"
      using k(3) that(1) len by simp_all
    have rng: "unat off \<le> unat ?p" "unat ?p + ?m \<le> unat off + n"
      using c by (auto simp: chunk_in_def word_le_nat_alt)
    then have "slice_of blob ?p ?m = take ?m (drop (unat ?p - unat off) ?s)"
      using slice_of_slice [OF rng] by simp
    then have lc: "length (slice_of blob ?p ?m) = ?m"
      using rng len by simp
    have "slice_of (fe_file e') ?p ?m = slice_of blob ?p ?m"
      unfolding k(2) using written [OF lc] rng kk by (intro slice_pwrite) (auto simp: lc)
    then show ?thesis
      using lc comp by (simp add: chunk_stored_def same)
  qed
qed

text \<open>Chunks that follow each other in the blob, as the ids do.\<close>

definition chunks_ordered :: "BlobChunkInfo list \<Rightarrow> bool" where
  "chunks_ordered cs \<longleftrightarrow>
     sorted_wrt (\<lambda>a b. unat (ci_compressed_offset a) + unat (ci_compressed_size a) \<le> unat (ci_compressed_offset b)) cs \<and>
     (\<forall>c \<in> set cs. unat (ci_compressed_offset c) + unat (ci_compressed_size c) < 2 ^ 64 \<and>
        unat (ci_uncompressed_size c) \<le> unat RAFS_MAX_CHUNK_SIZE)"

lemma chunks_ordered_part: "chunks_ordered cs \<Longrightarrow> chunks_ordered (drop s (take t cs))"
  by (auto simp: chunks_ordered_def sorted_wrt_drop sorted_wrt_take dest: in_set_dropD in_set_takeD)

lemma get_blob_range_covers:
  assumes "chunks_ordered part" and "\<not> fe_is_zran e" and "get_blob_range e part = Inr (off, stop, n)"
    and "c \<in> set part"
  shows "chunk_in off n c"
proof -
  let ?lo = "\<lambda>c. unat (ci_compressed_offset c)" and ?hi = "\<lambda>c. unat (ci_compressed_offset c) + unat (ci_compressed_size c)"
  have ne: "part \<noteq> []"
    using assms(4) by auto
  obtain i where i: "i < length part" "part ! i = c"
    using assms(4) by (auto simp: in_set_conv_nth)
  have sorted: "?hi (part ! a) \<le> ?lo (part ! b)" if "a < b" "b < length part" for a b
    using assms(1) that by (auto simp: chunks_ordered_def sorted_wrt_iff_nth_less)
  have first': "?lo (hd part) \<le> ?lo c"
    using sorted [of 0 i] i ne by (cases i) (auto simp: hd_conv_nth)
  have last': "?hi c \<le> ?hi (last part)"
  proof (cases "i = length part - 1")
    case False
    then have "i < length part - 1"
      using i by simp
    then show ?thesis
      using sorted [of i "length part - 1"] i ne by (simp add: last_conv_nth)
  qed (use i ne in \<open>simp add: last_conv_nth\<close>)
  have off: "off = ci_compressed_offset (hd part)" and n: "n = unat (ci_compressed_end (last part) - off)"
    using assms(2,3) by (auto simp: get_blob_range_def asserting_eq_Inr Let_def split: if_splits)
  have "unat (ci_compressed_end (last part)) = ?hi (last part)"
    using assms(1) ne unat_add_less [of "ci_compressed_offset (last part)" "ucast (ci_compressed_size (last part))"]
    by (simp add: ci_compressed_end_def unat_ucast_u32_u64 chunks_ordered_def)
  then have "unat off + n = ?hi (last part)"
    using first' last' unfolding n off by (simp add: unat_sub word_le_nat_alt)
  then show ?thesis
    using first' last' assms(1,4) by (auto simp: chunk_in_def off word_le_nat_alt chunks_ordered_def)
qed

lemma mark_status_bounds:
  "mark_status i ks st a b = Inr (st', a', b') \<Longrightarrow> ks \<noteq> [] \<or> a \<le> b \<Longrightarrow> a' \<le> b'"
proof (induction i ks st a b rule: mark_status.induct)
  case (2 chunk_index k ks status start end')
  have "min (k - chunk_index) start \<le> max (k - chunk_index) end'"
    by (simp add: min_le_iff_disj)
  then show ?case
    using "2.IH" "2.prems"(1) by (auto simp: asserting_eq_Inr)
qed simp

section \<open>The contract of a chunk map\<close>

text \<open>The state of affairs between operations.\<close>

definition cache_ok ::
  "('m \<Rightarrow> bool) \<Rightarrow> (BlobChunkInfo \<Rightarrow> bool) \<Rightarrow> ('m \<Rightarrow> BlobChunkInfo \<Rightarrow> bool) \<Rightarrow> (BlobChunkInfo \<Rightarrow> BlobChunkInfo \<Rightarrow> bool)
    \<Rightarrow> 'm FileCacheEntry \<Rightarrow> u8 list \<Rightarrow> BlobChunkInfo set \<Rightarrow> bool" where
  "cache_ok tinv known rdy same e blob C \<longleftrightarrow>
     tinv (fe_chunk_map e) \<and> coherent rdy e blob C \<and> blob_setup e blob C \<and>
     (\<forall>c \<in> C. known c \<and> (\<forall>x \<in> C. same c x \<longrightarrow> c = x))"

text \<open>Later states keep readiness and the fixed fields, and no write fails when none was to fail.\<close>

definition later_than ::
  "(BlobChunkInfo \<Rightarrow> bool) \<Rightarrow> ('m \<Rightarrow> BlobChunkInfo \<Rightarrow> bool) \<Rightarrow> 'm FileCacheEntry \<Rightarrow> 'm FileCacheEntry \<Rightarrow> bool" where
  "later_than known rdy e e' \<longleftrightarrow>
     static e' = static e \<and> (fe_writes e = [] \<longrightarrow> fe_writes e' = []) \<and>
     (\<forall>c. known c \<longrightarrow> rdy (fe_chunk_map e) c \<longrightarrow> rdy (fe_chunk_map e') c)"

text \<open>
  \<open>rdy m c\<close> is whether the map holds chunk \<open>c\<close> ready; \<open>known\<close> chunks have an entry in it; \<open>same\<close> relates the
  chunks that share an entry.
\<close>

locale tracker =
  fixes ops :: "'m chunk_map_obj" and rm :: "'m range_map_obj"
    and tinv :: "'m \<Rightarrow> bool" and known :: "BlobChunkInfo \<Rightarrow> bool"
    and rdy :: "'m \<Rightarrow> BlobChunkInfo \<Rightarrow> bool" and same :: "BlobChunkInfo \<Rightarrow> BlobChunkInfo \<Rightarrow> bool"
  assumes same_refl: "same c c"
    and as_range: "cm_as_range_map ops = Some rm"
    and check_law: "\<lbrakk>tinv m; known c; cm_check_ready_and_mark_pending ops m c = (m', r)\<rbrakk> \<Longrightarrow>
      tinv m' \<and> rdy m' = rdy m \<and> (\<forall>b. r = Inr b \<longrightarrow> b = rdy m c)"
    and set_law: "\<lbrakk>tinv m; known c; cm_set_ready_and_clear_pending ops m c = (m', u)\<rbrakk> \<Longrightarrow>
      tinv m' \<and> (\<forall>x. known x \<longrightarrow> rdy m' x = (rdy m x \<or> same c x))"
    and clear_law: "tinv m \<Longrightarrow> tinv (cm_clear_pending ops m c) \<and> rdy (cm_clear_pending ops m c) = rdy m"
    and range_check_law: "\<lbrakk>tinv m; cs \<noteq> []; ids_consecutive cs; \<forall>c \<in> set cs. known c;
       rm_check_range_ready_and_mark_pending rm m (ci_id (hd cs)) (of_nat (length cs)) = (m', w)\<rbrakk> \<Longrightarrow>
      tinv m' \<and> rdy m' = rdy m \<and> (w = Inr None \<longrightarrow> (\<forall>c \<in> set cs. rdy m c))"
    and range_clear_law: "tinv m \<Longrightarrow> tinv (rm_clear_range_pending rm m i n) \<and> rdy (rm_clear_range_pending rm m i n) = rdy m"
    and range_wait_law: "\<lbrakk>tinv m; cs \<noteq> []; ids_consecutive cs; \<forall>c \<in> set cs. known c;
       rm_wait_for_range_ready rm m (ci_id (hd cs)) (of_nat (length cs)) = (m', r)\<rbrakk> \<Longrightarrow>
      tinv m' \<and> rdy m' = rdy m \<and> (r = Inr True \<longrightarrow> (\<forall>c \<in> set cs. rdy m c))"
begin

abbreviation ok :: "'m FileCacheEntry \<Rightarrow> u8 list \<Rightarrow> BlobChunkInfo set \<Rightarrow> bool" where
  "ok \<equiv> cache_ok tinv known rdy same"

abbreviation later :: "'m FileCacheEntry \<Rightarrow> 'm FileCacheEntry \<Rightarrow> bool" where
  "later \<equiv> later_than known rdy"

lemmas ok_def = cache_ok_def
lemmas later_def = later_than_def

lemma later_refl [simp]: "later e e"
  by (simp add: later_def)

lemma later_trans [trans]: "later a b \<Longrightarrow> later b c \<Longrightarrow> later a c"
  by (simp add: later_def)

lemma ok_map_change:
  assumes "ok e blob C" and "tinv m" and "rdy m = rdy (fe_chunk_map e)"
  shows "ok (e\<lparr>fe_chunk_map := m\<rparr>) blob C \<and> later e (e\<lparr>fe_chunk_map := m\<rparr>)"
proof -
  have "blob_setup (e\<lparr>fe_chunk_map := m\<rparr>) blob C = blob_setup e blob C"
    by (rule static_eqD(5)) simp
  then show ?thesis
    using assms by (auto simp: ok_def later_def coherent_def)
qed

lemma ok_release:
  "ok e blob C \<Longrightarrow> ok (update_chunk_pending_status ops e c False) blob C \<and>
     later e (update_chunk_pending_status ops e c False)"
  using ok_map_change [of e blob C "cm_clear_pending ops (fe_chunk_map e) c"] clear_law [of "fe_chunk_map e" c]
  by (simp add: update_chunk_pending_status_def ok_def)

lemma ok_ready:
  assumes "ok e blob C" and "c \<in> C" and "chunk_stored e blob c"
  shows "ok (update_chunk_pending_status ops e c True) blob C \<and>
    later e (update_chunk_pending_status ops e c True) \<and>
    rdy (fe_chunk_map (update_chunk_pending_status ops e c True)) c"
proof -
  obtain m r where m: "cm_set_ready_and_clear_pending ops (fe_chunk_map e) c = (m, r)"
    by fastforce
  have e': "update_chunk_pending_status ops e c True = e\<lparr>fe_chunk_map := m\<rparr>"
    by (simp add: update_chunk_pending_status_def m)
  have law: "tinv m" "\<And>x. known x \<Longrightarrow> rdy m x = (rdy (fe_chunk_map e) x \<or> same c x)"
    using set_law [OF _ _ m] assms(1,2) by (auto simp: ok_def)
  have "blob_setup (e\<lparr>fe_chunk_map := m\<rparr>) blob C = blob_setup e blob C"
    by (rule static_eqD(5)) simp
  then show ?thesis
    using assms law same_refl unfolding e' by (auto simp: ok_def later_def coherent_def)
qed

lemma ok_update:
  assumes "ok e blob C" and "c \<in> C" and "b \<Longrightarrow> chunk_stored e blob c"
  shows "ok (update_chunk_pending_status ops e c b) blob C \<and> later e (update_chunk_pending_status ops e c b)
    \<and> (b \<longrightarrow> rdy (fe_chunk_map (update_chunk_pending_status ops e c b)) c)"
  using ok_ready [OF assms(1,2)] ok_release [OF assms(1), of c] assms(3) by (cases b) auto

text \<open>Any write that keeps the stored chunks keeps the invariant.\<close>

lemma ok_file_change:
  assumes "ok e blob C" and "static e' = static e" and "fe_chunk_map e' = fe_chunk_map e"
    and "fe_writes e = [] \<longrightarrow> fe_writes e' = []"
    and "\<And>x. x \<in> C \<Longrightarrow> chunk_stored e blob x \<Longrightarrow> chunk_stored e' blob x"
  shows "ok e' blob C \<and> later e e'"
  using assms static_eqD(5) [OF assms(2)] by (simp add: ok_def later_def coherent_def)

lemma ok_persist_chunk_data:
  assumes "ok e blob C" and "c \<in> C" and "\<not> fe_is_compressed e"
    and "chunk_content (fe_cache e) c (chunk_raw blob c) d" and "buf = d @ replicate z 0" and "length buf \<le> area e c"
  shows "ok (persist_chunk_data ops e c buf) blob C \<and> later e (persist_chunk_data ops e c buf) \<and>
    (is_ok (snd (persist_cached_data e (ci_uncompressed_offset c) buf)) \<longrightarrow>
       rdy (fe_chunk_map (persist_chunk_data ops e c buf)) c)"
proof -
  obtain e1 r where e1: "persist_cached_data e (ci_uncompressed_offset c) buf = (e1, r)"
    by fastforce
  have su: "blob_setup e blob C"
    using assms(1) by (simp add: ok_def)
  note stored = persist_uncompressed [OF su assms(2-6) e1]
  have one: "ok e1 blob C \<and> later e e1"
    using persist_cached_data_result [OF e1] assms(1) stored(1) by (intro ok_file_change) auto
  have "is_ok r \<Longrightarrow> chunk_stored e1 blob c"
    using stored(2) by (cases r) auto
  then have "ok (update_chunk_pending_status ops e1 c (is_ok r)) blob C \<and>
      later e1 (update_chunk_pending_status ops e1 c (is_ok r)) \<and>
      (is_ok r \<longrightarrow> rdy (fe_chunk_map (update_chunk_pending_status ops e1 c (is_ok r))) c)"
    using one assms(2) by (intro ok_update) auto
  then show ?thesis
    using one later_trans by (auto simp: persist_chunk_data_def e1)
qed

lemma later_static: "later e e' \<Longrightarrow> static e' = static e"
  by (simp add: later_def)

lemma ok_clear_pending_from:
  "ok e blob C \<Longrightarrow> ok (clear_pending_from rm chunks status idxs e) blob C \<and>
     later e (clear_pending_from rm chunks status idxs e)"
proof (induction idxs arbitrary: e)
  case Nil
  then show ?case by (simp add: clear_pending_from_def)
next
  case (Cons idx idxs)
  define e1 where "e1 = (if status ! idx
    then e\<lparr>fe_chunk_map := rm_clear_range_pending rm (fe_chunk_map e) (ci_id (chunks ! idx)) 1\<rparr> else e)"
  have "ok e1 blob C \<and> later e e1"
    using Cons.prems ok_map_change [OF Cons.prems] range_clear_law [of "fe_chunk_map e"]
    by (auto simp: e1_def ok_def)
  moreover have "clear_pending_from rm chunks status (idx # idxs) e = clear_pending_from rm chunks status idxs e1"
    by (simp add: clear_pending_from_def e1_def)
  ultimately show ?case
    using Cons.IH [of e1] later_trans by metis
qed

text \<open>Adjusting a decoded buffer for direct I/O pads it to whole pages.\<close>

lemma adjusted_buffer:
  assumes "chunk_content bc c raw (v_data buf)" and "v_cap buf = ceil4k (unat (ci_uncompressed_size c))"
    and "(if fe_dio_enabled e then adjust_buffer_for_dio buf else Inr buf) = Inr buf'"
  shows "\<exists>z. v_data buf' = v_data buf @ replicate z 0 \<and> length (v_data buf') \<le> area e c"
proof (cases "fe_dio_enabled e")
  case True
  then have "v_data buf' = v_data buf @ replicate (v_cap buf - length (v_data buf)) 0"
    using assms(3) by (auto simp: adjust_buffer_for_dio_def asserting_eq_Inr split: if_splits)
  then show ?thesis
    using assms(1,2) True ceil4k_ge [of "length (v_data buf)"]
    by (auto simp: area_def chunk_content_def intro: exI [of _ "v_cap buf - length (v_data buf)"])
next
  case False
  then show ?thesis
    using assms by (auto simp: area_def chunk_content_def intro: exI [of _ 0])
qed

text \<open>The buffers that the iterator gives from position \<open>i\<close> on hold the chunks of \<open>part\<close>.\<close>

lemma ok_store_chunks:
  assumes bufs: "bufs = (ChunkDecompressState_new off part (slice_of blob off n))\<lparr>ds_chunk_idx := i\<rparr>"
    and range: "length (slice_of blob off n) = n" "unat off + n < 2 ^ 64"
    and idxs: "idxs = [s + i..<s + length part]" "i \<le> length part"
    and part: "\<And>j. j < length part \<Longrightarrow> part ! j = chunks ! (s + j) \<and> part ! j \<in> C"
    and e: "ok e blob C" "\<not> fe_is_compressed e"
    and res: "store_chunks ops rm chunks status idxs e bufs = (e', r)"
  shows "ok e' blob C \<and> later e e'"
  using assms
proof (induction "length part - i" arbitrary: i idxs e bufs)
  case 0
  then show ?case by auto
next
  case (Suc k)
  then have i: "i < length part" and idxs: "idxs = (s + i) # [s + Suc i..<s + length part]"
    by (simp_all add: upt_rec)
  define bufs' where "bufs' = (ChunkDecompressState_new off part (slice_of blob off n))\<lparr>ds_chunk_idx := Suc i\<rparr>"
  have su: "blob_setup e blob C"
    using Suc.prems(7) by (simp add: ok_def)
  have next': "ds_next (fe_cache e) bufs = (bufs', Some (next_buf (fe_cache e) bufs' (part ! i)))"
    using i su by (simp add: ds_next_def Suc.prems(1) ChunkDecompressState_new_def Let_def bufs'_def blob_setup_def)
  have iff: "next_buf (fe_cache e) bufs' (part ! i) = Inr v \<longleftrightarrow>
      chunk_in off n (part ! i) \<and> chunk_content (fe_cache e) (part ! i) (chunk_raw blob (part ! i)) (v_data v) \<and>
      v_cap v = ceil4k (unat (ci_uncompressed_size (part ! i)))" for v
    using next_buf_Inr_iff [of "fe_cache e" bufs' blob "part ! i" v] su Suc.prems(2,3)
    by (simp add: bufs'_def ChunkDecompressState_new_def blob_setup_def)
  have chunk: "chunks ! (s + i) = part ! i" "part ! i \<in> C"
    using Suc.prems(6) [OF i] by auto
  show ?case
  proof (cases "next_buf (fe_cache e) bufs' (part ! i)")
    case (Inl err)
    then show ?thesis
      using Suc.prems(9) ok_clear_pending_from [OF Suc.prems(7)] Suc.prems(7)
      by (cases err) (auto simp: idxs next')
  next
    case (Inr buf)
    note content = iff [THEN iffD1, OF Inr]
    have go: "ok e1 blob C \<Longrightarrow> \<not> fe_is_compressed e1 \<Longrightarrow>
        store_chunks ops rm chunks status [s + Suc i..<s + length part] e1 bufs' = (e', r) \<Longrightarrow>
        ok e' blob C \<and> later e1 e'" for e1
      by (rule Suc.hyps(1) [OF _ bufs'_def Suc.prems(2,3) refl _ Suc.prems(6)])
        (use Suc.hyps(2) i in simp_all)
    show ?thesis
    proof (cases "status ! (s + i)")
      case True
      show ?thesis
      proof (cases "if fe_dio_enabled e then adjust_buffer_for_dio buf else Inr buf")
        case (Inl err)
        then show ?thesis
          using Suc.prems(7,9) True Inr by (simp add: idxs next')
      next
        case adj: (Inr buf')
        obtain z where z: "v_data buf' = v_data buf @ replicate z 0" "length (v_data buf') \<le> area e (part ! i)"
          using adjusted_buffer [OF _ _ adj] content by blast
        define e1 where "e1 = persist_chunk_data ops e (part ! i) (v_data buf')"
        have e1: "ok e1 blob C" "later e e1"
          using ok_persist_chunk_data [OF Suc.prems(7) chunk(2) Suc.prems(8) _ z(1,2)] content by (auto simp: e1_def)
        have "\<not> fe_is_compressed e1"
          using static_eqD(2) [OF later_static [OF e1(2)]] Suc.prems(8) by simp
        moreover have "store_chunks ops rm chunks status [s + Suc i..<s + length part] e1 bufs' = (e', r)"
          using Suc.prems(9) True Inr adj chunk(1) by (simp add: idxs next' e1_def)
        ultimately show ?thesis
          using go [OF e1(1)] e1(2) later_trans by blast
      qed
    next
      case False
      then have "store_chunks ops rm chunks status [s + Suc i..<s + length part] e bufs' = (e', r)"
        using Suc.prems(9) Inr by (simp add: idxs next')
      then show ?thesis
        using go Suc.prems(7,8) by blast
    qed
  qed
qed

lemma get_blob_range_plain:
  assumes "\<not> fe_is_zran e" and "get_blob_range e part = Inr (off, end', n)"
  shows "part \<noteq> [] \<and> off = ci_compressed_offset (hd part)"
  using assms by (auto simp: get_blob_range_def asserting_eq_Inr Let_def split: if_splits)

lemma ok_fold_update:
  assumes "\<And>i. i \<in> set idxs \<Longrightarrow> chunks ! i \<in> C \<and> (b \<longrightarrow> chunk_stored e blob (chunks ! i))"
    and "ok e blob C"
  shows "let e' = foldl (\<lambda>e i. if status ! i then update_chunk_pending_status ops e (chunks ! i) b else e) e idxs
    in ok e' blob C \<and> later e e'"
  using assms
proof (induction idxs arbitrary: e)
  case Nil
  then show ?case by simp
next
  case (Cons i idxs)
  define e1 where "e1 = (if status ! i then update_chunk_pending_status ops e (chunks ! i) b else e)"
  have e1: "ok e1 blob C \<and> later e e1"
    using Cons.prems(1) [of i] ok_update [OF Cons.prems(2), of "chunks ! i" b] Cons.prems(2)
    by (auto simp: e1_def)
  have "chunk_stored e1 blob x = chunk_stored e blob x" for x
    by (simp add: e1_def update_chunk_pending_status_def)
  then show ?case
    using Cons.IH [of e1] Cons.prems(1) e1 later_trans [of e e1]
    by (auto simp: Let_def e1_def [symmetric])
qed

lemma ok_fetch_range:
  assumes e: "ok e blob C" and C: "set chunks \<subseteq> C"
    and covered: "fe_is_compressed e \<Longrightarrow>
      \<forall>c \<in> set chunks. \<forall>off end' n. get_blob_range e (drop s (take (Suc t) chunks)) = Inr (off, end', n) \<longrightarrow>
        c \<in> set (drop s (take (Suc t) chunks)) \<longrightarrow> chunk_in off n c"
    and res: "fetch_range ops rm chunks status s t e = (e', r)"
  shows "ok e' blob C \<and> later e e'"
proof (cases "s < length chunks \<and> t < length chunks \<and> s \<le> Suc t")
  case False
  then show ?thesis
    using res e by (auto simp: fetch_range_def)
next
  case bounds: True
  define part where "part = drop s (take (Suc t) chunks)"
  have len_part: "length part = Suc t - s"
    using bounds by (simp add: part_def)
  have nth_part: "part ! j = chunks ! (s + j)" "part ! j \<in> C" if "j < length part" for j
    using that bounds C by (auto simp: part_def)
  have su: "blob_setup e blob C"
    using e by (simp add: ok_def)
  show ?thesis
  proof (cases "get_blob_range e part")
    case (Inl err)
    then show ?thesis
      using res e bounds by (simp add: fetch_range_def part_def [symmetric])
  next
    case (Inr rng)
    obtain off stop n where rng: "rng = (off, stop, n)"
      by (cases rng)
    show ?thesis
    proof (cases "read_chunks_from_backend (fe_cache e) off n part")
      case (Inl err)
      then show ?thesis
        using res e bounds Inr rng ok_clear_pending_from [OF e]
        by (cases err) (auto simp: fetch_range_def part_def [symmetric])
    next
      case read: (Inr bufs)
      have bufs: "bufs = ChunkDecompressState_new off part (slice_of blob off n)"
        and len: "length (slice_of blob off n) = n"
        using read_chunks_from_backend_state [OF _ read] su by (auto simp: blob_setup_def)
      show ?thesis
      proof (cases "fe_is_compressed e")
        case comp: True
        obtain e1 r1 where e1: "persist_cached_data e off (slice_of blob off n) = (e1, r1)"
          by fastforce
        note stored = persist_compressed [OF comp len e1]
        have e1_ok: "ok e1 blob C \<and> later e e1"
          using persist_cached_data_result [OF e1] e stored(1) by (intro ok_file_change) auto
        have in_part: "chunks ! i \<in> set part" if "i \<in> set [s..<Suc t]" for i
          using that nth_part(1) [of "i - s"] len_part nth_mem [of "i - s" part] by auto
        have "let e' = foldl (\<lambda>e i. if status ! i then update_chunk_pending_status ops e (chunks ! i) (is_ok r1) else e)
              e1 [s..<Suc t] in ok e' blob C \<and> later e1 e'"
        proof (rule ok_fold_update)
          fix i assume i: "i \<in> set [s..<Suc t]"
          then have "i < length chunks"
            using bounds by auto
          then have "chunks ! i \<in> C"
            using C by auto
          moreover have "chunk_in off n (chunks ! i)"
            using covered [OF comp] Inr rng in_part [OF i] \<open>i < length chunks\<close> by (auto simp: part_def)
          moreover have "r1 = Inr ()" if "is_ok r1"
            using that by (cases r1) auto
          ultimately show "chunks ! i \<in> C \<and> (is_ok r1 \<longrightarrow> chunk_stored e1 blob (chunks ! i))"
            using stored(2) by blast
        qed (use e1_ok in blast)
        moreover have "e' = foldl (\<lambda>e i. if status ! i then update_chunk_pending_status ops e (chunks ! i) (is_ok r1) else e)
              e1 [s..<Suc t]"
          using res bounds Inr rng read comp e1
          by (simp add: fetch_range_def part_def [symmetric] bufs ChunkDecompressState_new_def Let_def del: upt_Suc)
        ultimately show ?thesis
          using e1_ok later_trans by (metis (no_types, lifting))
      next
        case plain: False
        have "n = 0 \<or> unat off + n \<le> length blob"
          using len by (auto simp: slice_of_def)
        then have bound: "unat off + n < 2 ^ 64"
          using su unat_lt2p64 [of off] by (auto simp: blob_setup_def)
        have "store_chunks ops rm chunks status [s..<Suc t] e bufs = (e', r)"
          using res bounds Inr rng read plain
          by (simp add: fetch_range_def part_def [symmetric] del: upt_Suc)
        moreover have "bufs = (ChunkDecompressState_new off part (slice_of blob off n))\<lparr>ds_chunk_idx := 0\<rparr>"
          by (simp add: bufs ChunkDecompressState_new_def)
        moreover have "[s..<Suc t] = [s + 0..<s + length part]"
          using bounds by (simp add: len_part del: upt_Suc)
        ultimately show ?thesis
          using nth_part by (intro ok_store_chunks [where part = part and i = 0 and s = s, OF _ len bound _ _ _ e plain]) auto
      qed
    qed
  qed
qed

lemma ok_check:
  assumes "ok e blob C" and "c \<in> C" and "cm_check_ready_and_mark_pending ops (fe_chunk_map e) c = (m, r)"
  shows "ok (e\<lparr>fe_chunk_map := m\<rparr>) blob C \<and> later e (e\<lparr>fe_chunk_map := m\<rparr>) \<and>
    (\<forall>b. r = Inr b \<longrightarrow> b = rdy m c)"
proof -
  have "tinv m \<and> rdy m = rdy (fe_chunk_map e) \<and> (\<forall>b. r = Inr b \<longrightarrow> b = rdy (fe_chunk_map e) c)"
    using check_law [OF _ _ assms(3)] assms(1,2) by (simp add: ok_def)
  then show ?thesis
    using ok_map_change [OF assms(1), of m] by simp
qed

text \<open>One chunk read and stored again.\<close>

lemma ok_retry_one:
  assumes e: "ok e blob C" "\<not> fe_is_compressed e" and c: "c \<in> C"
    and buf: "alloc_buf (bc_junk (fe_cache e)) (unat (ci_uncompressed_size c)) = Inr buf"
    and read: "read_chunk_from_backend (fe_cache e) c (v_data buf) = Inr (bytes, raw)"
    and adj: "(if fe_dio_enabled e then adjust_buffer_for_dio (buf\<lparr>v_data := bytes\<rparr>)
               else Inr (buf\<lparr>v_data := bytes\<rparr>)) = Inr buf'"
  defines "e' \<equiv> persist_chunk_data ops e c (v_data buf')"
  shows "ok e' blob C \<and> later e e' \<and>
    (fe_writes e = [] \<and> \<not> bit (ci_uncompressed_offset c) 63 \<longrightarrow> rdy (fe_chunk_map e') c)"
proof -
  have cap: "length (v_data buf) = unat (ci_uncompressed_size c)" "v_cap buf = ceil4k (unat (ci_uncompressed_size c))"
    using buf by (auto simp: alloc_buf_Inr)
  have content: "chunk_content (fe_cache e) c (chunk_raw blob c) bytes"
    using read_chunk_from_backend_ok [OF _ _ _ read, of blob] e c cap(1) by (auto simp: ok_def blob_setup_def)
  obtain z where z: "v_data buf' = bytes @ replicate z 0" "length (v_data buf') \<le> area e c"
    using adjusted_buffer [of "fe_cache e" c "chunk_raw blob c" "buf\<lparr>v_data := bytes\<rparr>" e buf'] content cap(2) adj by auto
  have "is_ok (snd (persist_cached_data e (ci_uncompressed_offset c) (v_data buf')))"
    if "fe_writes e = []" "\<not> bit (ci_uncompressed_offset c) 63"
    using persist_cached_data_result [of e "ci_uncompressed_offset c" "v_data buf'"] that
    by (cases "persist_cached_data e (ci_uncompressed_offset c) (v_data buf')") auto
  then show ?thesis
    using ok_persist_chunk_data [OF e(1) c e(2) content z] by (auto simp: e'_def)
qed

lemma ok_retry_chunks:
  assumes "ok e blob C" and "\<not> fe_is_compressed e" and "set cs \<subseteq> C" and "retry_chunks ops cs e = (e', r)"
  shows "ok e' blob C \<and> later e e' \<and>
    (r = Inr () \<and> fe_writes e = [] \<and> (\<forall>c \<in> set cs. \<not> bit (ci_uncompressed_offset c) 63) \<longrightarrow>
       (\<forall>c \<in> set cs. rdy (fe_chunk_map e') c))"
  using assms
proof (induction cs arbitrary: e)
  case Nil
  then show ?case by simp
next
  case (Cons c cs)
  obtain m q where m: "cm_check_ready_and_mark_pending ops (fe_chunk_map e) c = (m, q)"
    by fastforce
  define e1 where "e1 = e\<lparr>fe_chunk_map := m\<rparr>"
  have c: "c \<in> C" "known c"
    using Cons.prems(1,3) by (auto simp: ok_def)
  have e1: "ok e1 blob C" "later e e1" "\<And>b. q = Inr b \<Longrightarrow> b = rdy (fe_chunk_map e1) c"
    using ok_check [OF Cons.prems(1) c(1) m] by (auto simp: e1_def)
  have plain: "\<not> fe_is_compressed e1" and writes: "fe_writes e1 = fe_writes e" and cache: "fe_cache e1 = fe_cache e"
    and dio: "fe_dio_enabled e1 = fe_dio_enabled e"
    using Cons.prems(2) by (simp_all add: e1_def)
  have goal: "ok e' blob C \<and> later e e' \<and>
      (r = Inr () \<and> fe_writes e = [] \<and> (\<forall>c \<in> set (c # cs). \<not> bit (ci_uncompressed_offset c) 63) \<longrightarrow>
       (\<forall>c \<in> set (c # cs). rdy (fe_chunk_map e') c))"
    if e2: "ok e2 blob C" "later e1 e2" "retry_chunks ops cs e2 = (e', r)"
      and ready: "fe_writes e = [] \<Longrightarrow> \<not> bit (ci_uncompressed_offset c) 63 \<Longrightarrow> rdy (fe_chunk_map e2) c" for e2
  proof -
    have "\<not> fe_is_compressed e2"
      using plain static_eqD(2) [OF later_static [OF e2(2)]] by simp
    note rest = Cons.IH [OF e2(1) this _ e2(3)]
    have late: "later e e2"
      using later_trans [OF e1(2) e2(2)] .
    have "later e e'"
      using rest Cons.prems(3) later_trans [OF late] by auto
    moreover have "rdy (fe_chunk_map e') c" if "rdy (fe_chunk_map e2) c"
      using rest Cons.prems(3) that c(2) by (auto simp: later_def)
    moreover have "fe_writes e = [] \<Longrightarrow> fe_writes e2 = []"
      using late by (simp add: later_def)
    ultimately show ?thesis
      using rest Cons.prems(3) ready by auto
  qed
  show ?case
  proof (cases q)
    case (Inl err)
    then show ?thesis
      using Cons.prems(4) e1(1,2) by (auto simp: m e1_def [symmetric])
  next
    case ans: (Inr b)
    show ?thesis
    proof (cases b)
      case True
      then have "retry_chunks ops cs e1 = (e', r)" and "rdy (fe_chunk_map e1) c"
        using Cons.prems(4) ans e1(3) by (auto simp: m e1_def [symmetric])
      then show ?thesis
        using goal [OF e1(1) later_refl] by blast
    next
      case False
      show ?thesis
      proof (cases "alloc_buf (bc_junk (fe_cache e1)) (unat (ci_uncompressed_size c))")
        case (Inl err)
        then show ?thesis
          using Cons.prems(4) False ans e1(1,2) by (auto simp: m e1_def [symmetric])
      next
        case buf: (Inr buf)
        show ?thesis
        proof (cases "read_chunk_from_backend (fe_cache e1) c (v_data buf)")
          case (Inl err)
          then show ?thesis
            using Cons.prems(4) False ans e1(1,2) buf ok_release [OF e1(1), of c] later_trans [OF e1(2)]
            by (cases err) (auto simp: m e1_def [symmetric])
        next
          case read: (Inr br)
          obtain bytes raw where br: "br = (bytes, raw)"
            by fastforce
          show ?thesis
          proof (cases "if fe_dio_enabled e1 then adjust_buffer_for_dio (buf\<lparr>v_data := bytes\<rparr>)
               else Inr (buf\<lparr>v_data := bytes\<rparr>)")
            case (Inl err)
            then show ?thesis
              using Cons.prems(4) False ans e1(1,2) buf read br by (auto simp: m e1_def [symmetric])
          next
            case adj: (Inr buf')
            note one = ok_retry_one [OF e1(1) plain c(1) buf read [unfolded br] adj]
            have "retry_chunks ops cs (persist_chunk_data ops e1 c (v_data buf')) = (e', r)"
              using Cons.prems(4) False ans buf read br adj by (simp add: m e1_def [symmetric])
            from goal [OF _ _ this] one writes show ?thesis
              by simp
          qed
        qed
      qed
    qed
  qed
qed

lemma ok_after_fetch:
  assumes e: "ok e blob C" and chunks: "set chunks \<subseteq> C" "chunks \<noteq> []" "ids_consecutive chunks"
    and comp: "fe_is_compressed e \<longrightarrow> prefetch'"
    and m: "rm_wait_for_range_ready rm (fe_chunk_map e) (ci_id (hd chunks)) (of_nat (length chunks)) = (m, ready)"
    and res: "(case ready of Inl err \<Rightarrow> (e\<lparr>fe_chunk_map := m\<rparr>, Inl err)
       | Inr True \<Rightarrow> (e\<lparr>fe_chunk_map := m\<rparr>, Inr ())
       | Inr False \<Rightarrow> if prefetch' then (e\<lparr>fe_chunk_map := m\<rparr>, Inl EIO) else retry_chunks ops chunks (e\<lparr>fe_chunk_map := m\<rparr>))
       = (e', r)"
  shows "ok e' blob C \<and> later e e' \<and>
    (r = Inr () \<and> fe_writes e = [] \<and> (\<forall>c \<in> set chunks. \<not> bit (ci_uncompressed_offset c) 63) \<longrightarrow>
       (\<forall>c \<in> set chunks. rdy (fe_chunk_map e') c))"
proof -
  define e1 where "e1 = e\<lparr>fe_chunk_map := m\<rparr>"
  have "tinv m \<and> rdy m = rdy (fe_chunk_map e) \<and> (ready = Inr True \<longrightarrow> (\<forall>c \<in> set chunks. rdy (fe_chunk_map e) c))"
    using range_wait_law [OF _ chunks(2,3) _ m] e chunks(1) by (auto simp: ok_def)
  then have law: "ok e1 blob C" "later e e1" "ready = Inr True \<Longrightarrow> \<forall>c \<in> set chunks. rdy (fe_chunk_map e1) c"
    using ok_map_change [OF e, of m] by (auto simp: e1_def)
  show ?thesis
  proof (cases "ready = Inr False \<and> \<not> prefetch'")
    case True
    then have retry: "retry_chunks ops chunks e1 = (e', r)"
      using res by (simp add: e1_def)
    have plain: "\<not> fe_is_compressed e1"
      using comp True by (simp add: e1_def)
    show ?thesis
      using ok_retry_chunks [OF law(1) plain chunks(1) retry] later_trans [OF law(2)] by (auto simp: e1_def)
  next
    case False
    then show ?thesis
      using res law by (auto simp: e1_def [symmetric] split: sum.splits bool.splits if_splits)
  qed
qed

lemma ok_do_fetch_chunks:
  assumes e: "ok e blob C" and chunks: "set chunks \<subseteq> C"
    and comp: "fe_is_compressed e \<longrightarrow> prefetch' \<and> chunks_ordered chunks"
    and res: "do_fetch_chunks ops e chunks prefetch' = (e', r)"
  shows "ok e' blob C \<and> later e e' \<and>
    (r = Inr () \<and> fe_writes e = [] \<and> (\<forall>c \<in> set chunks. \<not> bit (ci_uncompressed_offset c) 63) \<and>
     snd (rm_check_range_ready_and_mark_pending rm (fe_chunk_map e) (ci_id (hd chunks)) (of_nat (length chunks)))
       \<noteq> Inr (Some []) \<longrightarrow>
     (\<forall>c \<in> set chunks. rdy (fe_chunk_map e') c))"
proof (cases "chunks \<noteq> [] \<and> ids_consecutive chunks")
  case False
  then show ?thesis
    using res e by (auto simp: do_fetch_chunks_def)
next
  case shape: True
  obtain m q where m: "rm_check_range_ready_and_mark_pending rm (fe_chunk_map e) (ci_id (hd chunks)) (of_nat (length chunks)) = (m, q)"
    by fastforce
  define e1 where "e1 = e\<lparr>fe_chunk_map := m\<rparr>"
  have "tinv m \<and> rdy m = rdy (fe_chunk_map e) \<and> (q = Inr None \<longrightarrow> (\<forall>c \<in> set chunks. rdy (fe_chunk_map e) c))"
    using range_check_law [OF _ _ _ _ m] shape e chunks by (auto simp: ok_def)
  then have e1: "ok e1 blob C" "later e e1" "q = Inr None \<Longrightarrow> \<forall>c \<in> set chunks. rdy (fe_chunk_map e1) c"
    using ok_map_change [OF e, of m] by (auto simp: e1_def)
  have writes: "fe_writes e1 = fe_writes e" and zran: "\<not> fe_is_zran e1" and comp1: "fe_is_compressed e1 = fe_is_compressed e"
    using e by (simp_all add: e1_def ok_def blob_setup_def)
  consider (fails) err where "q = Inl err" | (all) "q = Inr None"
    | (bad) pending err where "q = Inr (Some pending)"
        "mark_status (ci_id (hd chunks)) pending (replicate (unat (of_nat (length chunks) :: u32)) False) u32_MAX 0 = Inl err"
    | (some) pending status start stop where "q = Inr (Some pending)"
        "mark_status (ci_id (hd chunks)) pending (replicate (unat (of_nat (length chunks) :: u32)) False) u32_MAX 0 =
           Inr (status, start, stop)"
    by (metis (no_types, lifting) option.exhaust sum.exhaust prod_cases3)
  then show ?thesis
  proof cases
    case fails
    then show ?thesis
      using res shape e1 by (auto simp: do_fetch_chunks_def as_range m e1_def [symmetric])
  next
    case all
    then show ?thesis
      using res shape e1 by (auto simp: do_fetch_chunks_def as_range m e1_def [symmetric])
  next
    case bad
    then show ?thesis
      using res shape e1 by (auto simp: do_fetch_chunks_def as_range m e1_def [symmetric] Let_def)
  next
    case some
    show ?thesis
    proof (cases "stop < start")
      case True
      then have "pending = []"
        using mark_status_bounds [OF some(2)] by fastforce
      then show ?thesis
        using res shape e1 some True zran m by (auto simp: do_fetch_chunks_def as_range e1_def [symmetric] Let_def)
    next
      case False
      obtain e2 r2 where e2: "fetch_range ops rm chunks status (unat start) (unat stop) e1 = (e2, r2)"
        by fastforce
      have "ok e2 blob C \<and> later e1 e2"
      proof (rule ok_fetch_range [OF e1(1) chunks _ e2])
        assume "fe_is_compressed e1"
        then have "chunks_ordered (drop (unat start) (take (Suc (unat stop)) chunks))"
          using comp comp1 chunks_ordered_part by blast
        then show "\<forall>c \<in> set chunks. \<forall>off end' n.
            get_blob_range e1 (drop (unat start) (take (Suc (unat stop)) chunks)) = Inr (off, end', n) \<longrightarrow>
            c \<in> set (drop (unat start) (take (Suc (unat stop)) chunks)) \<longrightarrow> chunk_in off n c"
          using get_blob_range_covers zran by blast
      qed
      then have e2_ok: "ok e2 blob C" "later e e2"
        using later_trans [OF e1(2)] by auto
      have comp2: "fe_is_compressed e2 \<longrightarrow> prefetch'" and writes2: "fe_writes e = [] \<Longrightarrow> fe_writes e2 = []"
        using e2_ok(2) comp static_eqD(2) [OF later_static [OF e2_ok(2)]] by (auto simp: later_def)
      show ?thesis
      proof (cases r2)
        case (Inl err)
        then show ?thesis
          using res shape some False zran e2 e2_ok
          by (auto simp: do_fetch_chunks_def as_range m e1_def [symmetric] Let_def)
      next
        case (Inr u)
        obtain m3 ready where m3: "rm_wait_for_range_ready rm (fe_chunk_map e2) (ci_id (hd chunks)) (of_nat (length chunks)) = (m3, ready)"
          by fastforce
        have "(case ready of Inl err \<Rightarrow> (e2\<lparr>fe_chunk_map := m3\<rparr>, Inl err)
           | Inr True \<Rightarrow> (e2\<lparr>fe_chunk_map := m3\<rparr>, Inr ())
           | Inr False \<Rightarrow> if prefetch' then (e2\<lparr>fe_chunk_map := m3\<rparr>, Inl EIO) else retry_chunks ops chunks (e2\<lparr>fe_chunk_map := m3\<rparr>))
           = (e', r)"
          using res shape some False zran e2 Inr
          by (simp add: do_fetch_chunks_def as_range m e1_def [symmetric] Let_def m3)
        from ok_after_fetch [OF e2_ok(1) chunks _ _ comp2 m3 this] shape
        show ?thesis
          using later_trans [OF e2_ok(2)] writes2 by auto
      qed
    qed
  qed
qed

end

section \<open>Success\<close>

text \<open>
  A map that also answers: it hands out every chunk that is neither ready nor \<open>busy\<close>, and waiting
  for chunks that are ready succeeds.
\<close>

definition fetchable :: "blob_cache \<Rightarrow> u8 list \<Rightarrow> BlobChunkInfo \<Rightarrow> bool" where
  "fetchable bc blob c \<longleftrightarrow> (\<exists>d. chunk_content bc c (chunk_raw blob c) d) \<and> \<not> bit (ci_uncompressed_offset c) 63"

text \<open>The status after marking: exactly the pending chunks, all between the bounds.\<close>

lemma mark_status_ok:
  "\<lbrakk>\<And>k. k \<in> set ks \<Longrightarrow> unat (k - i) < length st\<rbrakk> \<Longrightarrow>
     \<exists>st' a' b'. mark_status i ks st a b = Inr (st', a', b') \<and> length st' = length st \<and>
       a' \<le> a \<and> b \<le> b' \<and> (\<forall>k \<in> set ks. a' \<le> k - i \<and> k - i \<le> b' \<and> st' ! unat (k - i)) \<and>
       (\<forall>j. st ! j \<and> j < length st \<longrightarrow> st' ! j) \<and> (unat b < length st \<longrightarrow> unat b' < length st)"
proof (induction ks arbitrary: st a b)
  case Nil
  then show ?case by simp
next
  case (Cons k ks)
  let ?st = "st[unat (k - i) := True]"
  have k: "unat (k - i) < length st"
    using Cons.prems by simp
  obtain st' a' b' where ih: "mark_status i ks ?st (min (k - i) a) (max (k - i) b) = Inr (st', a', b')"
    "length st' = length st" "a' \<le> min (k - i) a" "max (k - i) b \<le> b'"
    "\<forall>k \<in> set ks. a' \<le> k - i \<and> k - i \<le> b' \<and> st' ! unat (k - i)"
    "\<forall>j. ?st ! j \<and> j < length st \<longrightarrow> st' ! j"
    "unat (max (k - i) b) < length st \<longrightarrow> unat b' < length st"
    using Cons.IH [of ?st "min (k - i) a" "max (k - i) b"] Cons.prems by auto
  have "st' ! unat (k - i)"
    using ih(6) k by simp
  moreover have "st' ! j" if "st ! j" "j < length st" for j
    using ih(6) that by (cases "j = unat (k - i)") auto
  moreover have "unat b < length st \<longrightarrow> unat b' < length st"
    using ih(7) k by (auto simp: max_def)
  ultimately show ?case
    using ih k by (auto simp: min_le_iff_disj)
qed

text \<open>The backend answers every read inside the blob in full.\<close>

lemma read_chunks_complete:
  assumes "bc_reader bc off n = Inr (slice_of blob off n)" and "length (slice_of blob off n) = n" and "n \<le> 2 ^ 62"
  shows "read_chunks_from_backend bc off n part = Inr (ChunkDecompressState_new off part (slice_of blob off n))"
  using assms by (simp add: read_chunks_from_backend_def alloc_buf_small reader_read_def)

locale tracker_live = tracker +
  fixes busy :: "'a \<Rightarrow> BlobChunkInfo \<Rightarrow> bool"
  assumes range_check_live: "\<lbrakk>tinv m; cs \<noteq> []; ids_consecutive cs; \<forall>c \<in> set cs. known c;
       rm_check_range_ready_and_mark_pending rm m (ci_id (hd cs)) (of_nat (length cs)) = (m', w)\<rbrakk> \<Longrightarrow>
      w = Inr None \<or> (\<exists>v. w = Inr (Some v) \<and> set v \<subseteq> ci_id ` set cs \<and>
        (\<forall>c \<in> set cs. \<not> rdy m c \<and> \<not> busy m c \<longrightarrow> ci_id c \<in> set v))"
    and range_wait_live: "\<lbrakk>tinv m; cs \<noteq> []; ids_consecutive cs; \<forall>c \<in> set cs. known c; \<forall>c \<in> set cs. rdy m c;
       rm_wait_for_range_ready rm m (ci_id (hd cs)) (of_nat (length cs)) = (m', r)\<rbrakk> \<Longrightarrow> r = Inr True"
    and ids_offset: "\<lbrakk>ids_consecutive cs; \<forall>c \<in> set cs. known c; i < length cs\<rbrakk> \<Longrightarrow>
      unat (ci_id (cs ! i) - ci_id (hd cs)) = i"
    and count_fits: "\<lbrakk>ids_consecutive cs; cs \<noteq> []; \<forall>c \<in> set cs. known c\<rbrakk> \<Longrightarrow> length cs < 2 ^ 32"

begin

lemma live_store_chunks:
  assumes bufs: "bufs = (ChunkDecompressState_new off part (slice_of blob off n))\<lparr>ds_chunk_idx := i\<rparr>"
    and range: "length (slice_of blob off n) = n" "unat off + n < 2 ^ 64"
    and idxs: "idxs = [s + i..<s + length part]" "i \<le> length part"
    and part: "\<And>j. j < length part \<Longrightarrow> part ! j = chunks ! (s + j) \<and> part ! j \<in> C \<and>
      chunk_in off n (part ! j) \<and> fetchable (fe_cache e) blob (part ! j)"
    and e: "ok e blob C" "\<not> fe_is_compressed e" "fe_writes e = []"
  shows "\<exists>e'. store_chunks ops rm chunks status idxs e bufs = (e', Inr ()) \<and>
    (\<forall>j. i \<le> j \<and> j < length part \<and> status ! (s + j) \<longrightarrow> rdy (fe_chunk_map e') (part ! j))"
  using assms
proof (induction "length part - i" arbitrary: i idxs e bufs)
  case 0
  then show ?case by auto
next
  case (Suc k)
  then have i: "i < length part" and idxs: "idxs = (s + i) # [s + Suc i..<s + length part]"
    by (simp_all add: upt_rec)
  define bufs' where "bufs' = (ChunkDecompressState_new off part (slice_of blob off n))\<lparr>ds_chunk_idx := Suc i\<rparr>"
  have su: "blob_setup e blob C"
    using Suc.prems(7) by (simp add: ok_def)
  have next': "ds_next (fe_cache e) bufs = (bufs', Some (next_buf (fe_cache e) bufs' (part ! i)))"
    using i su by (simp add: ds_next_def Suc.prems(1) ChunkDecompressState_new_def Let_def bufs'_def blob_setup_def)
  have chunk: "chunks ! (s + i) = part ! i" "part ! i \<in> C" "chunk_in off n (part ! i)"
    and fetch: "fetchable (fe_cache e) blob (part ! i)"
    using Suc.prems(6) [OF i] by auto
  obtain d where d: "chunk_content (fe_cache e) (part ! i) (chunk_raw blob (part ! i)) d"
    and bit63: "\<not> bit (ci_uncompressed_offset (part ! i)) 63"
    using fetch by (auto simp: fetchable_def)
  define buf where "buf = \<lparr>v_data = d, v_cap = ceil4k (unat (ci_uncompressed_size (part ! i)))\<rparr>"
  have buf: "next_buf (fe_cache e) bufs' (part ! i) = Inr buf"
    using next_buf_Inr_iff [of "fe_cache e" bufs' blob "part ! i" buf] su Suc.prems(2,3) chunk(3) d
    by (simp add: bufs'_def ChunkDecompressState_new_def blob_setup_def buf_def)
  have go: "\<exists>e'. store_chunks ops rm chunks status [s + Suc i..<s + length part] e1 bufs' = (e', Inr ()) \<and>
      (\<forall>j. Suc i \<le> j \<and> j < length part \<and> status ! (s + j) \<longrightarrow> rdy (fe_chunk_map e') (part ! j))"
    if "ok e1 blob C" "\<not> fe_is_compressed e1" "fe_writes e1 = []" "fe_cache e1 = fe_cache e" for e1
  proof (rule Suc.hyps(1) [OF _ bufs'_def Suc.prems(2,3) refl _ _ that(1-3)])
    show "part ! j = chunks ! (s + j) \<and> part ! j \<in> C \<and> chunk_in off n (part ! j) \<and>
        fetchable (fe_cache e1) blob (part ! j)" if "j < length part" for j
      unfolding \<open>fe_cache e1 = fe_cache e\<close> by (rule Suc.prems(6) [OF that])
  qed (use Suc.hyps(2) i in simp_all)
  show ?case
  proof (cases "status ! (s + i)")
    case True
    have "v_cap buf mod 4096 = 0"
      using ceil4k_dvd by (simp add: buf_def mod_eq_0_iff_dvd)
    then obtain buf' where adj: "(if fe_dio_enabled e then adjust_buffer_for_dio buf else Inr buf) = Inr buf'"
      by (cases "fe_dio_enabled e") (simp_all add: adjust_buffer_for_dio_def)
    obtain z where z: "v_data buf' = d @ replicate z 0" "length (v_data buf') \<le> area e (part ! i)"
      using adjusted_buffer [of "fe_cache e" "part ! i" "chunk_raw blob (part ! i)" buf e buf'] d adj
      by (auto simp: buf_def)
    define e1 where "e1 = persist_chunk_data ops e (part ! i) (v_data buf')"
    have "is_ok (snd (persist_cached_data e (ci_uncompressed_offset (part ! i)) (v_data buf')))"
      using persist_cached_data_result [of e "ci_uncompressed_offset (part ! i)" "v_data buf'"] Suc.prems(9) bit63
      by (cases "persist_cached_data e (ci_uncompressed_offset (part ! i)) (v_data buf')") auto
    then have e1: "ok e1 blob C" "later e e1" "rdy (fe_chunk_map e1) (part ! i)"
      using ok_persist_chunk_data [OF Suc.prems(7) chunk(2) Suc.prems(8) d z] by (auto simp: e1_def)
    have same: "\<not> fe_is_compressed e1" "fe_writes e1 = []" "fe_cache e1 = fe_cache e"
      using static_eqD(1,2) [OF later_static [OF e1(2)]] Suc.prems(8,9) e1(2) by (auto simp: later_def)
    obtain e' where e': "store_chunks ops rm chunks status [s + Suc i..<s + length part] e1 bufs' = (e', Inr ())"
      and rest: "\<And>j. Suc i \<le> j \<and> j < length part \<and> status ! (s + j) \<Longrightarrow> rdy (fe_chunk_map e') (part ! j)"
      using go [OF e1(1) same] by blast
    have "ok e' blob C \<and> later e1 e'"
    proof (rule ok_store_chunks [OF bufs'_def Suc.prems(2,3) refl _ _ e1(1) same(1) e'])
      show "part ! j = chunks ! (s + j) \<and> part ! j \<in> C" if "j < length part" for j
        using Suc.prems(6) [OF that] by blast
    qed (use i in simp)
    then have "rdy (fe_chunk_map e') (part ! i)"
      using e1(1,3) chunk(2) by (auto simp: later_def ok_def)
    then have "rdy (fe_chunk_map e') (part ! j)" if "i \<le> j \<and> j < length part \<and> status ! (s + j)" for j
      using rest [of j] that by (cases "j = i") auto
    moreover have "store_chunks ops rm chunks status idxs e bufs = (e', Inr ())"
      using e' True buf adj chunk(1) by (simp add: idxs next' e1_def)
    ultimately show ?thesis
      by blast
  next
    case False
    obtain e' where e': "store_chunks ops rm chunks status [s + Suc i..<s + length part] e bufs' = (e', Inr ())"
      and rest: "\<And>j. Suc i \<le> j \<and> j < length part \<and> status ! (s + j) \<Longrightarrow> rdy (fe_chunk_map e') (part ! j)"
      using go [OF Suc.prems(7-9) refl] by blast
    have "rdy (fe_chunk_map e') (part ! j)" if "i \<le> j \<and> j < length part \<and> status ! (s + j)" for j
      using rest [of j] that False by (cases "j = i") auto
    moreover have "store_chunks ops rm chunks status idxs e bufs = (e', Inr ())"
      using e' False buf by (simp add: idxs next')
    ultimately show ?thesis
      by blast
  qed
qed

lemma live_fetch_range:
  assumes e: "ok e blob C" "\<not> fe_is_compressed e" "fe_writes e = []"
    and chunks: "set chunks \<subseteq> C" "chunks_ordered chunks"
    and fetch: "\<forall>c \<in> set chunks. fetchable (fe_cache e) blob c \<and>
      unat (ci_compressed_offset c) + unat (ci_compressed_size c) \<le> length blob"
    and span: "unat (ci_compressed_end (last chunks)) - unat (ci_compressed_offset (hd chunks)) \<le> 0xFFFFFFFF"
    and reader: "\<And>off n. unat off + n \<le> length blob \<Longrightarrow> bc_reader (fe_cache e) off n = Inr (slice_of blob off n)"
    and st: "s \<le> t" "t < length chunks"
  shows "\<exists>e'. fetch_range ops rm chunks status s t e = (e', Inr ()) \<and>
    (\<forall>j. s \<le> j \<and> j \<le> t \<and> status ! j \<longrightarrow> rdy (fe_chunk_map e') (chunks ! j))"
proof -
  define part where "part = drop s (take (Suc t) chunks)"
  have len_part: "length part = Suc t - s" and part_ne: "part \<noteq> []"
    using st by (auto simp: part_def)
  have nth_part: "part ! j = chunks ! (s + j)" if "j < length part" for j
    using that st by (simp add: part_def)
  have hd_part: "hd part = chunks ! s" and last_part: "last part = chunks ! t"
    using nth_part [of 0] nth_part [of "t - s"] part_ne len_part st by (simp_all add: hd_conv_nth last_conv_nth)
  have ord: "chunks_ordered part"
    unfolding part_def by (rule chunks_ordered_part [OF chunks(2)])
  have su: "blob_setup e blob C"
    using e(1) by (simp add: ok_def)
  let ?lo = "\<lambda>c. unat (ci_compressed_offset c)" and ?hi = "\<lambda>c. unat (ci_compressed_offset c) + unat (ci_compressed_size c)"
  have hi: "unat (ci_compressed_end c) = ?hi c" if "c \<in> set chunks" for c
    using chunks(2) that unat_add_less [of "ci_compressed_offset c" "ucast (ci_compressed_size c)"]
    by (simp add: ci_compressed_end_def unat_ucast_u32_u64 chunks_ordered_def)
  have sorted: "?hi (chunks ! a) \<le> ?lo (chunks ! b)" if "a < b" "b < length chunks" for a b
    using chunks(2) that by (auto simp: chunks_ordered_def sorted_wrt_iff_nth_less)
  have ne: "chunks \<noteq> []" and s_len: "s < length chunks"
    using st by auto
  have lo_s: "?lo (hd chunks) \<le> ?lo (chunks ! s)"
    using sorted [of 0 s] s_len ne by (cases s) (auto simp: hd_conv_nth)
  have hi_t: "?hi (chunks ! t) \<le> ?hi (last chunks)"
  proof (cases "t = length chunks - 1")
    case False
    then have "t < length chunks - 1"
      using st by simp
    then show ?thesis
      using sorted [of t "length chunks - 1"] ne by (simp add: last_conv_nth)
  qed (use ne in \<open>simp add: last_conv_nth\<close>)
  have st_le: "?lo (chunks ! s) \<le> ?hi (chunks ! t)"
    using sorted [of s t] st by (cases "s = t") auto
  define off where "off = ci_compressed_offset (chunks ! s)"
  define n where "n = unat (ci_compressed_end (chunks ! t) - off)"
  have n: "unat off + n = ?hi (chunks ! t)"
    using hi [of "chunks ! t"] st st_le by (simp add: n_def off_def unat_sub word_le_nat_alt)
  have n_small: "n \<le> 0xFFFFFFFF"
    using n span hi [of "last chunks"] ne lo_s hi_t by (simp add: off_def)
  have range': "get_blob_range e part = Inr (off, ci_compressed_end (chunks ! t), n)"
    using su n_small part_ne
    by (simp add: get_blob_range_def blob_setup_def hd_part last_part off_def [symmetric] n_def [symmetric]
        word_less_nat_alt Let_def)
  have inside: "unat off + n \<le> length blob"
    using n fetch st by auto
  then have len: "length (slice_of blob off n) = n"
    by (simp add: slice_of_def)
  have bound: "unat off + n < 2 ^ 64"
    using inside su by (simp add: blob_setup_def)
  have read: "read_chunks_from_backend (fe_cache e) off n part =
      Inr (ChunkDecompressState_new off part (slice_of blob off n))"
    using read_chunks_complete [OF reader [OF inside] len] n_small by simp
  have in_range: "chunk_in off n c" if "c \<in> set part" for c
    using get_blob_range_covers [OF ord _ range' that] su by (simp add: blob_setup_def)
  have idxs0: "[s..<Suc t] = [s + 0..<s + length part]"
    using st by (simp add: len_part del: upt_Suc)
  have bufs0: "ChunkDecompressState_new off part (slice_of blob off n) =
      (ChunkDecompressState_new off part (slice_of blob off n))\<lparr>ds_chunk_idx := 0\<rparr>"
    by (simp add: ChunkDecompressState_new_def)
  have parts: "part ! j = chunks ! (s + j) \<and> part ! j \<in> C \<and> chunk_in off n (part ! j) \<and>
      fetchable (fe_cache e) blob (part ! j)" if "j < length part" for j
    using nth_part [OF that] in_range [OF nth_mem [OF that]] fetch chunks(1) nth_mem [of "s + j" chunks] that len_part st
    by auto
  obtain e' where e': "store_chunks ops rm chunks status [s..<Suc t] e
        (ChunkDecompressState_new off part (slice_of blob off n)) = (e', Inr ())"
    and ready: "\<And>j. j < length part \<and> status ! (s + j) \<Longrightarrow> rdy (fe_chunk_map e') (part ! j)"
    using live_store_chunks [OF bufs0 len bound idxs0 zero_le parts e, of status] by blast
  have "rdy (fe_chunk_map e') (chunks ! j)" if "s \<le> j \<and> j \<le> t \<and> status ! j" for j
    using ready [of "j - s"] nth_part [of "j - s"] that len_part by auto
  moreover have "fetch_range ops rm chunks status s t e = (e', Inr ())"
    using e' e(2) st read range' by (simp add: fetch_range_def part_def [symmetric] del: upt_Suc)
  ultimately show ?thesis
    by blast
qed

lemma live_do_fetch_chunks:
  assumes e: "ok e blob C" "\<not> fe_is_compressed e" "fe_writes e = []"
    and chunks: "set chunks \<subseteq> C" "chunks_ordered chunks" "chunks \<noteq> []" "ids_consecutive chunks"
    and free: "\<forall>c \<in> set chunks. \<not> busy (fe_chunk_map e) c"
    and fetch: "\<forall>c \<in> set chunks. fetchable (fe_cache e) blob c \<and>
      unat (ci_compressed_offset c) + unat (ci_compressed_size c) \<le> length blob"
    and span: "unat (ci_compressed_end (last chunks)) - unat (ci_compressed_offset (hd chunks)) \<le> 0xFFFFFFFF"
    and reader: "\<And>off n. unat off + n \<le> length blob \<Longrightarrow> bc_reader (fe_cache e) off n = Inr (slice_of blob off n)"
  shows "\<exists>e'. do_fetch_chunks ops e chunks prefetch' = (e', Inr ()) \<and> (\<forall>c \<in> set chunks. rdy (fe_chunk_map e') c)"
proof -
  have known: "\<forall>c \<in> set chunks. known c" and inv: "tinv (fe_chunk_map e)"
    using e(1) chunks(1) by (auto simp: ok_def)
  have count: "unat (of_nat (length chunks) :: u32) = length chunks"
    using count_fits [OF chunks(4,3) known] by (simp add: unat_of_nat)
  obtain m q where m: "rm_check_range_ready_and_mark_pending rm (fe_chunk_map e) (ci_id (hd chunks)) (of_nat (length chunks)) = (m, q)"
    by fastforce
  define e1 where "e1 = e\<lparr>fe_chunk_map := m\<rparr>"
  have law: "tinv m" "rdy m = rdy (fe_chunk_map e)" "q = Inr None \<Longrightarrow> \<forall>c \<in> set chunks. rdy (fe_chunk_map e1) c"
    using range_check_law [OF inv chunks(3,4) known m] by (auto simp: e1_def)
  have e1: "ok e1 blob C" "later e e1"
    using ok_map_change [OF e(1) law(1,2)] by (auto simp: e1_def)
  have fields: "\<not> fe_is_compressed e1" "fe_writes e1 = []" "fe_cache e1 = fe_cache e" "\<not> fe_is_zran e1"
    using e by (simp_all add: e1_def ok_def blob_setup_def)
  from range_check_live [OF inv chunks(3,4) known m] consider (all) "q = Inr None"
    | (some) v where "q = Inr (Some v)" "set v \<subseteq> ci_id ` set chunks"
        "\<forall>c \<in> set chunks. \<not> rdy m c \<longrightarrow> ci_id c \<in> set v"
    using free law(2) by auto
  then show ?thesis
  proof cases
    case all
    then show ?thesis
      using law(3) chunks(3,4) by (auto simp: do_fetch_chunks_def as_range m e1_def)
  next
    case some
    have pos: "\<exists>j < length chunks. k = ci_id (chunks ! j) \<and> unat (k - ci_id (hd chunks)) = j" if "k \<in> set v" for k
      using some(2) that ids_offset [OF chunks(4) known] by (fastforce simp: in_set_conv_nth)
    obtain status start stop where mark: "mark_status (ci_id (hd chunks)) v (replicate (length chunks) False) u32_MAX 0 =
        Inr (status, start, stop)" and bounds: "unat stop < length chunks"
      and marked: "\<forall>k \<in> set v. start \<le> k - ci_id (hd chunks) \<and> k - ci_id (hd chunks) \<le> stop \<and> status ! unat (k - ci_id (hd chunks))"
      using mark_status_ok [of v "ci_id (hd chunks)" "replicate (length chunks) False" u32_MAX 0] pos chunks(3) by auto
    show ?thesis
    proof (cases "stop < start")
      case True
      then have "v = []"
        using mark_status_bounds [OF mark] by fastforce
      then have "\<forall>c \<in> set chunks. rdy m c"
        using some(3) by auto
      moreover have "do_fetch_chunks ops e chunks prefetch' = (e1, Inr ())"
        using chunks(3,4) some(1) mark True fields(4) count
        by (simp add: do_fetch_chunks_def as_range m e1_def [symmetric] Let_def)
      ultimately show ?thesis
        by (auto simp: e1_def)
    next
      case False
      then have st: "unat start \<le> unat stop"
        by (simp add: word_le_nat_alt word_less_nat_alt)
      obtain e2 where e2: "fetch_range ops rm chunks status (unat start) (unat stop) e1 = (e2, Inr ())"
        and ready: "\<And>j. unat start \<le> j \<and> j \<le> unat stop \<and> status ! j \<Longrightarrow> rdy (fe_chunk_map e2) (chunks ! j)"
        using live_fetch_range [OF e1(1) fields(1,2) chunks(1,2) _ span _ st bounds, of status] fetch reader fields(3) by auto
      have e2_ok: "ok e2 blob C \<and> later e1 e2"
        by (rule ok_fetch_range [OF e1(1) chunks(1) _ e2]) (use fields(1) in simp)
      have all2: "\<forall>c \<in> set chunks. rdy (fe_chunk_map e2) c"
      proof
        fix c assume c: "c \<in> set chunks"
        show "rdy (fe_chunk_map e2) c"
        proof (cases "rdy m c")
          case True
          then show ?thesis
            using e2_ok known c by (auto simp: later_def e1_def)
        next
          case False
          then have v: "ci_id c \<in> set v"
            using some(3) c by simp
          obtain j where j: "j < length chunks" "c = chunks ! j"
            using c by (auto simp: in_set_conv_nth)
          have "unat (ci_id c - ci_id (hd chunks)) = j"
            using ids_offset [OF chunks(4) known j(1)] j(2) by simp
          then show ?thesis
            using ready [of j] marked v j(2) by (auto simp: word_le_nat_alt)
        qed
      qed
      obtain m3 w where m3: "rm_wait_for_range_ready rm (fe_chunk_map e2) (ci_id (hd chunks)) (of_nat (length chunks)) = (m3, w)"
        by fastforce
      have inv2: "tinv (fe_chunk_map e2)"
        using e2_ok by (simp add: ok_def)
      have "w = Inr True" "rdy m3 = rdy (fe_chunk_map e2)"
        using range_wait_live [OF inv2 chunks(3,4) known all2 m3] range_wait_law [OF inv2 chunks(3,4) known m3] by auto
      moreover have "do_fetch_chunks ops e chunks prefetch' = (e2\<lparr>fe_chunk_map := m3\<rparr>, Inr ())" if "w = Inr True"
        using chunks(3,4) some(1) mark False fields(4) count e2 m3 that
        by (simp add: do_fetch_chunks_def as_range m e1_def [symmetric] Let_def)
      ultimately show ?thesis
        using all2 by auto
    qed
  qed
qed

end

section \<open>The indexed chunk map keeps the contract\<close>

definition icsm_inv :: "u32 \<Rightarrow> (IndexedChunkMap, u32) BlobStateMap \<Rightarrow> bool" where
  "icsm_inv N m \<longleftrightarrow> icm_inv (bsm_c m) \<and> pm_count (icm_map (bsm_c m)) = N"

definition icsm_rdy :: "(IndexedChunkMap, u32) BlobStateMap \<Rightarrow> BlobChunkInfo \<Rightarrow> bool" where
  "icsm_rdy m c = icm_rdy (bsm_c m) (ci_id c)"

lemma ids_consecutive_nth:
  "\<lbrakk>ids_consecutive cs; \<forall>c \<in> set cs. ci_id c < N; i < length cs\<rbrakk> \<Longrightarrow> unat (ci_id (cs ! i)) = unat (ci_id (hd cs)) + i"
proof (induction cs arbitrary: i rule: ids_consecutive.induct)
  case (1 c d cs)
  have "unat (ci_id c + 1) = unat (ci_id c) + 1"
    using "1.prems"(2) unat_lt2p32 [of N] unat_add_less [of "ci_id c" 1] by (simp add: word_less_nat_alt)
  then have d: "unat (ci_id d) = unat (ci_id c) + 1"
    using "1.prems"(1) by simp
  show ?case
  proof (cases i)
    case (Suc j)
    then show ?thesis
      using "1.IH" [of j] "1.prems" d by simp
  qed simp
qed auto

lemma ids_consecutive_range:
  assumes "ids_consecutive cs" and "\<forall>c \<in> set cs. ci_id c < N" and "cs \<noteq> []"
  shows "unat (ci_id (hd cs)) + length cs \<le> unat N" and "unat (of_nat (length cs) :: u32) = length cs"
    and "c \<in> set cs \<Longrightarrow> ci_id c \<in> set (range32 (ci_id (hd cs)) (ci_id (hd cs) + of_nat (length cs)))"
proof -
  have "unat (ci_id (cs ! (length cs - 1))) = unat (ci_id (hd cs)) + (length cs - 1)"
    using assms by (intro ids_consecutive_nth [of cs N]) auto
  moreover have "ci_id (cs ! (length cs - 1)) < N"
    using assms by simp
  ultimately show le: "unat (ci_id (hd cs)) + length cs \<le> unat N"
    using assms(3) by (cases cs) (auto simp: word_less_nat_alt)
  then have "length cs < 2 ^ 32"
    using unat_lt2p32 [of N] by linarith
  then show len: "unat (of_nat (length cs) :: u32) = length cs"
    by (simp add: unat_of_nat)
  have stop: "unat (ci_id (hd cs) + of_nat (length cs)) = unat (ci_id (hd cs)) + length cs"
    using le len unat_lt2p32 [of N] unat_add_less [of "ci_id (hd cs)" "of_nat (length cs)"] by simp
  assume "c \<in> set cs"
  then obtain i where "i < length cs" "cs ! i = c"
    by (auto simp: in_set_conv_nth)
  then show "ci_id c \<in> set (range32 (ci_id (hd cs)) (ci_id (hd cs) + of_nat (length cs)))"
    using ids_consecutive_nth [OF assms(1,2)] stop by (auto simp: word_le_nat_alt word_less_nat_alt)
qed

lemma wait_range_loop_timeout: "wait_range_loop ro [(m, Inl Timeout)] m ks = Some (m, None)"
  by (induction ks) (auto split: option.splits)

lemma wait_alone:
  assumes "rsm_wait_for_range_ready ro [(m, Inl Timeout)] m s n = Some (Inr True)"
  shows "ro_is_range_ready ro (bsm_c m) s n = Inr True"
  using assms wait_range_loop_timeout [of ro m]
  by (auto simp: rsm_wait_for_range_ready_def split: sum.splits bool.splits)

lemma icsm_indices:
  assumes "ids_consecutive cs" and "\<forall>c \<in> set cs. ci_id c < N" and "cs \<noteq> []" and "icsm_inv N m"
  defines "s \<equiv> ci_id (hd cs)" and "n \<equiv> (of_nat (length cs) :: u32)"
  shows "icm_valid_range (bsm_c m) s n" and "ro_indices icm_range_ops (bsm_c m) s n = Inr (range32 s (s + n))"
    and "c \<in> set cs \<Longrightarrow> ci_id c \<in> set (range32 s (s + n))"
proof -
  note range' = ids_consecutive_range [OF assms(1-3)]
  show valid: "icm_valid_range (bsm_c m) s n"
    using range'(1,2) assms(4) by (simp add: icm_valid_range_def icsm_inv_def s_def n_def)
  show "ro_indices icm_range_ops (bsm_c m) s n = Inr (range32 s (s + n))"
    using clamp32_valid [OF valid] by (simp add: icm_range_ops_def)
  show "c \<in> set cs \<Longrightarrow> ci_id c \<in> set (range32 s (s + n))"
    using range'(3) by (simp add: s_def n_def)
qed

lemma icsm_set_law:
  assumes "icsm_inv N m" and "ci_id c < N"
    and "bsm_set_ready_and_clear_pending icm_ops m c = (m', u)"
  shows "icsm_inv N m' \<and> (\<forall>x. ci_id x < N \<longrightarrow> icsm_rdy m' x = (icsm_rdy m x \<or> ci_id c = ci_id x))"
proof -
  have sound: "pm_sound (icm_map (bsm_c m))" and idx: "ci_id c < pm_count (icm_map (bsm_c m))"
    using assms(1,2) by (auto simp: icsm_inv_def icm_inv_def)
  have m': "bsm_c m' = (bsm_c m)\<lparr>icm_map := mark_bit (icm_map (bsm_c m)) (ci_id c)\<rparr>"
    using assms(3) icm_set_ready_eq [of "bsm_c m" c] sound idx
    by (auto simp: bsm_set_ready_and_clear_pending_def bsm_clear_pending_def icm_ops_def icm_inv_def icm_valid_def)
  have "icm_inv (bsm_c m')"
    by (simp add: icm_inv_def m' pm_sound_mark_bit [OF sound idx])
  moreover have "pm_count (icm_map (bsm_c m')) = N"
    using assms(1) by (simp add: m' icsm_inv_def)
  moreover have "icm_rdy (bsm_c m') j = (icm_rdy (bsm_c m) j \<or> j = ci_id c)" for j
    unfolding icm_rdy_def m' by (simp add: pm_bit_mark_bit [OF pm_sound_wf [OF sound] idx])
  ultimately show ?thesis
    unfolding icsm_inv_def icsm_rdy_def by metis
qed

interpretation ict: tracker icsm_obj icsm_range_obj "icsm_inv N" "\<lambda>c. ci_id c < N" icsm_rdy
  "\<lambda>c x. ci_id c = ci_id x" for N
proof
  fix m c m' and r :: "bool res"
  assume inv: "icsm_inv N m" and c: "ci_id c < N"
    and check: "cm_check_ready_and_mark_pending icsm_obj m c = (m', r)"
  have "op_is_ready icm_ops (bsm_c m) c = Inr (icsm_rdy m c)"
    using icm_is_ready_valid [of "bsm_c m" c] inv c
    by (simp add: icm_ops_def icsm_inv_def icm_inv_def icsm_rdy_def icm_rdy_def)
  then have "bsm_c m' = bsm_c m \<and> (\<forall>b. r = Inr b \<longrightarrow> b = icsm_rdy m c)"
    using check
    by (auto simp: icsm_obj_def bsm_check_alone_def bsm_check_first_def bsm_check_locked_def cache_index_def
        insert_slot_def Let_def split: if_splits option.splits)
  then show "icsm_inv N m' \<and> icsm_rdy m' = icsm_rdy m \<and> (\<forall>b. r = Inr b \<longrightarrow> b = icsm_rdy m c)"
    using inv by (auto simp: icsm_inv_def icsm_rdy_def fun_eq_iff)
next
  fix m c m' and u :: "unit res"
  assume "icsm_inv N m" "ci_id c < N" "cm_set_ready_and_clear_pending icsm_obj m c = (m', u)"
  then show "icsm_inv N m' \<and> (\<forall>x. ci_id x < N \<longrightarrow> icsm_rdy m' x = (icsm_rdy m x \<or> ci_id c = ci_id x))"
    using icsm_set_law by (simp add: icsm_obj_def)
next
  fix m c
  assume "icsm_inv N m"
  then show "icsm_inv N (cm_clear_pending icsm_obj m c) \<and> icsm_rdy (cm_clear_pending icsm_obj m c) = icsm_rdy m"
    by (auto simp: icsm_obj_def bsm_clear_pending_def icsm_inv_def icsm_rdy_def)
next
  fix m i n
  assume "icsm_inv N m"
  then show "icsm_inv N (rm_clear_range_pending icsm_range_obj m i n) \<and>
      icsm_rdy (rm_clear_range_pending icsm_range_obj m i n) = icsm_rdy m"
    by (auto simp: icsm_range_obj_def icsm_clear_range_pending_def rsm_clear_range_pending_def icm_range_ops_def
        icsm_inv_def icsm_rdy_def foldl_remove_slot)
next
  fix m m' and cs and w :: "u32 list option res"
  assume inv: "icsm_inv N m" and cs: "cs \<noteq> []" "ids_consecutive cs" "\<forall>c \<in> set cs. ci_id c < N"
    and check: "rm_check_range_ready_and_mark_pending icsm_range_obj m (ci_id (hd cs)) (of_nat (length cs)) = (m', w)"
  note idx = icsm_indices [OF cs(2,3,1) inv]
  have "icm_inv (bsm_c m)"
    using inv by (simp add: icsm_inv_def)
  from icr.check_range_spec [OF this idx(1,2)] check
  have "bsm_c m' = bsm_c m" and "w = Inr None \<longrightarrow>
      (\<forall>k \<in> set (range32 (ci_id (hd cs)) (ci_id (hd cs) + of_nat (length cs))). icm_rdy (bsm_c m) k)"
    by (auto simp: icsm_range_obj_def icsm_check_range_ready_and_mark_pending_def split: if_splits)
  then show "icsm_inv N m' \<and> icsm_rdy m' = icsm_rdy m \<and> (w = Inr None \<longrightarrow> (\<forall>c \<in> set cs. icsm_rdy m c))"
    using inv idx(3) by (auto simp: icsm_inv_def icsm_rdy_def fun_eq_iff)
next
  fix m m' and cs and r :: "bool res"
  assume inv: "icsm_inv N m" and cs: "cs \<noteq> []" "ids_consecutive cs" "\<forall>c \<in> set cs. ci_id c < N"
    and wait: "rm_wait_for_range_ready icsm_range_obj m (ci_id (hd cs)) (of_nat (length cs)) = (m', r)"
  note idx = icsm_indices [OF cs(2,3,1) inv]
  have m': "m' = m"
    using wait by (simp add: icsm_range_obj_def)
  have "ro_is_range_ready icm_range_ops (bsm_c m) (ci_id (hd cs)) (of_nat (length cs)) = Inr True" if "r = Inr True"
    using wait that by (intro wait_alone)
      (auto simp: icsm_range_obj_def icsm_wait_for_range_ready_def split: option.splits)
  moreover have "icm_inv (bsm_c m)"
    using inv by (simp add: icsm_inv_def)
  ultimately have "r = Inr True \<longrightarrow>
      (\<forall>k \<in> set (range32 (ci_id (hd cs)) (ci_id (hd cs) + of_nat (length cs))). icm_rdy (bsm_c m) k)"
    using icr.ready_range [OF _ idx(1,2)] by auto
  then show "icsm_inv N m' \<and> icsm_rdy m' = icsm_rdy m \<and> (r = Inr True \<longrightarrow> (\<forall>c \<in> set cs. icsm_rdy m c))"
    using inv idx(3) m' by (auto simp: icsm_rdy_def)
qed (simp_all add: icsm_obj_def)

definition icsm_busy :: "(IndexedChunkMap, u32) BlobStateMap \<Rightarrow> BlobChunkInfo \<Rightarrow> bool" where
  "icsm_busy m c \<longleftrightarrow> bsm_tracer m (ci_id c) \<noteq> None"

text \<open>The indices of a run of chunks are those of the chunks.\<close>

lemma ids_consecutive_image:
  assumes "ids_consecutive cs" and "\<forall>c \<in> set cs. ci_id c < N" and "cs \<noteq> []"
  shows "set (range32 (ci_id (hd cs)) (ci_id (hd cs) + of_nat (length cs))) = ci_id ` set cs"
proof -
  note r = ids_consecutive_range [OF assms]
  have stop: "unat (ci_id (hd cs) + of_nat (length cs)) = unat (ci_id (hd cs)) + length cs"
    using r(1,2) unat_lt2p32 [of N] unat_add_less [of "ci_id (hd cs)" "of_nat (length cs)"] by simp
  have "k \<in> ci_id ` set cs" if "k \<in> set (range32 (ci_id (hd cs)) (ci_id (hd cs) + of_nat (length cs)))" for k
  proof -
    have le: "unat (ci_id (hd cs)) \<le> unat k" "unat k < unat (ci_id (hd cs)) + length cs"
      using that stop by (auto simp: word_le_nat_alt word_less_nat_alt)
    then have "unat (ci_id (cs ! (unat k - unat (ci_id (hd cs))))) = unat k"
      using ids_consecutive_nth [OF assms(1,2), of "unat k - unat (ci_id (hd cs))"] by simp
    then have "k = ci_id (cs ! (unat k - unat (ci_id (hd cs))))"
      by (simp add: word_unat_eq_iff)
    then show ?thesis
      using le by (intro image_eqI [of _ _ "cs ! (unat k - unat (ci_id (hd cs)))"]) auto
  qed
  then show ?thesis
    using r(3) by blast
qed

interpretation icl: tracker_live icsm_obj icsm_range_obj "icsm_inv N" "\<lambda>c. ci_id c < N" icsm_rdy
  "\<lambda>c x. ci_id c = ci_id x" icsm_busy for N
proof
  fix m m' and cs and w :: "u32 list option res"
  assume inv: "icsm_inv N m" and cs: "cs \<noteq> []" "ids_consecutive cs" "\<forall>c \<in> set cs. ci_id c < N"
    and check: "rm_check_range_ready_and_mark_pending icsm_range_obj m (ci_id (hd cs)) (of_nat (length cs)) = (m', w)"
  note idx = icsm_indices [OF cs(2,3,1) inv]
  let ?ks = "range32 (ci_id (hd cs)) (ci_id (hd cs) + of_nat (length cs))"
  have "icm_inv (bsm_c m)"
    using inv by (simp add: icsm_inv_def)
  from icr.check_range_spec [OF this idx(1,2)] check
  have "w = Inr (if \<forall>k \<in> set ?ks. icm_rdy (bsm_c m) k then None
      else Some (filter (\<lambda>k. bsm_tracer m k = None \<and> \<not> icm_rdy (bsm_c m) k) ?ks))"
    by (auto simp: icsm_range_obj_def icsm_check_range_ready_and_mark_pending_def)
  then show "w = Inr None \<or> (\<exists>v. w = Inr (Some v) \<and> set v \<subseteq> ci_id ` set cs \<and>
      (\<forall>c \<in> set cs. \<not> icsm_rdy m c \<and> \<not> icsm_busy m c \<longrightarrow> ci_id c \<in> set v))"
    using ids_consecutive_image [OF cs(2,3,1)]
    by (auto simp: icsm_rdy_def icsm_busy_def simp del: set_range32 split: if_splits)
next
  fix m m' and cs and r :: "bool res"
  assume inv: "icsm_inv N m" and cs: "cs \<noteq> []" "ids_consecutive cs" "\<forall>c \<in> set cs. ci_id c < N"
    and ready: "\<forall>c \<in> set cs. icsm_rdy m c"
    and wait: "rm_wait_for_range_ready icsm_range_obj m (ci_id (hd cs)) (of_nat (length cs)) = (m', r)"
  note idx = icsm_indices [OF cs(2,3,1) inv]
  have "icm_inv (bsm_c m)"
    using inv by (simp add: icsm_inv_def)
  from icr.ready_range [OF this idx(1,2)] ready
  have "ro_is_range_ready icm_range_ops (bsm_c m) (ci_id (hd cs)) (of_nat (length cs)) = Inr True"
    unfolding ids_consecutive_image [OF cs(2,3,1)] by (simp add: icsm_rdy_def)
  then show "r = Inr True"
    using wait by (simp add: icsm_range_obj_def icsm_wait_for_range_ready_def rsm_wait_for_range_ready_def)
next
  fix cs and i
  assume cs: "ids_consecutive cs" "\<forall>c \<in> set cs. ci_id c < N" "i < length cs"
  show "unat (ci_id (cs ! i) - ci_id (hd cs)) = i"
    using ids_consecutive_nth [OF cs] by (simp add: unat_sub word_le_nat_alt)
next
  fix cs
  assume "ids_consecutive cs" "cs \<noteq> []" "\<forall>c \<in> set cs. ci_id c < N"
  then show "length cs < 2 ^ 32"
    using ids_consecutive_range(1) [of cs N] unat_lt2p32 [of N] by linarith
qed

end
