(* ===== verification/Prefetch_Workers.thy ===== *)
theory Prefetch_Workers
  imports Cached_File "HOL-Library.Multiset"
begin

text \<open>
  Prefetching in the background: the message queue \<open>Channel\<close> of \<open>utils/src/mpmc.rs\<close>, the worker
  threads \<open>AsyncWorkerMgr\<close> of \<open>storage/src/cache/worker.rs\<close>, and the methods of \<open>FileCacheEntry\<close>
  that talk to them. Caches are referred to by their place in a list, as the messages hold shared
  references to them. The semaphore of the async runtime is its number of permits. Of the rate
  limiter the code uses its maximum and its balance, which are parameters.
\<close>

section \<open>The channel\<close>

record 'a Channel =
  ch_closed :: bool
  ch_requests :: "'a list"

definition Channel_new :: "'a Channel" where
  "Channel_new = \<lparr>ch_closed = False, ch_requests = []\<rparr>"

definition Channel_close :: "'a Channel \<Rightarrow> 'a Channel" where
  "Channel_close ch = ch\<lparr>ch_closed := True\<rparr>"

definition Channel_push :: "'a Channel \<Rightarrow> 'a \<Rightarrow> 'a Channel" where
  "Channel_push ch msg = ch\<lparr>ch_requests := ch_requests ch @ [msg]\<rparr>"

text \<open>The message comes back when the channel is closed.\<close>

definition Channel_send :: "'a Channel \<Rightarrow> 'a \<Rightarrow> 'a Channel \<times> ('a + unit)" where
  "Channel_send ch msg = (if ch_closed ch then (ch, Inl msg) else (Channel_push ch msg, Inr ()))"

definition Channel_try_recv :: "'a Channel \<Rightarrow> 'a Channel \<times> 'a option" where
  "Channel_try_recv ch =
     (case ch_requests ch of [] \<Rightarrow> (ch, None) | m # ms \<Rightarrow> (ch\<lparr>ch_requests := ms\<rparr>, Some m))"

text \<open>One round of \<open>recv\<close>; without a result the receiver waits for a notification and tries again.\<close>

definition Channel_recv :: "'a Channel \<Rightarrow> 'a Channel \<times> 'a res option" where
  "Channel_recv ch =
     (case Channel_try_recv ch of
        (ch, Some msg) \<Rightarrow> (ch, Some (Inr msg))
      | (ch, None) \<Rightarrow> (ch, if ch_closed ch then Some (Inl EPIPE) else None))"

definition Channel_flush :: "'a Channel \<Rightarrow> ('a \<Rightarrow> bool) \<Rightarrow> 'a Channel" where
  "Channel_flush ch f = ch\<lparr>ch_requests := filter (\<lambda>t. \<not> f t) (ch_requests ch)\<rparr>"

section \<open>The manager\<close>

record AsyncPrefetchConfig =
  pc_enable :: bool
  pc_threads_count :: nat
  pc_merging_size :: usize
  pc_bandwidth_rate :: u32

datatype AsyncPrefetchMessage =
    BlobPrefetch nat u64 u64
  | FsPrefetch nat BlobIoRange
  | Ping
  | RateLimiter u64

text \<open>The limiter is kept as the initial and refill amounts it was built with.\<close>

record AsyncWorkerMgr =
  aw_ping_requests :: u32
  aw_workers :: u32
  aw_active :: bool
  aw_permits :: nat
  aw_channel :: "AsyncPrefetchMessage Channel"
  aw_config :: AsyncPrefetchConfig
  aw_delayed :: u64
  aw_inflight :: u32
  aw_consumed :: usize
  aw_limiter :: "(usize \<times> usize) option"

definition AsyncWorkerMgr_new :: "AsyncPrefetchConfig \<Rightarrow> AsyncWorkerMgr" where
  "AsyncWorkerMgr_new cfg =
     \<lparr>aw_ping_requests = 0, aw_workers = 0, aw_active = False, aw_permits = 0, aw_channel = Channel_new,
      aw_config = cfg, aw_delayed = 0, aw_inflight = 0, aw_consumed = 0,
      aw_limiter = (if pc_bandwidth_rate cfg = 0 then None
                    else let limit = max RAFS_MAX_CHUNK_SIZE (ucast (pc_bandwidth_rate cfg))
                         in Some (limit, limit div 10))\<rparr>"

text \<open>What \<open>stop\<close> does before it waits for the number of workers to become 0.\<close>

definition aw_stop :: "AsyncWorkerMgr \<Rightarrow> AsyncWorkerMgr" where
  "aw_stop mgr =
     (if aw_active mgr then mgr\<lparr>aw_active := False, aw_channel := Channel_close (aw_channel mgr)\<rparr> else mgr)"

definition send_prefetch_message ::
  "AsyncWorkerMgr \<Rightarrow> AsyncPrefetchMessage \<Rightarrow> AsyncWorkerMgr \<times> (AsyncPrefetchMessage + unit)" where
  "send_prefetch_message mgr msg =
     (if \<not> pc_enable (aw_config mgr) then (mgr, Inl msg)
      else
        let mgr = mgr\<lparr>aw_inflight := aw_inflight mgr + 1\<rparr>;
            (ch, r) = Channel_send (aw_channel mgr) msg
        in (mgr\<lparr>aw_channel := ch\<rparr>, r))"

text \<open>The requests to drop: those of caches for the blob whose prefetch is not active.\<close>

fun flush_matches :: "'m FileCacheEntry list \<Rightarrow> string \<Rightarrow> AsyncPrefetchMessage \<Rightarrow> bool" where
  "flush_matches caches blob_id (BlobPrefetch k _ _) =
     (blob_id = fe_blob_id (caches ! k) \<and> \<not> is_prefetch_active (caches ! k))"
| "flush_matches caches blob_id (FsPrefetch k _) =
     (blob_id = fe_blob_id (caches ! k) \<and> \<not> is_prefetch_active (caches ! k))"
| "flush_matches caches blob_id _ = False"

definition flush_pending_prefetch_requests ::
  "'m FileCacheEntry list \<Rightarrow> AsyncWorkerMgr \<Rightarrow> string \<Rightarrow> AsyncWorkerMgr" where
  "flush_pending_prefetch_requests caches mgr blob_id =
     mgr\<lparr>aw_channel := Channel_flush (aw_channel mgr) (flush_matches caches blob_id)\<rparr>"

definition consume_prefetch_budget :: "AsyncWorkerMgr \<Rightarrow> u32 \<Rightarrow> AsyncWorkerMgr" where
  "consume_prefetch_budget mgr size' =
     (if aw_inflight mgr > 0 then mgr\<lparr>aw_consumed := aw_consumed mgr + ucast size'\<rparr> else mgr)"

definition saturating_add :: "'a::len word \<Rightarrow> 'a word \<Rightarrow> 'a word" where
  "saturating_add a b = (case checked_add a b of None \<Rightarrow> -1 | Some c \<Rightarrow> c)"

fun limited_size :: "'m FileCacheEntry list \<Rightarrow> AsyncPrefetchMessage \<Rightarrow> u64" where
  "limited_size caches (BlobPrefetch k _ size') = (if is_prefetch_active (caches ! k) then size' else 0)"
| "limited_size caches (FsPrefetch k req) = (if is_prefetch_active (caches ! k) then r_blob_size req else 0)"
| "limited_size caches Ping = 0"
| "limited_size caches (RateLimiter size') = size'"

text \<open>With the amount to acquire from the limiter before going on, if any.\<close>

definition handle_prefetch_rate_limit ::
  "'m FileCacheEntry list \<Rightarrow> usize \<Rightarrow> usize \<Rightarrow> AsyncWorkerMgr \<Rightarrow> AsyncPrefetchMessage
    \<Rightarrow> AsyncWorkerMgr \<times> usize option" where
  "handle_prefetch_rate_limit caches max' balance mgr msg =
     (if aw_limiter mgr = None then (mgr, None)
      else
        let size' = limited_size caches msg
        in if size' > 0 then
             let size' = saturating_add (aw_consumed mgr) size';
                 mgr = mgr\<lparr>aw_consumed := 0\<rparr>;
                 size' = min size' (saturating_add max' max');
                 mgr = (if balance < size' then mgr\<lparr>aw_delayed := aw_delayed mgr + 1\<rparr> else mgr)
             in (mgr, Some size')
           else (mgr, None))"

section \<open>Handling requests\<close>

text \<open>With the flag whether the request is to be sent again after a second.\<close>

definition handle_blob_prefetch_request ::
  "'m chunk_map_obj \<Rightarrow> 'm FileCacheEntry \<Rightarrow> u64 \<Rightarrow> u64 \<Rightarrow> 'm FileCacheEntry \<times> bool \<times> unit res" where
  "handle_blob_prefetch_request ops e offset size' =
     (if size' = 0 then (e, False, Inr ())
      else case get_blob_object e of
        None \<Rightarrow> (e, False, Inr ())
      | Some obj \<Rightarrow>
          (let (e, r) = fetch_range_compressed ops obj offset size'
           in case r of
                Inr _ \<Rightarrow> (e, False, Inr ())
              | Inl err \<Rightarrow> if err = Panic then (e, False, Inl Panic) else (e, True, Inr ())))"

definition handle_fs_prefetch_request ::
  "'m chunk_map_obj \<Rightarrow> 'm FileCacheEntry \<Rightarrow> BlobIoRange \<Rightarrow> 'm FileCacheEntry \<times> unit res" where
  "handle_fs_prefetch_request ops e req =
     (if r_blob_size req = 0 then (e, Inr ())
      else case get_blob_object e of
        Some obj \<Rightarrow> prefetch_chunks ops obj req
      | None \<Rightarrow> (let (e, r) = prefetch_range ops e req in (e, and_then r (\<lambda>_. Inr ()))))"

section \<open>The methods of the entry\<close>

text \<open>The entry is \<open>caches ! k\<close>; the flush looks at its state after the loop.\<close>

definition stop_prefetch ::
  "'m FileCacheEntry list \<Rightarrow> AsyncWorkerMgr \<Rightarrow> nat \<Rightarrow> 'm FileCacheEntry list \<times> AsyncWorkerMgr \<times> unit res" where
  "stop_prefetch caches mgr k =
     (let e = caches ! k;
          caches = caches[k := e\<lparr>fe_prefetch_state := stop_prefetch_loop (fe_prefetch_state e)\<rparr>]
      in (caches, flush_pending_prefetch_requests caches mgr (fe_blob_id e), Inr ()))"

record BlobPrefetchRequest =
  pr_blob_id :: string
  pr_offset :: u64
  pr_len :: u64

text \<open>Messages that cannot be sent are dropped.\<close>

definition send_all :: "AsyncWorkerMgr \<Rightarrow> AsyncPrefetchMessage list \<Rightarrow> AsyncWorkerMgr" where
  "send_all mgr msgs = foldl (\<lambda>mgr msg. fst (send_prefetch_message mgr msg)) mgr msgs"

definition FileCacheEntry_prefetch ::
  "'m FileCacheEntry list \<Rightarrow> AsyncWorkerMgr \<Rightarrow> nat \<Rightarrow> BlobPrefetchRequest list \<Rightarrow> BlobIoDesc list
    \<Rightarrow> AsyncWorkerMgr \<times> usize res" where
  "FileCacheEntry_prefetch caches mgr k prefetches bios =
     (let mgr = send_all mgr (map (\<lambda>req. BlobPrefetch k (pr_offset req) (pr_len req)) prefetches);
          max_comp_size = prefetch_batch_size (caches ! k);
          bios = sort_key (\<lambda>entry. ci_compressed_offset (d_chunkinfo entry)) bios
      in case merge_and_issue bios max_comp_size (drop_bit RAFS_MERGING_SIZE_TO_GAP_SHIFT max_comp_size) of
           Inl err \<Rightarrow> (mgr, Inl err)
         | Inr reqs \<Rightarrow> (send_all mgr (map (FsPrefetch k) reqs), Inr 0))"

section \<open>Threads\<close>

text \<open>
  The system of senders, worker threads and spawned tasks at the granularity of atomic accesses. A
  sender has counted its message, and then found the channel open. A worker is between two calls of
  its loop. \<open>ws_tasks\<close> are the spawned requests, each with a permit; \<open>ws_timers\<close> those to be sent
  again. The last four fields record the history: messages that were queued, taken from the queue,
  flushed, and refused by the closed channel.
\<close>

datatype sender = Counted AsyncPrefetchMessage | Checked AsyncPrefetchMessage

datatype worker_thread =
    Starting
  | Receiving
  | Limiting AsyncPrefetchMessage
  | Acquiring AsyncPrefetchMessage
  | Holding AsyncPrefetchMessage
  | Finishing
  | Exited

record 'm worker_sys =
  ws_mgr :: AsyncWorkerMgr
  ws_caches :: "'m FileCacheEntry list"
  ws_threads :: "worker_thread list"
  ws_senders :: "sender multiset"
  ws_tasks :: "AsyncPrefetchMessage multiset"
  ws_timers :: "AsyncPrefetchMessage multiset"
  ws_queued :: "AsyncPrefetchMessage multiset"
  ws_received :: "AsyncPrefetchMessage multiset"
  ws_flushed :: "AsyncPrefetchMessage multiset"
  ws_refused :: "AsyncPrefetchMessage multiset"

text \<open>
  \<open>start_prefetch_workers\<close> when \<open>n\<close> threads can be created: with fewer than wanted the channel is
  closed and \<open>stop\<close> called. The channel is locked meanwhile, so that no thread has received anything.
\<close>

definition start_prefetch_workers ::
  "nat \<Rightarrow> AsyncWorkerMgr \<Rightarrow> AsyncWorkerMgr \<times> worker_thread list \<times> unit res" where
  "start_prefetch_workers n mgr =
     (if pc_threads_count (aw_config mgr) \<le> n
      then (mgr\<lparr>aw_active := True\<rparr>, replicate (pc_threads_count (aw_config mgr)) Starting, Inr ())
      else (aw_stop (mgr\<lparr>aw_channel := Channel_close (aw_channel mgr)\<rparr>), replicate n Starting, Inl EOTHER))"

definition aw_start :: "nat \<Rightarrow> AsyncWorkerMgr \<Rightarrow> AsyncWorkerMgr \<times> worker_thread list \<times> unit res" where
  "aw_start n mgr = (if pc_enable (aw_config mgr) then start_prefetch_workers n mgr else (mgr, [], Inr ()))"

definition worker_sys_init :: "AsyncPrefetchConfig \<Rightarrow> 'm FileCacheEntry list \<Rightarrow> nat \<Rightarrow> 'm worker_sys" where
  "worker_sys_init cfg caches n =
     (let (mgr, threads, _) = aw_start n (AsyncWorkerMgr_new cfg)
      in \<lparr>ws_mgr = mgr, ws_caches = caches, ws_threads = threads, ws_senders = {#}, ws_tasks = {#},
          ws_timers = {#}, ws_queued = {#}, ws_received = {#}, ws_flushed = {#}, ws_refused = {#}\<rparr>)"

fun message_active :: "'m FileCacheEntry list \<Rightarrow> AsyncPrefetchMessage \<Rightarrow> bool" where
  "message_active caches (BlobPrefetch k _ _) = is_prefetch_active (caches ! k)"
| "message_active caches (FsPrefetch k _) = is_prefetch_active (caches ! k)"
| "message_active caches _ = False"

text \<open>The spawned closure, with the messages to send again.\<close>

fun run_task ::
  "'m chunk_map_obj \<Rightarrow> 'm FileCacheEntry list \<Rightarrow> AsyncPrefetchMessage
    \<Rightarrow> 'm FileCacheEntry list \<times> AsyncPrefetchMessage multiset" where
  "run_task ops caches (BlobPrefetch k offset size') =
     (let (e, again, _) = handle_blob_prefetch_request ops (caches ! k) offset size'
      in (caches[k := e], if again then {#BlobPrefetch k offset size'#} else {#}))"
| "run_task ops caches (FsPrefetch k req) =
     (caches[k := fst (handle_fs_prefetch_request ops (caches ! k) req)], {#})"
| "run_task ops caches _ = (caches, {#})"

fun needs_permit :: "AsyncPrefetchMessage \<Rightarrow> bool" where
  "needs_permit (BlobPrefetch _ _ _) = True"
| "needs_permit (FsPrefetch _ _) = True"
| "needs_permit _ = False"

text \<open>The short branches of the \<open>match\<close> in \<open>handle_prefetch_requests\<close>.\<close>

fun handle_simple :: "AsyncWorkerMgr \<Rightarrow> AsyncPrefetchMessage \<Rightarrow> AsyncWorkerMgr" where
  "handle_simple mgr Ping = mgr\<lparr>aw_ping_requests := aw_ping_requests mgr + 1\<rparr>"
| "handle_simple mgr _ = mgr"

definition set_mgr :: "'m worker_sys \<Rightarrow> AsyncWorkerMgr \<Rightarrow> 'm worker_sys" where
  "set_mgr s mgr = s\<lparr>ws_mgr := mgr\<rparr>"

definition set_thread :: "'m worker_sys \<Rightarrow> nat \<Rightarrow> worker_thread \<Rightarrow> 'm worker_sys" where
  "set_thread s i t = s\<lparr>ws_threads := (ws_threads s)[i := t]\<rparr>"

abbreviation thread_at :: "'m worker_sys \<Rightarrow> nat \<Rightarrow> worker_thread \<Rightarrow> bool" where
  "thread_at s i t \<equiv> i < length (ws_threads s) \<and> ws_threads s ! i = t"

inductive aw_step :: "'m chunk_map_obj \<Rightarrow> 'm worker_sys \<Rightarrow> 'm worker_sys \<Rightarrow> bool" for ops where
  send_count:
    "pc_enable (aw_config (ws_mgr s)) \<Longrightarrow>
     aw_step ops s ((set_mgr s ((ws_mgr s)\<lparr>aw_inflight := aw_inflight (ws_mgr s) + 1\<rparr>))
       \<lparr>ws_senders := add_mset (Counted msg) (ws_senders s)\<rparr>)"
| send_again:
    "msg \<in># ws_timers s \<Longrightarrow> pc_enable (aw_config (ws_mgr s)) \<Longrightarrow>
     aw_step ops s ((set_mgr s ((ws_mgr s)\<lparr>aw_inflight := aw_inflight (ws_mgr s) + 1\<rparr>))
       \<lparr>ws_senders := add_mset (Counted msg) (ws_senders s), ws_timers := ws_timers s - {#msg#}\<rparr>)"
| send_refused:
    "Counted msg \<in># ws_senders s \<Longrightarrow> ch_closed (aw_channel (ws_mgr s)) \<Longrightarrow>
     aw_step ops s (s\<lparr>ws_senders := ws_senders s - {#Counted msg#}, ws_refused := add_mset msg (ws_refused s)\<rparr>)"
| send_open:
    "Counted msg \<in># ws_senders s \<Longrightarrow> \<not> ch_closed (aw_channel (ws_mgr s)) \<Longrightarrow>
     aw_step ops s (s\<lparr>ws_senders := add_mset (Checked msg) (ws_senders s - {#Counted msg#})\<rparr>)"
| send_push:
    "Checked msg \<in># ws_senders s \<Longrightarrow>
     aw_step ops s ((set_mgr s ((ws_mgr s)\<lparr>aw_channel := Channel_push (aw_channel (ws_mgr s)) msg\<rparr>))
       \<lparr>ws_senders := ws_senders s - {#Checked msg#}, ws_queued := add_mset msg (ws_queued s)\<rparr>)"
| flush:
    "aw_step ops s ((set_mgr s (flush_pending_prefetch_requests (ws_caches s) (ws_mgr s) blob_id))
       \<lparr>ws_flushed := ws_flushed s +
          filter_mset (flush_matches (ws_caches s) blob_id) (mset (ch_requests (aw_channel (ws_mgr s))))\<rparr>)"
| cache_change:
    "length caches = length (ws_caches s) \<Longrightarrow> aw_step ops s (s\<lparr>ws_caches := caches\<rparr>)"
| user_read:
    "aw_step ops s (set_mgr s (consume_prefetch_budget (ws_mgr s) size'))"
| stop:
    "aw_step ops s (set_mgr s (aw_stop (ws_mgr s)))"
| thread_start:
    "thread_at s i Starting \<Longrightarrow>
     aw_step ops s (set_thread (set_mgr s ((ws_mgr s)\<lparr>aw_workers := aw_workers (ws_mgr s) + 1,
       aw_permits := aw_permits (ws_mgr s) + 1\<rparr>)) i Receiving)"
| thread_receive:
    "thread_at s i Receiving \<Longrightarrow> Channel_recv (aw_channel (ws_mgr s)) = (ch, Some (Inr msg)) \<Longrightarrow>
     aw_step ops s ((set_thread (set_mgr s ((ws_mgr s)\<lparr>aw_channel := ch\<rparr>)) i (Limiting msg))
       \<lparr>ws_received := add_mset msg (ws_received s)\<rparr>)"
| thread_exit:
    "thread_at s i Receiving \<Longrightarrow> Channel_recv (aw_channel (ws_mgr s)) = (ch, Some (Inl err)) \<Longrightarrow>
     aw_step ops s (set_thread (set_mgr s ((ws_mgr s)\<lparr>aw_workers := aw_workers (ws_mgr s) - 1\<rparr>)) i Exited)"
| thread_limit:
    "thread_at s i (Limiting msg) \<Longrightarrow>
     handle_prefetch_rate_limit (ws_caches s) max' balance (ws_mgr s) msg = (mgr, acquired) \<Longrightarrow>
     aw_step ops s (set_thread (set_mgr s mgr) i (Acquiring msg))"
| thread_simple:
    "thread_at s i (Acquiring msg) \<Longrightarrow> \<not> needs_permit msg \<Longrightarrow>
     aw_step ops s (set_thread (set_mgr s (handle_simple (ws_mgr s) msg)) i Finishing)"
| thread_acquire:
    "thread_at s i (Acquiring msg) \<Longrightarrow> needs_permit msg \<Longrightarrow> aw_permits (ws_mgr s) = Suc n \<Longrightarrow>
     aw_step ops s (set_thread (set_mgr s ((ws_mgr s)\<lparr>aw_permits := n\<rparr>)) i (Holding msg))"
| thread_spawn:
    "thread_at s i (Holding msg) \<Longrightarrow> message_active (ws_caches s) msg \<Longrightarrow>
     aw_step ops s ((set_thread s i Finishing)\<lparr>ws_tasks := add_mset msg (ws_tasks s)\<rparr>)"
| thread_skip:
    "thread_at s i (Holding msg) \<Longrightarrow> \<not> message_active (ws_caches s) msg \<Longrightarrow>
     aw_step ops s (set_thread (set_mgr s ((ws_mgr s)\<lparr>aw_permits := aw_permits (ws_mgr s) + 1\<rparr>)) i Finishing)"
| thread_finish:
    "thread_at s i Finishing \<Longrightarrow>
     aw_step ops s (set_thread (set_mgr s ((ws_mgr s)\<lparr>aw_inflight := aw_inflight (ws_mgr s) - 1\<rparr>)) i Receiving)"
| task_run:
    "msg \<in># ws_tasks s \<Longrightarrow> run_task ops (ws_caches s) msg = (caches, again) \<Longrightarrow>
     aw_step ops s ((set_mgr s ((ws_mgr s)\<lparr>aw_permits := aw_permits (ws_mgr s) + 1\<rparr>))
       \<lparr>ws_caches := caches, ws_tasks := ws_tasks s - {#msg#}, ws_timers := ws_timers s + again\<rparr>)"

inductive aw_reach :: "'m chunk_map_obj \<Rightarrow> 'm worker_sys \<Rightarrow> 'm worker_sys \<Rightarrow> bool" for ops s where
  aw_refl: "aw_reach ops s s"
| aw_next: "aw_reach ops s t \<Longrightarrow> aw_step ops t u \<Longrightarrow> aw_reach ops s u"

section \<open>What the threads keep\<close>

definition counting :: "(worker_thread \<Rightarrow> bool) \<Rightarrow> 'm worker_sys \<Rightarrow> nat" where
  "counting P s = length (filter P (ws_threads s))"

fun thread_busy :: "worker_thread \<Rightarrow> bool" where
  "thread_busy (Limiting _) = True"
| "thread_busy (Acquiring _) = True"
| "thread_busy (Holding _) = True"
| "thread_busy Finishing = True"
| "thread_busy _ = False"

fun thread_holding :: "worker_thread \<Rightarrow> bool" where
  "thread_holding (Holding _) = True"
| "thread_holding _ = False"

abbreviation thread_started :: "worker_thread \<Rightarrow> bool" where
  "thread_started t \<equiv> t \<noteq> Starting"

lemma filter_update:
  "i < length ts \<Longrightarrow> length (filter P (ts[i := x])) + (if P (ts ! i) then 1 else 0) =
     length (filter P ts) + (if P x then 1 else 0)"
proof (induction ts arbitrary: i)
  case (Cons t ts)
  then show ?case by (cases i) auto
qed simp

lemma counting_set_thread [simp]:
  "thread_at s i t \<Longrightarrow> counting P (set_thread s i x) =
     (if P x then counting P s + (if P t then 0 else 1) else counting P s - (if P t then 1 else 0))"
  using filter_update [of i "ws_threads s" P x]
  by (auto simp: counting_def set_thread_def split: if_splits)

lemma counting_pos: "thread_at s i t \<Longrightarrow> P t \<Longrightarrow> 0 < counting P s"
  using nth_mem [of i "ws_threads s"] by (auto simp: counting_def filter_empty_conv)

lemma counting_other [simp]:
  "counting P (set_mgr s mgr) = counting P s" "counting P (s\<lparr>ws_senders := S\<rparr>) = counting P s"
  "counting P (s\<lparr>ws_tasks := M\<rparr>) = counting P s" "counting P (s\<lparr>ws_timers := M\<rparr>) = counting P s"
  "counting P (s\<lparr>ws_caches := caches\<rparr>) = counting P s" "counting P (s\<lparr>ws_queued := M\<rparr>) = counting P s"
  "counting P (s\<lparr>ws_received := M\<rparr>) = counting P s" "counting P (s\<lparr>ws_flushed := M\<rparr>) = counting P s"
  "counting P (s\<lparr>ws_refused := M\<rparr>) = counting P s"
  by (simp_all add: counting_def set_mgr_def)

lemma set_mgr_simps [simp]:
  "ws_mgr (set_mgr s mgr) = mgr" "ws_threads (set_mgr s mgr) = ws_threads s"
  "ws_senders (set_mgr s mgr) = ws_senders s" "ws_tasks (set_mgr s mgr) = ws_tasks s"
  "ws_caches (set_mgr s mgr) = ws_caches s" "ws_queued (set_mgr s mgr) = ws_queued s"
  "ws_received (set_mgr s mgr) = ws_received s" "ws_flushed (set_mgr s mgr) = ws_flushed s"
  "ws_refused (set_mgr s mgr) = ws_refused s" "ws_timers (set_mgr s mgr) = ws_timers s"
  by (simp_all add: set_mgr_def)

lemma set_thread_simps [simp]:
  "ws_mgr (set_thread s i t) = ws_mgr s" "length (ws_threads (set_thread s i t)) = length (ws_threads s)"
  "ws_senders (set_thread s i t) = ws_senders s" "ws_tasks (set_thread s i t) = ws_tasks s"
  "ws_queued (set_thread s i t) = ws_queued s" "ws_received (set_thread s i t) = ws_received s"
  "ws_flushed (set_thread s i t) = ws_flushed s" "ws_refused (set_thread s i t) = ws_refused s"
  by (simp_all add: set_thread_def)

lemma rate_limit_frame:
  assumes "handle_prefetch_rate_limit caches max' balance mgr msg = (mgr', acquired)"
  shows "aw_permits mgr' = aw_permits mgr \<and> aw_inflight mgr' = aw_inflight mgr \<and>
    aw_channel mgr' = aw_channel mgr \<and> aw_workers mgr' = aw_workers mgr \<and> aw_config mgr' = aw_config mgr"
  using assms by (auto simp: handle_prefetch_rate_limit_def Let_def split: if_splits)

lemma mgr_frames [simp]:
  "aw_permits (consume_prefetch_budget mgr n) = aw_permits mgr"
  "aw_inflight (consume_prefetch_budget mgr n) = aw_inflight mgr"
  "aw_channel (consume_prefetch_budget mgr n) = aw_channel mgr"
  "aw_permits (aw_stop mgr) = aw_permits mgr" "aw_inflight (aw_stop mgr) = aw_inflight mgr"
  "ch_requests (aw_channel (aw_stop mgr)) = ch_requests (aw_channel mgr)"
  "aw_permits (flush_pending_prefetch_requests caches mgr b) = aw_permits mgr"
  "aw_inflight (flush_pending_prefetch_requests caches mgr b) = aw_inflight mgr"
  "aw_permits (handle_simple mgr msg) = aw_permits mgr" "aw_inflight (handle_simple mgr msg) = aw_inflight mgr"
  "aw_channel (handle_simple mgr msg) = aw_channel mgr"
  by (cases msg; simp add: consume_prefetch_budget_def aw_stop_def Channel_close_def
      flush_pending_prefetch_requests_def)+

lemma channel_ops [simp]:
  "ch_requests (Channel_push ch msg) = ch_requests ch @ [msg]"
  "mset (ch_requests (aw_channel (flush_pending_prefetch_requests caches mgr b))) =
     filter_mset (\<lambda>t. \<not> flush_matches caches b t) (mset (ch_requests (aw_channel mgr)))"
  by (simp_all add: Channel_push_def flush_pending_prefetch_requests_def Channel_flush_def)

lemma Channel_recv_msg:
  "Channel_recv ch = (ch', Some (Inr msg)) \<Longrightarrow> ch_requests ch = msg # ch_requests ch'"
  by (auto simp: Channel_recv_def Channel_try_recv_def split: list.splits if_splits)

text \<open>Permits are neither lost nor made.\<close>

definition permits_inv :: "'m worker_sys \<Rightarrow> bool" where
  "permits_inv s \<longleftrightarrow>
     aw_permits (ws_mgr s) + size (ws_tasks s) + counting thread_holding s = counting thread_started s"

lemma permits_step: "aw_step ops s t \<Longrightarrow> permits_inv s \<Longrightarrow> permits_inv t"
proof (induction rule: aw_step.induct)
  case (thread_spawn s i msg)
  then show ?case
    using counting_pos [of i s "Holding msg" thread_holding] by (simp add: permits_inv_def)
next
  case (thread_skip s i msg)
  then show ?case
    using counting_pos [of i s "Holding msg" thread_holding] by (simp add: permits_inv_def)
next
  case (task_run msg s caches again)
  then show ?case
    by (auto simp: permits_inv_def size_Diff_singleton dest: multi_member_split)
next
  case (thread_limit s i msg max' balance mgr acquired)
  then show ?case
    by (auto simp: permits_inv_def dest: rate_limit_frame)
qed (auto simp: permits_inv_def)

text \<open>The counter of outstanding requests also counts those that were refused or flushed.\<close>

definition inflight_total :: "'m worker_sys \<Rightarrow> nat" where
  "inflight_total s = size (ws_senders s) + length (ch_requests (aw_channel (ws_mgr s))) + counting thread_busy s"

definition inflight_inv :: "'m worker_sys \<Rightarrow> bool" where
  "inflight_inv s \<longleftrightarrow>
     aw_inflight (ws_mgr s) = of_nat (inflight_total s + size (ws_refused s) + size (ws_flushed s))"

lemma size_filter_split: "size (filter_mset P M) + size (filter_mset (\<lambda>x. \<not> P x) M) = size M"
  by (metis multiset_partition size_union)

lemma inflight_step: "aw_step ops s t \<Longrightarrow> inflight_inv s \<Longrightarrow> inflight_inv t"
proof (induction rule: aw_step.induct)
  case (send_refused msg s)
  then show ?case
    by (auto simp: inflight_inv_def inflight_total_def dest: multi_member_split)
next
  case (send_open msg s)
  then show ?case
    by (auto simp: inflight_inv_def inflight_total_def dest: multi_member_split)
next
  case (send_push msg s)
  then show ?case
    by (auto simp: inflight_inv_def inflight_total_def dest: multi_member_split)
next
  case (flush s blob_id)
  let ?q = "mset (ch_requests (aw_channel (ws_mgr s)))" and ?P = "flush_matches (ws_caches s) blob_id"
  have "length (ch_requests (aw_channel (flush_pending_prefetch_requests (ws_caches s) (ws_mgr s) blob_id))) +
      size (filter_mset ?P ?q) = size ?q"
    using size_filter_split [of ?P ?q]
    by (metis add.commute channel_ops(2) size_mset)
  then have "inflight_total s + size (ws_refused s) + size (ws_flushed s) =
      size (ws_senders s) + length (ch_requests (aw_channel (flush_pending_prefetch_requests (ws_caches s) (ws_mgr s) blob_id)))
      + counting thread_busy s + size (ws_refused s) + (size (ws_flushed s) + size (filter_mset ?P ?q))"
    by (simp add: inflight_total_def)
  with flush show ?case
    unfolding inflight_inv_def by (simp add: inflight_total_def)
next
  case (thread_receive s i ch msg)
  then show ?case
    using Channel_recv_msg [OF thread_receive(2)] by (simp add: inflight_inv_def inflight_total_def)
next
  case (thread_finish s i)
  then obtain n where "counting thread_busy s = Suc n"
    using counting_pos [of i s Finishing thread_busy] gr0_conv_Suc by auto
  with thread_finish show ?case
    by (simp add: inflight_inv_def inflight_total_def)
next
  case (thread_limit s i msg max' balance mgr acquired)
  then show ?case
    using rate_limit_frame [OF thread_limit(2)] counting_pos [of i s "Limiting msg" thread_busy]
    by (simp add: inflight_inv_def inflight_total_def)
qed (auto simp: inflight_inv_def inflight_total_def)

text \<open>No message is lost or handled twice.\<close>

definition messages_inv :: "'m worker_sys \<Rightarrow> bool" where
  "messages_inv s \<longleftrightarrow>
     ws_queued s = ws_received s + ws_flushed s + mset (ch_requests (aw_channel (ws_mgr s)))"

lemma messages_step: "aw_step ops s t \<Longrightarrow> messages_inv s \<Longrightarrow> messages_inv t"
proof (induction rule: aw_step.induct)
  case (flush s blob_id)
  then show ?case
    using multiset_partition [of "mset (ch_requests (aw_channel (ws_mgr s)))" "flush_matches (ws_caches s) blob_id"]
    by (simp add: messages_inv_def)
next
  case (thread_receive s i ch msg)
  then show ?case
    using Channel_recv_msg [OF thread_receive(2)] by (simp add: messages_inv_def)
next
  case (thread_limit s i msg max' balance mgr acquired)
  then show ?case
    using rate_limit_frame [OF thread_limit(2)] by (simp add: messages_inv_def)
qed (auto simp: messages_inv_def)

lemma threads_step: "aw_step ops s t \<Longrightarrow> length (ws_threads t) = length (ws_threads s)"
  by (induction rule: aw_step.induct) simp_all

lemma worker_sys_init_invs:
  "permits_inv (worker_sys_init cfg caches n)" "inflight_inv (worker_sys_init cfg caches n)"
  "messages_inv (worker_sys_init cfg caches n)"
  "length (ws_threads (worker_sys_init cfg caches n)) \<le> pc_threads_count cfg"
  by (auto simp: worker_sys_init_def aw_start_def start_prefetch_workers_def AsyncWorkerMgr_new_def Let_def
      permits_inv_def inflight_inv_def inflight_total_def messages_inv_def counting_def Channel_new_def
      Channel_close_def aw_stop_def)

lemma reach_invs:
  "aw_reach ops (worker_sys_init cfg caches n) s \<Longrightarrow>
     permits_inv s \<and> inflight_inv s \<and> messages_inv s \<and> length (ws_threads s) \<le> pc_threads_count cfg"
  by (induction rule: aw_reach.induct)
    (auto simp: worker_sys_init_invs threads_step dest: permits_step inflight_step messages_step)

section \<open>Properties\<close>

text \<open>
  C12. The workers respect their limit. Whatever senders, readers and workers do and in whatever
  order, no more prefetch requests are executed at the same time than the configured number of
  threads, and every permit of the semaphore is free, with a worker, or with a running request.
\<close>

theorem prefetch_tasks_bounded:
  assumes "aw_reach ops (worker_sys_init cfg caches n) s"
  shows "size (ws_tasks s) \<le> pc_threads_count cfg \<and>
    aw_permits (ws_mgr s) + size (ws_tasks s) + counting thread_holding s = counting thread_started s"
proof -
  have "counting thread_started s \<le> length (ws_threads s)"
    by (simp add: counting_def)
  with reach_invs [OF assms] show ?thesis
    by (auto simp: permits_inv_def)
qed

text \<open>
  C13. Prefetch requests are accounted for. Every request that entered the queue was taken out by
  exactly one worker, was flushed, or is still in the queue; and the counter of outstanding requests
  is, modulo its width, the number of requests that are being sent, wait, or are in a worker's
  hands, plus those that were flushed or were sent after the channel was closed.
\<close>

theorem prefetch_accounting:
  assumes "aw_reach ops (worker_sys_init cfg caches n) s"
  shows "ws_queued s = ws_received s + ws_flushed s + mset (ch_requests (aw_channel (ws_mgr s))) \<and>
    aw_inflight (ws_mgr s) = of_nat (size (ws_senders s) + length (ch_requests (aw_channel (ws_mgr s))) +
      counting thread_busy s + size (ws_refused s) + size (ws_flushed s))"
  using reach_invs [OF assms] by (simp add: messages_inv_def inflight_inv_def inflight_total_def)

section \<open>An example\<close>

definition demo_worker_entry :: "u32 \<Rightarrow> (IndexedChunkMap, u32) BlobStateMap FileCacheEntry" where
  "demo_worker_entry state =
     \<lparr>fe_blob_id = ''blob'', fe_cache = demo_cache [], fe_chunk_map = demo_bsm, fe_file = [], fe_writes = [],
      fe_delayed = [], fe_is_get_blob_object_supported = True, fe_is_compressed = False,
      fe_is_direct_chunkmap = True, fe_dio_enabled = False, fe_batch_size = 0, fe_merging_size = 0,
      fe_prefetch_state = state\<rparr>"

definition demo_config :: AsyncPrefetchConfig where
  "demo_config = \<lparr>pc_enable = True, pc_threads_count = 1, pc_merging_size = 0, pc_bandwidth_rate = 0\<rparr>"

text \<open>One worker has started and one request has been sent.\<close>

lemma demo_queued:
  fixes state
  defines "s0 \<equiv> worker_sys_init demo_config [demo_worker_entry state] 1"
  defines "m \<equiv> (AsyncWorkerMgr_new demo_config)
     \<lparr>aw_active := True, aw_workers := 1, aw_permits := 1, aw_inflight := 1,
      aw_channel := \<lparr>ch_closed = False, ch_requests = [BlobPrefetch 0 0 1]\<rparr>\<rparr>"
  shows "aw_reach icsm_obj s0 (s0\<lparr>ws_mgr := m, ws_threads := [Receiving], ws_queued := {#BlobPrefetch 0 0 1#}\<rparr>)"
    (is "aw_reach _ _ ?t")
proof -
  let ?msg = "BlobPrefetch 0 0 1"
  note ev = set_mgr_def set_thread_def s0_def worker_sys_init_def aw_start_def start_prefetch_workers_def
    AsyncWorkerMgr_new_def demo_config_def Channel_new_def Let_def
  define s1 where "s1 = set_thread (set_mgr s0 ((ws_mgr s0)\<lparr>aw_workers := aw_workers (ws_mgr s0) + 1,
       aw_permits := aw_permits (ws_mgr s0) + 1\<rparr>)) 0 Receiving"
  define s2 where "s2 = (set_mgr s1 ((ws_mgr s1)\<lparr>aw_inflight := aw_inflight (ws_mgr s1) + 1\<rparr>))
       \<lparr>ws_senders := add_mset (Counted ?msg) (ws_senders s1)\<rparr>"
  define s3 where "s3 = s2\<lparr>ws_senders := add_mset (Checked ?msg) (ws_senders s2 - {#Counted ?msg#})\<rparr>"
  have t: "?t = (set_mgr s3 ((ws_mgr s3)\<lparr>aw_channel := Channel_push (aw_channel (ws_mgr s3)) ?msg\<rparr>))
       \<lparr>ws_senders := ws_senders s3 - {#Checked ?msg#}, ws_queued := add_mset ?msg (ws_queued s3)\<rparr>"
    by (simp add: s3_def s2_def s1_def m_def ev Channel_push_def)
  have "aw_step icsm_obj s0 s1"
    unfolding s1_def by (rule aw_step.thread_start) (simp add: ev)
  moreover have "aw_step icsm_obj s1 s2"
    unfolding s2_def by (rule aw_step.send_count) (simp add: s1_def ev)
  moreover have "aw_step icsm_obj s2 s3"
    unfolding s3_def by (rule aw_step.send_open) (simp_all add: s2_def s1_def ev)
  moreover have "aw_step icsm_obj s3 ?t"
    unfolding t by (rule aw_step.send_push) (simp add: s3_def)
  ultimately show ?thesis
    by (meson aw_refl aw_next)
qed

theorem prefetch_tasks_bounded_witness:
  "\<exists>s. aw_reach icsm_obj (worker_sys_init demo_config [demo_worker_entry 1] 1) s \<and>
     ws_tasks s = {#BlobPrefetch 0 0 1#} \<and> size (ws_tasks s) \<le> 1"
proof -
  let ?msg = "BlobPrefetch 0 0 1" and ?s0 = "worker_sys_init demo_config [demo_worker_entry 1] 1"
  obtain s where r: "aw_reach icsm_obj ?s0 s" and m: "aw_permits (ws_mgr s) = 1"
      "aw_channel (ws_mgr s) = \<lparr>ch_closed = False, ch_requests = [?msg]\<rparr>" "aw_limiter (ws_mgr s) = None"
    and s: "ws_threads s = [Receiving]" "ws_tasks s = {#}" "ws_caches s = [demo_worker_entry 1]"
    using demo_queued [of 1] that
    by (fastforce simp: worker_sys_init_def aw_start_def start_prefetch_workers_def AsyncWorkerMgr_new_def
        demo_config_def Let_def)
  define s1 where "s1 = (set_thread (set_mgr s ((ws_mgr s)\<lparr>aw_channel := \<lparr>ch_closed = False, ch_requests = []\<rparr>\<rparr>)) 0 (Limiting ?msg))
       \<lparr>ws_received := add_mset ?msg (ws_received s)\<rparr>"
  define s2 where "s2 = set_thread (set_mgr s1 (ws_mgr s1)) 0 (Acquiring ?msg)"
  define s3 where "s3 = set_thread (set_mgr s2 ((ws_mgr s2)\<lparr>aw_permits := 0\<rparr>)) 0 (Holding ?msg)"
  define s4 where "s4 = (set_thread s3 0 Finishing)\<lparr>ws_tasks := add_mset ?msg (ws_tasks s3)\<rparr>"
  note ev = set_mgr_def set_thread_def m s
  have "aw_step icsm_obj s s1"
    unfolding s1_def by (rule aw_step.thread_receive) (simp_all add: m s Channel_recv_def Channel_try_recv_def)
  moreover have "aw_step icsm_obj s1 s2"
    unfolding s2_def
    by (rule aw_step.thread_limit [where max' = 0 and balance = 0 and acquired = None])
      (simp_all add: s1_def ev handle_prefetch_rate_limit_def)
  moreover have "aw_step icsm_obj s2 s3"
    unfolding s3_def by (rule aw_step.thread_acquire) (simp_all add: s2_def s1_def ev)
  moreover have "aw_step icsm_obj s3 s4"
    unfolding s4_def
    by (rule aw_step.thread_spawn)
      (simp_all add: s3_def s2_def s1_def ev demo_worker_entry_def is_prefetch_active_def)
  ultimately have "aw_reach icsm_obj ?s0 s4"
    using r by (meson aw_next)
  moreover have "ws_tasks s4 = {#?msg#}"
    by (simp add: s4_def s3_def s2_def s1_def ev)
  ultimately show ?thesis
    using prefetch_tasks_bounded [of icsm_obj demo_config "[demo_worker_entry 1]" 1 s4]
    by (auto simp: demo_config_def)
qed

theorem prefetch_accounting_witness:
  "\<exists>s. aw_reach icsm_obj (worker_sys_init demo_config [demo_worker_entry 1] 1) s \<and>
     ws_queued s = {#BlobPrefetch 0 0 1#} \<and> ws_received s = {#} \<and> ws_flushed s = {#} \<and>
     mset (ch_requests (aw_channel (ws_mgr s))) = {#BlobPrefetch 0 0 1#} \<and> aw_inflight (ws_mgr s) = 1"
proof -
  obtain s where r: "aw_reach icsm_obj (worker_sys_init demo_config [demo_worker_entry 1] 1) s"
    and "ws_queued s = {#BlobPrefetch 0 0 1#}" "ws_received s = {#}" "ws_flushed s = {#}" "ws_refused s = {#}"
      "ws_senders s = {#}" "ws_threads s = [Receiving]" "ch_requests (aw_channel (ws_mgr s)) = [BlobPrefetch 0 0 1]"
    using demo_queued [of 1] that
    by (fastforce simp: worker_sys_init_def aw_start_def start_prefetch_workers_def AsyncWorkerMgr_new_def
        demo_config_def Let_def)
  with prefetch_accounting [OF r] show ?thesis
    by (intro exI [of _ s]) (simp add: counting_def)
qed

text \<open>
  Flushing prefetch requests leaves the counter of outstanding requests too high: once a request
  has been flushed it never returns to 0, even when nothing is queued and no worker has anything to
  do, and from then on every read of a user is charged to the prefetch budget.
\<close>

theorem flush_leaks_inflight:
  assumes "aw_reach ops (worker_sys_init cfg caches n) s" and "ws_flushed s \<noteq> {#}"
    and "inflight_total s + size (ws_refused s) + size (ws_flushed s) < 2 ^ 32"
  shows "aw_inflight (ws_mgr s) > 0 \<and>
    aw_consumed (consume_prefetch_budget (ws_mgr s) size') = aw_consumed (ws_mgr s) + ucast size'"
proof -
  have "aw_inflight (ws_mgr s) = of_nat (inflight_total s + size (ws_refused s) + size (ws_flushed s))"
    using reach_invs [OF assms(1)] by (simp add: inflight_inv_def)
  moreover have "unat (of_nat (inflight_total s + size (ws_refused s) + size (ws_flushed s)) :: u32) \<noteq> 0"
    using assms(2,3) by (subst unat_of_nat_less) auto
  ultimately have "aw_inflight (ws_mgr s) > 0"
    by (metis unat_0 word_gt_0)
  then show ?thesis
    by (simp add: consume_prefetch_budget_def)
qed

theorem flush_leaks_inflight_witness:
  "\<exists>s. aw_reach icsm_obj (worker_sys_init demo_config [demo_worker_entry 0] 1) s \<and>
     inflight_total s = 0 \<and> aw_inflight (ws_mgr s) > 0 \<and>
     aw_consumed (consume_prefetch_budget (ws_mgr s) 4096) = 4096"
proof -
  let ?msg = "BlobPrefetch 0 0 1" and ?s0 = "worker_sys_init demo_config [demo_worker_entry 0] 1"
  obtain s where r: "aw_reach icsm_obj ?s0 s" and m: "aw_consumed (ws_mgr s) = 0"
      "aw_channel (ws_mgr s) = \<lparr>ch_closed = False, ch_requests = [?msg]\<rparr>"
    and s: "ws_threads s = [Receiving]" "ws_senders s = {#}" "ws_caches s = [demo_worker_entry 0]"
      "ws_flushed s = {#}" "ws_refused s = {#}"
    using demo_queued [of 0] that
    by (fastforce simp: worker_sys_init_def aw_start_def start_prefetch_workers_def AsyncWorkerMgr_new_def
        demo_config_def Let_def)
  have match: "flush_matches (ws_caches s) ''blob'' ?msg"
    by (simp add: s demo_worker_entry_def is_prefetch_active_def)
  define t where "t = (set_mgr s (flush_pending_prefetch_requests (ws_caches s) (ws_mgr s) ''blob''))
       \<lparr>ws_flushed := ws_flushed s +
          filter_mset (flush_matches (ws_caches s) ''blob'') (mset (ch_requests (aw_channel (ws_mgr s))))\<rparr>"
  have "aw_step icsm_obj s t"
    unfolding t_def by (rule aw_step.flush)
  then have reach: "aw_reach icsm_obj ?s0 t"
    using r by (rule aw_next [rotated])
  have flushed: "ws_flushed t = {#?msg#}" and rest: "ws_refused t = {#}" "inflight_total t = 0"
      "aw_consumed (ws_mgr t) = 0"
    using match by (simp_all add: t_def s m inflight_total_def counting_def flush_pending_prefetch_requests_def
        Channel_flush_def set_mgr_def)
  show ?thesis
    using reach flush_leaks_inflight [OF reach, of 4096] flushed rest by auto
qed

text \<open>However often prefetching was started, one stop ends it, and drops the waiting requests of the blob.\<close>

lemma stop_prefetch_loop_0: "stop_prefetch_loop v = 0"
proof (induction v rule: stop_prefetch_loop.induct)
  case (1 v)
  then show ?case
    by (subst stop_prefetch_loop.simps) (auto simp: Let_def word_gt_0)
qed

lemma stop_prefetch_drains:
  assumes "k < length caches" and "stop_prefetch caches mgr k = (caches', mgr', r)"
  shows "\<not> is_prefetch_active (caches' ! k) \<and>
    (\<forall>offset size' req. BlobPrefetch k offset size' \<notin> set (ch_requests (aw_channel mgr')) \<and>
       FsPrefetch k req \<notin> set (ch_requests (aw_channel mgr')))"
  using assms
  by (auto simp: stop_prefetch_def Let_def is_prefetch_active_def stop_prefetch_loop_0
      flush_pending_prefetch_requests_def Channel_flush_def)

end
