(* ===== verification/Cached_Read.thy ===== *)
theory Cached_Read
  imports Cache_Coherence Prefetch_Workers
begin

text \<open>
  User reads through a cached file, the other half of \<open>storage/src/cache/cachedfile.rs\<close>: the chunks
  of a request are sorted into regions, read from the cache file or from the backend, and copied
  into user memory. User memory is a list of slices with a cursor, as in \<open>Mem_Cursor\<close>. Reading the
  cache file into user memory can be interrupted, fail or fall short: \<open>rd_preads\<close> lists the outcomes
  to come, after which every read is complete. A computation that does not return is \<open>None\<close>, since
  the copy loop depends on library code.
\<close>

section \<open>Regions\<close>

datatype RegionStatus = Init | Open | Committed

datatype RegionType = CacheFast | CacheSlow | Backend

definition RegionType_joinable :: "RegionType \<Rightarrow> RegionType \<Rightarrow> bool" where
  "RegionType_joinable t other \<longleftrightarrow> t = other"

record Region =
  rg_type :: RegionType
  rg_status :: RegionStatus
  rg_count :: u32
  rg_chunks :: "BlobChunkInfo list"
  rg_tags :: "bool list"
  rg_blob_address :: u64
  rg_blob_len :: u32
  rg_seg :: BlobIoSegment

definition Region_new :: "RegionType \<Rightarrow> Region" where
  "Region_new region_type =
     \<lparr>rg_type = region_type, rg_status = Init, rg_count = 0, rg_chunks = [], rg_tags = [],
      rg_blob_address = 0, rg_blob_len = 0, rg_seg = \<lparr>seg_offset = 0, seg_len = 0\<rparr>\<rparr>"

definition Region_with :: "Region \<Rightarrow> BlobChunkInfo list \<Rightarrow> Region res" where
  "Region_with region chunks =
     asserting (chunks \<noteq> [])
       (let blob_address = ci_compressed_offset (chunks ! 0);
            last' = chunks ! (length chunks - 1);
            sz = ci_compressed_offset last' - blob_address
        in asserting (sz < 0xFFFFFFFF)
             (Inr \<lparr>rg_type = rg_type region, rg_status = rg_status region, rg_count = of_nat (length chunks),
                   rg_chunks = chunks, rg_tags = replicate (length chunks) False,
                   rg_blob_address = blob_address, rg_blob_len = ucast sz + ci_compressed_size last',
                   rg_seg = rg_seg region\<rparr>))"

text \<open>The first part of \<open>append\<close>: the range of the region grows over the new chunk.\<close>

definition Region_grow :: "Region \<Rightarrow> u64 \<Rightarrow> u32 \<Rightarrow> Region res" where
  "Region_grow r start len =
     (if rg_status r = Init
      then Inr (r\<lparr>rg_status := Open, rg_blob_address := start, rg_blob_len := len, rg_count := 1\<rparr>)
      else asserting (rg_status r = Open)
        (let end' = rg_blob_address r + ucast (rg_blob_len r)
         in if end' + RAFS_DEFAULT_CHUNK_SIZE < start \<or> checked_add start (ucast len) = None
            then Inl NotContinuous
            else let sz = start + ucast len - end'
              in Inr (r\<lparr>rg_blob_len := rg_blob_len r + ucast sz, rg_count := rg_count r + 1\<rparr>)))"

definition Region_append ::
  "Region \<Rightarrow> u64 \<Rightarrow> u32 \<Rightarrow> BlobIoTag \<Rightarrow> BlobChunkInfo option \<Rightarrow> Region res" where
  "Region_append r start len tag chunk =
     asserting (rg_status r \<noteq> Committed)
       (and_then (Region_grow r start len) (\<lambda>r.
        and_then
          (case tag of
             User s \<Rightarrow>
               if BlobIoSegment_is_empty (rg_seg r) then Inr (r\<lparr>rg_seg := s\<rparr>)
               else and_then (BlobIoSegment_append (rg_seg r) (seg_offset s) (seg_len s))
                      (\<lambda>seg. Inr (r\<lparr>rg_seg := seg\<rparr>))
           | Internal \<Rightarrow> Inr r) (\<lambda>r.
        Inr (case chunk of
               None \<Rightarrow> r
             | Some c \<Rightarrow> r\<lparr>rg_chunks := rg_chunks r @ [c], rg_tags := rg_tags r @ [is_user_io tag]\<rparr>))))"

definition has_user_io :: "Region \<Rightarrow> bool" where
  "has_user_io r \<longleftrightarrow> \<not> BlobIoSegment_is_empty (rg_seg r)"

record FileIoMergeState =
  fm_regions :: "Region list"
  fm_last_region_joinable :: bool

definition FileIoMergeState_new :: FileIoMergeState where
  "FileIoMergeState_new = \<lparr>fm_regions = [], fm_last_region_joinable = True\<rparr>"

definition fm_joinable :: "FileIoMergeState \<Rightarrow> RegionType \<Rightarrow> bool res" where
  "fm_joinable st region_type =
     asserting (fm_regions st \<noteq> [])
       (Inr (RegionType_joinable (rg_type (fm_regions st ! (length (fm_regions st) - 1))) region_type
             \<and> fm_last_region_joinable st))"

definition fm_push ::
  "FileIoMergeState \<Rightarrow> RegionType \<Rightarrow> u64 \<Rightarrow> u32 \<Rightarrow> BlobIoTag \<Rightarrow> BlobChunkInfo option \<Rightarrow> FileIoMergeState res" where
  "fm_push st region_type start len tag chunk =
     and_then (if fm_regions st = [] then Inr False else fm_joinable st region_type) (\<lambda>join.
     let st = (if join then st
               else st\<lparr>fm_regions := fm_regions st @ [Region_new region_type], fm_last_region_joinable := True\<rparr>);
         idx = length (fm_regions st) - 1
     in case Region_append (fm_regions st ! idx) start len tag chunk of
          Inr r \<Rightarrow> Inr (st\<lparr>fm_regions := (fm_regions st)[idx := r]\<rparr>)
        | Inl err \<Rightarrow> Inl (if err = Panic then Panic else EINVAL))"

definition fm_commit :: "FileIoMergeState \<Rightarrow> FileIoMergeState" where
  "fm_commit st = st\<lparr>fm_last_region_joinable := False\<rparr>"

definition fm_reset :: "FileIoMergeState \<Rightarrow> FileIoMergeState" where
  "fm_reset st = st\<lparr>fm_regions := [], fm_last_region_joinable := True\<rparr>"

section \<open>Reading the file into memory\<close>

datatype pread_result = Got nat | Read_interrupted | Read_error err

fun readv_loop :: "pread_result list \<Rightarrow> u8 list \<Rightarrow> pread_result list \<times> u8 list res" where
  "readv_loop [] bs = ([], Inr bs)"
| "readv_loop (Got n # rs) bs = (rs, Inr (take n bs))"
| "readv_loop (Read_interrupted # rs) bs = readv_loop rs bs"
| "readv_loop (Read_error err # rs) bs = (rs, Inl err)"

text \<open>\<open>preadv\<close> fills the pieces of memory in their order.\<close>

fun scatter :: "u8 list list \<Rightarrow> (nat \<times> nat \<times> nat) list \<Rightarrow> u8 list \<Rightarrow> u8 list list" where
  "scatter mem [] bs = mem"
| "scatter mem ((i, off, n) # vs) bs = scatter (mem[i := overwrite (mem ! i) off (take n bs)]) vs (drop n bs)"

definition readv ::
  "u8 list \<Rightarrow> pread_result list \<Rightarrow> u8 list list \<Rightarrow> (nat \<times> nat \<times> nat) list \<Rightarrow> u64
    \<Rightarrow> pread_result list \<times> u8 list list \<times> nat res" where
  "readv f rs mem iovec offset =
     (if bit offset 63 then (rs, mem, Inl EINVAL)
      else
        let (rs, r) = readv_loop rs (slice_of f offset (sum_list (map (\<lambda>(_, _, n). n) iovec)))
        in case r of
             Inl err \<Rightarrow> (rs, mem, Inl err)
           | Inr bs \<Rightarrow> (rs, scatter mem iovec bs, Inr (length bs)))"

section \<open>Dispatching\<close>

record 'm reading =
  rd_entry :: "'m FileCacheEntry"
  rd_mem :: "u8 list list"
  rd_cursor :: MemSliceCursor
  rd_preads :: "pread_result list"

type_synonym ('s, 'a) run = "('s \<times> 'a res) option"

definition run_then :: "('s, 'a) run \<Rightarrow> ('s \<Rightarrow> 'a \<Rightarrow> ('s, 'b) run) \<Rightarrow> ('s, 'b) run" where
  "run_then x k = (case x of None \<Rightarrow> None | Some (s, Inl err) \<Rightarrow> Some (s, Inl err) | Some (s, Inr a) \<Rightarrow> k s a)"

text \<open>The copy into memory at the cursor, with errors other than a panic mapped to \<open>err'\<close>.\<close>

definition copy_to_user ::
  "volatile_write \<Rightarrow> err \<Rightarrow> 'm reading \<Rightarrow> u8 list list \<Rightarrow> nat \<Rightarrow> nat \<Rightarrow> ('m reading, nat) run" where
  "copy_to_user vw err' s bufs offset len =
     (case copyv vw bufs (rd_mem s) offset len (mc_index (rd_cursor s)) (mc_offset (rd_cursor s)) of
        None \<Rightarrow> None
      | Some (mem, Inl err) \<Rightarrow> Some (s\<lparr>rd_mem := mem\<rparr>, Inl (if err = Panic then Panic else err'))
      | Some (mem, Inr (n, _)) \<Rightarrow> Some (s\<lparr>rd_mem := mem, rd_cursor := move_cursor (rd_cursor s) n\<rparr>, Inr n))"

definition dispatch_cache_fast :: "'m reading \<Rightarrow> Region \<Rightarrow> ('m reading, nat) run" where
  "dispatch_cache_fast s region =
     (let offset = rg_blob_address region + ucast (seg_offset (rg_seg region));
          size' = unat (seg_len (rg_seg region));
          (cursor, iovec) = consume (rd_cursor s) size';
          (rs, mem, r) = readv (fe_file (rd_entry s)) (rd_preads s) (rd_mem s) iovec offset
      in Some (s\<lparr>rd_cursor := cursor, rd_preads := rs, rd_mem := mem\<rparr>, r))"

text \<open>
  The data of one chunk, from the cache file or the backend. A failed attempt on the cache file
  leaves the buffer in any state; what the backend returns replaces all of it.
\<close>

definition single_chunk_data ::
  "'m chunk_map_obj \<Rightarrow> 'm FileCacheEntry \<Rightarrow> BlobChunkInfo \<Rightarrow> u8 list \<Rightarrow> 'm FileCacheEntry \<times> u8 list res" where
  "single_chunk_data ops e chunk d =
     (case read_file_cache e chunk d of
        Inr buffer \<Rightarrow>
          (let (m, r) = cm_set_ready_and_clear_pending ops (fe_chunk_map e) chunk
           in (e\<lparr>fe_chunk_map := m\<rparr>, and_then r (\<lambda>_. Inr buffer)))
      | Inl err \<Rightarrow>
          if err = Panic then (e, Inl Panic)
          else (case read_chunk_from_backend (fe_cache e) chunk d of
              Inl err \<Rightarrow> (e\<lparr>fe_chunk_map := cm_clear_pending ops (fe_chunk_map e) chunk\<rparr>, Inl err)
            | Inr (buffer, c) \<Rightarrow>
                (let data = (if fe_is_compressed e then case c of Some v \<Rightarrow> v_data v | None \<Rightarrow> buffer else buffer)
                 in case delay_persist_chunk_data e chunk data (fe_is_compressed e) of
                      Inl err \<Rightarrow> (e, Inl err)
                    | Inr e \<Rightarrow> (e, Inr buffer))))"

definition read_single_chunk ::
  "'m chunk_map_obj \<Rightarrow> volatile_write \<Rightarrow> 'm reading \<Rightarrow> BlobChunkInfo \<Rightarrow> u32 \<Rightarrow> u32 \<Rightarrow> ('m reading, nat) run" where
  "read_single_chunk ops vw s chunk user_offset size' =
     (case alloc_buf (bc_junk (fe_cache (rd_entry s))) (unat (ci_uncompressed_size chunk)) of
        Inl err \<Rightarrow> Some (s, Inl err)
      | Inr d \<Rightarrow>
          (case single_chunk_data ops (rd_entry s) chunk (v_data d) of
             (e, Inl err) \<Rightarrow> Some (s\<lparr>rd_entry := e\<rparr>, Inl err)
           | (e, Inr buffer) \<Rightarrow>
               copy_to_user vw EOTHER (s\<lparr>rd_entry := e\<rparr>) [buffer] (unat user_offset) (unat size')))"

text \<open>The loop over the chunks from the \<open>i\<close>-th on.\<close>

fun slow_loop ::
  "'m chunk_map_obj \<Rightarrow> volatile_write \<Rightarrow> BlobIoSegment \<Rightarrow> 'm reading \<Rightarrow> nat \<Rightarrow> BlobChunkInfo list \<Rightarrow> nat
    \<Rightarrow> ('m reading, nat) run" where
  "slow_loop ops vw seg s i [] total_read = Some (s, Inr total_read)"
| "slow_loop ops vw seg s i (c # cs) total_read =
     (let user_offset = (if i = 0 then seg_offset seg else 0);
          size' = min (ci_uncompressed_size c - user_offset) (seg_len seg - of_nat total_read)
      in run_then (read_single_chunk ops vw s c user_offset size') (\<lambda>s n.
           slow_loop ops vw seg s (Suc i) cs (total_read + n)))"

definition dispatch_cache_slow ::
  "'m chunk_map_obj \<Rightarrow> volatile_write \<Rightarrow> 'm reading \<Rightarrow> Region \<Rightarrow> ('m reading, nat) run" where
  "dispatch_cache_slow ops vw s region = slow_loop ops vw (rg_seg region) s 0 (rg_chunks region) 0"

text \<open>The region extended to more chunks, in which the chunks that the user asked for stay tagged.\<close>

fun tagged_ids :: "BlobChunkInfo list \<Rightarrow> bool list \<Rightarrow> u32 list res" where
  "tagged_ids [] tags = Inr []"
| "tagged_ids (c # cs) [] = Inl Panic"
| "tagged_ids (c # cs) (t # ts) =
     and_then (tagged_ids cs ts) (\<lambda>ids. Inr (if t then ci_id c # ids else ids))"

definition extend_region :: "'m chunk_map_obj \<Rightarrow> 'm FileCacheEntry \<Rightarrow> Region \<Rightarrow> Region res" where
  "extend_region ops e r =
     and_then (extend_pending_chunks ops e (rg_chunks r) (ondemand_batch_size e)) (\<lambda>ext.
       case ext of
         None \<Rightarrow> Inr r
       | Some v \<Rightarrow>
           if length v > length (rg_chunks r) then
             and_then (tagged_ids (rg_chunks r) (rg_tags r)) (\<lambda>tag_set.
             and_then (Region_with r v) (\<lambda>held.
             Inr (held\<lparr>rg_tags := map (\<lambda>c. ci_id c \<in> set tag_set) (rg_chunks held)\<rparr>)))
           else Inr r)"

definition zran_region :: "'m FileCacheEntry \<Rightarrow> Region \<Rightarrow> Region res" where
  "zran_region e r =
     (if fe_is_zran e then
        and_then (get_blob_range e (rg_chunks r)) (\<lambda>(blob_offset, _, blob_size).
        Inr (r\<lparr>rg_blob_address := blob_offset, rg_blob_len := of_nat blob_size\<rparr>))
      else Inr r)"

text \<open>
  The loop over the decoded chunks, with the buffers for the user. The last argument is the chunks
  and tags that are left.
\<close>

fun collect_buffers ::
  "'m FileCacheEntry \<Rightarrow> ChunkDecompressState \<Rightarrow> BlobChunkInfo list \<Rightarrow> bool list
    \<Rightarrow> 'm FileCacheEntry \<times> u8 list list res" where
  "collect_buffers e ds [] tags = (e, Inr [])"
| "collect_buffers e ds (c # cs) tags =
     (case ds_next (fe_cache e) ds of
        (ds, None) \<Rightarrow> (e, Inr [])
      | (ds, Some (Inl err)) \<Rightarrow> (e, Inl err)
      | (ds, Some (Inr v)) \<Rightarrow>
          (case tags of
             [] \<Rightarrow> (e, Inl Panic)
           | t # ts \<Rightarrow>
               (case (if fe_is_compressed e then Inr e else delay_persist_chunk_data e c (v_data v) False) of
                  Inl err \<Rightarrow> (e, Inl err)
                | Inr e \<Rightarrow>
                    (let (e, r) = collect_buffers e ds cs ts
                     in (e, and_then r (\<lambda>bs. Inr (if t then v_data v # bs else bs)))))))"

definition clear_all :: "'m chunk_map_obj \<Rightarrow> 'm FileCacheEntry \<Rightarrow> BlobChunkInfo list \<Rightarrow> 'm FileCacheEntry" where
  "clear_all ops e cs =
     foldl (\<lambda>e c. e\<lparr>fe_chunk_map := cm_clear_pending ops (fe_chunk_map e) c\<rparr>) e cs"

text \<open>The download and what is stored of it: the buffers for the user.\<close>

definition fetch_region ::
  "'m chunk_map_obj \<Rightarrow> 'm FileCacheEntry \<Rightarrow> Region \<Rightarrow> 'm FileCacheEntry \<times> u8 list list res" where
  "fetch_region ops e region =
     (case read_chunks_from_backend (fe_cache e) (rg_blob_address region) (unat (rg_blob_len region)) (rg_chunks region) of
        Inl err \<Rightarrow> (clear_all ops e (rg_chunks region), Inl err)
      | Inr bufs \<Rightarrow>
          (let (e, res) =
             (if fe_is_compressed e then
                let (e, res) = persist_cached_data e (rg_blob_address region) (ds_c_buf bufs)
                in (foldl (\<lambda>e c. update_chunk_pending_status ops e c (is_ok res)) e (rg_chunks region), res)
              else (e, Inr ()))
           in case res of
                Inl err \<Rightarrow> (e, Inl err)
              | Inr _ \<Rightarrow> collect_buffers e bufs (rg_chunks region) (rg_tags region)))"

definition dispatch_backend ::
  "'m chunk_map_obj \<Rightarrow> volatile_write \<Rightarrow> 'm reading \<Rightarrow> Region \<Rightarrow> ('m reading, nat) run" where
  "dispatch_backend ops vw s r =
     (let e = rd_entry s in
      if rg_chunks r = [] then Some (s, Inr 0)
      else if \<not> has_user_io r then Some (s\<lparr>rd_entry := clear_all ops e (rg_chunks r)\<rparr>, Inr 0)
      else if \<not> ids_consecutive (rg_chunks r) then Some (s, Inl Panic)
      else case and_then (extend_region ops e r) (zran_region e) of
        Inl err \<Rightarrow> Some (s, Inl err)
      | Inr region \<Rightarrow>
          (case fetch_region ops e region of
             (e, Inl err) \<Rightarrow> Some (s\<lparr>rd_entry := e\<rparr>, Inl err)
           | (e, Inr chunk_buffers) \<Rightarrow>
               copy_to_user vw EIO (s\<lparr>rd_entry := e\<rparr>) chunk_buffers
                 (unat (seg_offset (rg_seg region))) (unat (seg_len (rg_seg region)))))"

text \<open>The loop that sorts the chunks of a request into regions.\<close>

definition sort_chunk ::
  "'m chunk_map_obj \<Rightarrow> 'm FileCacheEntry \<Rightarrow> bool \<Rightarrow> BlobChunkInfo \<Rightarrow> BlobIoTag \<Rightarrow> FileIoMergeState
    \<Rightarrow> 'm FileCacheEntry \<times> FileIoMergeState res" where
  "sort_chunk ops e is_ready chunk tag state =
     (if is_ready \<and> \<not> fe_is_compressed e \<and> \<not> bc_need_validation (fe_cache e) then
        (e, if is_user_io tag
            then fm_push state CacheFast (ci_uncompressed_offset chunk) (ci_uncompressed_size chunk) tag None
            else Inr (fm_commit state))
      else if \<not> fe_is_direct_chunkmap e \<or> is_ready then
        (if is_user_io tag then
           (e, fm_push state CacheSlow (ci_uncompressed_offset chunk) (ci_uncompressed_size chunk) tag (Some chunk))
         else
           (if is_ready then e else e\<lparr>fe_chunk_map := cm_clear_pending ops (fe_chunk_map e) chunk\<rparr>,
            Inr (fm_commit state)))
      else (e, fm_push state Backend (ci_compressed_offset chunk) (ci_compressed_size chunk) tag (Some chunk)))"

fun sort_chunks ::
  "'m chunk_map_obj \<Rightarrow> 'm FileCacheEntry \<Rightarrow> BlobChunkInfo list \<Rightarrow> BlobIoTag list \<Rightarrow> FileIoMergeState
    \<Rightarrow> 'm FileCacheEntry \<times> FileIoMergeState res" where
  "sort_chunks ops e [] tags state = (e, Inr state)"
| "sort_chunks ops e (chunk # cs) tags state =
     (let (m, r) = cm_check_ready_and_mark_pending ops (fe_chunk_map e) chunk;
          e = e\<lparr>fe_chunk_map := m\<rparr>
      in case (case r of Inr b \<Rightarrow> Inr b | Inl Timeout \<Rightarrow> Inr False
               | Inl err \<Rightarrow> Inl (if err = Panic then Panic else EINVAL)) of
           Inl err \<Rightarrow> (e, Inl err)
         | Inr is_ready \<Rightarrow>
             (case tags of
                [] \<Rightarrow> (e, Inl Panic)
              | tag # ts \<Rightarrow>
                  (case sort_chunk ops e is_ready chunk tag state of
                     (e, Inl err) \<Rightarrow> (e, Inl err)
                   | (e, Inr state) \<Rightarrow> sort_chunks ops e cs ts state)))"

definition dispatch_region ::
  "'m chunk_map_obj \<Rightarrow> volatile_write \<Rightarrow> 'm reading \<Rightarrow> Region \<Rightarrow> ('m reading, nat) run" where
  "dispatch_region ops vw s r =
     (case rg_type r of
        CacheFast \<Rightarrow> dispatch_cache_fast s r
      | CacheSlow \<Rightarrow> dispatch_cache_slow ops vw s r
      | Backend \<Rightarrow> dispatch_backend ops vw s r)"

fun dispatch_regions ::
  "'m chunk_map_obj \<Rightarrow> volatile_write \<Rightarrow> 'm reading \<Rightarrow> Region list \<Rightarrow> nat \<Rightarrow> ('m reading, nat) run" where
  "dispatch_regions ops vw s [] total_read = Some (s, Inr total_read)"
| "dispatch_regions ops vw s (r # rs) total_read =
     run_then (dispatch_region ops vw s r) (\<lambda>s n. dispatch_regions ops vw s rs (total_read + n))"

definition dispatch_one_range ::
  "'m chunk_map_obj \<Rightarrow> volatile_write \<Rightarrow> 'm reading \<Rightarrow> BlobIoRange \<Rightarrow> FileIoMergeState \<Rightarrow> ('m reading, nat) run" where
  "dispatch_one_range ops vw s req state =
     (case sort_chunks ops (rd_entry s) (r_chunks req) (r_tags req) state of
        (e, Inl err) \<Rightarrow> Some (s\<lparr>rd_entry := e\<rparr>, Inl err)
      | (e, Inr state) \<Rightarrow> dispatch_regions ops vw (s\<lparr>rd_entry := e\<rparr>) (fm_regions state) 0)"

text \<open>
  The loop of \<open>read_iter\<close>, in which every request starts with no regions. When one fails, the chunks of
  all requests that are left are given up.
\<close>

definition give_up :: "'m chunk_map_obj \<Rightarrow> 'm FileCacheEntry \<Rightarrow> BlobChunkInfo list \<Rightarrow> 'm FileCacheEntry" where
  "give_up ops e cs = foldl (\<lambda>e c. update_chunk_pending_status ops e c False) e cs"

fun read_requests ::
  "'m chunk_map_obj \<Rightarrow> volatile_write \<Rightarrow> 'm reading \<Rightarrow> BlobIoRange list \<Rightarrow> nat \<Rightarrow> ('m reading, nat) run" where
  "read_requests ops vw s [] total_read = Some (s, Inr total_read)"
| "read_requests ops vw s (req # reqs) total_read =
     (case dispatch_one_range ops vw s req FileIoMergeState_new of
        None \<Rightarrow> None
      | Some (s, Inl err) \<Rightarrow>
          Some (if err = Panic then s
                else s\<lparr>rd_entry := give_up ops (rd_entry s) (concat (map r_chunks (req # reqs)))\<rparr>, Inl err)
      | Some (s, Inr n) \<Rightarrow> read_requests ops vw s reqs (total_read + n))"

definition start_reading :: "'m FileCacheEntry \<Rightarrow> pread_result list \<Rightarrow> u8 list list \<Rightarrow> 'm reading" where
  "start_reading e rs buffers =
     \<lparr>rd_entry = e, rd_mem = buffers, rd_cursor = MemSliceCursor_new (map length buffers), rd_preads = rs\<rparr>"

definition read_iter ::
  "'m chunk_map_obj \<Rightarrow> volatile_write \<Rightarrow> 'm FileCacheEntry \<Rightarrow> pread_result list \<Rightarrow> BlobIoDesc list \<Rightarrow> u8 list list
    \<Rightarrow> ('m reading, nat) run" where
  "read_iter ops vw e rs bios buffers =
     (case merge_requests_for_user bios (ondemand_batch_size e) of
        Inl err \<Rightarrow> Some (start_reading e rs buffers, Inl err)
      | Inr None \<Rightarrow> Some (start_reading (give_up ops e (map d_chunkinfo bios)) rs buffers, Inl EINVAL)
      | Inr (Some requests) \<Rightarrow> read_requests ops vw (start_reading e rs buffers) requests 0)"

definition FileCacheEntry_read ::
  "'m chunk_map_obj \<Rightarrow> volatile_write \<Rightarrow> AsyncWorkerMgr \<Rightarrow> 'm FileCacheEntry \<Rightarrow> pread_result list \<Rightarrow> BlobIoVec
    \<Rightarrow> u8 list list \<Rightarrow> AsyncWorkerMgr \<times> ('m reading, nat) run" where
  "FileCacheEntry_read ops vw mgr e rs iovec buffers =
     (consume_prefetch_budget mgr (v_size iovec),
      if v_vec iovec = [] then Some (start_reading e rs buffers, Inr 0)
      else if length (v_vec iovec) = 1 then
        (case BlobIoRange_new (v_vec iovec ! 0) of
           Inl err \<Rightarrow> Some (start_reading e rs buffers, Inl err)
         | Inr req \<Rightarrow> dispatch_one_range ops vw (start_reading e rs buffers) req FileIoMergeState_new)
      else read_iter ops vw e rs (v_vec iovec) buffers)"

section \<open>The rest of the entry\<close>

definition is_all_data_ready :: "('m \<Rightarrow> bool) \<Rightarrow> 'm chunk_map_obj \<Rightarrow> 'm FileCacheEntry \<Rightarrow> bool" where
  "is_all_data_ready all_ready ops e \<longleftrightarrow>
     (case cm_as_range_map ops of Some _ \<Rightarrow> all_ready (fe_chunk_map e) | None \<Rightarrow> False)"

text \<open>
  The download of the chunk metadata in the background: \<open>attempt k\<close> is the outcome of the \<open>k\<close>-th call of
  \<open>BlobMetaInfo::new\<close>, and a panic ends the thread. \<open>get_blob_meta\<close> waits until the object or the error flag is there; \<open>None\<close> is that
  it goes on waiting.
\<close>

definition DOWNLOAD_META_RETRY_COUNT :: nat where "DOWNLOAD_META_RETRY_COUNT = 20"

record FileCacheMeta =
  fcm_has_error :: bool
  fcm_meta :: "BlobMetaState option"

fun download_meta :: "(nat \<Rightarrow> BlobMetaState res) \<Rightarrow> nat \<Rightarrow> nat \<Rightarrow> FileCacheMeta \<Rightarrow> FileCacheMeta" where
  "download_meta attempt retry 0 fcm = fcm\<lparr>fcm_has_error := True\<rparr>"
| "download_meta attempt retry (Suc left) fcm =
     (case attempt retry of
        Inr m \<Rightarrow> fcm\<lparr>fcm_meta := Some m\<rparr>
      | Inl Panic \<Rightarrow> fcm
      | Inl _ \<Rightarrow> download_meta attempt (Suc retry) left fcm)"

definition FileCacheMeta_new :: "(nat \<Rightarrow> BlobMetaState res) \<Rightarrow> FileCacheMeta" where
  "FileCacheMeta_new attempt =
     download_meta attempt 0 DOWNLOAD_META_RETRY_COUNT \<lparr>fcm_has_error = False, fcm_meta = None\<rparr>"

definition get_blob_meta :: "FileCacheMeta \<Rightarrow> BlobMetaState option option" where
  "get_blob_meta fcm =
     (case fcm_meta fcm of Some m \<Rightarrow> Some (Some m) | None \<Rightarrow> if fcm_has_error fcm then Some None else None)"

end
