(* ===== verification/Read_Correct.thy ===== *)
theory Read_Correct
  imports Cached_Read
begin

text \<open>
  User reads give the user the data of the blob. The theory follows a read from the bottom up:
  writing into user memory at the cursor, the three ways to serve a region, the sorting of chunks
  into regions, and requests. The contract of a chunk map is that of \<open>Cache_Coherence\<close>, extended by
  what a read needs of it.
\<close>

section \<open>User memory\<close>

text \<open>The cursor points into memory, or is at its end; no slice is empty.\<close>

definition rd_ok :: "'m reading \<Rightarrow> bool" where
  "rd_ok s \<longleftrightarrow> [] \<notin> set (rd_mem s) \<and> mc_lens (rd_cursor s) = map length (rd_mem s) \<and>
     pos_ok (rd_mem s) (mc_index (rd_cursor s)) (mc_offset (rd_cursor s))"

abbreviation rd_pos :: "'m reading \<Rightarrow> nat" where
  "rd_pos s \<equiv> mc_pos (rd_cursor s)"

abbreviation rd_room :: "'m reading \<Rightarrow> nat" where
  "rd_room s \<equiv> length (concat (rd_mem s))"

text \<open>The state after \<open>n\<close> bytes were handed out at the cursor.\<close>

definition advanced :: "'m reading \<Rightarrow> 'm reading \<Rightarrow> nat \<Rightarrow> bool" where
  "advanced s s' n \<longleftrightarrow> rd_ok s' \<and> map length (rd_mem s') = map length (rd_mem s) \<and> rd_pos s' = rd_pos s + n"

definition wrote :: "'m reading \<Rightarrow> 'm reading \<Rightarrow> u8 list \<Rightarrow> bool" where
  "wrote s s' bs \<longleftrightarrow> concat (rd_mem s') = overwrite (concat (rd_mem s)) (rd_pos s) bs"

lemma advanced_trans: "advanced a b n \<Longrightarrow> advanced b c m \<Longrightarrow> advanced a c (n + m)"
  by (auto simp: advanced_def)

lemma advanced_room: "advanced s s' n \<Longrightarrow> rd_room s' = rd_room s"
  by (auto simp: advanced_def length_concat)

lemma wrote_trans:
  assumes "wrote a b xs" and "wrote b c ys" and "advanced a b (length xs)"
    and "rd_pos a + length xs + length ys \<le> rd_room a"
  shows "wrote a c (xs @ ys)"
  using assms by (simp add: wrote_def advanced_def overwrite_append)

lemma mem_pos_mc_pos:
  "mc_lens mc = map length mem \<Longrightarrow> mem_pos mem (mc_index mc) (mc_offset mc) = mc_pos mc"
  by (simp add: mem_pos_def mc_pos_def length_concat take_map)

lemma pos_ok_mc_ok:
  "mc_lens mc = map length mem \<Longrightarrow> pos_ok mem (mc_index mc) (mc_offset mc) \<Longrightarrow> mc_ok mc"
  by (auto simp: pos_ok_def mc_ok_def)

lemma move_cursor_pos_ok:
  "\<lbrakk>[] \<notin> set mem; mc_lens mc = map length mem; pos_ok mem (mc_index mc) (mc_offset mc)\<rbrakk> \<Longrightarrow>
     pos_ok mem (mc_index (move_cursor mc n)) (mc_offset (move_cursor mc n))"
proof (induction mc n rule: move_cursor.induct)
  case (1 mc n)
  let ?next = "mc\<lparr>mc_index := mc_index mc + 1, mc_offset := 0\<rparr>"
  show ?case
  proof (cases "n > 0 \<and> mc_index mc < length (mc_lens mc)")
    case True
    have next': "pos_ok mem (mc_index ?next) (mc_offset ?next)"
    proof (cases "mc_index mc + 1 < length mem")
      case True
      then have "mem ! (mc_index mc + 1) \<noteq> []"
        using "1.prems"(1) by (metis nth_mem)
      with True show ?thesis by (simp add: pos_ok_def)
    qed (use True "1.prems"(2) in \<open>simp add: pos_ok_def\<close>)
    show ?thesis
      using True next' "1.IH" [OF True refl] "1.prems"
      by (subst (1 2) move_cursor.simps) (auto simp: Let_def pos_ok_def)
  qed (use "1.prems" in \<open>subst (1 2) move_cursor.simps, auto\<close>)
qed

lemma rd_ok_mc:
  assumes "rd_ok s"
  shows "mc_ok (rd_cursor s)" "mem_pos (rd_mem s) (mc_index (rd_cursor s)) (mc_offset (rd_cursor s)) = rd_pos s"
    "sum_list (mc_lens (rd_cursor s)) = rd_room s"
  using assms pos_ok_mc_ok [of "rd_cursor s" "rd_mem s"] mem_pos_mc_pos [of "rd_cursor s" "rd_mem s"]
  by (auto simp: rd_ok_def length_concat)

text \<open>New memory with the same shape and a moved cursor.\<close>

lemma advanced_move:
  assumes "rd_ok s" and "map length mem = map length (rd_mem s)" and "rd_pos s + n \<le> rd_room s"
    and "rd_mem s' = mem" and "rd_cursor s' = move_cursor (rd_cursor s) n"
  shows "advanced s s' n"
proof -
  have "length mem = length (rd_mem s)"
    using assms(2) by (metis length_map)
  have "[] \<notin> set mem"
    using assms(1,2) nonempty_lengths [of mem "rd_mem s"] by (auto simp: rd_ok_def)
  moreover have "pos_ok mem (mc_index (rd_cursor s)) (mc_offset (rd_cursor s))"
    using assms(1,2) pos_ok_lengths [of mem "rd_mem s"] by (auto simp: rd_ok_def)
  ultimately have "pos_ok mem (mc_index (rd_cursor s')) (mc_offset (rd_cursor s'))"
    using move_cursor_pos_ok [of mem "rd_cursor s" n] assms(1,2,5) by (simp add: rd_ok_def)
  then show ?thesis
    using assms move_cursor_pos [OF rd_ok_mc(1) [OF assms(1)], of n] rd_ok_mc(3) [OF assms(1)] \<open>[] \<notin> set mem\<close>
    by (simp add: advanced_def rd_ok_def)
qed

text \<open>A copy whose last source is needed.\<close>

lemma copy_to_user_ok:
  assumes "volatile_spec vw" and "rd_ok s" and "src \<noteq> []" and "offset \<le> length (src ! 0)" and "0 < len"
    and "offset + len \<le> length (concat src)" and "length (concat (butlast src)) < offset + len"
    and "rd_pos s + len \<le> rd_room s"
  shows "\<exists>s'. copy_to_user vw err' s src offset len = Some (s', Inr len) \<and> advanced s s' len \<and>
    wrote s s' (take len (drop offset (concat src))) \<and> rd_entry s' = rd_entry s \<and> rd_preads s' = rd_preads s"
proof -
  let ?i = "mc_index (rd_cursor s)" and ?off = "mc_offset (rd_cursor s)"
  let ?bs = "take len (drop offset (concat src))"
  have len: "length ?bs = len"
    using assms(6) by simp
  have pos: "mem_pos (rd_mem s) ?i ?off = rd_pos s" and ok: "[] \<notin> set (rd_mem s)" "pos_ok (rd_mem s) ?i ?off"
    using rd_ok_mc(2) [OF assms(2)] assms(2) by (auto simp: rd_ok_def)
  then have i: "?i < length (rd_mem s)" "?off < length (rd_mem s ! ?i)"
    using pos_ok_less_iff [OF ok(2)] assms(5,8) by (auto simp: pos_ok_def)
  have "copy_fits len src offset (rd_pos s) (rd_room s)"
    using assms(5,7,8) len by (auto simp: copy_fits_def)
  with copyv_result [OF assms(1) ok(1) i assms(3,4,5)] pos obtain mem i' off'
    where cp: "copyv vw src (rd_mem s) offset len ?i ?off = Some (mem, Inr (len, i', off'))"
      and mem: "map length mem = map length (rd_mem s)"
        "concat mem = overwrite (concat (rd_mem s)) (rd_pos s) ?bs"
    using len by (auto simp: copied_to_def)
  define s' where "s' = s\<lparr>rd_mem := mem, rd_cursor := move_cursor (rd_cursor s) len\<rparr>"
  have "copy_to_user vw err' s src offset len = Some (s', Inr len)"
    by (simp add: copy_to_user_def cp s'_def)
  moreover have "advanced s s' len"
    by (rule advanced_move [OF assms(2) mem(1) assms(8)]) (simp_all add: s'_def)
  ultimately show ?thesis
    using mem(2) by (auto simp: wrote_def s'_def)
qed

text \<open>Filling the pieces that the cursor hands out.\<close>

lemma scatter_consume:
  "\<lbrakk>mc_ok mc; mc_lens mc = map length mem; mc_pos mc + length bs \<le> length (concat mem); length bs \<le> n\<rbrakk> \<Longrightarrow>
     map length (scatter mem (snd (consume mc n)) bs) = map length mem \<and>
     concat (scatter mem (snd (consume mc n)) bs) = overwrite (concat mem) (mc_pos mc) bs"
proof (induction mc n arbitrary: mem bs rule: consume.induct)
  case (1 mc n)
  let ?i = "mc_index mc" and ?off = "mc_offset mc"
  let ?left = "mc_lens mc ! ?i - ?off" and ?next = "mc\<lparr>mc_index := ?i + 1, mc_offset := 0\<rparr>"
  have room: "sum_list (mc_lens mc) = length (concat mem)"
    using "1.prems"(2) by (simp add: length_concat)
  show ?case
  proof (cases "n > 0 \<and> ?i < length (mc_lens mc)")
    case False
    then have "bs = []"
      using "1.prems"(3,4) mc_stop [OF "1.prems"(1)] room by auto
    moreover have "snd (consume mc n) = []"
      using False by (subst consume.simps) auto
    ultimately show ?thesis
      by simp
  next
    case True
    have pos: "mem_pos mem ?i ?off = mc_pos mc"
      by (rule mem_pos_mc_pos [OF "1.prems"(2)])
    have i: "?i < length mem" "?off \<le> length (mem ! ?i)" and left: "?left = length (mem ! ?i) - ?off"
      using True "1.prems"(1,2) by (auto simp: mc_ok_def)
    define put where "put xs = mem[?i := overwrite (mem ! ?i) ?off xs]" for xs
    have put: "map length (put xs) = map length mem \<and> concat (put xs) = overwrite (concat mem) (mc_pos mc) xs"
      if "length xs \<le> ?left" for xs
    proof -
      have le: "?off + length xs \<le> length (mem ! ?i)"
        using that left i(2) by simp
      have "map length (put xs) = map length mem"
        using le i(1) by (intro nth_equalityI) (auto simp: put_def nth_list_update)
      then show ?thesis
        using concat_overwrite [OF i(1) le] pos by (simp add: put_def mem_pos_def)
    qed
    show ?thesis
    proof (cases "?left < n")
      case False
      then have "snd (consume mc n) = [(?i, ?off, n)]"
        using True by (subst consume.simps) (auto simp: Let_def)
      moreover have "length bs \<le> ?left"
        using False "1.prems"(3,4) by simp
      ultimately show ?thesis
        using put [of bs] "1.prems"(4) by (simp add: put_def)
    next
      case less: True
      note next' = mc_next [OF "1.prems"(1) conjunct2 [OF True]]
      let ?a = "take ?left bs" and ?b = "drop ?left bs"
      have shape: "map length (put ?a) = map length mem" and bytes: "concat (put ?a) = overwrite (concat mem) (mc_pos mc) ?a"
        using put [of ?a] by auto
      have "mc_ok ?next" "mc_lens ?next = map length (put ?a)" "length ?b \<le> n - ?left"
        "mc_pos ?next + length ?b \<le> length (concat (put ?a))"
        using next' "1.prems"(2-4) shape length_concat_map [OF shape] by (auto simp: room [symmetric])
      note ih = "1.IH" [OF True refl _ _ this(1,2,4,3)]
      have "snd (consume mc n) = (?i, ?off, ?left) # snd (consume ?next (n - ?left))"
        using True less by (subst consume.simps) (auto simp: Let_def split: prod.splits)
      then have "scatter mem (snd (consume mc n)) bs = scatter (put ?a) (snd (consume ?next (n - ?left))) ?b"
        by (simp add: put_def)
      moreover have "overwrite (overwrite (concat mem) (mc_pos mc) ?a) (mc_pos ?next) ?b = overwrite (concat mem) (mc_pos mc) bs"
      proof (cases "length bs \<le> ?left")
        case False
        then have "mc_pos ?next = mc_pos mc + length ?a"
          using next'(2) by simp
        then show ?thesis
          using overwrite_append [of "mc_pos mc" ?a ?b "concat mem"] "1.prems"(3) by simp
      qed simp
      ultimately show ?thesis
        using ih less shape bytes by auto
    qed
  qed
qed

lemma consume_size:
  "mc_ok mc \<Longrightarrow> sum_list (map (\<lambda>(_, _, n). n) (snd (consume mc n))) = min n (sum_list (mc_lens mc) - mc_pos mc)"
proof -
  assume ok: "mc_ok mc"
  have "sum_list (map (\<lambda>(_, _, n). n) vs) = length (vector_bytes lens vs)" for vs lens
    by (induction vs) (auto simp: vector_bytes_def)
  from this [of "snd (consume mc n)" "mc_lens mc"] show ?thesis
    using consume_bytes [OF ok, of n] mc_pos_le [OF ok] by (simp add: min_def) linarith
qed

lemma readv_loop_prefix:
  "readv_loop rs bs = (rs', x) \<Longrightarrow> (\<exists>k. x = Inr (take k bs)) \<or> (\<exists>err. x = Inl err)"
  by (induction rs bs rule: readv_loop.induct) (auto, metis order_refl take_all)

lemma bit_63_iff: "bit (a :: u64) 63 \<longleftrightarrow> 2 ^ 63 \<le> unat a"
proof -
  have "unat a div 2 ^ 63 < 2"
    using unat_lt2p64 [of a] by (intro less_mult_imp_div_less) simp
  then have "unat a div 2 ^ 63 = 0 \<or> unat a div 2 ^ 63 = 1"
    by linarith
  moreover have "bit a 63 \<longleftrightarrow> odd (unat a div 2 ^ 63)"
    by (simp only: bit_iff_odd [symmetric] bit_unsigned_iff) simp
  ultimately show ?thesis
    by (auto simp: div_eq_0_iff)
qed

section \<open>The data of a request\<close>

text \<open>
  A request is a list of chunks, each with the segment of it that the user wants. Together they form
  one range: segments after the first begin at the start of their chunk, those before the last reach
  to the end.
\<close>

type_synonym piece = "BlobChunkInfo \<times> BlobIoSegment"

abbreviation piece_offset :: "piece \<Rightarrow> nat" where
  "piece_offset p \<equiv> unat (seg_offset (snd p))"

abbreviation piece_len :: "piece \<Rightarrow> nat" where
  "piece_len p \<equiv> unat (seg_len (snd p))"

abbreviation u_size :: "BlobChunkInfo \<Rightarrow> nat" where
  "u_size c \<equiv> unat (ci_uncompressed_size c)"

fun pieces_join :: "piece list \<Rightarrow> bool" where
  "pieces_join (p # q # ps) \<longleftrightarrow> 0 < piece_len p \<and> piece_offset p + piece_len p = u_size (fst p) \<and>
     seg_offset (snd q) = 0 \<and> pieces_join (q # ps)"
| "pieces_join [p] \<longleftrightarrow> 0 < piece_len p \<and> piece_offset p + piece_len p \<le> u_size (fst p)"
| "pieces_join [] \<longleftrightarrow> True"

definition run_len :: "piece list \<Rightarrow> nat" where
  "run_len ps = sum_list (map piece_len ps)"

definition piece_bytes :: "(BlobChunkInfo \<Rightarrow> u8 list) \<Rightarrow> piece \<Rightarrow> u8 list" where
  "piece_bytes cont p = take (piece_len p) (drop (piece_offset p) (cont (fst p)))"

definition run_bytes :: "(BlobChunkInfo \<Rightarrow> u8 list) \<Rightarrow> piece list \<Rightarrow> u8 list" where
  "run_bytes cont ps = concat (map (piece_bytes cont) ps)"

lemma run_simps [simp]:
  "run_len [] = 0" "run_len (p # ps) = piece_len p + run_len ps" "run_len (ps @ qs) = run_len ps + run_len qs"
  "run_bytes cont [] = []" "run_bytes cont (p # ps) = piece_bytes cont p @ run_bytes cont ps"
  "run_bytes cont (ps @ qs) = run_bytes cont ps @ run_bytes cont qs"
  by (simp_all add: run_len_def run_bytes_def)

lemma pieces_join_tl: "pieces_join (p # ps) \<Longrightarrow> pieces_join ps"
  by (cases ps) auto

lemma pieces_join_append: "pieces_join (ps @ qs) \<Longrightarrow> pieces_join ps \<and> pieces_join qs"
proof (induction ps)
  case (Cons p ps)
  then show ?case
  proof (cases ps)
    case Nil
    with Cons.prems show ?thesis by (cases qs) auto
  next
    case (Cons q qs')
    with Cons.prems Cons.IH show ?thesis by auto
  qed
qed simp

lemma pieces_join_pos: "pieces_join ps \<Longrightarrow> p \<in> set ps \<Longrightarrow> 0 < piece_len p \<and> piece_offset p + piece_len p \<le> u_size (fst p)"
  by (induction ps rule: pieces_join.induct) auto

text \<open>The bytes wanted are a range of the concatenated chunks that reaches into the last one.\<close>

lemma run_bytes_range:
  assumes "pieces_join ps" and "ps \<noteq> []" and "\<And>p. p \<in> set ps \<Longrightarrow> length (cont (fst p)) = u_size (fst p)"
  defines "all \<equiv> map (\<lambda>p. cont (fst p)) ps" and "off \<equiv> piece_offset (hd ps)"
  shows "off \<le> length (all ! 0) \<and> off + run_len ps \<le> length (concat all) \<and>
    length (concat (butlast all)) < off + run_len ps \<and> 0 < run_len ps \<and>
    run_bytes cont ps = take (run_len ps) (drop off (concat all))"
  using assms(1-3) unfolding all_def off_def
proof (induction ps rule: pieces_join.induct)
  case (1 p q ps)
  let ?rest = "map (\<lambda>p. cont (fst p)) (q # ps)"
  have ih: "run_len (q # ps) \<le> length (concat ?rest) \<and> length (concat (butlast ?rest)) < run_len (q # ps) \<and>
      0 < run_len (q # ps) \<and> run_bytes cont (q # ps) = take (run_len (q # ps)) (concat ?rest)"
    using 1 by simp
  have len: "length (cont (fst p)) = piece_offset p + piece_len p"
    using "1.prems" by simp
  have "piece_bytes cont p = drop (piece_offset p) (cont (fst p))"
    by (simp add: piece_bytes_def len)
  then have "run_bytes cont (p # q # ps) = take (run_len (p # q # ps)) (drop (piece_offset p) (concat (cont (fst p) # ?rest)))"
    using ih len by (simp del: run_simps(5) add: run_simps(5) [of cont p])
  then show ?case
    using ih len by auto
next
  case (2 p)
  then show ?case
    by (auto simp: piece_bytes_def)
qed simp

text \<open>Chunks next to each other in the cache file.\<close>

fun adjoining :: "BlobChunkInfo list \<Rightarrow> bool" where
  "adjoining (c # d # cs) \<longleftrightarrow>
     unat (ci_uncompressed_offset c) + u_size c = unat (ci_uncompressed_offset d) \<and> adjoining (d # cs)"
| "adjoining _ \<longleftrightarrow> True"

lemma adjoining_append: "adjoining (cs @ ds) \<Longrightarrow> adjoining cs \<and> adjoining ds"
proof (induction cs)
  case (Cons c cs)
  then show ?case
  proof (cases cs)
    case Nil
    with Cons.prems show ?thesis by (cases ds) auto
  next
    case (Cons d cs')
    with Cons.prems Cons.IH show ?thesis by auto
  qed
qed simp

lemma adjoining_slice:
  assumes "adjoining cs" and "cs \<noteq> []"
    and "\<And>c. c \<in> set cs \<Longrightarrow> slice_of f (ci_uncompressed_offset c) (u_size c) = cont c \<and> length (cont c) = u_size c"
  shows "concat (map cont cs) = take (length (concat (map cont cs))) (drop (unat (ci_uncompressed_offset (hd cs))) f)"
  using assms
proof (induction cs rule: adjoining.induct)
  case (1 c d cs)
  define rest where "rest = concat (map cont (d # cs))"
  have c: "take (u_size c) (drop (unat (ci_uncompressed_offset c)) f) = cont c" "length (cont c) = u_size c"
    using "1.prems"(3) [of c] by (auto simp: slice_of_def)
  have "rest = take (length rest) (drop (unat (ci_uncompressed_offset (hd (d # cs)))) f)"
    unfolding rest_def by (rule "1.IH") (use "1.prems" in auto)
  also have "drop (unat (ci_uncompressed_offset (hd (d # cs)))) f = drop (u_size c) (drop (unat (ci_uncompressed_offset c)) f)"
    using "1.prems"(1) by (simp add: add.commute)
  finally have "cont c @ rest = take (length (cont c @ rest)) (drop (unat (ci_uncompressed_offset c)) f)"
    using c by (metis length_append take_add)
  then show ?case
    unfolding rest_def by (simp only: list.map concat.simps list.sel)
next
  case "2_2"
  then show ?case by (auto simp: slice_of_def)
qed simp

lemma adjoining_run:
  assumes "adjoining (map fst ps)" and "pieces_join ps" and "ps \<noteq> []"
    and "\<And>p. p \<in> set ps \<Longrightarrow> slice_of f (ci_uncompressed_offset (fst p)) (u_size (fst p)) = cont (fst p) \<and>
      length (cont (fst p)) = u_size (fst p)"
  shows "run_bytes cont ps = take (run_len ps) (drop (unat (ci_uncompressed_offset (fst (hd ps))) + piece_offset (hd ps)) f)"
    and "length (run_bytes cont ps) = run_len ps"
proof -
  let ?all = "concat (map (\<lambda>p. cont (fst p)) ps)" and ?a = "unat (ci_uncompressed_offset (fst (hd ps)))"
  have range: "piece_offset (hd ps) + run_len ps \<le> length ?all"
    "run_bytes cont ps = take (run_len ps) (drop (piece_offset (hd ps)) ?all)"
    using run_bytes_range [OF assms(2,3), of cont] assms(4) by auto
  have "\<And>c. c \<in> set (map fst ps) \<Longrightarrow> slice_of f (ci_uncompressed_offset c) (u_size c) = cont c \<and> length (cont c) = u_size c"
    using assms(4) by auto
  with adjoining_slice [OF assms(1) _ this] assms(3) have "?all = take (length ?all) (drop ?a f)"
    by (simp add: hd_map o_def)
  then have "take (run_len ps) (drop (piece_offset (hd ps)) ?all) =
      take (run_len ps) (drop (piece_offset (hd ps)) (take (length ?all) (drop ?a f)))"
    by simp
  also have "\<dots> = take (run_len ps) (drop (?a + piece_offset (hd ps)) f)"
    using range(1) by (simp add: drop_take min_def add.commute)
  finally show "run_bytes cont ps = take (run_len ps) (drop (?a + piece_offset (hd ps)) f)"
    using range(2) by simp
  show "length (run_bytes cont ps) = run_len ps"
    using range by simp
qed

section \<open>Serving regions\<close>

text \<open>\<open>cont c\<close> is what chunk \<open>c\<close> holds, whenever its bytes in the blob decode.\<close>

definition content_of :: "blob_cache \<Rightarrow> u8 list \<Rightarrow> BlobChunkInfo set \<Rightarrow> (BlobChunkInfo \<Rightarrow> u8 list) \<Rightarrow> bool" where
  "content_of bc blob C cont \<longleftrightarrow> (\<forall>c \<in> C. \<forall>d. chunk_content bc c (chunk_raw blob c) d \<longrightarrow> d = cont c)"

text \<open>What waits to be written to the cache file is right.\<close>

definition delayed_ok :: "'m FileCacheEntry \<Rightarrow> u8 list \<Rightarrow> BlobChunkInfo set \<Rightarrow> bool" where
  "delayed_ok e blob C \<longleftrightarrow>
     (\<forall>(c, d, compressed) \<in> set (fe_delayed e).
        c \<in> C \<and> \<not> compressed \<and> chunk_content (fe_cache e) c (chunk_raw blob c) d)"

text \<open>
  A plain cache file with a direct chunk map and without a metadata object, whose offsets are file
  offsets.
\<close>

definition plain_cache :: "'m FileCacheEntry \<Rightarrow> BlobChunkInfo set \<Rightarrow> bool" where
  "plain_cache e C \<longleftrightarrow> \<not> fe_is_compressed e \<and> fe_is_direct_chunkmap e \<and> bc_meta_info (fe_cache e) = Inr None \<and>
     (\<forall>c \<in> C. unat (ci_uncompressed_offset c) + u_size c < 2 ^ 63 \<and> u_size c \<le> unat RAFS_MAX_CHUNK_SIZE)"

text \<open>The backend answers in full, and every chunk lies in the blob and decodes.\<close>

definition undisturbed :: "blob_cache \<Rightarrow> u8 list \<Rightarrow> BlobChunkInfo set \<Rightarrow> bool" where
  "undisturbed bc blob C \<longleftrightarrow>
     (\<forall>off n. unat off + n \<le> length blob \<longrightarrow> bc_reader bc off n = Inr (slice_of blob off n)) \<and>
     (\<forall>c \<in> C. fetchable bc blob c \<and> unat (ci_compressed_offset c) + unat (ci_compressed_size c) \<le> length blob)"

definition region_for ::
  "(BlobChunkInfo \<Rightarrow> bool) \<Rightarrow> Region \<Rightarrow> piece list \<Rightarrow> bool" where
  "region_for ready r ps \<longleftrightarrow>
     ps \<noteq> [] \<and> run_len ps < 2 ^ 32 \<and>
     rg_seg r = \<lparr>seg_offset = seg_offset (snd (hd ps)), seg_len = of_nat (run_len ps)\<rparr> \<and>
     (case rg_type r of
        CacheFast \<Rightarrow> rg_blob_address r = ci_uncompressed_offset (fst (hd ps)) \<and> (\<forall>p \<in> set ps. ready (fst p)) \<and>
          adjoining (map fst ps)
      | CacheSlow \<Rightarrow> rg_chunks r = map fst ps \<and> (\<forall>p \<in> set ps. ready (fst p))
      | Backend \<Rightarrow> rg_chunks r = map fst ps \<and> rg_tags r = replicate (length ps) True \<and>
          rg_blob_address r = ci_compressed_offset (fst (hd ps)) \<and>
          unat (rg_blob_address r) + unat (rg_blob_len r) =
            unat (ci_compressed_offset (fst (last ps))) + unat (ci_compressed_size (fst (last ps))) \<and>
          chunks_ordered (map fst ps) \<and> ids_consecutive (map fst ps))"

locale tracker_answers = tracker +
  assumes check_answers: "\<lbrakk>tinv m; known c; cm_check_ready_and_mark_pending ops m c = (m', r)\<rbrakk> \<Longrightarrow>
      r = Inr (rdy m c) \<or> r = Inl Timeout"
    and set_answers: "\<lbrakk>tinv m; known c; cm_set_ready_and_clear_pending ops m c = (m', u)\<rbrakk> \<Longrightarrow> u = Inr ()"
begin

definition rok :: "'a FileCacheEntry \<Rightarrow> u8 list \<Rightarrow> BlobChunkInfo set \<Rightarrow> bool" where
  "rok e blob C \<longleftrightarrow> ok e blob C \<and> delayed_ok e blob C \<and> plain_cache e C"

lemma rok_later:
  assumes "rok e blob C" and "ok e' blob C" and "later e e'" and "fe_delayed e' = fe_delayed e"
    and "fe_is_direct_chunkmap e' = fe_is_direct_chunkmap e"
  shows "rok e' blob C"
proof -
  have "fe_cache e' = fe_cache e" "fe_is_compressed e' = fe_is_compressed e"
    using static_eqD [OF later_static [OF assms(3)]] by auto
  then show ?thesis
    using assms by (auto simp: rok_def delayed_ok_def plain_cache_def)
qed

lemma rok_delay:
  assumes "rok e blob C" and "c \<in> C" and "chunk_content (fe_cache e) c (chunk_raw blob c) d"
  shows "\<exists>e'. delay_persist_chunk_data e c d False = Inr e' \<and> rok e' blob C \<and> later e e' \<and>
    fe_chunk_map e' = fe_chunk_map e"
proof -
  define e' where "e' = e\<lparr>fe_delayed := fe_delayed e @ [(c, d, False)]\<rparr>"
  have st: "static e' = static e"
    by (simp add: e'_def static_def)
  have "ok e' blob C \<and> later e e'"
    using assms(1) st by (intro ok_file_change) (simp_all add: rok_def e'_def chunk_stored_def)
  moreover have "delay_persist_chunk_data e c d False = Inr e'"
    using assms(1) by (simp add: delay_persist_chunk_data_def rok_def plain_cache_def e'_def)
  ultimately show ?thesis
    using assms by (auto simp: rok_def delayed_ok_def plain_cache_def e'_def)
qed

text \<open>A ready chunk has its content in the file.\<close>

lemma ready_content:
  assumes "rok e blob C" and "c \<in> C" and "rdy (fe_chunk_map e) c" and "content_of (fe_cache e) blob C cont"
  shows "slice_of (fe_file e) (ci_uncompressed_offset c) (u_size c) = cont c \<and> length (cont c) = u_size c \<and>
    chunk_stored e blob c \<and> chunk_content (fe_cache e) c (chunk_raw blob c) (cont c)"
proof -
  have stored: "chunk_stored e blob c"
    using assms(1-3) by (auto simp: rok_def ok_def coherent_def)
  then have "chunk_content (fe_cache e) c (chunk_raw blob c) (slice_of (fe_file e) (ci_uncompressed_offset c) (u_size c))"
    using assms(1) by (simp add: rok_def plain_cache_def chunk_stored_def)
  then show ?thesis
    using stored assms(2,4) by (auto simp: content_of_def chunk_content_def)
qed

text \<open>What a computation does that serves the pieces \<open>ps\<close>.\<close>

definition serving :: "u8 list \<Rightarrow> BlobChunkInfo set \<Rightarrow> (BlobChunkInfo \<Rightarrow> u8 list) \<Rightarrow> 'a reading \<Rightarrow> piece list \<Rightarrow> ('a reading, nat) run \<Rightarrow> bool" where
  "serving blob C cont s ps x \<longleftrightarrow>
     (\<exists>s' r. x = Some (s', r) \<and> rok (rd_entry s') blob C \<and> later (rd_entry s) (rd_entry s') \<and>
        (\<forall>n. r = Inr n \<longrightarrow> n \<le> run_len ps \<and> advanced s s' (run_len ps) \<and>
           (n = run_len ps \<longrightarrow> wrote s s' (run_bytes cont ps) \<and> length (run_bytes cont ps) = run_len ps)) \<and>
        (undisturbed (fe_cache (rd_entry s)) blob C \<and> rd_preads s = [] \<longrightarrow>
           r = Inr (run_len ps) \<and> rd_preads s' = []))"

lemma serve_fast:
  assumes "rok (rd_entry s) blob C" and "rd_ok s" and "content_of (fe_cache (rd_entry s)) blob C cont"
    and "region_for (rdy (fe_chunk_map (rd_entry s))) r ps" and "rg_type r = CacheFast"
    and "pieces_join ps" and "fst ` set ps \<subseteq> C" and "rd_pos s + run_len ps \<le> rd_room s"
  shows "serving blob C cont s ps (dispatch_cache_fast s r)"
proof -
  let ?e = "rd_entry s" and ?len = "run_len ps"
  let ?u = "unat (ci_uncompressed_offset (fst (hd ps)))"
  have ps: "ps \<noteq> []" "?len < 2 ^ 32" and r: "rg_blob_address r = ci_uncompressed_offset (fst (hd ps))"
      "seg_offset (rg_seg r) = seg_offset (snd (hd ps))" "seg_len (rg_seg r) = of_nat ?len"
    and ready: "\<forall>p \<in> set ps. rdy (fe_chunk_map ?e) (fst p)" and adj: "adjoining (map fst ps)"
    using assms(4,5) by (auto simp: region_for_def)
  have cont: "slice_of (fe_file ?e) (ci_uncompressed_offset (fst p)) (u_size (fst p)) = cont (fst p) \<and>
      length (cont (fst p)) = u_size (fst p)" if "p \<in> set ps" for p
    using ready_content [OF assms(1) _ _ assms(3)] ready assms(7) that by blast
  note run = adjoining_run [OF adj assms(6) ps(1) cont]
  have hd: "hd ps \<in> set ps"
    using ps(1) by simp
  have fits: "?u + piece_offset (hd ps) < 2 ^ 63"
    using pieces_join_pos [OF assms(6) hd] assms(1,7) hd by (fastforce simp: rok_def plain_cache_def)
  have off: "unat (rg_blob_address r + ucast (seg_offset (rg_seg r))) = ?u + piece_offset (hd ps)"
    using fits unat_add_less [of "rg_blob_address r" "ucast (seg_offset (rg_seg r))"]
    by (simp add: r unat_ucast_u32_u64)
  have bit: "\<not> bit (rg_blob_address r + ucast (seg_offset (rg_seg r)) :: u64) 63"
    using fits off by (simp add: bit_63_iff)
  have sz: "unat (seg_len (rg_seg r)) = ?len"
    using ps(2) r(3) by (simp add: unat_of_nat_less)
  obtain cursor iovec where con: "consume (rd_cursor s) ?len = (cursor, iovec)"
    by fastforce
  have cursor: "cursor = move_cursor (rd_cursor s) ?len" and iovec: "iovec = snd (consume (rd_cursor s) ?len)"
    using con consume_moves [of "rd_cursor s" ?len] by auto
  have cap: "sum_list (map (\<lambda>(_, _, n). n) iovec) = ?len"
    using consume_size [OF rd_ok_mc(1) [OF assms(2)], of ?len] rd_ok_mc(3) [OF assms(2)] assms(8) iovec by simp
  let ?bs = "run_bytes cont ps"
  have slice: "slice_of (fe_file ?e) (rg_blob_address r + ucast (seg_offset (rg_seg r))) ?len = ?bs"
    using run(1) off by (simp add: slice_of_def)
  obtain rs x where loop: "readv_loop (rd_preads s) ?bs = (rs, x)"
    by fastforce
  define bs where "bs = (case x of Inr bs \<Rightarrow> bs | Inl _ \<Rightarrow> [])"
  have x: "x = Inr bs \<or> (\<exists>err. x = Inl err)" "length bs \<le> ?len" "length bs = ?len \<Longrightarrow> bs = ?bs"
    "rd_preads s = [] \<Longrightarrow> x = Inr ?bs \<and> rs = []"
    using readv_loop_prefix [OF loop] loop run(2) by (auto simp: bs_def split: sum.splits)
  have mem: "map length (scatter (rd_mem s) iovec bs) = map length (rd_mem s) \<and>
      concat (scatter (rd_mem s) iovec bs) = overwrite (concat (rd_mem s)) (rd_pos s) bs"
    using scatter_consume [OF rd_ok_mc(1) [OF assms(2)], of "rd_mem s" bs ?len] assms(2,8) x(2) iovec
    by (simp add: rd_ok_def)
  define s' where "s' = s\<lparr>rd_cursor := cursor, rd_preads := rs,
      rd_mem := (case x of Inr bs \<Rightarrow> scatter (rd_mem s) iovec bs | Inl _ \<Rightarrow> rd_mem s)\<rparr>"
  have run': "dispatch_cache_fast s r = Some (s', case x of Inr bs \<Rightarrow> Inr (length bs) | Inl err \<Rightarrow> Inl err)"
    using con loop sz slice cap bit
    by (auto simp: dispatch_cache_fast_def Let_def readv_def s'_def split: sum.splits)
  have "advanced s s' ?len" if "x = Inr bs"
    by (rule advanced_move [OF assms(2) conjunct1 [OF mem] assms(8)]) (simp_all add: s'_def cursor that)
  moreover have "wrote s s' bs" if "x = Inr bs"
    using mem that by (simp add: wrote_def s'_def)
  ultimately show ?thesis
    unfolding serving_def run' using x assms(1) run(2) by (auto simp: s'_def)
qed

text \<open>A ready chunk is read from the cache file.\<close>

lemma single_ready:
  assumes "rok e blob C" and "c \<in> C" and "rdy (fe_chunk_map e) c" and "content_of (fe_cache e) blob C cont"
    and "length d = u_size c" and "single_chunk_data ops e c d = (e', r)"
  shows "rok e' blob C \<and> later e e' \<and> r = Inr (cont c)"
proof -
  note c = ready_content [OF assms(1-4)]
  have "FileRangeReader_read_exact (fe_file e) (ci_uncompressed_offset c) (ucast (ci_uncompressed_size c)) (length d) = Inr (cont c)"
    using c assms(5) by (simp add: FileRangeReader_read_exact_def unat_ucast_u32_u64)
  moreover have "validate_chunk_data (fe_cache e) c (cont c) False = Inr (length (cont c))"
    using c by (simp add: validate_chunk_data_ok chunk_content_def)
  ultimately have "read_file_cache e c d = Inr (cont c)"
    using assms(1) by (simp add: read_file_cache_def rok_def plain_cache_def)
  moreover obtain m u where m: "cm_set_ready_and_clear_pending ops (fe_chunk_map e) c = (m, u)"
    by fastforce
  ultimately have e': "e' = update_chunk_pending_status ops e c True" and r: "r = and_then u (\<lambda>_. Inr (cont c))"
    using assms(6) by (auto simp: single_chunk_data_def update_chunk_pending_status_def)
  have "u = Inr ()"
    using set_answers [OF _ _ m] assms(1,2) by (simp add: rok_def ok_def)
  moreover have "ok e' blob C \<and> later e e'"
    using ok_ready [of e blob C c] assms(1,2) c unfolding e' by (simp add: rok_def)
  moreover have "fe_delayed e' = fe_delayed e" "fe_is_direct_chunkmap e' = fe_is_direct_chunkmap e"
    by (simp_all add: e' update_chunk_pending_status_def)
  ultimately show ?thesis
    using rok_later [OF assms(1)] r by auto
qed

lemma read_single_ready:
  assumes "volatile_spec vw" and "rok (rd_entry s) blob C" and "rd_ok s"
    and "content_of (fe_cache (rd_entry s)) blob C cont" and "c \<in> C" and "rdy (fe_chunk_map (rd_entry s)) c"
    and "0 < unat size'" and "unat user_offset + unat size' \<le> u_size c" and "rd_pos s + unat size' \<le> rd_room s"
  shows "\<exists>s'. read_single_chunk ops vw s c user_offset size' = Some (s', Inr (unat size')) \<and>
    rok (rd_entry s') blob C \<and> later (rd_entry s) (rd_entry s') \<and> advanced s s' (unat size') \<and>
    wrote s s' (take (unat size') (drop (unat user_offset) (cont c))) \<and> rd_preads s' = rd_preads s"
proof -
  let ?e = "rd_entry s"
  have "u_size c < 2 ^ 32"
    by (rule unat_lt2p32)
  then have alloc: "alloc_buf (bc_junk (fe_cache ?e)) (u_size c) =
      Inr \<lparr>v_data = map (bc_junk (fe_cache ?e)) [0..<u_size c], v_cap = ceil4k (u_size c)\<rparr>"
    by (intro alloc_buf_small) simp
  obtain e' r where e': "single_chunk_data ops ?e c (map (bc_junk (fe_cache ?e)) [0..<u_size c]) = (e', r)"
    by fastforce
  have single: "rok e' blob C \<and> later ?e e' \<and> r = Inr (cont c)"
    using single_ready [OF assms(2,5,6,4) _ e'] by simp
  let ?s = "s\<lparr>rd_entry := e'\<rparr>"
  have "length (cont c) = u_size c"
    using ready_content [OF assms(2,5,6,4)] by simp
  then obtain s' where s': "copy_to_user vw EOTHER ?s [cont c] (unat user_offset) (unat size') = Some (s', Inr (unat size'))"
    "advanced ?s s' (unat size')" "wrote ?s s' (take (unat size') (drop (unat user_offset) (concat [cont c])))"
    "rd_entry s' = rd_entry ?s" "rd_preads s' = rd_preads ?s"
    using copy_to_user_ok [OF assms(1), of ?s "[cont c]" "unat user_offset" "unat size'" EOTHER] assms(3,7-9)
    by (auto simp: rd_ok_def)
  have "read_single_chunk ops vw s c user_offset size' = Some (s', Inr (unat size'))"
    using s'(1) single by (simp add: read_single_chunk_def alloc e')
  moreover have "advanced s s' (unat size') \<and> wrote s s' (take (unat size') (drop (unat user_offset) (cont c)))"
    using s'(2,3) by (simp add: advanced_def wrote_def)
  ultimately show ?thesis
    using single s'(4,5) by auto
qed

lemma later_ready:
  assumes "later e e'" and "ok e blob C" and "\<forall>p \<in> set ps. rdy (fe_chunk_map e) (fst p)" and "fst ` set ps \<subseteq> C"
  shows "\<forall>p \<in> set ps. rdy (fe_chunk_map e') (fst p)"
  using assms by (auto simp: later_def ok_def)

lemma content_of_later: "later e e' \<Longrightarrow> content_of (fe_cache e') blob C cont = content_of (fe_cache e) blob C cont"
  using static_eqD(1) [OF later_static] by metis

lemma serve_slow_loop:
  assumes vw: "volatile_spec vw"
  shows "\<lbrakk>rok (rd_entry s) blob C; rd_ok s; content_of (fe_cache (rd_entry s)) blob C cont; pieces_join ps;
     fst ` set ps \<subseteq> C; \<forall>p \<in> set ps. rdy (fe_chunk_map (rd_entry s)) (fst p);
     rd_pos s + run_len ps \<le> rd_room s; unat (seg_len seg) = total_read + run_len ps;
     ps \<noteq> [] \<longrightarrow> (if i = 0 then seg_offset seg else 0) = seg_offset (snd (hd ps))\<rbrakk> \<Longrightarrow>
     \<exists>s'. slow_loop ops vw seg s i (map fst ps) total_read = Some (s', Inr (total_read + run_len ps)) \<and>
       rok (rd_entry s') blob C \<and> later (rd_entry s) (rd_entry s') \<and> advanced s s' (run_len ps) \<and>
       wrote s s' (run_bytes cont ps) \<and> length (run_bytes cont ps) = run_len ps \<and> rd_preads s' = rd_preads s"
proof (induction ps arbitrary: s i total_read)
  case Nil
  then show ?case
    by (auto simp: advanced_def wrote_def)
next
  case (Cons p ps)
  let ?c = "fst p" and ?off = "seg_offset (snd p)" and ?n = "piece_len p"
  let ?size = "min (ci_uncompressed_size ?c - ?off) (seg_len seg - of_nat total_read)"
  have p: "0 < ?n" "unat ?off + ?n \<le> u_size ?c"
    using pieces_join_pos [OF Cons.prems(4), of p] by auto
  have left: "unat (seg_len seg - of_nat total_read) = run_len (p # ps)"
  proof -
    have "total_read < 2 ^ 32"
      using Cons.prems(8) unat_lt2p32 [of "seg_len seg"] by linarith
    then have "unat (of_nat total_read :: u32) = total_read"
      by (intro unat_of_nat_less) simp
    then show ?thesis
      using Cons.prems(8) unat_sub [of "of_nat total_read" "seg_len seg"] by (simp add: word_le_nat_alt)
  qed
  have "?off \<le> ci_uncompressed_size ?c"
    using p(2) by (simp add: word_le_nat_alt)
  then have rest: "unat (ci_uncompressed_size ?c - ?off) = u_size ?c - unat ?off"
    by (rule unat_sub)
  have "ps = [] \<or> unat ?off + ?n = u_size ?c"
    using Cons.prems(4) by (cases ps) auto
  then have size: "unat ?size = ?n"
    using left rest p(2) by (auto simp: min_def word_le_nat_alt)
  have c: "?c \<in> C" "rdy (fe_chunk_map (rd_entry s)) ?c"
    using Cons.prems(5,6) by auto
  obtain s1 where s1: "read_single_chunk ops vw s ?c ?off ?size = Some (s1, Inr ?n)" "rok (rd_entry s1) blob C"
      "later (rd_entry s) (rd_entry s1)" "advanced s s1 ?n" "wrote s s1 (piece_bytes cont p)" "rd_preads s1 = rd_preads s"
    using read_single_ready [OF vw Cons.prems(1-3) c, of ?size ?off] p size Cons.prems(7)
    by (auto simp: piece_bytes_def)
  have plen: "length (piece_bytes cont p) = ?n"
    using ready_content [OF Cons.prems(1) c Cons.prems(3)] p(2) by (simp add: piece_bytes_def)
  have ready: "\<forall>p \<in> set ps. rdy (fe_chunk_map (rd_entry s1)) (fst p)"
    using later_ready [OF s1(3), of blob C ps] Cons.prems(1,5,6) by (simp add: rok_def)
  have "ps \<noteq> [] \<longrightarrow> 0 = seg_offset (snd (hd ps))"
    using Cons.prems(4) by (cases ps) auto
  moreover have "rd_ok s1" "rd_pos s1 + run_len ps \<le> rd_room s1"
    using s1(4) Cons.prems(7) advanced_room [OF s1(4)] by (auto simp: advanced_def)
  ultimately obtain s' where s': "slow_loop ops vw seg s1 (Suc i) (map fst ps) (total_read + ?n) =
        Some (s', Inr (total_read + ?n + run_len ps))" "rok (rd_entry s') blob C"
      "later (rd_entry s1) (rd_entry s')" "advanced s1 s' (run_len ps)" "wrote s1 s' (run_bytes cont ps)"
      "length (run_bytes cont ps) = run_len ps" "rd_preads s' = rd_preads s1"
    using Cons.IH [of s1 "total_read + ?n" "Suc i"] s1(2) Cons.prems content_of_later [OF s1(3)] pieces_join_tl ready
    by auto
  have "slow_loop ops vw seg s i (map fst (p # ps)) total_read = Some (s', Inr (total_read + run_len (p # ps)))"
    using s1(1) s'(1) Cons.prems(9) by (simp add: run_then_def Let_def add.assoc)
  moreover have "advanced s s' (run_len (p # ps))"
    using advanced_trans [OF s1(4) s'(4)] by simp
  moreover have "wrote s s' (run_bytes cont (p # ps))"
    using wrote_trans [OF s1(5) s'(5)] s1(4) plen s'(6) Cons.prems(7) by simp
  moreover have "later (rd_entry s) (rd_entry s')"
    using s1(3) s'(3) by (rule later_trans)
  ultimately show ?case
    using s'(2,6,7) s1(6) plen by auto
qed

lemma serve_slow:
  assumes "volatile_spec vw" and "rok (rd_entry s) blob C" and "rd_ok s" and "content_of (fe_cache (rd_entry s)) blob C cont"
    and "region_for (rdy (fe_chunk_map (rd_entry s))) r ps" and "rg_type r = CacheSlow"
    and "pieces_join ps" and "fst ` set ps \<subseteq> C" and "rd_pos s + run_len ps \<le> rd_room s"
  shows "serving blob C cont s ps (dispatch_cache_slow ops vw s r)"
proof -
  have r: "rg_chunks r = map fst ps" "seg_offset (rg_seg r) = seg_offset (snd (hd ps))"
      "unat (seg_len (rg_seg r)) = run_len ps" "\<forall>p \<in> set ps. rdy (fe_chunk_map (rd_entry s)) (fst p)"
    using assms(5,6) by (auto simp: region_for_def unat_of_nat_less)
  obtain s' where "dispatch_cache_slow ops vw s r = Some (s', Inr (run_len ps))" "rok (rd_entry s') blob C"
      "later (rd_entry s) (rd_entry s')" "advanced s s' (run_len ps)" "wrote s s' (run_bytes cont ps)"
      "length (run_bytes cont ps) = run_len ps" "rd_preads s' = rd_preads s"
    using serve_slow_loop [OF assms(1-4,7,8) r(4) assms(9), of "rg_seg r" 0 0] r
    by (auto simp: dispatch_cache_slow_def)
  then show ?thesis
    by (auto simp: serving_def)
qed

lemma rok_clear_all:
  "rok e blob C \<Longrightarrow> rok (clear_all ops e cs) blob C \<and> later e (clear_all ops e cs)"
proof (induction cs arbitrary: e)
  case (Cons c cs)
  let ?e = "e\<lparr>fe_chunk_map := cm_clear_pending ops (fe_chunk_map e) c\<rparr>"
  have "ok ?e blob C \<and> later e ?e"
    using ok_release [of e blob C c] Cons.prems by (simp add: rok_def update_chunk_pending_status_def)
  moreover from this have "rok ?e blob C"
    using rok_later [OF Cons.prems, of ?e] by simp
  ultimately show ?case
    using Cons.IH [of ?e] later_trans [of e ?e] by (auto simp: clear_all_def)
qed (simp add: clear_all_def)

text \<open>The decoded chunks are kept for the cache file and for the user.\<close>

lemma collect_decoded:
  assumes "\<forall>i < length cs. \<exists>r. snd (ds_next bc (ds_after bc ds i)) = Some r \<and>
      (\<forall>v. r = Inr v \<longrightarrow> chunk_content bc (cs ! i) (chunk_raw blob (cs ! i)) (v_data v))"
    and "set cs \<subseteq> C" and "content_of bc blob C cont"
  shows "cs = pre @ rest \<Longrightarrow> rok e blob C \<Longrightarrow> fe_cache e = bc \<Longrightarrow>
    \<exists>e' r. collect_buffers e (ds_after bc ds (length pre)) rest (replicate (length rest) True) = (e', r) \<and>
      rok e' blob C \<and> later e e' \<and>
      (\<forall>bs. r = Inr bs \<longrightarrow> bs = map cont rest \<and> (\<forall>c \<in> set rest. length (cont c) = u_size c)) \<and>
      ((\<forall>i < length cs. \<exists>v. snd (ds_next bc (ds_after bc ds i)) = Some (Inr v)) \<longrightarrow> (\<exists>bs. r = Inr bs))"
proof (induction rest arbitrary: pre e)
  case (Cons c rest)
  have i: "length pre < length cs" "cs ! length pre = c"
    using Cons.prems(1) by auto
  have c: "c \<in> C"
    using Cons.prems(1) assms(2) by auto
  obtain x where x: "snd (ds_next bc (ds_after bc ds (length pre))) = Some x"
      "\<And>v. x = Inr v \<Longrightarrow> chunk_content bc c (chunk_raw blob c) (v_data v)"
    using assms(1) i by metis
  have next': "ds_next bc (ds_after bc ds (length pre)) = (ds_after bc ds (length (pre @ [c])), Some x)"
    using x(1) by (simp add: ds_after_def prod_eq_iff)
  show ?case
  proof (cases x)
    case (Inl err)
    have "\<not> (\<exists>v. snd (ds_next bc (ds_after bc ds (length pre))) = Some (Inr v))"
      using x(1) Inl by simp
    then show ?thesis
      using next' Inl Cons.prems(2,3) i(1) by auto
  next
    case (Inr v)
    obtain e1 where e1: "delay_persist_chunk_data e c (v_data v) False = Inr e1" "rok e1 blob C" "later e e1"
      using rok_delay [OF Cons.prems(2) c] x(2) [OF Inr] Cons.prems(3) by auto
    have bc: "fe_cache e1 = bc"
      using static_eqD(1) [OF later_static [OF e1(3)]] Cons.prems(3) by simp
    have eq: "cs = (pre @ [c]) @ rest"
      using Cons.prems(1) by simp
    obtain e2 r where e2: "collect_buffers e1 (ds_after bc ds (length (pre @ [c]))) rest (replicate (length rest) True) = (e2, r)"
      "rok e2 blob C" "later e1 e2"
      "\<forall>bs. r = Inr bs \<longrightarrow> bs = map cont rest \<and> (\<forall>c \<in> set rest. length (cont c) = u_size c)"
      "(\<forall>i < length cs. \<exists>v. snd (ds_next bc (ds_after bc ds i)) = Some (Inr v)) \<longrightarrow> (\<exists>bs. r = Inr bs)"
      using Cons.IH [OF eq e1(2) bc] by blast
    have v: "v_data v = cont c" "length (v_data v) = u_size c"
      using x(2) [OF Inr] assms(3) c by (auto simp: content_of_def chunk_content_def)
    have "collect_buffers e (ds_after bc ds (length pre)) (c # rest) (replicate (length (c # rest)) True) =
        (e2, and_then r (\<lambda>bs. Inr (v_data v # bs)))"
      using next' Inr e1(1) e2(1) Cons.prems(2,3) by (simp add: rok_def plain_cache_def)
    then show ?thesis
      using e2(2-5) v later_trans [OF e1(3) e2(3)] by (auto simp: and_then_eq_Inr)
  qed
qed simp

lemma serve_backend:
  assumes vw: "volatile_spec vw" and e: "rok (rd_entry s) blob C" and s: "rd_ok s"
    and cont: "content_of (fe_cache (rd_entry s)) blob C cont"
    and r: "region_for (rdy (fe_chunk_map (rd_entry s))) r ps" "rg_type r = Backend"
    and ps: "pieces_join ps" "fst ` set ps \<subseteq> C" and room: "rd_pos s + run_len ps \<le> rd_room s"
  shows "serving blob C cont s ps (dispatch_backend ops vw s r)"
proof -
  let ?e = "rd_entry s" and ?cs = "map fst ps"
  let ?bc = "fe_cache ?e" and ?off = "rg_blob_address r" and ?n = "unat (rg_blob_len r)"
  have ne: "ps \<noteq> []" "run_len ps < 2 ^ 32" and seg: "seg_offset (rg_seg r) = seg_offset (snd (hd ps))" "seg_len (rg_seg r) = of_nat (run_len ps)"
    and rc: "rg_chunks r = ?cs" "rg_tags r = replicate (length ps) True" "?off = ci_compressed_offset (hd ?cs)"
      "unat ?off + ?n = unat (ci_compressed_offset (last ?cs)) + unat (ci_compressed_size (last ?cs))"
    and ord: "chunks_ordered ?cs" and ids: "ids_consecutive ?cs"
    using r by (auto simp: region_for_def hd_map last_map)
  have sz: "unat (seg_len (rg_seg r)) = run_len ps" and pos: "0 < run_len ps"
    using ne(2) seg(2) pieces_join_pos [OF ps(1), of "hd ps"] ne(1) by (auto simp: unat_of_nat_less neq_Nil_conv)
  have su: "serves (bc_reader ?bc) blob" "codec_bounded (bc_codecs ?bc)" "\<not> bc_is_zran ?bc" "length blob < 2 ^ 64"
    using e by (auto simp: rok_def ok_def blob_setup_def)
  have last': "last ?cs \<in> set ?cs"
    using ne(1) last_in_set [of ?cs] by simp
  have fits: "unat ?off + ?n < 2 ^ 64"
    using ord last' rc(4) by (auto simp: chunks_ordered_def)
  have stop: "unat (ci_compressed_end (last ?cs)) = unat ?off + ?n"
    using fits rc(4) unat_add_less [of "ci_compressed_offset (last ?cs)" "ucast (ci_compressed_size (last ?cs))"]
    by (simp add: ci_compressed_end_def unat_ucast_u32_u64)
  have diff: "unat (ci_compressed_end (last ?cs) - ?off) = ?n"
    using stop by (subst unat_sub) (simp_all add: word_le_nat_alt)
  then have "ci_compressed_end (last ?cs) - ?off \<le> 0xFFFFFFFF"
    using unat_lt2p32 [of "rg_blob_len r"] by (simp add: word_le_nat_alt)
  then have "get_blob_range ?e ?cs = Inr (?off, ci_compressed_end (last ?cs), ?n)"
    using ne(1) su(3) rc(3) diff by (auto simp: get_blob_range_def Let_def)
  note inside = get_blob_range_covers [OF ord su(3) this]
  have region: "and_then (extend_region ops ?e r) (zran_region ?e) = Inr r"
    using e su(3) ne(1) rc(1) by (simp add: extend_region_def extend_pending_chunks_def zran_region_def rok_def plain_cache_def)
  have user: "has_user_io r"
    using sz pos by (auto simp: has_user_io_def BlobIoSegment_is_empty_def)
  note ev = dispatch_backend_def Let_def region fetch_region_def rc(1,2)
  show ?thesis
  proof (cases "read_chunks_from_backend ?bc ?off ?n ?cs")
    case (Inl err)
    have "\<not> undisturbed ?bc blob C"
    proof
      assume good: "undisturbed ?bc blob C"
      have "last ?cs \<in> C"
        using last' ps(2) by auto
      then have le: "unat ?off + ?n \<le> length blob"
        using good rc(4) by (auto simp: undisturbed_def)
      then have "length (slice_of blob ?off ?n) = ?n"
        by (simp add: slice_of_def)
      moreover have "?n \<le> 2 ^ 62"
        using unat_lt2p32 [of "rg_blob_len r"] by simp
      ultimately show False
        using read_chunks_complete [of ?bc ?off ?n blob ?cs] good le Inl by (auto simp: undisturbed_def)
    qed
    then show ?thesis
      using rok_clear_all [OF e, of ?cs] Inl ne(1) user ids by (auto simp: serving_def ev)
  next
    case (Inr ds)
    have nexts: "\<exists>x. snd (ds_next ?bc (ds_after ?bc ds i)) = Some x \<and>
        (\<forall>v. x = Inr v \<longrightarrow> chunk_content ?bc (?cs ! i) (chunk_raw blob (?cs ! i)) (v_data v)) \<and>
        (undisturbed ?bc blob C \<longrightarrow> (\<exists>v. x = Inr v))" if "i < length ?cs" for i
    proof -
      obtain x where x: "snd (ds_next ?bc (ds_after ?bc ds i)) = Some x"
        "\<And>v. x = Inr v \<longleftrightarrow> chunk_in ?off ?n (?cs ! i) \<and> chunk_content ?bc (?cs ! i) (chunk_raw blob (?cs ! i)) (v_data v) \<and>
           v_cap v = ceil4k (u_size (?cs ! i))"
        using plain_results(1) [OF su(1-3) fits Inr] \<open>i < length ?cs\<close> by metis
      have "\<exists>v. x = Inr v" if good: "undisturbed ?bc blob C"
      proof -
        have "?cs ! i \<in> C"
          using ps(2) nth_mem [OF \<open>i < length ?cs\<close>] by auto
        then obtain d where "chunk_content ?bc (?cs ! i) (chunk_raw blob (?cs ! i)) d"
          using good by (auto simp: undisturbed_def fetchable_def)
        then show ?thesis
          using x(2) [of "\<lparr>v_data = d, v_cap = ceil4k (u_size (?cs ! i))\<rparr>"] inside [of "?cs ! i"]
            nth_mem [OF \<open>i < length ?cs\<close>] by auto
      qed
      moreover have "chunk_content ?bc (?cs ! i) (chunk_raw blob (?cs ! i)) (v_data v)" if "x = Inr v" for v
        using x(2) [of v] that by simp
      ultimately show ?thesis
        using x(1) by (intro exI [of _ x] conjI allI impI) simp_all
    qed
    have "set ?cs \<subseteq> C"
      using ps(2) by simp
    have "\<forall>i < length ?cs. \<exists>x. snd (ds_next ?bc (ds_after ?bc ds i)) = Some x \<and>
        (\<forall>v. x = Inr v \<longrightarrow> chunk_content ?bc (?cs ! i) (chunk_raw blob (?cs ! i)) (v_data v))"
      using nexts by blast
    from collect_decoded [OF this \<open>set ?cs \<subseteq> C\<close> cont append_Nil [symmetric] e refl]
    obtain e' x where x: "collect_buffers ?e (ds_after ?bc ds 0) ?cs (replicate (length ?cs) True) = (e', x)"
      "rok e' blob C" "later ?e e'"
      "\<forall>bs. x = Inr bs \<longrightarrow> bs = map cont ?cs \<and> (\<forall>c \<in> set ?cs. length (cont c) = u_size c)"
      "(\<forall>i < length ?cs. \<exists>v. snd (ds_next ?bc (ds_after ?bc ds i)) = Some (Inr v)) \<longrightarrow> (\<exists>bs. x = Inr bs)"
      unfolding list.size by blast
    have good: "\<exists>bs. x = Inr bs" if "undisturbed ?bc blob C"
      using nexts x(5) that by blast
    have fetch: "fetch_region ops ?e r = (e', x)"
      using Inr x(1) e by (simp add: fetch_region_def rc ds_after_def rok_def plain_cache_def)
    have disp: "dispatch_backend ops vw s r = (case x of
          Inl err \<Rightarrow> Some (s\<lparr>rd_entry := e'\<rparr>, Inl err)
        | Inr bs \<Rightarrow> copy_to_user vw EIO (s\<lparr>rd_entry := e'\<rparr>) bs (unat (seg_offset (rg_seg r))) (unat (seg_len (rg_seg r))))"
      using ne(1) user ids by (simp add: dispatch_backend_def Let_def region fetch rc(1))
    show ?thesis
    proof (cases x)
      case err: (Inl err)
      then show ?thesis
        using disp x(2,3) good by (auto simp: serving_def)
    next
      case bufs: (Inr bs)
      let ?s = "s\<lparr>rd_entry := e'\<rparr>" and ?all = "map (\<lambda>p. cont (fst p)) ps"
      have bs: "bs = ?all" and lens: "\<And>p. p \<in> set ps \<Longrightarrow> length (cont (fst p)) = u_size (fst p)"
        using x(4) bufs by (auto simp: o_def)
      note rg = run_bytes_range [OF ps(1) ne(1), of cont, OF lens]
      obtain s' where s': "copy_to_user vw EIO ?s ?all (piece_offset (hd ps)) (run_len ps) = Some (s', Inr (run_len ps))"
        "advanced ?s s' (run_len ps)" "wrote ?s s' (take (run_len ps) (drop (piece_offset (hd ps)) (concat ?all)))"
        "rd_entry s' = rd_entry ?s" "rd_preads s' = rd_preads ?s"
        using copy_to_user_ok [OF vw, of ?s ?all "piece_offset (hd ps)" "run_len ps" EIO] rg s room ne(1)
        by (auto simp: rd_ok_def)
      have "advanced s s' (run_len ps) \<and> wrote s s' (run_bytes cont ps) \<and> length (run_bytes cont ps) = run_len ps"
        using s'(2,3) rg by (simp add: advanced_def wrote_def min_def) linarith
      then show ?thesis
        using disp bufs s' x(2,3) bs seg(1) sz by (auto simp: serving_def)
    qed
  qed
qed

lemma serve_region:
  assumes "volatile_spec vw" and "rok (rd_entry s) blob C" and "rd_ok s" and "content_of (fe_cache (rd_entry s)) blob C cont"
    and "region_for (rdy (fe_chunk_map (rd_entry s))) r ps" and "pieces_join ps" and "fst ` set ps \<subseteq> C"
    and "rd_pos s + run_len ps \<le> rd_room s"
  shows "serving blob C cont s ps (dispatch_region ops vw s r)"
  using serve_fast [OF assms(2-5) _ assms(6-8)] serve_slow [OF assms(1-5) _ assms(6-8)]
    serve_backend [OF assms(1-5) _ assms(6-8)]
  by (cases "rg_type r") (auto simp: dispatch_region_def)

text \<open>One computation after another, each with its own pieces; the counts are added up.\<close>

definition add_count :: "nat \<Rightarrow> ('s, nat) run \<Rightarrow> ('s, nat) run" where
  "add_count n x = run_then x (\<lambda>s m. Some (s, Inr (n + m)))"

lemma serving_nothing: "rok (rd_entry s) blob C \<Longrightarrow> rd_ok s \<Longrightarrow> serving blob C cont s [] (Some (s, Inr 0))"
  by (auto simp: serving_def advanced_def wrote_def)

lemma serving_seq:
  assumes "serving blob C cont s ps x" and "rd_pos s + run_len ps + run_len qs \<le> rd_room s"
    and "\<And>s'. \<lbrakk>rok (rd_entry s') blob C; later (rd_entry s) (rd_entry s'); advanced s s' (run_len ps)\<rbrakk> \<Longrightarrow>
      serving blob C cont s' qs (k s')"
  shows "serving blob C cont s (ps @ qs) (run_then x (\<lambda>s n. add_count n (k s)))"
proof -
  obtain s1 r where x: "x = Some (s1, r)" and s1: "rok (rd_entry s1) blob C" "later (rd_entry s) (rd_entry s1)"
    and n: "\<And>n. r = Inr n \<Longrightarrow> n \<le> run_len ps \<and> advanced s s1 (run_len ps) \<and>
       (n = run_len ps \<longrightarrow> wrote s s1 (run_bytes cont ps) \<and> length (run_bytes cont ps) = run_len ps)"
    and good: "undisturbed (fe_cache (rd_entry s)) blob C \<and> rd_preads s = [] \<Longrightarrow> r = Inr (run_len ps) \<and> rd_preads s1 = []"
    using assms(1) unfolding serving_def by blast
  show ?thesis
  proof (cases r)
    case (Inl err)
    then show ?thesis
      using x s1 good by (auto simp: serving_def run_then_def)
  next
    case (Inr n)
    note n = n [OF Inr]
    have bc: "fe_cache (rd_entry s1) = fe_cache (rd_entry s)"
      using static_eqD(1) [OF later_static [OF s1(2)]] .
    obtain s2 q where y: "k s1 = Some (s2, q)" and s2: "rok (rd_entry s2) blob C" "later (rd_entry s1) (rd_entry s2)"
      and m: "\<And>m. q = Inr m \<Longrightarrow> m \<le> run_len qs \<and> advanced s1 s2 (run_len qs) \<and>
         (m = run_len qs \<longrightarrow> wrote s1 s2 (run_bytes cont qs) \<and> length (run_bytes cont qs) = run_len qs)"
      and good': "undisturbed (fe_cache (rd_entry s1)) blob C \<and> rd_preads s1 = [] \<Longrightarrow> q = Inr (run_len qs) \<and> rd_preads s2 = []"
      using assms(3) [OF s1] n unfolding serving_def by blast
    have later: "later (rd_entry s) (rd_entry s2)"
      using s1(2) s2(2) by (rule later_trans)
    show ?thesis
    proof (cases q)
      case err: (Inl err)
      then show ?thesis
        using x y Inr s2(1) later good good' bc by (auto simp: serving_def run_then_def add_count_def)
    next
      case count: (Inr m)
      note m = m [OF count]
      have "advanced s s2 (run_len (ps @ qs))"
        using advanced_trans [of s s1 "run_len ps" s2 "run_len qs"] n m by simp
      moreover have "wrote s s2 (run_bytes cont (ps @ qs)) \<and> length (run_bytes cont (ps @ qs)) = run_len (ps @ qs)"
        if "n + m = run_len (ps @ qs)"
      proof -
        have "n = run_len ps" "m = run_len qs"
          using that n m by auto
        then show ?thesis
          using wrote_trans [of s s1 "run_bytes cont ps" s2 "run_bytes cont qs"] n m assms(2) by auto
      qed
      moreover have "n + m \<le> run_len (ps @ qs)"
        using n m by simp
      moreover have "n + m = run_len (ps @ qs) \<and> rd_preads s2 = []"
        if "undisturbed (fe_cache (rd_entry s)) blob C \<and> rd_preads s = []"
        using good [OF that] good' that bc Inr count by simp
      moreover have "run_then x (\<lambda>s n. add_count n (k s)) = Some (s2, Inr (n + m))"
        using x y Inr count by (simp add: run_then_def add_count_def)
      ultimately show ?thesis
        using s2(1) later unfolding serving_def by blast
    qed
  qed
qed

lemma add_count_add: "add_count (a + b) x = add_count a (add_count b x)"
  by (auto simp: add_count_def run_then_def add.assoc split: option.splits sum.splits)

lemma add_count_then: "add_count a (run_then x k) = run_then x (\<lambda>s n. add_count a (k s n))"
  by (auto simp: add_count_def run_then_def split: option.splits sum.splits)

lemma dispatch_regions_add: "dispatch_regions ops' vw s rs total_read = add_count total_read (dispatch_regions ops' vw s rs 0)"
proof (induction rs arbitrary: s total_read)
  case (Cons r rs)
  define D where "D s = dispatch_regions ops' vw s rs 0" for s
  have eq: "dispatch_regions ops' vw s rs n = add_count n (D s)" for s n
    unfolding D_def by (rule Cons.IH)
  show ?case
    by (simp add: eq add_count_then add_count_add)
qed (simp add: add_count_def run_then_def)

lemma region_for_later:
  assumes "later e e'" and "ok e blob C" and "fst ` set ps \<subseteq> C" and "region_for (rdy (fe_chunk_map e)) r ps"
  shows "region_for (rdy (fe_chunk_map e')) r ps"
  using assms(4) later_ready [OF assms(1,2) _ assms(3)] by (auto simp: region_for_def split: RegionType.splits)

lemma serve_regions:
  assumes vw: "volatile_spec vw"
  shows "\<lbrakk>rok (rd_entry s) blob C; rd_ok s; content_of (fe_cache (rd_entry s)) blob C cont;
     list_all2 (region_for (rdy (fe_chunk_map (rd_entry s)))) rs pss; pieces_join (concat pss);
     fst ` set (concat pss) \<subseteq> C; rd_pos s + run_len (concat pss) \<le> rd_room s\<rbrakk> \<Longrightarrow>
     serving blob C cont s (concat pss) (dispatch_regions ops vw s rs 0)"
proof (induction rs arbitrary: s pss)
  case Nil
  then show ?case
    using serving_nothing by simp
next
  case (Cons r rs)
  obtain ps pss' where pss: "pss = ps # pss'" and r: "region_for (rdy (fe_chunk_map (rd_entry s))) r ps"
    and rs: "list_all2 (region_for (rdy (fe_chunk_map (rd_entry s)))) rs pss'"
    using Cons.prems(4) by (cases pss) auto
  have join: "pieces_join ps" "pieces_join (concat pss')" and C: "fst ` set ps \<subseteq> C" "fst ` set (concat pss') \<subseteq> C"
    using pieces_join_append [of ps "concat pss'"] Cons.prems(5,6) by (auto simp: pss)
  have one: "serving blob C cont s ps (dispatch_region ops vw s r)"
    using serve_region [OF vw Cons.prems(1-3) r join(1) C(1)] Cons.prems(7) by (simp add: pss)
  have "serving blob C cont s' (concat pss') (dispatch_regions ops vw s' rs 0)"
    if "rok (rd_entry s') blob C" "later (rd_entry s) (rd_entry s')" "advanced s s' (run_len ps)" for s'
  proof (rule Cons.IH)
    have ok: "ok (rd_entry s) blob C"
      using Cons.prems(1) by (simp add: rok_def)
    show "list_all2 (region_for (rdy (fe_chunk_map (rd_entry s')))) rs pss'"
      using region_for_later [OF that(2) ok] C(2)
      by (intro list.rel_mono_strong [OF rs]) (auto simp: image_subset_iff)
    show "rd_pos s' + run_len (concat pss') \<le> rd_room s'"
      using that(3) advanced_room [OF that(3)] Cons.prems(7) by (simp add: advanced_def pss)
    show "content_of (fe_cache (rd_entry s')) blob C cont"
      using Cons.prems(3) content_of_later [OF that(2)] by blast
  qed (use that join C in \<open>auto simp: advanced_def\<close>)
  from serving_seq [OF one _ this] Cons.prems(7)
  have "serving blob C cont s (ps @ concat pss')
      (run_then (dispatch_region ops vw s r) (\<lambda>s n. add_count n (dispatch_regions ops vw s rs 0)))"
    by (simp add: pss)
  moreover have "dispatch_regions ops vw s (r # rs) 0 =
      run_then (dispatch_region ops vw s r) (\<lambda>s n. add_count n (dispatch_regions ops vw s rs 0))"
    unfolding dispatch_regions.simps add_0
    by (intro arg_cong [where f = "run_then _"] ext) (rule dispatch_regions_add)
  ultimately show ?case
    by (simp only: pss concat.simps)
qed

end

section \<open>Sorting chunks into regions\<close>

text \<open>The range of a chunk that its region covers.\<close>

definition r_start :: "RegionType \<Rightarrow> BlobChunkInfo \<Rightarrow> u64" where
  "r_start t c = (if t = Backend then ci_compressed_offset c else ci_uncompressed_offset c)"

definition r_size :: "RegionType \<Rightarrow> BlobChunkInfo \<Rightarrow> u32" where
  "r_size t c = (if t = Backend then ci_compressed_size c else ci_uncompressed_size c)"

abbreviation r_end :: "RegionType \<Rightarrow> BlobChunkInfo \<Rightarrow> nat" where
  "r_end t c \<equiv> unat (r_start t c) + unat (r_size t c)"

text \<open>Successive chunks that leave at most small gaps, and together take less than 4 GiB.\<close>

fun near :: "RegionType \<Rightarrow> BlobChunkInfo list \<Rightarrow> bool" where
  "near t (c # d # cs) \<longleftrightarrow> r_end t c \<le> unat (r_start t d) \<and>
     unat (r_start t d) \<le> r_end t c + unat RAFS_DEFAULT_CHUNK_SIZE \<and> near t (d # cs)"
| "near t _ \<longleftrightarrow> True"

definition range_ok :: "RegionType \<Rightarrow> BlobChunkInfo list \<Rightarrow> bool" where
  "range_ok t cs \<longleftrightarrow> near t cs \<and> (\<forall>c \<in> set cs. r_end t c < 2 ^ 63) \<and>
     (cs \<noteq> [] \<longrightarrow> r_end t (last cs) - unat (r_start t (hd cs)) < 2 ^ 32)"

text \<open>
  A read as the filesystem issues it: one range of a file whose chunks follow each other in the blob
  and in the cache file.
\<close>

definition request_ok :: "piece list \<Rightarrow> bool" where
  "request_ok ps \<longleftrightarrow> pieces_join ps \<and> adjoining (map fst ps) \<and> ids_consecutive (map fst ps) \<and>
     range_ok Backend (map fst ps) \<and> range_ok CacheSlow (map fst ps) \<and> run_len ps < 2 ^ 32 \<and>
     (\<forall>p \<in> set ps. u_size (fst p) \<le> unat RAFS_MAX_CHUNK_SIZE)"

lemma near_append: "near t (cs @ ds) \<Longrightarrow> near t cs \<and> near t ds"
proof (induction cs)
  case (Cons c cs)
  then show ?case
  proof (cases cs)
    case Nil
    with Cons.prems show ?thesis by (cases ds) auto
  next
    case (Cons d cs')
    with Cons.prems Cons.IH show ?thesis by auto
  qed
qed simp

lemma near_mono:
  assumes "near t cs" and "i \<le> j" and "j < length cs"
  shows "unat (r_start t (cs ! i)) \<le> unat (r_start t (cs ! j)) \<and> (i < j \<longrightarrow> r_end t (cs ! i) \<le> unat (r_start t (cs ! j)))"
  using assms
proof (induction cs arbitrary: i j)
  case (Cons c cs)
  show ?case
  proof (cases j)
    case (Suc j')
    have step: "r_end t c \<le> unat (r_start t (cs ! j'))"
    proof (cases cs)
      case Nil
      then show ?thesis using Cons.prems(3) Suc by simp
    next
      case (Cons d cs')
      have "near t cs" "r_end t c \<le> unat (r_start t (cs ! 0))"
        using Cons.prems(1) Cons by auto
      then show ?thesis
        using Cons.IH [of 0 j'] Cons.prems(3) Suc by fastforce
    qed
    show ?thesis
    proof (cases i)
      case 0
      then show ?thesis using step Suc by simp
    next
      case (Suc i')
      then show ?thesis
        using Cons.IH [of i' j'] Cons.prems \<open>j = Suc j'\<close> near_append [of t "[c]" cs] by simp
    qed
  qed (use Cons.prems in simp)
qed simp

lemma near_last: "near t cs \<Longrightarrow> c \<in> set cs \<Longrightarrow> unat (r_start t (hd cs)) \<le> unat (r_start t c) \<and> r_end t c \<le> r_end t (last cs)"
proof -
  assume near: "near t cs" and "c \<in> set cs"
  then obtain i where "i < length cs" "cs ! i = c"
    by (metis in_set_conv_nth)
  then have i: "i < length cs" "cs ! i = c" "cs \<noteq> []"
    by auto
  have "r_end t c \<le> r_end t (last cs)"
  proof (cases "i = length cs - 1")
    case False
    then have "i < length cs - 1"
      using i(1) by simp
    then show ?thesis
      using near_mono [OF near, of i "length cs - 1"] i by (simp add: last_conv_nth)
  qed (use i in \<open>simp add: last_conv_nth\<close>)
  then show ?thesis
    using near_mono [OF near, of 0 i] i by (simp add: hd_conv_nth)
qed

lemma range_ok_append:
  assumes "range_ok t (cs @ ds)"
  shows "range_ok t cs" "range_ok t ds"
proof -
  have near: "near t (cs @ ds)" and span: "cs @ ds \<noteq> [] \<Longrightarrow> r_end t (last (cs @ ds)) - unat (r_start t (hd (cs @ ds))) < 2 ^ 32"
    and ends: "\<forall>c \<in> set (cs @ ds). r_end t c < 2 ^ 63"
    using assms by (auto simp: range_ok_def)
  have "r_end t (last cs) \<le> r_end t (last (cs @ ds))" if "cs \<noteq> []"
    using near_last [OF near, of "last cs"] that by simp
  then show "range_ok t cs"
    using near_append [OF near] span ends by (cases cs) (auto simp: range_ok_def)
  have "unat (r_start t (hd (cs @ ds))) \<le> unat (r_start t (hd ds))" if "ds \<noteq> []"
    using near_last [OF near, of "hd ds"] that by simp
  then show "range_ok t ds"
    using near_append [OF near] span ends by (cases ds) (auto simp: range_ok_def)
qed

lemma ids_consecutive_append: "ids_consecutive (cs @ ds) \<Longrightarrow> ids_consecutive cs \<and> ids_consecutive ds"
proof (induction cs)
  case (Cons c cs)
  then show ?case
  proof (cases cs)
    case Nil
    with Cons.prems show ?thesis by (cases ds) auto
  next
    case (Cons d cs')
    with Cons.prems Cons.IH show ?thesis by auto
  qed
qed simp

lemma request_ok_append: "request_ok (ps @ qs) \<Longrightarrow> request_ok ps \<and> request_ok qs"
  using pieces_join_append [of ps qs] adjoining_append [of "map fst ps" "map fst qs"]
    ids_consecutive_append [of "map fst ps" "map fst qs"] range_ok_append [of _ "map fst ps" "map fst qs"]
  by (auto simp: request_ok_def)

lemma request_ok_ordered:
  assumes "request_ok ps"
  shows "chunks_ordered (map fst ps)"
proof -
  have near: "near Backend (map fst ps)"
    using assms by (simp add: request_ok_def range_ok_def)
  have "\<forall>c \<in> set (map fst ps). r_end Backend c < 2 ^ 63"
    using assms by (simp add: request_ok_def range_ok_def)
  then have "\<forall>c \<in> set (map fst ps). r_end Backend c < 2 ^ 64"
    by fastforce
  then show ?thesis
    using near_mono [OF near] assms
    by (auto simp: chunks_ordered_def sorted_wrt_iff_nth_less r_start_def r_size_def request_ok_def)
qed

text \<open>A region that takes the pieces \<open>ps\<close> and can take more.\<close>

definition region_open :: "(BlobChunkInfo \<Rightarrow> bool) \<Rightarrow> Region \<Rightarrow> piece list \<Rightarrow> bool" where
  "region_open ready r ps \<longleftrightarrow> ps \<noteq> [] \<and> rg_status r = Open \<and>
     rg_seg r = \<lparr>seg_offset = seg_offset (snd (hd ps)), seg_len = of_nat (run_len ps)\<rparr> \<and>
     rg_blob_address r = r_start (rg_type r) (fst (hd ps)) \<and>
     unat (rg_blob_address r) + unat (rg_blob_len r) = r_end (rg_type r) (fst (last ps)) \<and>
     (rg_type r \<noteq> CacheFast \<longrightarrow> rg_chunks r = map fst ps \<and> rg_tags r = replicate (length ps) True) \<and>
     (rg_type r \<noteq> Backend \<longrightarrow> (\<forall>p \<in> set ps. ready (fst p)))"

lemma region_open_for:
  assumes "region_open ready r ps" and "request_ok ps"
  shows "region_for ready r ps"
  using assms request_ok_ordered [OF assms(2)]
  by (auto simp: region_open_def region_for_def request_ok_def r_start_def r_size_def split: RegionType.splits)

lemma range_ok_type: "range_ok t cs \<longleftrightarrow> (if t = Backend then range_ok Backend cs else range_ok CacheSlow cs)"
proof -
  have "near t cs = near CacheSlow cs" if "t \<noteq> Backend"
    using that by (induction t cs rule: near.induct) (auto simp: r_start_def r_size_def)
  then show ?thesis
    by (auto simp: range_ok_def r_start_def r_size_def)
qed

abbreviation piece_chunk :: "RegionType \<Rightarrow> piece \<Rightarrow> BlobChunkInfo option" where
  "piece_chunk t p \<equiv> if t = CacheFast then None else Some (fst p)"

lemma region_begin:
  assumes "t \<noteq> Backend \<longrightarrow> ready (fst p)" and "request_ok [p]"
  shows "\<exists>r. Region_append (Region_new t) (r_start t (fst p)) (r_size t (fst p)) (User (snd p)) (piece_chunk t p) = Inr r \<and>
    rg_type r = t \<and> region_open ready r [p]"
  using assms
  by (cases "snd p")
    (auto simp: Region_append_def Region_new_def Region_grow_def BlobIoSegment_is_empty_def region_open_def
      request_ok_def of_nat_unat)

lemma pieces_join_snoc:
  "pieces_join (ps @ [p]) \<Longrightarrow> ps \<noteq> [] \<Longrightarrow> seg_offset (snd p) = 0"
proof (induction ps)
  case (Cons q ps)
  then show ?case by (cases ps) auto
qed simp

lemma near_snoc:
  "near t (cs @ [d]) \<Longrightarrow> cs \<noteq> [] \<Longrightarrow> r_end t (last cs) \<le> unat (r_start t d) \<and>
     unat (r_start t d) \<le> r_end t (last cs) + unat RAFS_DEFAULT_CHUNK_SIZE"
proof (induction cs)
  case (Cons c cs)
  then show ?case by (cases cs) auto
qed simp

lemma region_grow_open:
  assumes "region_open ready r ps" and "range_ok (rg_type r) (map fst (ps @ [p]))"
  defines "t \<equiv> rg_type r"
  shows "\<exists>n. Region_grow r (r_start t (fst p)) (r_size t (fst p)) = Inr (r\<lparr>rg_blob_len := n, rg_count := rg_count r + 1\<rparr>) \<and>
    unat (rg_blob_address r) + unat n = r_end t (fst p)"
proof -
  let ?c = "fst p" and ?l = "fst (last ps)"
  let ?stop = "rg_blob_address r + ucast (rg_blob_len r)"
  have ne: "ps \<noteq> []" and r: "rg_status r = Open" "rg_blob_address r = r_start t (fst (hd ps))"
    "unat (rg_blob_address r) + unat (rg_blob_len r) = r_end t ?l"
    using assms(1) by (auto simp: region_open_def t_def)
  have near: "r_end t ?l \<le> unat (r_start t ?c)" "unat (r_start t ?c) \<le> r_end t ?l + unat RAFS_DEFAULT_CHUNK_SIZE"
    using near_snoc [of t "map fst ps" ?c] assms(2) ne by (auto simp: range_ok_def t_def last_map)
  have small: "r_end t ?l < 2 ^ 63" "r_end t ?c < 2 ^ 63"
    using assms(2) ne by (auto simp: range_ok_def t_def)
  have span: "r_end t ?c - unat (rg_blob_address r) < 2 ^ 32"
    using assms(2) ne r(2) by (auto simp: range_ok_def t_def hd_map hd_append)
  have stop: "unat ?stop = r_end t ?l"
    using r(3) small(1) unat_add_less [of "rg_blob_address r" "ucast (rg_blob_len r)"]
    by (simp add: unat_ucast_u32_u64)
  have "unat (?stop + RAFS_DEFAULT_CHUNK_SIZE) = r_end t ?l + unat RAFS_DEFAULT_CHUNK_SIZE"
    using stop small(1) by (subst unat_add_less) (simp_all add: RAFS_DEFAULT_CHUNK_SIZE_def)
  then have cont: "\<not> ?stop + RAFS_DEFAULT_CHUNK_SIZE < r_start t ?c"
    using near(2) by (simp add: word_less_nat_alt)
  have add: "unat (r_start t ?c + ucast (r_size t ?c)) = r_end t ?c"
    using small(2) unat_add_less [of "r_start t ?c" "ucast (r_size t ?c)"] by (simp add: unat_ucast_u32_u64)
  have checked: "checked_add (r_start t ?c) (ucast (r_size t ?c)) \<noteq> None"
    using small(2) by (simp add: checked_add_def unat_ucast_u32_u64)
  define sz where "sz = r_start t ?c + ucast (r_size t ?c) - ?stop"
  have sz: "unat sz = r_end t ?c - r_end t ?l"
    unfolding sz_def using add stop near(1) by (subst unat_sub) (simp_all add: word_le_nat_alt)
  have "unat (ucast sz :: u32) = unat sz"
    using sz span near(1) r(3) by (intro unat_ucast_small) simp
  then have "unat (rg_blob_len r + ucast sz) = unat (rg_blob_len r) + unat sz"
    using sz span near(1) r(3) by (subst unat_add_less) simp_all
  then have "unat (rg_blob_address r) + unat (rg_blob_len r + ucast sz) = r_end t ?c"
    using sz near(1) r(3) by simp
  moreover have "Region_grow r (r_start t ?c) (r_size t ?c) = Inr (r\<lparr>rg_blob_len := rg_blob_len r + ucast sz, rg_count := rg_count r + 1\<rparr>)"
    using r(1) cont checked by (simp add: Region_grow_def Let_def sz_def)
  ultimately show ?thesis
    by blast
qed

lemma region_join:
  assumes "region_open ready r ps" and "rg_type r \<noteq> Backend \<longrightarrow> ready (fst p)" and "request_ok (ps @ [p])"
  defines "t \<equiv> rg_type r"
  shows "\<exists>r'. Region_append r (r_start t (fst p)) (r_size t (fst p)) (User (snd p)) (piece_chunk t p) = Inr r' \<and>
    rg_type r' = t \<and> region_open ready r' (ps @ [p])"
proof -
  have ne: "ps \<noteq> []" and r: "rg_status r = Open" "rg_seg r = \<lparr>seg_offset = seg_offset (snd (hd ps)), seg_len = of_nat (run_len ps)\<rparr>"
    using assms(1) by (auto simp: region_open_def)
  have "range_ok t (map fst (ps @ [p]))"
    using assms(3) range_ok_type [of t] by (auto simp: request_ok_def)
  then obtain n where n: "Region_grow r (r_start t (fst p)) (r_size t (fst p)) = Inr (r\<lparr>rg_blob_len := n, rg_count := rg_count r + 1\<rparr>)"
    "unat (rg_blob_address r) + unat n = r_end t (fst p)"
    using region_grow_open [OF assms(1), of p] unfolding t_def by blast
  have "pieces_join (ps @ [p])" "run_len (ps @ [p]) < 2 ^ 32"
    using assms(3) by (auto simp: request_ok_def)
  then have zero: "seg_offset (snd p) = 0" and pos: "0 < run_len ps" and lt: "run_len ps < 2 ^ 32"
    using pieces_join_snoc [of ps p] ne pieces_join_pos [of "ps @ [p]" "hd ps"]
    by (auto simp: neq_Nil_conv)
  have "(of_nat (run_len ps) :: u32) \<noteq> 0"
    using pos lt unat_of_nat_less [of "run_len ps", where ?'a = 32] by auto
  then have seg: "\<not> BlobIoSegment_is_empty (rg_seg r)"
    "BlobIoSegment_append (rg_seg r) (seg_offset (snd p)) (seg_len (snd p)) =
       Inr \<lparr>seg_offset = seg_offset (snd (hd ps)), seg_len = of_nat (run_len (ps @ [p]))\<rparr>"
    using zero unat_lt2p32 [of "seg_len (snd p)"]
    by (simp_all add: r BlobIoSegment_is_empty_def BlobIoSegment_append_def checked_add_def)
  show ?thesis
    using n seg r(1) ne assms(1,2)
    by (auto simp: Region_append_def region_open_def t_def replicate_append_same)
qed

text \<open>The regions hold the pieces \<open>pss\<close>.\<close>

definition sorted_into :: "(BlobChunkInfo \<Rightarrow> bool) \<Rightarrow> FileIoMergeState \<Rightarrow> piece list list \<Rightarrow> bool" where
  "sorted_into ready st pss \<longleftrightarrow> list_all2 (region_open ready) (fm_regions st) pss \<and> fm_last_region_joinable st"

lemma push_piece:
  assumes "sorted_into ready st pss" and "t \<noteq> Backend \<longrightarrow> ready (fst p)" and "request_ok (concat pss @ [p])"
  shows "\<exists>st' pss'. fm_push st t (r_start t (fst p)) (r_size t (fst p)) (User (snd p)) (piece_chunk t p) = Inr st' \<and>
    sorted_into ready st' pss' \<and> concat pss' = concat pss @ [p]"
proof (cases "fm_regions st \<noteq> [] \<and> rg_type (last (fm_regions st)) = t")
  case False
  obtain r where r: "Region_append (Region_new t) (r_start t (fst p)) (r_size t (fst p)) (User (snd p)) (piece_chunk t p) = Inr r"
    "region_open ready r [p]"
    using region_begin [of t ready p] assms(2) request_ok_append [OF assms(3)] by blast
  have "fm_push st t (r_start t (fst p)) (r_size t (fst p)) (User (snd p)) (piece_chunk t p) =
      Inr \<lparr>fm_regions = fm_regions st @ [r], fm_last_region_joinable = True\<rparr>"
    using False r(1) assms(1)
    by (cases st) (auto simp: fm_push_def fm_joinable_def RegionType_joinable_def Let_def last_conv_nth sorted_into_def)
  moreover have "sorted_into ready \<lparr>fm_regions = fm_regions st @ [r], fm_last_region_joinable = True\<rparr> (pss @ [[p]])"
    using assms(1) r(2) by (simp add: sorted_into_def list_all2_appendI)
  ultimately show ?thesis
    by (intro exI conjI) auto
next
  case True
  have all: "list_all2 (region_open ready) (fm_regions st) pss"
    using assms(1) by (simp add: sorted_into_def)
  then have "pss \<noteq> []"
    using True by auto
  then obtain rs r qss ps where st: "fm_regions st = rs @ [r]" and pss: "pss = qss @ [ps]"
    using True by (metis append_butlast_last_id)
  have r: "list_all2 (region_open ready) rs qss" "region_open ready r ps"
    using all list_all2_lengthD [OF all] by (auto simp: st pss list_all2_append)
  have "request_ok (ps @ [p])"
    using request_ok_append [of "concat qss" "ps @ [p]"] assms(3) by (simp add: pss)
  then obtain r' where r': "Region_append r (r_start t (fst p)) (r_size t (fst p)) (User (snd p)) (piece_chunk t p) = Inr r'"
    "region_open ready r' (ps @ [p])"
    using region_join [OF r(2), of p] assms(2) True by (auto simp: st)
  have "fm_push st t (r_start t (fst p)) (r_size t (fst p)) (User (snd p)) (piece_chunk t p) =
      Inr \<lparr>fm_regions = rs @ [r'], fm_last_region_joinable = True\<rparr>"
    using True r'(1) assms(1) st
    by (cases st) (auto simp: fm_push_def fm_joinable_def RegionType_joinable_def Let_def sorted_into_def)
  moreover have "sorted_into ready \<lparr>fm_regions = rs @ [r'], fm_last_region_joinable = True\<rparr> (qss @ [ps @ [p]])"
    using r(1) r'(2) by (simp add: sorted_into_def list_all2_appendI)
  ultimately show ?thesis
    by (intro exI conjI) (auto simp: pss)
qed

section \<open>Requests\<close>

context tracker_answers
begin

lemma sort_pieces:
  "\<lbrakk>rok e blob C; sorted_into (rdy (fe_chunk_map e)) st pss; request_ok (concat pss @ qs); fst ` set qs \<subseteq> C\<rbrakk> \<Longrightarrow>
     \<exists>e' st' pss'. sort_chunks ops e (map fst qs) (map (\<lambda>p. User (snd p)) qs) st = (e', Inr st') \<and> rok e' blob C \<and>
       later e e' \<and> sorted_into (rdy (fe_chunk_map e')) st' pss' \<and> concat pss' = concat pss @ qs"
proof (induction qs arbitrary: e st pss)
  case Nil
  then show ?case by auto
next
  case (Cons p qs)
  have c: "fst p \<in> C"
    using Cons.prems(4) by simp
  have ok: "ok e blob C" and known: "tinv (fe_chunk_map e)" "known (fst p)"
    and plain: "\<not> fe_is_compressed e" "fe_is_direct_chunkmap e"
    using Cons.prems(1) c by (auto simp: rok_def ok_def plain_cache_def)
  obtain m x where m: "cm_check_ready_and_mark_pending ops (fe_chunk_map e) (fst p) = (m, x)"
    by fastforce
  let ?e = "e\<lparr>fe_chunk_map := m\<rparr>"
  have same_rdy: "rdy m = rdy (fe_chunk_map e)"
    using check_law [OF known m] by blast
  have e1: "rok ?e blob C" "later e ?e"
    using ok_check [OF ok c m] rok_later [OF Cons.prems(1), of ?e] by auto
  define is_ready where "is_ready = (x = Inr (rdy (fe_chunk_map e) (fst p)) \<and> rdy (fe_chunk_map e) (fst p))"
  have x: "(case x of Inr b \<Rightarrow> Inr b | Inl Timeout \<Rightarrow> Inr False
      | Inl err \<Rightarrow> Inl (if err = Panic then Panic else EINVAL)) = Inr is_ready"
    using check_answers [OF known m] by (auto simp: is_ready_def)
  define t where "t = (if is_ready \<and> \<not> bc_need_validation (fe_cache e) then CacheFast
      else if is_ready then CacheSlow else Backend)"
  have ready: "t \<noteq> Backend \<longrightarrow> rdy m (fst p)"
    by (auto simp: t_def is_ready_def same_rdy split: if_splits)
  have sorted: "sorted_into (rdy m) st pss"
    using Cons.prems(2) same_rdy by simp
  have "request_ok (concat pss @ [p])"
    using request_ok_append [of "concat pss @ [p]" qs] Cons.prems(3) by simp
  from push_piece [OF sorted ready this] obtain st1 pss1
    where st1: "fm_push st t (r_start t (fst p)) (r_size t (fst p)) (User (snd p)) (piece_chunk t p) = Inr st1"
      "sorted_into (rdy m) st1 pss1" "concat pss1 = concat pss @ [p]"
    by blast
  have sort: "sort_chunk ops ?e is_ready (fst p) (User (snd p)) st = (?e, Inr st1)"
    using st1(1) plain by (auto simp: sort_chunk_def t_def r_start_def r_size_def split: if_splits)
  obtain e' st' pss' where "sort_chunks ops ?e (map fst qs) (map (\<lambda>p. User (snd p)) qs) st1 = (e', Inr st')"
    "rok e' blob C" "later ?e e'" "sorted_into (rdy (fe_chunk_map e')) st' pss'" "concat pss' = concat pss1 @ qs"
    using Cons.IH [of ?e st1 pss1] e1(1) st1(2,3) Cons.prems(3,4) by auto
  then show ?case
    using m x sort st1(3) later_trans [OF e1(2)] by (auto simp: Let_def)
qed

lemma serving_entry:
  assumes "serving blob C cont (s\<lparr>rd_entry := e\<rparr>) ps x" and "later (rd_entry s) e"
  shows "serving blob C cont s ps x"
proof -
  have "fe_cache e = fe_cache (rd_entry s)"
    using static_eqD(1) [OF later_static [OF assms(2)]] .
  then show ?thesis
    using assms later_trans [OF assms(2)] by (fastforce simp: serving_def advanced_def wrote_def)
qed

lemma serve_range:
  assumes vw: "volatile_spec vw" and e: "rok (rd_entry s) blob C" and s: "rd_ok s"
    and cont: "content_of (fe_cache (rd_entry s)) blob C cont" and ps: "request_ok ps" "fst ` set ps \<subseteq> C"
    and req: "r_chunks req = map fst ps" "r_tags req = map (\<lambda>p. User (snd p)) ps"
    and room: "rd_pos s + run_len ps \<le> rd_room s"
  shows "serving blob C cont s ps (dispatch_one_range ops vw s req FileIoMergeState_new)"
proof -
  have "sorted_into (rdy (fe_chunk_map (rd_entry s))) FileIoMergeState_new []"
    by (simp add: sorted_into_def FileIoMergeState_new_def)
  with sort_pieces [OF e this, of ps] ps obtain e' st' pss
    where sort: "sort_chunks ops (rd_entry s) (map fst ps) (map (\<lambda>p. User (snd p)) ps) FileIoMergeState_new = (e', Inr st')"
      and e': "rok e' blob C" "later (rd_entry s) e'" and st': "sorted_into (rdy (fe_chunk_map e')) st' pss"
      and pss: "concat pss = ps"
    by auto
  have "request_ok qs" if qs: "qs \<in> set pss" for qs
  proof -
    obtain as bs where "pss = as @ qs # bs"
      using qs by (meson split_list)
    then have "request_ok (concat as @ qs @ concat bs)"
      using ps(1) pss by simp
    then show ?thesis
      using request_ok_append by blast
  qed
  then have "list_all2 (region_for (rdy (fe_chunk_map e'))) (fm_regions st') pss"
    using st' region_open_for by (auto simp: sorted_into_def intro: list.rel_mono_strong)
  then have "serving blob C cont (s\<lparr>rd_entry := e'\<rparr>) (concat pss)
      (dispatch_regions ops vw (s\<lparr>rd_entry := e'\<rparr>) (fm_regions st') 0)"
    using e' s content_of_later [OF e'(2)] cont ps room
    by (intro serve_regions [OF vw]) (auto simp: pss rd_ok_def request_ok_def)
  then show ?thesis
    using serving_entry [OF _ e'(2)] by (simp add: dispatch_one_range_def req sort pss)
qed

lemma rok_give_up:
  "rok e blob C \<Longrightarrow> rok (give_up ops e cs) blob C \<and> later e (give_up ops e cs)"
  using rok_clear_all [of e blob C cs] by (simp add: give_up_def clear_all_def update_chunk_pending_status_def)

lemma read_requests_add:
  "read_requests ops' vw s reqs total_read = add_count total_read (read_requests ops' vw s reqs 0)"
proof (induction reqs arbitrary: s total_read)
  case (Cons r reqs)
  define D where "D s = read_requests ops' vw s reqs 0" for s
  have eq: "read_requests ops' vw s reqs n = add_count n (D s)" for s n
    unfolding D_def by (rule Cons.IH)
  show ?case
    by (auto simp: eq add_count_add add_count_def [of _ "Some _"] add_count_def [of _ None] run_then_def
        split: option.splits sum.splits)
qed (simp add: add_count_def run_then_def)

lemma serve_requests:
  assumes vw: "volatile_spec vw"
  shows "\<lbrakk>rok (rd_entry s) blob C; rd_ok s; content_of (fe_cache (rd_entry s)) blob C cont;
     list_all2 (\<lambda>req ps. r_chunks req = map fst ps \<and> r_tags req = map (\<lambda>p. User (snd p)) ps) reqs pss;
     request_ok (concat pss); fst ` set (concat pss) \<subseteq> C; rd_pos s + run_len (concat pss) \<le> rd_room s\<rbrakk> \<Longrightarrow>
     serving blob C cont s (concat pss) (read_requests ops vw s reqs 0)"
proof (induction reqs arbitrary: s pss)
  case Nil
  then show ?case
    using serving_nothing by simp
next
  case (Cons req reqs)
  obtain ps pss' where pss: "pss = ps # pss'" and req: "r_chunks req = map fst ps" "r_tags req = map (\<lambda>p. User (snd p)) ps"
    and reqs: "list_all2 (\<lambda>req ps. r_chunks req = map fst ps \<and> r_tags req = map (\<lambda>p. User (snd p)) ps) reqs pss'"
    using Cons.prems(4) by (cases pss) auto
  have ok: "request_ok ps" "request_ok (concat pss')" and C: "fst ` set ps \<subseteq> C" "fst ` set (concat pss') \<subseteq> C"
    using request_ok_append [of ps "concat pss'"] Cons.prems(5,6) by (auto simp: pss)
  define x where "x = (case dispatch_one_range ops vw s req FileIoMergeState_new of
      Some (s, Inl err) \<Rightarrow> Some (if err = Panic then s
        else s\<lparr>rd_entry := give_up ops (rd_entry s) (concat (map r_chunks (req # reqs)))\<rparr>, Inl err)
    | y \<Rightarrow> y)"
  have "serving blob C cont s ps (dispatch_one_range ops vw s req FileIoMergeState_new)"
    using serve_range [OF vw Cons.prems(1-3) ok(1) C(1) req] Cons.prems(7) by (simp add: pss)
  then obtain s1 r where d: "dispatch_one_range ops vw s req FileIoMergeState_new = Some (s1, r)"
    and d': "serving blob C cont s ps (Some (s1, r))" and s1: "rok (rd_entry s1) blob C" "later (rd_entry s) (rd_entry s1)"
    by (auto simp: serving_def)
  have one: "serving blob C cont s ps x"
  proof (cases r)
    case (Inl err)
    have "rok (give_up ops (rd_entry s1) cs) blob C \<and> later (rd_entry s) (give_up ops (rd_entry s1) cs)" for cs
      using rok_give_up [OF s1(1), of cs] later_trans [OF s1(2)] by blast
    then show ?thesis
      using d d' s1 Inl by (auto simp: x_def serving_def)
  qed (use d d' in \<open>simp add: x_def\<close>)
  have "serving blob C cont s' (concat pss') (read_requests ops vw s' reqs 0)"
    if "rok (rd_entry s') blob C" "later (rd_entry s) (rd_entry s')" "advanced s s' (run_len ps)" for s'
  proof (rule Cons.IH)
    show "rd_pos s' + run_len (concat pss') \<le> rd_room s'"
      using that(3) advanced_room [OF that(3)] Cons.prems(7) by (simp add: advanced_def pss)
    show "content_of (fe_cache (rd_entry s')) blob C cont"
      using Cons.prems(3) content_of_later [OF that(2)] by blast
  qed (use that reqs ok C in \<open>auto simp: advanced_def\<close>)
  from serving_seq [OF one _ this] Cons.prems(7)
  have "serving blob C cont s (ps @ concat pss') (run_then x (\<lambda>s n. add_count n (read_requests ops vw s reqs 0)))"
    by (simp add: pss)
  moreover have "read_requests ops vw s (req # reqs) 0 = run_then x (\<lambda>s n. add_count n (read_requests ops vw s reqs 0))"
  proof (cases r)
    case (Inr n)
    then show ?thesis
      using d read_requests_add [of ops vw s1 reqs n] by (simp add: x_def run_then_def)
  qed (use d in \<open>simp add: x_def run_then_def\<close>)
  ultimately show ?case
    by (simp only: pss concat.simps)
qed

end

end
