(* ===== verification/Fetch_Properties.thy ===== *)
theory Fetch_Properties
  imports Cache_Coherence
begin

text \<open>
  What fetching means for a cache with an indexed chunk map: the cache stays coherent, an undisturbed
  fetch succeeds, and the cases in which the code returns too early, stores data in the wrong place
  or panics.
\<close>

section \<open>Coherence and success\<close>

text \<open>The entry \<open>e\<close> caches the blob \<open>blob\<close>, whose chunks \<open>C\<close> have distinct ids known to the map.\<close>

definition caches :: "(IndexedChunkMap, u32) BlobStateMap FileCacheEntry \<Rightarrow> u8 list \<Rightarrow> BlobChunkInfo set \<Rightarrow> bool" where
  "caches e blob C \<longleftrightarrow>
     icm_inv (bsm_c (fe_chunk_map e)) \<and> blob_setup e blob C \<and> inj_on ci_id C \<and>
     (\<forall>c \<in> C. ci_id c < pm_count (icm_map (bsm_c (fe_chunk_map e))))"

lemma caches_ok:
  "cache_ok (icsm_inv (pm_count (icm_map (bsm_c (fe_chunk_map e)))))
     (\<lambda>c. ci_id c < pm_count (icm_map (bsm_c (fe_chunk_map e)))) icsm_rdy (\<lambda>c x. ci_id c = ci_id x) e blob C
   \<longleftrightarrow> caches e blob C \<and> coherent icsm_rdy e blob C"
  by (auto simp: cache_ok_def caches_def icsm_inv_def inj_on_def)

lemma caches_later:
  assumes "cache_ok (icsm_inv N) (\<lambda>c. ci_id c < N) icsm_rdy (\<lambda>c x. ci_id c = ci_id x) e blob C"
  shows "caches e blob C \<and> coherent icsm_rdy e blob C"
  using assms by (auto simp: cache_ok_def caches_def icsm_inv_def inj_on_def)



section \<open>An example\<close>

text \<open>A blob of three chunks, the second of which is ready.\<close>

definition demo_blob3 :: "u8 list" where "demo_blob3 = [1, 2, 3, 4, 5]"

definition demo_chunks3 :: "BlobChunkInfo list" where
  "demo_chunks3 = [demo_chunk 0 0 0 [1, 2], demo_chunk 1 2 2 [3], demo_chunk 2 3 3 [4, 5]]"

definition demo_entry :: "(IndexedChunkMap, u32) BlobStateMap \<Rightarrow> bool \<Rightarrow> u8 list
    \<Rightarrow> (IndexedChunkMap, u32) BlobStateMap FileCacheEntry" where
  "demo_entry m compressed f =
     \<lparr>fe_blob_id = ''blob'', fe_cache = demo_cache demo_blob3, fe_chunk_map = m, fe_file = f, fe_writes = [], fe_delayed = [],
      fe_is_get_blob_object_supported = False, fe_is_compressed = compressed, fe_is_direct_chunkmap = True, fe_dio_enabled = False,
      fe_batch_size = 0, fe_merging_size = 0, fe_prefetch_state = 0\<rparr>"

lemma demo_entry_setup: "blob_setup (demo_entry m b f) demo_blob3 (set demo_chunks3)"
  using demo_cache_serves [of demo_blob3] rle_codecs_bounded
  by (auto simp: blob_setup_def demo_entry_def demo_cache_def demo_chunks3_def demo_chunk_def demo_blob3_def area_def)

lemma demo_bsm_count: "pm_count (icm_map (bsm_c demo_bsm)) = 3"
  by (simp add: demo_bsm_def BlobStateMap_from_def demo_pm_def)

lemma demo_entry_caches: "caches (demo_entry demo_bsm b f) demo_blob3 (set demo_chunks3)"
proof -
  have "inj_on ci_id (set demo_chunks3)"
    by (simp add: demo_chunks3_def demo_chunk_def inj_on_def)
  moreover have "\<forall>c \<in> set demo_chunks3. ci_id c < 3"
    by (simp add: demo_chunks3_def demo_chunk_def)
  ultimately show ?thesis
    using demo_entry_setup [of demo_bsm b f] demo_bsm_inv demo_bsm_count
    by (simp add: caches_def demo_entry_def)
qed

lemma demo_content: "c \<in> set demo_chunks3 \<Longrightarrow>
  chunk_content (demo_cache demo_blob3) c (chunk_raw demo_blob3 c) (chunk_raw demo_blob3 c)"
  by (auto simp: demo_chunks3_def demo_chunk_def chunk_content_def demo_cache_def demo_blob3_def slice_of_def
      check_digest_def)

lemma demo_entry_coherent: "coherent icsm_rdy (demo_entry demo_bsm False [0, 0, 3]) demo_blob3 (set demo_chunks3)"
proof -
  have "c = demo_chunks3 ! 1" if "c \<in> set demo_chunks3" "icsm_rdy demo_bsm c" for c
    using that demo_bsm_rdy [of "ci_id c"] by (auto simp: icsm_rdy_def demo_chunks3_def demo_chunk_def)
  moreover have "chunk_stored (demo_entry demo_bsm False [0, 0, 3]) demo_blob3 (demo_chunks3 ! 1)"
    using demo_content [of "demo_chunks3 ! 1"]
    by (simp add: chunk_stored_def demo_entry_def demo_chunks3_def demo_chunk_def demo_blob3_def slice_of_def)
  ultimately show ?thesis
    by (auto simp: coherent_def demo_entry_def)
qed

lemma demo_chunks3_ordered: "chunks_ordered demo_chunks3" "ids_consecutive demo_chunks3" "demo_chunks3 \<noteq> []"
  by (simp_all add: chunks_ordered_def demo_chunks3_def demo_chunk_def RAFS_MAX_CHUNK_SIZE_def)



section \<open>Returning too early\<close>

lemma icsm_check_range:
  assumes "icsm_inv N m" and "ids_consecutive cs" and "\<forall>c \<in> set cs. ci_id c < N" and "cs \<noteq> []"
  shows "\<exists>m'. icsm_check_range_ready_and_mark_pending m (ci_id (hd cs)) (of_nat (length cs)) =
      (m', Inr (if \<forall>c \<in> set cs. icsm_rdy m c then None
        else Some (filter (\<lambda>k. bsm_tracer m k = None \<and> \<not> icm_rdy (bsm_c m) k)
          (range32 (ci_id (hd cs)) (ci_id (hd cs) + of_nat (length cs)))))) \<and>
    bsm_c m' = bsm_c m \<and> (\<forall>c \<in> set cs. icsm_busy m' c \<longleftrightarrow> icsm_busy m c \<or> \<not> icsm_rdy m c)"
proof -
  note idx = icsm_indices [OF assms(2,3,4,1)]
  have inv: "icm_inv (bsm_c m)"
    using assms(1) by (simp add: icsm_inv_def)
  have all: "(\<forall>k \<in> set (range32 (ci_id (hd cs)) (ci_id (hd cs) + of_nat (length cs))). icm_rdy (bsm_c m) k)
      \<longleftrightarrow> (\<forall>c \<in> set cs. icsm_rdy m c)"
    unfolding ids_consecutive_image [OF assms(2-4)] by (simp add: icsm_rdy_def)
  obtain m' where m': "rsm_check_range_ready_and_mark_pending icm_range_ops m (ci_id (hd cs)) (of_nat (length cs)) =
      (m', Inr (if \<forall>c \<in> set cs. icsm_rdy m c then None
        else Some (filter (\<lambda>k. bsm_tracer m k = None \<and> \<not> icm_rdy (bsm_c m) k)
          (range32 (ci_id (hd cs)) (ci_id (hd cs) + of_nat (length cs))))))" "bsm_c m' = bsm_c m"
    "\<forall>k. bsm_tracer m' k \<noteq> None \<longleftrightarrow> bsm_tracer m k \<noteq> None \<or>
       k \<in> set (range32 (ci_id (hd cs)) (ci_id (hd cs) + of_nat (length cs))) \<and> \<not> icm_rdy (bsm_c m) k"
    using icr.check_range_spec [OF inv idx(1,2)] unfolding all by blast
  have "icsm_busy m' c \<longleftrightarrow> icsm_busy m c \<or> \<not> icsm_rdy m c" if "c \<in> set cs" for c
    using m'(3) [rule_format, of "ci_id c"] idx(3) [OF that] by (simp only: icsm_busy_def icsm_rdy_def) blast
  then show ?thesis
    using m'(1,2) unfolding icsm_check_range_ready_and_mark_pending_def by blast
qed

text \<open>
  A fetch can return before its data arrive. When every chunk of the range that is not ready is
  already being fetched by some other thread, \<open>do_fetch_chunks\<close> returns success at once, without
  waiting: the chunks are still not ready and the cache file is unchanged.
\<close>

theorem fetch_returns_before_ready:
  assumes "caches e blob C" and "set chunks \<subseteq> C" and "ids_consecutive chunks"
    and "c \<in> set chunks" and "\<not> icsm_rdy (fe_chunk_map e) c"
    and "\<forall>x \<in> set chunks. icsm_rdy (fe_chunk_map e) x \<or> icsm_busy (fe_chunk_map e) x"
  shows "\<exists>e'. do_fetch_chunks icsm_obj e chunks prefetch' = (e', Inr ()) \<and>
    \<not> icsm_rdy (fe_chunk_map e') c \<and> fe_file e' = fe_file e"
proof -
  let ?N = "pm_count (icm_map (bsm_c (fe_chunk_map e)))"
  let ?ks = "range32 (ci_id (hd chunks)) (ci_id (hd chunks) + of_nat (length chunks))"
  have shape: "chunks \<noteq> []" "\<forall>c \<in> set chunks. ci_id c < ?N" "icsm_inv ?N (fe_chunk_map e)"
    and plain: "\<not> fe_is_zran e"
    using assms(1,2,4) by (auto simp: caches_def icsm_inv_def blob_setup_def)
  obtain m' where m': "icsm_check_range_ready_and_mark_pending (fe_chunk_map e) (ci_id (hd chunks)) (of_nat (length chunks)) =
      (m', Inr (Some (filter (\<lambda>k. bsm_tracer (fe_chunk_map e) k = None \<and> \<not> icm_rdy (bsm_c (fe_chunk_map e)) k) ?ks)))"
    and same: "bsm_c m' = bsm_c (fe_chunk_map e)"
  proof -
    have some: "(\<forall>c \<in> set chunks. icsm_rdy (fe_chunk_map e) c) = False"
      using assms(4,5) by auto
    show thesis
      using icsm_check_range [OF shape(3) assms(3) shape(2,1)] that unfolding some if_False by blast
  qed
  have "filter (\<lambda>k. bsm_tracer (fe_chunk_map e) k = None \<and> \<not> icm_rdy (bsm_c (fe_chunk_map e)) k) ?ks = []"
    using assms(6) unfolding filter_empty_conv ids_consecutive_image [OF assms(3) shape(2,1)]
    by (auto simp: icsm_rdy_def icsm_busy_def)
  then have "do_fetch_chunks icsm_obj e chunks prefetch' = (e\<lparr>fe_chunk_map := m'\<rparr>, Inr ())"
    using assms(3) shape(1) m' plain
    by (simp add: do_fetch_chunks_def icsm_obj_def icsm_range_obj_def Let_def u32_MAX_def)
  then show ?thesis
    using assms(5) same by (simp add: icsm_rdy_def)
qed

theorem fetch_returns_before_ready_witness:
  "\<exists>e'. do_fetch_chunks icsm_obj (demo_entry (insert_slot demo_bsm 0) False [0, 0, 3]) [demo_chunks3 ! 0] False
      = (e', Inr ()) \<and> \<not> icsm_rdy (fe_chunk_map e') (demo_chunks3 ! 0) \<and> fe_file e' = [0, 0, 3]"
proof -
  let ?e = "demo_entry (insert_slot demo_bsm 0) False [0, 0, 3]"
  have "caches ?e demo_blob3 (set demo_chunks3)"
    using demo_entry_caches [of False "[0, 0, 3]"] demo_entry_setup [of "insert_slot demo_bsm 0" False "[0, 0, 3]"]
    by (simp add: caches_def demo_entry_def insert_slot_def)
  from fetch_returns_before_ready [OF this, of "[demo_chunks3 ! 0]" "demo_chunks3 ! 0" False] show ?thesis
    using demo_bsm_rdy [of 0]
    by (simp add: demo_entry_def demo_chunks3_def demo_chunk_def icsm_rdy_def icsm_busy_def insert_slot_def)
qed

section \<open>Spoiling a compressed cache\<close>


section \<open>ZRan blobs\<close>

lemma zran_pending_set_ready:
  "\<forall>c \<in> set cs. cm_is_ready ops m c = Inr True \<Longrightarrow> zran_pending_set ops m meta cs = Inr []"
  by (induction cs) auto

lemma strip_start_none:
  "\<forall>c \<in> set cs. ci_id c \<noteq> first' \<and> is_ok (get_zran_index meta (ci_id c)) \<Longrightarrow>
     strip_start meta [] first' cs i = Inr (i + length cs)"
proof (induction cs arbitrary: i)
  case (Cons c cs)
  then obtain z where "get_zran_index meta (ci_id c) = Inr z"
    by (auto simp: is_ok_def split: sum.splits)
  then show ?case
    using Cons by simp
qed simp

lemma strip_ready_all:
  assumes "fe_is_zran e" and "cs \<noteq> []"
    and "\<forall>c \<in> set cs. cm_is_ready ops (fe_chunk_map e) c = Inr True \<and> ci_id c \<noteq> u32_MAX \<and> is_ok (get_zran_index meta (ci_id c))"
  shows "strip_ready_chunks ops e meta None cs = Inl Panic"
proof -
  obtain k where k: "length cs = Suc k"
    using assms(2) by (cases cs) auto
  have "strip_stop meta [] u32_MAX cs (Suc k) k = Inr k"
    by (cases k) simp_all
  then show ?thesis
    using assms zran_pending_set_ready [of cs ops "fe_chunk_map e" meta] strip_start_none [of cs u32_MAX meta 0] k
    by (simp add: strip_ready_chunks_def)
qed

text \<open>
  Asking again for data of a ZRan blob panics. When the chunks of the requested range are all
  ready, stripping the ready chunks leaves none, and the assertion that the remaining range is not
  empty fails: \<open>fetch_range_uncompressed\<close> panics instead of returning.
\<close>

theorem zran_fetch_ready_panics:
  assumes "fe_is_zran e" and "bc_meta_info (fe_cache e) = Inr (Some meta)"
    and "get_chunks_uncompressed meta offset size' (ondemand_batch_size e) = Inr chunks" and "chunks \<noteq> []"
    and "\<forall>c \<in> set chunks. cm_is_ready ops (fe_chunk_map e) c = Inr True \<and> ci_id c \<noteq> u32_MAX \<and>
      is_ok (get_zran_index meta (ci_id c))"
  shows "fetch_range_uncompressed ops e offset size' = (e, Inl Panic)"
  using assms(2,3) strip_ready_all [OF assms(1,4,5)]
  by (simp add: fetch_range_uncompressed_def meta_of_def fetch_stripped_def)

theorem zran_fetch_ready_panics_witness:
  "let e = (demo_entry demo_bsm False [])\<lparr>fe_cache := (demo_cache [])\<lparr>bc_is_zran := True,
       bc_meta_info := Inr (Some demo_zran_meta)\<rparr>\<rparr>
   in fetch_range_uncompressed (icsm_obj\<lparr>cm_is_ready := \<lambda>_ _. Inr True\<rparr>) e 4096 2 = (e, Inl Panic)"
proof -
  let ?e = "(demo_entry demo_bsm False [])\<lparr>fe_cache := (demo_cache [])\<lparr>bc_is_zran := True,
       bc_meta_info := Inr (Some demo_zran_meta)\<rparr>\<rparr>"
  have id0: "ci_id (meta_chunk demo_zran_meta 0) = 0"
    by (simp add: meta_chunk_def Let_def)
  have "get_zran_index demo_zran_meta 0 = Inr 0"
    using demo_zran_eval(3,8) by (simp add: get_zran_index_def index_at_def)
  with id0 zran_fetch_ready_panics [of ?e demo_zran_meta 4096 2 _ "icsm_obj\<lparr>cm_is_ready := \<lambda>_ _. Inr True\<rparr>",
      OF _ _ demo_zran_query] show ?thesis
    by (simp add: Let_def u32_MAX_def)
qed

text \<open>
  Fetching ZRan chunks that are all missing panics. When none of the chunks is ready or being
  fetched, \<open>do_fetch_chunks\<close> marks all of them as pending and then indexes the chunk list at its
  length, because the end of the range is inclusive. It panics and leaves every chunk pending, so
  that other readers of these chunks wait in vain.
\<close>

theorem zran_fetch_missing_panics:
  assumes "fe_is_zran e" and "icm_inv (bsm_c (fe_chunk_map e))" and "chunks \<noteq> []" and "ids_consecutive chunks"
    and "\<forall>c \<in> set chunks. ci_id c < pm_count (icm_map (bsm_c (fe_chunk_map e)))"
    and "\<forall>c \<in> set chunks. \<not> icsm_rdy (fe_chunk_map e) c \<and> \<not> icsm_busy (fe_chunk_map e) c"
  shows "\<exists>e'. do_fetch_chunks icsm_obj e chunks prefetch' = (e', Inl Panic) \<and>
    (\<forall>c \<in> set chunks. icsm_busy (fe_chunk_map e') c)"
proof -
  let ?N = "pm_count (icm_map (bsm_c (fe_chunk_map e)))"
  let ?ks = "range32 (ci_id (hd chunks)) (ci_id (hd chunks) + of_nat (length chunks))"
  have inv: "icsm_inv ?N (fe_chunk_map e)"
    using assms(2) by (simp add: icsm_inv_def)
  have none: "(\<forall>c \<in> set chunks. icsm_rdy (fe_chunk_map e) c) = False"
    using assms(3,6) by (auto simp: neq_Nil_conv)
  have "filter (\<lambda>k. bsm_tracer (fe_chunk_map e) k = None \<and> \<not> icm_rdy (bsm_c (fe_chunk_map e)) k) ?ks = ?ks"
    using assms(6) unfolding filter_id_conv ids_consecutive_image [OF assms(4,5,3)]
    by (auto simp: icsm_rdy_def icsm_busy_def)
  then obtain m' where m': "icsm_check_range_ready_and_mark_pending (fe_chunk_map e) (ci_id (hd chunks)) (of_nat (length chunks)) =
      (m', Inr (Some ?ks))" and busy: "\<forall>c \<in> set chunks. icsm_busy m' c"
    using icsm_check_range [OF inv assms(4,5,3)] assms(6) unfolding none if_False by auto
  note r = ids_consecutive_range [OF assms(4,5,3)]
  have len: "length ?ks = length chunks"
    using r(1,2) unat_lt2p32 [of ?N] unat_add_less [of "ci_id (hd chunks)" "of_nat (length chunks)"]
    by (simp add: range32_def)
  have "unat (k - ci_id (hd chunks)) < length (replicate (length chunks) False)" if "k \<in> set ?ks" for k
    using that icl.ids_offset [OF assms(4), of ?N] assms(5)
    unfolding ids_consecutive_image [OF assms(4,5,3)] by (auto simp: in_set_conv_nth)
  then obtain status start stop where mark:
    "mark_status (ci_id (hd chunks)) ?ks (replicate (length chunks) False) u32_MAX 0 = Inr (status, start, stop)"
    using mark_status_ok [of ?ks "ci_id (hd chunks)" "replicate (length chunks) False" u32_MAX 0] by blast
  have "do_fetch_chunks icsm_obj e chunks prefetch' = (e\<lparr>fe_chunk_map := m'\<rparr>, Inl Panic)"
    using assms(1,3,4) m' mark len r(2)
    by (simp add: do_fetch_chunks_def icsm_obj_def icsm_range_obj_def Let_def fetch_range_def)
  then show ?thesis
    using busy by simp
qed

theorem zran_fetch_missing_panics_witness:
  "let e = (demo_entry demo_bsm False [])\<lparr>fe_cache := (demo_cache demo_blob3)\<lparr>bc_is_zran := True\<rparr>\<rparr>
   in \<exists>e'. do_fetch_chunks icsm_obj e [demo_chunks3 ! 0] False = (e', Inl Panic) \<and>
        icsm_busy (fe_chunk_map e') (demo_chunks3 ! 0)"
proof -
  let ?e = "(demo_entry demo_bsm False [])\<lparr>fe_cache := (demo_cache demo_blob3)\<lparr>bc_is_zran := True\<rparr>\<rparr>"
  have "\<not> icsm_rdy demo_bsm (demo_chunks3 ! 0) \<and> \<not> icsm_busy demo_bsm (demo_chunks3 ! 0)"
    using demo_bsm_rdy [of 0]
    by (simp add: icsm_rdy_def icsm_busy_def demo_chunks3_def demo_chunk_def demo_bsm_def BlobStateMap_from_def)
  then show ?thesis
    using zran_fetch_missing_panics [of ?e "[demo_chunks3 ! 0]" False] demo_bsm_inv demo_bsm_count
    by (simp add: demo_entry_def demo_chunks3_def demo_chunk_def Let_def)
qed

end
