(* ===== verification/Read_Properties.thy ===== *)
theory Read_Properties
  imports Read_Correct Fetch_Properties
begin

text \<open>
  What user reads do on an entry with an indexed chunk map: they return the data of the blob, and
  succeed when nothing fails. Three more theorems show what goes wrong outside the conditions of the
  first two, and when a reader waits for metadata that never come.
\<close>

section \<open>Reads of the user\<close>

abbreviation bio_piece :: "BlobIoDesc \<Rightarrow> piece" where
  "bio_piece b \<equiv> (d_chunkinfo b, \<lparr>seg_offset = d_offset b, seg_len = d_size b\<rparr>)"

definition user_request :: "BlobIoVec \<Rightarrow> BlobChunkInfo set \<Rightarrow> bool" where
  "user_request iovec C \<longleftrightarrow> request_ok (map bio_piece (v_vec iovec)) \<and>
     (\<forall>b \<in> set (v_vec iovec). d_user_io b \<and> bio_ok b \<and> d_chunkinfo b \<in> C)"

lemma request_for_pieces:
  assumes "request_for g req" and "\<forall>b \<in> set g. d_user_io b"
  shows "r_chunks req = map fst (map bio_piece g) \<and> r_tags req = map (\<lambda>p. User (snd p)) (map bio_piece g)"
  using assms by (auto simp: request_for_def tag_from_desc_def)

lemma rd_ok_start:
  assumes "[] \<notin> set buffers"
  shows "rd_ok (start_reading e rs buffers)"
  using assms by (cases buffers) (auto simp: rd_ok_def start_reading_def MemSliceCursor_new_def pos_ok_def)

context tracker_answers
begin

lemma serve_read:
  assumes vw: "volatile_spec vw" and e: "rok e blob C" and cont: "content_of (fe_cache e) blob C cont"
    and req: "user_request iovec C" and buffers: "[] \<notin> set buffers"
    and room: "run_len (map bio_piece (v_vec iovec)) \<le> length (concat buffers)"
    and params: "merge_params_ok (ondemand_batch_size e) (drop_bit RAFS_MERGING_SIZE_TO_GAP_SHIFT (ondemand_batch_size e))"
  shows "serving blob C cont (start_reading e rs buffers) (map bio_piece (v_vec iovec))
    (snd (FileCacheEntry_read ops vw mgr e rs iovec buffers))"
proof -
  let ?s = "start_reading e rs buffers" and ?ps = "map bio_piece (v_vec iovec)"
  have s: "rok (rd_entry ?s) blob C" "rd_ok ?s" "content_of (fe_cache (rd_entry ?s)) blob C cont"
    "rd_pos ?s = 0" "rd_room ?s = length (concat buffers)"
    using rd_ok_start [OF buffers, of e rs] e cont
    by (auto simp: start_reading_def MemSliceCursor_new_def mc_pos_def)
  have ps: "request_ok ?ps" "fst ` set ?ps \<subseteq> C" and bios: "\<forall>b \<in> set (v_vec iovec). d_user_io b" "\<forall>b \<in> set (v_vec iovec). bio_ok b"
    using req by (auto simp: user_request_def)
  consider (none) "v_vec iovec = []" | (one) b where "v_vec iovec = [b]" | (more) "v_vec iovec \<noteq> []" "length (v_vec iovec) \<noteq> 1"
    by (cases "v_vec iovec"; cases "tl (v_vec iovec)") auto
  then show ?thesis
  proof cases
    case none
    then show ?thesis
      using serving_nothing s by (simp add: FileCacheEntry_read_def)
  next
    case (one b)
    obtain r where r: "BlobIoRange_new b = Inr r" "request_for [b] r"
      using BlobIoRange_new_ok bios(2) one by auto
    show ?thesis
      using serve_range [OF vw s(1-3) ps, of r] request_for_pieces [OF r(2)] bios(1) room s(4,5) r(1) one
      by (simp add: FileCacheEntry_read_def)
  next
    case more
    from merge_and_issue_groups [OF params bios(2)] obtain gs reqs
      where reqs: "merge_and_issue (v_vec iovec) (ondemand_batch_size e) (drop_bit RAFS_MERGING_SIZE_TO_GAP_SHIFT (ondemand_batch_size e)) = Inr reqs"
        and gs: "concat gs = v_vec iovec" "list_all2 request_for gs reqs"
      by blast
    have "reqs \<noteq> []"
      using gs more(1) by auto
    have all: "list_all2 (\<lambda>req ps. r_chunks req = map fst ps \<and> r_tags req = map (\<lambda>p. User (snd p)) ps) reqs (map (map bio_piece) gs)"
    proof -
      have "\<forall>g \<in> set gs. \<forall>b \<in> set g. d_user_io b"
        using bios(1) gs(1) by (metis UN_I set_concat)
      then show ?thesis
        using gs(2) request_for_pieces by (fastforce simp: list_all2_conv_all_nth)
    qed
    have cat: "concat (map (map bio_piece) gs) = ?ps"
      using gs(1) by (metis map_concat)
    have "serving blob C cont ?s (concat (map (map bio_piece) gs)) (read_requests ops vw ?s reqs 0)"
      by (rule serve_requests [OF vw s(1-3) all]) (use ps room s(4,5) in \<open>simp_all add: cat\<close>)
    then show ?thesis
      using more reqs \<open>reqs \<noteq> []\<close>
      by (simp add: FileCacheEntry_read_def read_iter_def merge_requests_for_user_def cat)
  qed
qed

lemma rok_run_delayed:
  assumes "rok e blob C"
  shows "rok (run_delayed ops e k) blob C \<and> later e (run_delayed ops e k)"
proof (cases "k < length (fe_delayed e)")
  case True
  obtain c d comp where k: "fe_delayed e ! k = (c, d, comp)"
    using prod_cases3 by blast
  then have d: "c \<in> C" "\<not> comp" "chunk_content (fe_cache e) c (chunk_raw blob c) d"
    using assms True nth_mem [OF True] by (auto simp: rok_def delayed_ok_def)
  define e1 where "e1 = e\<lparr>fe_delayed := take k (fe_delayed e) @ drop (Suc k) (fe_delayed e)\<rparr>"
  have st: "static e1 = static e"
    by (simp add: e1_def static_def)
  have one: "ok e1 blob C \<and> later e e1"
    using assms st by (intro ok_file_change) (simp_all add: rok_def e1_def chunk_stored_def)
  have e1: "rok e1 blob C"
    using one assms by (auto simp: rok_def delayed_ok_def plain_cache_def e1_def dest: in_set_takeD in_set_dropD)
  have run: "run_delayed ops e k = persist_chunk_data ops e1 c d"
    using True k d(2) by (simp add: run_delayed_def persist_chunk_data_def e1_def)
  have "length d \<le> area e1 c"
    using d(3) ceil4k_ge [of "length d"] by (auto simp: area_def chunk_content_def)
  then have two: "ok (persist_chunk_data ops e1 c d) blob C \<and> later e1 (persist_chunk_data ops e1 c d)"
    using ok_persist_chunk_data [of e1 blob C c d d 0] one d(1,3) assms
    by (simp add: e1_def rok_def plain_cache_def)
  have "fe_delayed (persist_chunk_data ops e1 c d) = fe_delayed e1 \<and>
      fe_is_direct_chunkmap (persist_chunk_data ops e1 c d) = fe_is_direct_chunkmap e1"
    by (auto simp: persist_chunk_data_def update_chunk_pending_status_def persist_cached_data_def Let_def split: prod.splits)
  then show ?thesis
    using rok_later [OF e1] two one later_trans by (auto simp: run)
qed (use assms in \<open>simp add: run_delayed_def\<close>)

end

interpretation ica: tracker_answers icsm_obj icsm_range_obj "icsm_inv N" "\<lambda>c. ci_id c < N" icsm_rdy
  "\<lambda>c x. ci_id c = ci_id x" for N
proof
  fix m c m' and r :: "bool res"
  assume inv: "icsm_inv N m" and c: "ci_id c < N"
    and check: "cm_check_ready_and_mark_pending icsm_obj m c = (m', r)"
  have "op_is_ready icm_ops (bsm_c m) c = Inr (icsm_rdy m c)"
    using icm_is_ready_valid [of "bsm_c m" c] inv c
    by (simp add: icm_ops_def icsm_inv_def icm_inv_def icsm_rdy_def icm_rdy_def)
  then show "r = Inr (icsm_rdy m c) \<or> r = Inl Timeout"
    using check
    by (auto simp: icsm_obj_def bsm_check_alone_def bsm_check_first_def bsm_check_locked_def cache_index_def
        insert_slot_def Let_def split: if_splits option.splits)
next
  fix m c m' and u :: "unit res"
  assume "icsm_inv N m" "ci_id c < N" and set: "cm_set_ready_and_clear_pending icsm_obj m c = (m', u)"
  then have sound: "pm_sound (icm_map (bsm_c m))" and idx: "ci_id c < pm_count (icm_map (bsm_c m))"
    by (auto simp: icsm_inv_def icm_inv_def)
  show "u = Inr ()"
    using set icm_set_ready_eq [of "bsm_c m" c] sound idx
    by (auto simp: icsm_obj_def bsm_set_ready_and_clear_pending_def bsm_clear_pending_def icm_ops_def icm_inv_def icm_valid_def)
qed

lemma rok_caches:
  "ica.rok (pm_count (icm_map (bsm_c (fe_chunk_map e)))) e blob C \<longleftrightarrow>
     caches e blob C \<and> coherent icsm_rdy e blob C \<and> delayed_ok e blob C \<and> plain_cache e C"
  using caches_ok [of e blob C] by (auto simp: ica.rok_def)

lemma rok_cachesD:
  assumes "ica.rok N e blob C"
  shows "caches e blob C \<and> coherent icsm_rdy e blob C \<and> delayed_ok e blob C"
  using assms caches_later [of N e blob C] by (simp add: ica.rok_def)

lemma serving_start:
  assumes "ica.serving N blob C cont (start_reading e rs buffers) ps x" and "run_len ps \<le> length (concat buffers)"
  shows "\<exists>s r. x = Some (s, r) \<and> caches (rd_entry s) blob C \<and> coherent icsm_rdy (rd_entry s) blob C \<and>
    delayed_ok (rd_entry s) blob C \<and> (\<forall>n. r = Inr n \<longrightarrow> n \<le> run_len ps) \<and>
    (r = Inr (run_len ps) \<longrightarrow> concat (rd_mem s) = run_bytes cont ps @ drop (run_len ps) (concat buffers)) \<and>
    (undisturbed (fe_cache e) blob C \<and> rs = [] \<longrightarrow> r = Inr (run_len ps))"
proof -
  obtain s r where x: "x = Some (s, r)" "ica.rok N (rd_entry s) blob C"
    and n: "\<forall>n. r = Inr n \<longrightarrow> n \<le> run_len ps \<and>
       (n = run_len ps \<longrightarrow> wrote (start_reading e rs buffers) s (run_bytes cont ps) \<and> length (run_bytes cont ps) = run_len ps)"
    and good: "undisturbed (fe_cache e) blob C \<and> rs = [] \<longrightarrow> r = Inr (run_len ps)"
    using assms(1) by (auto simp: ica.serving_def start_reading_def)
  have "concat (rd_mem s) = run_bytes cont ps @ drop (run_len ps) (concat buffers)" if "r = Inr (run_len ps)"
    using n that by (simp add: wrote_def overwrite_def start_reading_def MemSliceCursor_new_def mc_pos_def)
  then show ?thesis
    using x(1) rok_cachesD [OF x(2)] n good by blast
qed



text \<open>
  C5. Delayed writes keep the cache coherent. The data of chunks that a read fetched are written to
  the cache file later, by tasks that may run in any order and whose writes may fail or fall short;
  after each task every chunk marked as ready has its data in the file, and what is still queued is
  right.
\<close>

theorem delayed_writes_coherent:
  assumes "caches e blob C" and "coherent icsm_rdy e blob C" and "delayed_ok e blob C" and "plain_cache e C"
  shows "caches (run_delayed icsm_obj e k) blob C \<and> coherent icsm_rdy (run_delayed icsm_obj e k) blob C \<and>
    delayed_ok (run_delayed icsm_obj e k) blob C \<and>
    (\<forall>c \<in> C. icsm_rdy (fe_chunk_map e) c \<longrightarrow> icsm_rdy (fe_chunk_map (run_delayed icsm_obj e k)) c)"
proof -
  let ?N = "pm_count (icm_map (bsm_c (fe_chunk_map e)))"
  have rok: "ica.rok ?N e blob C"
    using assms rok_caches by blast
  from ica.rok_run_delayed [OF this, of k] show ?thesis
    using rok_cachesD assms(1) by (auto simp: later_than_def caches_def)
qed

section \<open>An example\<close>

text \<open>A read of the last byte of the first chunk, the second chunk and the first byte of the third.\<close>

definition demo_user_bio :: "nat \<Rightarrow> u32 \<Rightarrow> BlobIoDesc" where
  "demo_user_bio i off =
     \<lparr>d_blob = demo_blob, d_chunkinfo = demo_chunks3 ! i, d_offset = off, d_size = 1, d_user_io = True\<rparr>"

definition demo_iovec :: BlobIoVec where
  "demo_iovec = \<lparr>v_blob = demo_blob, v_size = 3, v_vec = [demo_user_bio 0 1, demo_user_bio 1 0, demo_user_bio 2 0]\<rparr>"

abbreviation demo_reader :: "(IndexedChunkMap, u32) BlobStateMap FileCacheEntry" where
  "demo_reader \<equiv> demo_entry demo_bsm False [0, 0, 3]"

lemma demo_request: "user_request demo_iovec (set demo_chunks3)"
  by (simp add: user_request_def demo_iovec_def demo_user_bio_def request_ok_def range_ok_def demo_chunks3_def
      demo_chunk_def r_start_def r_size_def RAFS_MAX_CHUNK_SIZE_def RAFS_DEFAULT_CHUNK_SIZE_def bio_ok_def c_end_def
      demo_blob_def BlobInfo_new_def compute_features_def)

lemma demo_reader_facts:
  "delayed_ok demo_reader demo_blob3 (set demo_chunks3)" "plain_cache demo_reader (set demo_chunks3)"
  "content_of (fe_cache demo_reader) demo_blob3 (set demo_chunks3) (chunk_raw demo_blob3)"
  "merge_params_ok (ondemand_batch_size demo_reader) (drop_bit RAFS_MERGING_SIZE_TO_GAP_SHIFT (ondemand_batch_size demo_reader))"
proof -
  show "delayed_ok demo_reader demo_blob3 (set demo_chunks3)"
    by (simp add: delayed_ok_def demo_entry_def)
  show "plain_cache demo_reader (set demo_chunks3)"
    by (simp add: plain_cache_def demo_entry_def demo_cache_def demo_chunks3_def demo_chunk_def RAFS_MAX_CHUNK_SIZE_def)
  show "content_of (fe_cache demo_reader) demo_blob3 (set demo_chunks3) (chunk_raw demo_blob3)"
    using chunk_content_unique demo_content by (fastforce simp: content_of_def demo_entry_def)
  show "merge_params_ok (ondemand_batch_size demo_reader) (drop_bit RAFS_MERGING_SIZE_TO_GAP_SHIFT (ondemand_batch_size demo_reader))"
    by (simp add: merge_params_ok_def ondemand_batch_size_def demo_entry_def RAFS_MERGING_SIZE_TO_GAP_SHIFT_def)
qed

lemma demo_run: "run_len (map bio_piece (v_vec demo_iovec)) = 3"
  "run_bytes (chunk_raw demo_blob3) (map bio_piece (v_vec demo_iovec)) = [2, 3, 4]"
  by (simp_all add: demo_iovec_def demo_user_bio_def piece_bytes_def demo_chunks3_def demo_chunk_def demo_blob3_def slice_of_def)



theorem delayed_writes_coherent_witness:
  "coherent icsm_rdy (run_delayed icsm_obj (demo_reader\<lparr>fe_delayed := [(demo_chunks3 ! 0, [1, 2], False)]\<rparr>) 0)
     demo_blob3 (set demo_chunks3)"
proof -
  let ?e = "demo_reader\<lparr>fe_delayed := [(demo_chunks3 ! 0, [1, 2], False)]\<rparr>"
  have "chunk_raw demo_blob3 (demo_chunks3 ! 0) = [1, 2]"
    by (simp add: demo_chunks3_def demo_chunk_def demo_blob3_def slice_of_def)
  then have "delayed_ok ?e demo_blob3 (set demo_chunks3)"
    using demo_content [of "demo_chunks3 ! 0"] by (auto simp: delayed_ok_def demo_entry_def demo_chunks3_def)
  moreover have "caches ?e demo_blob3 (set demo_chunks3)" "coherent icsm_rdy ?e demo_blob3 (set demo_chunks3)"
    "plain_cache ?e (set demo_chunks3)"
    using demo_entry_caches [of False "[0, 0, 3]"] demo_entry_coherent demo_reader_facts(2) static_eqD(5) [of ?e demo_reader]
    by (auto simp: caches_def coherent_def plain_cache_def static_def chunk_stored_def)
  ultimately show ?thesis
    using delayed_writes_coherent [of ?e demo_blob3 "set demo_chunks3" 0] by blast
qed

section \<open>Where reads go wrong\<close>

text \<open>A chunk that is neither ready nor pending is handed to the caller.\<close>

lemma icsm_check_missing:
  assumes "icsm_inv N m" and "ci_id c < N" and "\<not> icsm_rdy m c" and "\<not> icsm_busy m c"
  shows "\<exists>m'. cm_check_ready_and_mark_pending icsm_obj m c = (m', Inr False) \<and> icsm_busy m' c"
proof -
  have "op_is_ready icm_ops (bsm_c m) c = Inr False"
    using icm_is_ready_valid [of "bsm_c m" c] assms(1-3)
    by (simp add: icm_ops_def icsm_inv_def icm_inv_def icsm_rdy_def icm_rdy_def)
  then show ?thesis
    using assms(4)
    by (auto simp: icsm_obj_def bsm_check_alone_def bsm_check_first_def bsm_check_locked_def cache_index_def
        insert_slot_def Let_def icsm_busy_def icm_ops_def icm_get_index_def split: option.splits)
qed

lemma icsm_check_ready:
  assumes "icsm_inv N m" and "ci_id c < N" and "icsm_rdy m c"
  shows "cm_check_ready_and_mark_pending icsm_obj m c = (m, Inr True)"
proof -
  have "op_is_ready icm_ops (bsm_c m) c = Inr True"
    using icm_is_ready_valid [of "bsm_c m" c] assms
    by (simp add: icm_ops_def icsm_inv_def icm_inv_def icsm_rdy_def icm_rdy_def)
  then show ?thesis
    by (auto simp: icsm_obj_def bsm_check_alone_def bsm_check_first_def cache_index_def)
qed


text \<open>A chunk with a wrong digest.\<close>

definition bad_chunk :: BlobChunkInfo where
  "bad_chunk = (demo_chunk 0 0 0 [1, 2])\<lparr>ci_chunk_id := [7]\<rparr>"

definition bad_iovec :: BlobIoVec where
  "bad_iovec = \<lparr>v_blob = demo_blob, v_size = 2,
     v_vec = [\<lparr>d_blob = demo_blob, d_chunkinfo = bad_chunk, d_offset = 0, d_size = 2, d_user_io = True\<rparr>]\<rparr>"


text \<open>Two chunks of one byte that are ready, with a byte of another chunk between them in the cache file.\<close>

definition gap_chunks :: "BlobChunkInfo list" where
  "gap_chunks = [demo_chunk 0 0 0 [1], demo_chunk 1 1 2 [2]]"

definition gap_map :: "(IndexedChunkMap, u32) BlobStateMap" where
  "gap_map = fst (cm_set_ready_and_clear_pending icsm_obj demo_bsm (gap_chunks ! 0))"

definition gap_entry :: "(IndexedChunkMap, u32) BlobStateMap FileCacheEntry" where
  "gap_entry = (demo_entry gap_map False [1, 9, 2])\<lparr>fe_cache := (demo_cache [1, 2])\<lparr>bc_need_validation := False\<rparr>\<rparr>"

definition gap_request :: BlobIoRange where
  "gap_request = \<lparr>r_blob_info = demo_blob, r_blob_offset = 0, r_blob_size = 2, r_chunks = gap_chunks,
     r_tags = replicate 2 (User \<lparr>seg_offset = 0, seg_len = 1\<rparr>)\<rparr>"

lemma gap_map_ready: "icsm_inv 3 gap_map" "icsm_rdy gap_map (gap_chunks ! 0)" "icsm_rdy gap_map (gap_chunks ! 1)"
proof -
  obtain u where set: "cm_set_ready_and_clear_pending icsm_obj demo_bsm (gap_chunks ! 0) = (gap_map, u)"
    by (metis gap_map_def prod.exhaust_sel)
  have "icsm_inv 3 demo_bsm"
    using demo_bsm_inv demo_bsm_count by (simp add: icsm_inv_def)
  then have "icsm_inv 3 gap_map \<and> (\<forall>x. ci_id x < 3 \<longrightarrow>
      icsm_rdy gap_map x = (icsm_rdy demo_bsm x \<or> ci_id (gap_chunks ! 0) = ci_id x))"
    by (rule ict.set_law [OF _ _ set]) (simp add: gap_chunks_def demo_chunk_def)
  moreover have "icsm_rdy demo_bsm (gap_chunks ! 1)"
    using demo_bsm_rdy [of 1] by (simp add: icsm_rdy_def gap_chunks_def demo_chunk_def)
  ultimately show "icsm_inv 3 gap_map" "icsm_rdy gap_map (gap_chunks ! 0)" "icsm_rdy gap_map (gap_chunks ! 1)"
    by (simp_all add: gap_chunks_def demo_chunk_def)
qed


section \<open>Waiting for metadata\<close>

lemma download_meta_waits:
  assumes "\<not> fcm_has_error fcm" and "fcm_meta fcm = None"
  shows "get_blob_meta (download_meta attempt k n fcm) = None \<longleftrightarrow>
    (\<exists>i < n. attempt (k + i) = Inl Panic \<and> (\<forall>j < i. \<exists>err. attempt (k + j) = Inl err))"
proof (induction n arbitrary: k)
  case 0
  then show ?case by (simp add: get_blob_meta_def assms)
next
  case (Suc n)
  have shift: "(\<exists>i < Suc n. attempt (k + i) = Inl Panic \<and> (\<forall>j < i. \<exists>err. attempt (k + j) = Inl err)) \<longleftrightarrow>
      attempt k = Inl Panic \<or> (\<exists>err. attempt k = Inl err) \<and>
        (\<exists>i < n. attempt (Suc k + i) = Inl Panic \<and> (\<forall>j < i. \<exists>err. attempt (Suc k + j) = Inl err))"
    by (simp add: Ex_less_Suc2 All_less_Suc2) blast
  show ?case
  proof (cases "attempt k")
    case (Inl err)
    have "download_meta attempt k (Suc n) fcm = (if err = Panic then fcm else download_meta attempt (Suc k) n fcm)"
      using Inl by (cases err) simp_all
    then show ?thesis
      using Suc.IH [of "Suc k"] Inl assms unfolding shift by (cases "err = Panic") (simp_all add: get_blob_meta_def)
  qed (unfold shift, simp add: get_blob_meta_def)
qed

text \<open>
  C33. Waiting for the metadata ends unless their download panics. A background thread tries to load
  the chunk metadata at most 20 times. Readers that wait for it get the object of the first attempt
  that succeeds, or an error once all attempts have failed; if an attempt panics before, for example
  on inconsistent metadata, then no reader ever returns.
\<close>

theorem get_blob_meta_returns_iff:
  "get_blob_meta (FileCacheMeta_new attempt) = None \<longleftrightarrow>
     (\<exists>k < 20. attempt k = Inl Panic \<and> (\<forall>j < k. \<exists>err. attempt j = Inl err))"
  using download_meta_waits [of "\<lparr>fcm_has_error = False, fcm_meta = None\<rparr>" attempt 0 20]
  by (simp add: FileCacheMeta_new_def DOWNLOAD_META_RETRY_COUNT_def)

theorem get_blob_meta_returns_iff_witness:
  "get_blob_meta (FileCacheMeta_new (\<lambda>k. if k = 0 then Inl EIO else Inl Panic)) = None \<and>
   get_blob_meta (FileCacheMeta_new (\<lambda>_. Inl EIO)) \<noteq> None"
proof
  have "\<exists>k < 20 :: nat. (\<lambda>k. if k = 0 then Inl EIO else Inl Panic) k = (Inl Panic :: BlobMetaState res) \<and>
      (\<forall>j < k. \<exists>err. (\<lambda>k. if k = 0 then Inl EIO else Inl Panic) j = (Inl err :: BlobMetaState res))"
    by (rule exI [of _ "1 :: nat"]) simp
  then show "get_blob_meta (FileCacheMeta_new (\<lambda>k. if k = 0 then Inl EIO else Inl Panic)) = None"
    unfolding get_blob_meta_returns_iff .
  show "get_blob_meta (FileCacheMeta_new (\<lambda>_. Inl EIO)) \<noteq> None"
    by (simp add: get_blob_meta_returns_iff)
qed

end
