(* ===== verification/Inode_Bitmap.thy ===== *)
theory Inode_Bitmap
  imports Nydus_Prelude
begin

text \<open>
  The set of inode numbers of \<open>utils/src/inode_bitmap.rs\<close>, with which the metrics record the
  files that were accessed.  A \<open>BTreeMap\<close> from block numbers to 64-bit blocks is a list of pairs
  with ascending keys; the atomic operations on one block are single steps.  The main result is
  that every sequence of operations behaves like the same operations on a set of inode numbers and
  that the exported array lists this set as its maximal ranges.
\<close>

section \<open>Model\<close>

record InodeBitmap =
  ib_map :: "(u64 \<times> u64) list"

definition InodeBitmap_new :: InodeBitmap where
  "InodeBitmap_new = \<lparr>ib_map = []\<rparr>"

definition get_index_and_mask :: "u64 \<Rightarrow> u64 \<times> u64" where
  "get_index_and_mask ino = (drop_bit 6 ino, push_bit (unat (ino AND 0x3f)) 1)"

definition range_to_vec :: "u64 \<Rightarrow> u64 \<Rightarrow> u64 list" where
  "range_to_vec start stop = (if start = stop then [start] else [start, stop])"

text \<open>\<open>BTreeMap::insert\<close>: the value of a key is replaced, a new key goes to its place.\<close>

fun btree_insert :: "'k::linorder \<Rightarrow> 'v \<Rightarrow> ('k \<times> 'v) list \<Rightarrow> ('k \<times> 'v) list" where
  "btree_insert k v [] = [(k, v)]"
| "btree_insert k v ((k', v') # m) =
     (if k < k' then (k, v) # (k', v') # m
      else if k = k' then (k, v) # m
      else (k', v') # btree_insert k v m)"

text \<open>The part of \<open>set\<close> under the write lock: the block may have appeared in the meantime.\<close>

definition ib_set_entry :: "InodeBitmap \<Rightarrow> u64 \<Rightarrow> InodeBitmap" where
  "ib_set_entry b ino =
     (let (index, mask) = get_index_and_mask ino;
          v = (case map_of (ib_map b) index of None \<Rightarrow> 0 | Some v \<Rightarrow> v)
      in b\<lparr>ib_map := btree_insert index (v OR mask) (ib_map b)\<rparr>)"

definition ib_set :: "InodeBitmap \<Rightarrow> u64 \<Rightarrow> InodeBitmap" where
  "ib_set b ino =
     (let (index, mask) = get_index_and_mask ino
      in case map_of (ib_map b) index of
           Some v \<Rightarrow> b\<lparr>ib_map := btree_insert index (v OR mask) (ib_map b)\<rparr>
         | None \<Rightarrow> ib_set_entry b ino)"

definition ib_is_set :: "InodeBitmap \<Rightarrow> u64 \<Rightarrow> bool" where
  "ib_is_set b ino =
     (let (index, mask) = get_index_and_mask ino
      in case map_of (ib_map b) index of None \<Rightarrow> False | Some v \<Rightarrow> v AND mask \<noteq> 0)"

definition ib_clear :: "InodeBitmap \<Rightarrow> u64 \<Rightarrow> InodeBitmap" where
  "ib_clear b ino =
     (let (index, mask) = get_index_and_mask ino
      in case map_of (ib_map b) index of
           Some v \<Rightarrow> b\<lparr>ib_map := btree_insert index (v AND NOT mask) (ib_map b)\<rparr>
         | None \<Rightarrow> b)"

definition ib_clear_all :: "InodeBitmap \<Rightarrow> InodeBitmap" where
  "ib_clear_all b = b\<lparr>ib_map := map (\<lambda>(k, v). (k, 0)) (ib_map b)\<rparr>"

text \<open>\<open>u64::trailing_zeros\<close>.\<close>

definition trailing_zeros :: "u64 \<Rightarrow> nat" where
  "trailing_zeros v = length (takeWhile (\<lambda>i. \<not> bit v i) [0..<64])"

text \<open>The ranges closed so far, the start of the open range and the last inode number.\<close>

type_synonym range_state = "u64 list list \<times> u64 option \<times> u64"

definition range_step :: "range_state \<Rightarrow> u64 \<Rightarrow> range_state" where
  "range_step st ino =
     (case st of (ret, start, last') \<Rightarrow>
        case start of
          None \<Rightarrow> (ret, Some ino, ino)
        | Some s \<Rightarrow>
            if ino \<noteq> last' + 1 then (ret @ [range_to_vec s last'], Some ino, ino)
            else (ret, Some s, ino))"

lemma takeWhile_upt_lt:
  assumes "length (takeWhile (\<lambda>i. \<not> P i) [0..<n]) < n"
  shows "P (length (takeWhile (\<lambda>i. \<not> P i) [0..<n]))"
    and "\<And>i. i < length (takeWhile (\<lambda>i. \<not> P i) [0..<n]) \<Longrightarrow> \<not> P i"
proof -
  show "P (length (takeWhile (\<lambda>i. \<not> P i) [0..<n]))"
    using nth_length_takeWhile [of "\<lambda>i. \<not> P i" "[0..<n]"] assms by simp
  fix i assume i: "i < length (takeWhile (\<lambda>i. \<not> P i) [0..<n])"
  then have "takeWhile (\<lambda>i. \<not> P i) [0..<n] ! i = i"
    using assms by (simp add: takeWhile_nth)
  then show "\<not> P i"
    using nth_mem [OF i] set_takeWhileD by fastforce
qed

lemma trailing_zeros_bit:
  assumes "v \<noteq> 0"
  shows "trailing_zeros v < 64" and "bit v (trailing_zeros v)"
    and "i < trailing_zeros v \<Longrightarrow> \<not> bit v i"
proof -
  obtain n where "n < 64" "bit v n"
    using assms by (auto simp: bit_eq_iff)
  then have "\<exists>x\<in>set [0..<64]. bit v x"
    by auto
  then have lt: "length (takeWhile (\<lambda>i. \<not> bit v i) [0..<64]) < 64"
    by (metis (mono_tags, lifting) length_takeWhile_le length_upt diff_zero le_neq_implies_less takeWhile_eq_all_conv
        takeWhile_eq_take take_all le_refl)
  then show "trailing_zeros v < 64" "bit v (trailing_zeros v)"
    "i < trailing_zeros v \<Longrightarrow> \<not> bit v i"
    using takeWhile_upt_lt [OF lt] by (auto simp: trailing_zeros_def)
qed

text \<open>\<open>v & (v - 1)\<close> removes the lowest bit.\<close>

lemma bit_minus_one:
  fixes v :: u64
  assumes "v \<noteq> 0"
  shows "bit (v - 1) i \<longleftrightarrow> i < 64 \<and> (if i \<le> trailing_zeros v then i \<noteq> trailing_zeros v else bit v i)"
proof -
  define t where "t = trailing_zeros v"
  have t: "t < 64" "bit v t" "\<And>i. i < t \<Longrightarrow> \<not> bit v i"
    using trailing_zeros_bit [OF assms] by (auto simp: t_def)
  define h where "h = v AND NOT (mask (Suc t))"
  have "v = h OR push_bit t 1"
    by (rule bit_word_eqI) (use t in \<open>auto simp: h_def bit_simps less_Suc_eq\<close>)
  also have "\<dots> = h + push_bit t 1"
    by (rule disjunctive_add [symmetric]) (auto simp: h_def bit_simps)
  finally have "v - 1 = h + mask t"
    by (simp add: mask_eq_exp_minus_1 push_bit_eq_mult)
  also have "\<dots> = h OR mask t"
    by (rule disjunctive_add) (auto simp: h_def bit_simps)
  finally show ?thesis
    using t by (auto simp: h_def bit_simps t_def [symmetric] less_Suc_eq_le not_le)
qed

lemma drop_lowest:
  fixes v :: u64
  assumes "v \<noteq> 0"
  shows "bit (v AND (v - 1)) i \<longleftrightarrow> bit v i \<and> i \<noteq> trailing_zeros v"
  using trailing_zeros_bit(3) [OF assms, of i] bit_imp_le_length [of v i]
  by (auto simp: bit_and_iff bit_minus_one [OF assms] not_le)

lemma drop_lowest_less: "(v :: u64) \<noteq> 0 \<Longrightarrow> unat (v AND (v - 1)) < unat v"
proof -
  assume "v \<noteq> 0"
  then have "unat (v - 1) < unat v"
    by (simp add: unat_minus_one unat_gt_0)
  moreover have "unat (v AND (v - 1)) \<le> unat (v - 1)"
    using word_and_le1 [of v "v - 1"] by (simp add: word_le_nat_alt)
  ultimately show ?thesis
    by simp
qed

function bits_loop :: "u64 \<Rightarrow> u64 \<Rightarrow> range_state \<Rightarrow> range_state" where
  "bits_loop base v st =
     (if v \<noteq> 0 then
        let ino = base + of_nat (trailing_zeros v)
        in bits_loop base (v AND (v - 1)) (range_step st ino)
      else st)"
  by pat_completeness auto
termination
  by (relation "measure (\<lambda>(_, v, _). unat v)") (auto simp: drop_lowest_less)

declare bits_loop.simps [simp del]

definition bitmap_to_vec :: "InodeBitmap \<Rightarrow> u64 list list" where
  "bitmap_to_vec b =
     (case foldl (\<lambda>st (k, v). bits_loop (push_bit 6 k) v st) ([], None, 0) (ib_map b) of
        (ret, start, last') \<Rightarrow>
          case start of None \<Rightarrow> ret | Some s \<Rightarrow> ret @ [range_to_vec s last'])"

definition bitmap_to_array :: "InodeBitmap \<Rightarrow> u64 list list" where
  "bitmap_to_array b = bitmap_to_vec b"

text \<open>Every block is fetched and zeroed in the same atomic operation.\<close>

definition bitmap_to_array_and_clear :: "InodeBitmap \<Rightarrow> InodeBitmap \<times> u64 list list" where
  "bitmap_to_array_and_clear b = (b\<lparr>ib_map := map (\<lambda>(k, v). (k, v AND 0)) (ib_map b)\<rparr>, bitmap_to_vec b)"

section \<open>The blocks\<close>

definition ib_wf :: "InodeBitmap \<Rightarrow> bool" where
  "ib_wf b \<longleftrightarrow> sorted_wrt (<) (map fst (ib_map b)) \<and> (\<forall>(k, v) \<in> set (ib_map b). unat k < 2 ^ 58)"

lemma unat_index: "unat (fst (get_index_and_mask ino)) = unat ino div 64"
  by (simp add: get_index_and_mask_def drop_bit_eq_div unat_div)

lemma mask_test: "v AND snd (get_index_and_mask ino) \<noteq> 0 \<longleftrightarrow> bit v (unat ino mod 64)"
proof -
  have "unat (ino AND 0x3f) = unat ino mod 64"
    using unat_and_mask [of ino 6] by (simp add: mask_eq_exp_minus_1)
  then show ?thesis
    by (simp add: get_index_and_mask_def push_bit_eq_mult and_exp_eq_0_iff_not_bit)
qed

lemma ib_is_set_bit:
  "ib_is_set b ino \<longleftrightarrow>
     (\<exists>v. map_of (ib_map b) (fst (get_index_and_mask ino)) = Some v \<and> bit v (unat ino mod 64))"
  by (auto simp: ib_is_set_def case_prod_unfold Let_def mask_test split: option.splits)

lemma btree_insert_get: "map_of (btree_insert k v m) = (map_of m)(k \<mapsto> v)" if "sorted_wrt (<) (map fst m)"
  using that
proof (induction k v m rule: btree_insert.induct)
  case (2 k v k' v' m)
  moreover have "map_of m k = None" if "k < k'"
    using that "2.prems" by (force simp: map_of_eq_None_iff)
  ultimately show ?case
    by (auto simp: fun_eq_iff)
qed simp

lemma btree_insert_keys: "fst ` set (btree_insert k v m) = insert k (fst ` set m)"
  by (induction k v m rule: btree_insert.induct) auto

lemma btree_insert_sorted: "sorted_wrt (<) (map fst m) \<Longrightarrow> sorted_wrt (<) (map fst (btree_insert k v m))"
proof (induction k v m rule: btree_insert.induct)
  case (2 k v k' v' m)
  then have "\<forall>x\<in>fst ` set (btree_insert k v m). k' < x" if "k' < k"
    using that by (auto simp: btree_insert_keys)
  with 2 show ?case
    by auto
qed simp

lemma index_split: "fst (get_index_and_mask a) = fst (get_index_and_mask c) \<and> unat a mod 64 = unat c mod 64 \<longleftrightarrow> a = c"
proof
  assume "fst (get_index_and_mask a) = fst (get_index_and_mask c) \<and> unat a mod 64 = unat c mod 64"
  then have "unat a div 64 = unat c div 64" "unat a mod 64 = unat c mod 64"
    using unat_index by metis+
  then have "unat a = unat c"
    by (metis div_mult_mod_eq)
  then show "a = c"
    by (rule word_unat_eq_iff [THEN iffD2])
qed simp

lemma index_bound: "unat (fst (get_index_and_mask ino)) < 2 ^ 58"
  using unat_lt2p64 [of ino] by (simp add: unat_index)

lemma bit_mask: "bit (snd (get_index_and_mask ino)) i \<longleftrightarrow> i = unat ino mod 64"
proof -
  have "bit (snd (get_index_and_mask ino)) i \<longleftrightarrow> push_bit i 1 AND snd (get_index_and_mask ino) \<noteq> 0" if "i < 64"
    using that by (simp add: push_bit_eq_mult and_exp_eq_0_iff_not_bit and.commute)
  then have "bit (snd (get_index_and_mask ino)) i \<longleftrightarrow> bit (push_bit i 1 :: u64) (unat ino mod 64)" if "i < 64"
    using that by (simp add: mask_test)
  then show ?thesis
    using bit_imp_le_length [of "snd (get_index_and_mask ino)" i]
    by (cases "i < 64") (auto simp: bit_simps)
qed

section \<open>The operations act on a set of inode numbers\<close>

lemma ib_wf_insert:
  assumes "ib_wf b" and "unat k < 2 ^ 58"
  shows "ib_wf (b\<lparr>ib_map := btree_insert k v (ib_map b)\<rparr>)"
proof -
  have "unat (fst p) < 2 ^ 58" if "p \<in> set (btree_insert k v (ib_map b))" for p
    using that assms btree_insert_keys [of k v "ib_map b"] by (force simp: ib_wf_def)
  then show ?thesis
    using assms by (auto simp: ib_wf_def btree_insert_sorted)
qed

lemma ib_is_set_insert:
  assumes "ib_wf b"
  shows "ib_is_set (b\<lparr>ib_map := btree_insert k v (ib_map b)\<rparr>) ino \<longleftrightarrow>
    (if fst (get_index_and_mask ino) = k then bit v (unat ino mod 64) else ib_is_set b ino)"
  using assms by (simp add: ib_is_set_bit ib_wf_def btree_insert_get)

lemma ib_set_entry_correct:
  assumes "ib_wf b"
  shows "ib_wf (ib_set_entry b ino) \<and> (ib_is_set (ib_set_entry b ino) x \<longleftrightarrow> x = ino \<or> ib_is_set b x)"
  using index_split [of x ino] ib_wf_insert [OF assms index_bound] ib_is_set_bit [of b x]
  by (auto simp: ib_set_entry_def case_prod_unfold Let_def ib_is_set_insert [OF assms] bit_or_iff bit_mask
      split: option.splits)

lemma ib_set_correct:
  assumes "ib_wf b"
  shows "ib_wf (ib_set b ino) \<and> (ib_is_set (ib_set b ino) x \<longleftrightarrow> x = ino \<or> ib_is_set b x)"
proof -
  have "ib_set b ino = ib_set_entry b ino"
    by (auto simp: ib_set_def ib_set_entry_def case_prod_unfold Let_def split: option.splits)
  then show ?thesis
    using ib_set_entry_correct [OF assms] by simp
qed

lemma ib_clear_correct:
  assumes "ib_wf b"
  shows "ib_wf (ib_clear b ino) \<and> (ib_is_set (ib_clear b ino) x \<longleftrightarrow> x \<noteq> ino \<and> ib_is_set b x)"
  using index_split [of x ino] ib_wf_insert [OF assms index_bound] ib_is_set_bit [of b x] assms
  by (auto simp: ib_clear_def case_prod_unfold Let_def ib_is_set_insert [OF assms] bit_and_iff bit_not_iff bit_mask
      split: option.splits)

lemma zeroed_blocks:
  assumes "ib_wf b"
  shows "ib_wf (b\<lparr>ib_map := map (\<lambda>(k, v). (k, 0)) (ib_map b)\<rparr>)
    \<and> \<not> ib_is_set (b\<lparr>ib_map := map (\<lambda>(k, v). (k, 0)) (ib_map b)\<rparr>) x"
proof -
  have "map_of (map (\<lambda>(k, v). (k, 0)) m) = (\<lambda>k. map_option (\<lambda>_. 0) (map_of m k))" for m :: "(u64 \<times> u64) list"
    by (induction m) auto
  note zero = this
  show ?thesis
    using assms by (auto simp: ib_wf_def ib_is_set_bit zero comp_def) (auto simp: case_prod_unfold)
qed

section \<open>The exported ranges\<close>

definition block_inodes :: "u64 \<Rightarrow> u64 \<Rightarrow> u64 list" where
  "block_inodes base v = map (\<lambda>i. base + of_nat i) (filter (bit v) [0..<64])"

definition inodes_of :: "(u64 \<times> u64) list \<Rightarrow> u64 list" where
  "inodes_of m = concat (map (\<lambda>(k, v). block_inodes (push_bit 6 k) v) m)"

lemma lowest_bit_first:
  fixes v :: u64
  assumes "v \<noteq> 0"
  shows "filter (bit v) [0..<64] = trailing_zeros v # filter (bit (v AND (v - 1))) [0..<64]"
proof -
  define t where "t = trailing_zeros v"
  have t: "t < 64" "bit v t" "\<And>i. i < t \<Longrightarrow> \<not> bit v i"
    using trailing_zeros_bit [OF assms] by (auto simp: t_def)
  have split: "[0..<64] = [0..<t] @ t # [Suc t..<64]"
    using t(1) by (metis le_add_same_cancel1 less_imp_le upt_add_eq_append upt_conv_Cons le_add_diff_inverse zero_le)
  have "filter (bit v) [Suc t..<64] = filter (bit (v AND (v - 1))) [Suc t..<64]"
    by (rule filter_cong) (auto simp: drop_lowest [OF assms] t_def)
  moreover have "filter (bit v) [0..<t] = []" "filter (bit (v AND (v - 1))) [0..<t] = []"
    using t by (auto simp: filter_empty_conv drop_lowest [OF assms])
  moreover have "\<not> bit (v AND (v - 1)) t"
    by (simp add: drop_lowest [OF assms] t_def)
  ultimately show ?thesis
    unfolding split using t(2) by (simp add: t_def [symmetric])
qed

lemma bits_loop_foldl: "bits_loop base v st = foldl range_step st (block_inodes base v)"
proof (induction base v st rule: bits_loop.induct)
  case (1 base v st)
  show ?case
  proof (cases "v = 0")
    case False
    with 1 show ?thesis
      by (subst bits_loop.simps) (simp add: block_inodes_def lowest_bit_first)
  qed (simp add: bits_loop.simps block_inodes_def)
qed

lemma blocks_foldl:
  "foldl (\<lambda>st (k, v). bits_loop (push_bit 6 k) v st) st m = foldl range_step st (inodes_of m)"
  by (induction m arbitrary: st) (auto simp: inodes_of_def bits_loop_foldl)

text \<open>Ascending ranges, no two of which touch.\<close>

definition maximal_ranges :: "u64 list list \<Rightarrow> bool" where
  "maximal_ranges rs \<longleftrightarrow>
     sorted_wrt (\<lambda>r r'. unat (last r) + 1 < unat (hd r')) rs
     \<and> (\<forall>r\<in>set rs. hd r \<le> last r \<and> r = range_to_vec (hd r) (last r))"

definition in_ranges :: "u64 list list \<Rightarrow> u64 \<Rightarrow> bool" where
  "in_ranges rs ino \<longleftrightarrow> (\<exists>r\<in>set rs. hd r \<le> ino \<and> ino \<le> last r)"

definition close_range :: "range_state \<Rightarrow> u64 list list" where
  "close_range st = (case st of (ret, start, last') \<Rightarrow>
     case start of None \<Rightarrow> ret | Some s \<Rightarrow> ret @ [range_to_vec s last'])"

lemma range_to_vec_ends [simp]: "hd (range_to_vec a c) = a" "last (range_to_vec a c) = c"
  by (auto simp: range_to_vec_def)

lemma range_step_simps:
  "range_step (ret, None, last') ino = (ret, Some ino, ino)"
  "range_step (ret, Some s, last') ino =
     (if ino = last' + 1 then (ret, Some s, ino) else (ret @ [range_to_vec s last'], Some ino, ino))"
  by (auto simp: range_step_def)

lemma next_inode:
  fixes l x :: u64
  assumes "l < x"
  shows "x = l + 1 \<longleftrightarrow> unat x = unat l + 1"
proof -
  have "unat (l + 1) = unat l + 1"
    using assms unat_lt2p64 [of x] unat_add_less [of l 1] by (simp add: word_less_nat_alt)
  then show ?thesis
    by (simp add: word_unat_eq_iff)
qed

lemma foldl_range_step:
  assumes "sorted_wrt (<) xs" and "foldl range_step ([], None, 0) xs = (ret, start, last')"
  shows "(if xs = [] then ret = [] \<and> start = None
          else \<exists>s. start = Some s \<and> last' = last xs \<and> s \<le> last')
    \<and> maximal_ranges (close_range (ret, start, last'))
    \<and> (\<forall>n. in_ranges (close_range (ret, start, last')) n \<longleftrightarrow> n \<in> set xs)"
  using assms
proof (induction xs arbitrary: ret start last' rule: rev_induct)
  case Nil
  then show ?case
    by (auto simp: close_range_def maximal_ranges_def in_ranges_def)
next
  case (snoc x xs)
  obtain ret0 start0 last0 where st: "foldl range_step ([], None, 0) xs = (ret0, start0, last0)"
    by (metis prod_cases3)
  have sorted: "sorted_wrt (<) xs" "\<And>y. y \<in> set xs \<Longrightarrow> y < x"
    using snoc.prems(1) by (auto simp: sorted_wrt_append)
  note IH = snoc.IH [OF sorted(1) st]
  show ?case
  proof (cases "xs = []")
    case True
    with snoc.prems st show ?thesis
      by (auto simp: range_step_simps close_range_def maximal_ranges_def in_ranges_def)
  next
    case False
    with IH obtain s where s: "start0 = Some s" "last0 = last xs" "s \<le> last0"
      by auto
    have lt: "last0 < x"
      using False s(2) sorted(2) by simp
    have rs: "maximal_ranges (ret0 @ [range_to_vec s last0])"
      and mem: "\<And>n. in_ranges (ret0 @ [range_to_vec s last0]) n \<longleftrightarrow> n \<in> set xs"
      using IH s(1) by (auto simp: close_range_def)
    show ?thesis
    proof (cases "x = last0 + 1")
      case True
      have step: "ret = ret0" "start = Some s" "last' = x"
        using snoc.prems(2) st s(1) True by (auto simp: range_step_simps)
      have upto: "n \<le> x \<longleftrightarrow> n \<le> last0 \<or> n = x" for n
        using True next_inode [OF lt] unfolding word_le_nat_alt word_unat_eq_iff [of n x] by auto
      have "in_ranges (ret0 @ [range_to_vec s x]) n \<longleftrightarrow> in_ranges (ret0 @ [range_to_vec s last0]) n \<or> n = x" for n
        using s(3) lt upto [of n] by (auto simp: in_ranges_def)
      then show ?thesis
        using rs mem s(3) lt step
        by (auto simp: close_range_def maximal_ranges_def sorted_wrt_append)
    next
      case False
      have step: "ret = ret0 @ [range_to_vec s last0]" "start = Some x" "last' = x"
        using snoc.prems(2) st s(1) False by (auto simp: range_step_simps)
      have gap: "unat last0 + 1 < unat x"
        using lt False next_inode [OF lt] by (simp add: word_less_nat_alt)
      have "unat (last r) + 1 < unat x" if "r \<in> set (ret0 @ [range_to_vec s last0])" for r
        using that rs s(3) gap by (auto simp: maximal_ranges_def sorted_wrt_append word_le_nat_alt)
      then have "maximal_ranges (ret0 @ [range_to_vec s last0] @ [range_to_vec x x])"
        using rs gap by (auto simp: maximal_ranges_def sorted_wrt_append)
      moreover have "in_ranges (ret0 @ [range_to_vec s last0] @ [range_to_vec x x]) n
          \<longleftrightarrow> in_ranges (ret0 @ [range_to_vec s last0]) n \<or> n = x" for n
        by (auto simp: in_ranges_def)
      ultimately show ?thesis
        using mem step by (auto simp: close_range_def)
    qed
  qed
qed

lemma unat_block_inode:
  assumes "unat k < 2 ^ 58" and "i < 64"
  shows "unat (push_bit 6 k + of_nat i :: u64) = unat k * 64 + i"
proof -
  have "unat (push_bit 6 k) = unat k * 64"
    using assms(1) by (simp add: push_bit_eq_mult unat_word_ariths mult.commute)
  then show ?thesis
    using assms by (subst unat_add_less) (auto simp: unat_of_nat)
qed

lemma inodes_of_Cons: "inodes_of ((k, v) # m) = block_inodes (push_bit 6 k) v @ inodes_of m"
  by (simp add: inodes_of_def)

lemma in_block_inodes:
  assumes "unat k < 2 ^ 58"
  shows "ino \<in> set (block_inodes (push_bit 6 k) v)
    \<longleftrightarrow> fst (get_index_and_mask ino) = k \<and> bit v (unat ino mod 64)"
proof -
  have "fst (get_index_and_mask ino) = k \<longleftrightarrow> unat ino div 64 = unat k"
    by (simp add: word_unat_eq_iff unat_index)
  moreover have "ino = push_bit 6 k + of_nat i \<longleftrightarrow> unat ino div 64 = unat k \<and> unat ino mod 64 = i" if "i < 64" for i
  proof -
    have "unat ino = unat k * 64 + i \<longleftrightarrow> unat ino div 64 = unat k \<and> unat ino mod 64 = i"
      using that by (auto, metis div_mult_mod_eq)
    then show ?thesis
      using unat_block_inode [OF assms that] by (simp add: word_unat_eq_iff [of ino])
  qed
  moreover have "ino \<in> set (block_inodes (push_bit 6 k) v) \<longleftrightarrow> (\<exists>i<64. bit v i \<and> ino = push_bit 6 k + of_nat i)"
    by (auto simp: block_inodes_def)
  ultimately show ?thesis
    by (metis (no_types, lifting) mod_less_divisor zero_less_numeral)
qed

lemma block_inodes_sorted:
  assumes "unat k < 2 ^ 58"
  shows "sorted_wrt (<) (block_inodes (push_bit 6 k) v)"
proof -
  have "sorted_wrt (<) (filter (bit v) [0..<64])"
    by (rule sorted_wrt_filter) simp
  then have "sorted_wrt (\<lambda>i j. (push_bit 6 k + of_nat i :: u64) < push_bit 6 k + of_nat j) (filter (bit v) [0..<64])"
    by (rule sorted_wrt_mono_rel [rotated]) (use assms in \<open>auto simp: word_less_nat_alt unat_block_inode\<close>)
  then show ?thesis
    by (simp add: block_inodes_def sorted_wrt_map)
qed

lemma inodes_of_wf:
  assumes "ib_wf \<lparr>ib_map = m\<rparr>"
  shows "sorted_wrt (<) (inodes_of m)
    \<and> (\<forall>ino. ino \<in> set (inodes_of m) \<longleftrightarrow>
        (\<exists>v. map_of m (fst (get_index_and_mask ino)) = Some v \<and> bit v (unat ino mod 64)))"
  using assms
proof (induction m)
  case Nil
  then show ?case
    by (simp add: inodes_of_def)
next
  case (Cons kv m)
  obtain k v where kv: "kv = (k, v)"
    by (cases kv)
  have k: "unat k < 2 ^ 58" and wf: "ib_wf \<lparr>ib_map = m\<rparr>" and above: "\<And>k'. k' \<in> fst ` set m \<Longrightarrow> k < k'"
    using Cons.prems by (auto simp: ib_wf_def kv)
  note IH = Cons.IH [OF wf]
  have "a < c" if "a \<in> set (block_inodes (push_bit 6 k) v)" "c \<in> set (inodes_of m)" for a c
  proof -
    have "fst (get_index_and_mask c) \<in> fst ` set m"
      using IH that(2) by (metis map_of_SomeD fst_conv image_eqI)
    then have "k < fst (get_index_and_mask c)"
      by (rule above)
    then have "unat a div 64 < unat c div 64"
      using that(1) by (auto simp: in_block_inodes [OF k] word_less_nat_alt unat_index)
    then show ?thesis
      by (metis div_le_mono linorder_not_less word_less_nat_alt)
  qed
  moreover have "map_of m k = None"
    using above by (fastforce simp: map_of_eq_None_iff)
  ultimately show ?case
    using IH block_inodes_sorted [OF k]
    by (auto simp: kv inodes_of_Cons sorted_wrt_append in_block_inodes [OF k])
qed

lemma bitmap_to_vec_correct:
  assumes "ib_wf b"
  shows "maximal_ranges (bitmap_to_vec b) \<and> (\<forall>ino. in_ranges (bitmap_to_vec b) ino \<longleftrightarrow> ib_is_set b ino)"
proof -
  obtain ret start last' where st: "foldl range_step ([], None, 0) (inodes_of (ib_map b)) = (ret, start, last')"
    by (metis prod_cases3)
  have "ib_wf \<lparr>ib_map = ib_map b\<rparr>"
    using assms by (simp add: ib_wf_def)
  note inodes = inodes_of_wf [OF this]
  have "bitmap_to_vec b = close_range (ret, start, last')"
    by (simp add: bitmap_to_vec_def blocks_foldl st close_range_def)
  then show ?thesis
    using foldl_range_step [OF conjunct1 [OF inodes] st] inodes by (auto simp: ib_is_set_bit)
qed

section \<open>Sequences of operations\<close>

datatype ib_op = Ib_set u64 | Ib_clear u64 | Ib_clear_all | Ib_take_all

fun ib_run :: "InodeBitmap \<Rightarrow> ib_op \<Rightarrow> InodeBitmap" where
  "ib_run b (Ib_set ino) = ib_set b ino"
| "ib_run b (Ib_clear ino) = ib_clear b ino"
| "ib_run b Ib_clear_all = ib_clear_all b"
| "ib_run b Ib_take_all = fst (bitmap_to_array_and_clear b)"

fun inode_set_run :: "u64 set \<Rightarrow> ib_op \<Rightarrow> u64 set" where
  "inode_set_run S (Ib_set ino) = insert ino S"
| "inode_set_run S (Ib_clear ino) = S - {ino}"
| "inode_set_run S Ib_clear_all = {}"
| "inode_set_run S Ib_take_all = {}"

lemma ib_run_refines:
  assumes "ib_wf b" and "\<And>x. ib_is_set b x \<longleftrightarrow> x \<in> S"
  shows "ib_wf (ib_run b c) \<and> (\<forall>x. ib_is_set (ib_run b c) x \<longleftrightarrow> x \<in> inode_set_run S c)"
  using assms(2)
  by (cases c) (auto simp: ib_set_correct [OF assms(1)] ib_clear_correct [OF assms(1)] ib_clear_all_def
      bitmap_to_array_and_clear_def zeroed_blocks [OF assms(1)])

lemma ib_runs_refine:
  assumes "ib_wf b" and "\<And>x. ib_is_set b x \<longleftrightarrow> x \<in> S"
  shows "ib_wf (foldl ib_run b cs) \<and> (\<forall>x. ib_is_set (foldl ib_run b cs) x \<longleftrightarrow> x \<in> foldl inode_set_run S cs)"
  using assms
proof (induction cs arbitrary: b S)
  case (Cons c cs)
  then show ?case
    using ib_run_refines [OF Cons.prems, of c] by simp
qed simp

text \<open>
  C35. After every sequence of \<open>set\<close>, \<open>clear\<close>, \<open>clear_all\<close> and \<open>bitmap_to_array_and_clear\<close> on
  a new bitmap, \<open>is_set\<close> answers membership in the set that the same operations build, and
  \<open>bitmap_to_array\<close> lists exactly this set as ascending ranges, no two of which touch.
\<close>

theorem bitmap_refines_set:
  "let b = foldl ib_run InodeBitmap_new ops; S = foldl inode_set_run {} ops
   in {ino. ib_is_set b ino} = S \<and> {ino. in_ranges (bitmap_to_array b) ino} = S
      \<and> maximal_ranges (bitmap_to_array b) \<and> bitmap_to_array (fst (bitmap_to_array_and_clear b)) = []"
proof -
  define b where "b = foldl ib_run InodeBitmap_new ops"
  have init: "ib_wf InodeBitmap_new" "\<And>x. ib_is_set InodeBitmap_new x \<longleftrightarrow> x \<in> {}"
    by (auto simp: ib_wf_def InodeBitmap_new_def ib_is_set_bit)
  have run: "ib_wf b" "\<And>x. ib_is_set b x \<longleftrightarrow> x \<in> foldl inode_set_run {} ops"
    using ib_runs_refine [OF init] by (auto simp: b_def)
  have "ib_wf (ib_run b Ib_take_all)" "\<And>x. \<not> ib_is_set (ib_run b Ib_take_all) x"
    using ib_run_refines [OF run, of Ib_take_all] by auto
  then have "bitmap_to_array (fst (bitmap_to_array_and_clear b)) = []"
    using bitmap_to_vec_correct [of "ib_run b Ib_take_all"]
    by (cases "bitmap_to_vec (ib_run b Ib_take_all)") (auto simp: bitmap_to_array_def in_ranges_def maximal_ranges_def)
  then show ?thesis
    using bitmap_to_vec_correct [OF run(1)] run(2) by (auto simp: b_def [symmetric] bitmap_to_array_def Let_def)
qed

end
