(* ===== verification/Daemon.thy ===== *)
theory Daemon
  imports Nydus_Prelude
begin

text \<open>
  The life cycle of the FUSE daemon: the state machine of \<open>src/bin/nydusd/daemon.rs\<close>, its thread
  and the operations of \<open>FusedevDaemon\<close> in \<open>src/bin/nydusd/fusedev.rs\<close> that it drives.  Whether the
  FUSE session, the creation of a server thread and the joining of a thread succeed is answered by
  lists of outcomes, one per call; a call past the end of its list succeeds.  Requests reach the
  machine one after the other, as the comment on \<open>on_event\<close> demands.
\<close>

section \<open>Model\<close>

datatype DaemonState = INIT | RUNNING | READY | STOPPED | UNKNOWN

fun DaemonState_as_i32 :: "DaemonState \<Rightarrow> int" where
  "DaemonState_as_i32 INIT = 1"
| "DaemonState_as_i32 RUNNING = 2"
| "DaemonState_as_i32 READY = 3"
| "DaemonState_as_i32 STOPPED = 4"
| "DaemonState_as_i32 UNKNOWN = 5"

definition DaemonState_from :: "int \<Rightarrow> DaemonState" where
  "DaemonState_from i =
     (if i = 1 then INIT else if i = 2 then RUNNING else if i = 3 then READY
      else if i = 4 then STOPPED else UNKNOWN)"

datatype DaemonStateMachineInput = Mount | Takeover | Start | Stop | Exit

datatype DaemonStateMachineState = Init | Ready | Running | Die

datatype DaemonStateMachineOutput = Restore | StopStateMachine | StartService | Umount | TerminateService

datatype DaemonError =
  UnexpectedEvent DaemonStateMachineInput | ChannelError | StartServiceError | SessionShutdown | WaitDaemon | OtherError

text \<open>\<open>StateMachine::consume\<close> on the table of transitions; other inputs are refused.\<close>

fun sm_consume ::
  "DaemonStateMachineState \<Rightarrow> DaemonStateMachineInput
    \<Rightarrow> (DaemonStateMachineState \<times> DaemonStateMachineOutput option) option" where
  "sm_consume Init Mount = Some (Ready, None)"
| "sm_consume Init Takeover = Some (Ready, Some Restore)"
| "sm_consume Init Stop = Some (Die, Some StopStateMachine)"
| "sm_consume Ready Start = Some (Running, Some StartService)"
| "sm_consume Ready Stop = Some (Die, Some Umount)"
| "sm_consume Ready Exit = Some (Die, Some StopStateMachine)"
| "sm_consume Running Stop = Some (Ready, Some TerminateService)"
| "sm_consume _ _ = None"

text \<open>
  The daemon with its service threads and the thread of the state machine, which is \<open>None\<close> once
  the thread has left its loop.  The last fields answer the calls to the session and to the threads.
\<close>

record FusedevDaemon =
  fd_state :: int
  fd_threads_cnt :: nat
  fd_service_threads :: nat
  fd_machine :: "DaemonStateMachineState option"
  fd_kicks :: "bool list"
  fd_umounts :: "bool list"
  fd_wakes :: "bool list"
  fd_joins :: "bool list"

definition next_outcome :: "bool list \<Rightarrow> bool \<times> bool list" where
  "next_outcome bs = (case bs of [] \<Rightarrow> (True, []) | b # bs \<Rightarrow> (b, bs))"

definition get_state :: "FusedevDaemon \<Rightarrow> DaemonState" where
  "get_state d = DaemonState_from (fd_state d)"

definition set_state :: "FusedevDaemon \<Rightarrow> DaemonState \<Rightarrow> FusedevDaemon" where
  "set_state d s = d\<lparr>fd_state := DaemonState_as_i32 s\<rparr>"

definition kick_one_server :: "FusedevDaemon \<Rightarrow> FusedevDaemon \<times> (DaemonError + unit)" where
  "kick_one_server d =
     (let (ok, ks) = next_outcome (fd_kicks d); d = d\<lparr>fd_kicks := ks\<rparr>
      in if ok then (d\<lparr>fd_service_threads := fd_service_threads d + 1\<rparr>, Inr ())
         else (d, Inl OtherError))"

fun start_loop :: "nat \<Rightarrow> FusedevDaemon \<Rightarrow> FusedevDaemon \<times> (DaemonError + unit)" where
  "start_loop 0 d = (d, Inr ())"
| "start_loop (Suc n) d =
     (case kick_one_server d of
        (d, Inl e) \<Rightarrow> (d, Inl StartServiceError)
      | (d, Inr _) \<Rightarrow> start_loop n d)"

definition FusedevDaemon_start :: "FusedevDaemon \<Rightarrow> FusedevDaemon \<times> (DaemonError + unit)" where
  "FusedevDaemon_start d = start_loop (fd_threads_cnt d) d"

definition session_wake :: "FusedevDaemon \<Rightarrow> FusedevDaemon \<times> (DaemonError + unit)" where
  "session_wake d =
     (let (ok, ws) = next_outcome (fd_wakes d)
      in (d\<lparr>fd_wakes := ws\<rparr>, if ok then Inr () else Inl SessionShutdown))"

definition disconnect :: "FusedevDaemon \<Rightarrow> FusedevDaemon \<times> (DaemonError + unit)" where
  "disconnect d =
     (let (ok, us) = next_outcome (fd_umounts d); d = d\<lparr>fd_umounts := us\<rparr>
      in if ok then session_wake d else (d, Inl SessionShutdown))"

definition interrupt :: "FusedevDaemon \<Rightarrow> FusedevDaemon" where
  "interrupt d = fst (session_wake d)"

fun join_loop :: "nat \<Rightarrow> bool list \<Rightarrow> nat \<times> bool list \<times> (DaemonError + unit)" where
  "join_loop 0 js = (0, js, Inr ())"
| "join_loop (Suc n) js =
     (let (ok, js) = next_outcome js
      in if ok then join_loop n js else (n, js, Inl WaitDaemon))"

definition wait_service :: "FusedevDaemon \<Rightarrow> FusedevDaemon \<times> (DaemonError + unit)" where
  "wait_service d =
     (let (n, js, r) = join_loop (fd_service_threads d) (fd_joins d)
      in (d\<lparr>fd_service_threads := n, fd_joins := js\<rparr>, r))"

definition FusedevDaemon_restore :: "FusedevDaemon \<Rightarrow> FusedevDaemon \<times> (DaemonError + unit)" where
  "FusedevDaemon_restore d = (d, Inr ())"

definition run_action ::
  "DaemonStateMachineOutput \<Rightarrow> FusedevDaemon \<Rightarrow> FusedevDaemon \<times> (DaemonError + unit)" where
  "run_action a d =
     (case a of
        StartService \<Rightarrow>
          (case FusedevDaemon_start d of
             (d, Inr _) \<Rightarrow> (set_state d RUNNING, Inr ())
           | (d, Inl e) \<Rightarrow> (d, Inl e))
      | TerminateService \<Rightarrow>
          (case wait_service (interrupt d) of
             (d, Inr _) \<Rightarrow> (set_state d READY, Inr ())
           | (d, Inl e) \<Rightarrow> (d, Inl e))
      | Umount \<Rightarrow>
          (case disconnect d of
             (d, Inr _) \<Rightarrow> (set_state (fst (wait_service (interrupt d))) STOPPED, Inr ())
           | (d, Inl e) \<Rightarrow> (d, Inl e))
      | Restore \<Rightarrow>
          (case FusedevDaemon_restore d of
             (d, Inr _) \<Rightarrow> (set_state d READY, Inr ())
           | (d, Inl e) \<Rightarrow> (d, Inl e))
      | StopStateMachine \<Rightarrow> (set_state d STOPPED, Inr ()))"

text \<open>One round of the loop of the state machine's thread.\<close>

definition machine_round ::
  "DaemonStateMachineState \<Rightarrow> FusedevDaemon \<Rightarrow> DaemonStateMachineInput \<Rightarrow> FusedevDaemon \<times> (DaemonError + unit)" where
  "machine_round st d event =
     (case sm_consume st event of
        None \<Rightarrow> (d, Inl (UnexpectedEvent event))
      | Some (st', action) \<Rightarrow>
          (let d = d\<lparr>fd_machine := Some st'\<rparr>;
               (d, r) = (case action of Some a \<Rightarrow> run_action a d | None \<Rightarrow> (d, Inr ()))
           in (if get_state d = STOPPED then d\<lparr>fd_machine := None\<rparr> else d, r)))"

definition on_event :: "FusedevDaemon \<Rightarrow> DaemonStateMachineInput \<Rightarrow> FusedevDaemon \<times> (DaemonError + unit)" where
  "on_event d event =
     (case fd_machine d of
        None \<Rightarrow> (d, Inl ChannelError)
      | Some st \<Rightarrow> machine_round st d event)"

definition daemon_stop :: "FusedevDaemon \<Rightarrow> FusedevDaemon \<times> (DaemonError + unit)" where
  "daemon_stop d =
     (if get_state d = STOPPED then (d, Inr ())
      else if get_state d = RUNNING then
        (case on_event d Stop of
           (d, Inl e) \<Rightarrow> (d, Inl e)
         | (d, Inr _) \<Rightarrow> on_event d Stop)
      else on_event d Stop)"

definition trigger_exit :: "FusedevDaemon \<Rightarrow> FusedevDaemon \<times> (DaemonError + unit)" where
  "trigger_exit d =
     (if get_state d = STOPPED then (d, Inr ())
      else if get_state d = INIT then on_event d Stop
      else if get_state d = RUNNING then
        (case on_event d Stop of
           (d, Inl e) \<Rightarrow> (d, Inl e)
         | (d, Inr _) \<Rightarrow> on_event d Exit)
      else on_event d Exit)"

definition trigger_takeover :: "FusedevDaemon \<Rightarrow> FusedevDaemon \<times> (DaemonError + unit)" where
  "trigger_takeover d = on_event d Takeover"

definition trigger_start :: "FusedevDaemon \<Rightarrow> FusedevDaemon \<times> (DaemonError + unit)" where
  "trigger_start d = on_event d Start"

text \<open>
  \<open>create_fuse_daemon\<close>: \<open>api_sock\<close>, \<open>upgrade\<close> and \<open>crashed\<close> tell whether an API socket was given,
  whether the daemon takes over from another one and whether a crashed one was found; \<open>mounted\<close> is
  the outcome of mounting the filesystem and the session.
\<close>

definition create_fuse_daemon ::
  "nat \<Rightarrow> bool \<Rightarrow> bool \<Rightarrow> bool \<Rightarrow> bool \<Rightarrow> bool list \<Rightarrow> bool list \<Rightarrow> bool list \<Rightarrow> bool list
    \<Rightarrow> FusedevDaemon \<times> (DaemonError + unit)" where
  "create_fuse_daemon threads_cnt api_sock upgrade crashed mounted kicks umounts wakes joins =
     (let d = \<lparr>fd_state = DaemonState_as_i32 INIT, fd_threads_cnt = threads_cnt, fd_service_threads = 0,
               fd_machine = Some Init, fd_kicks = kicks, fd_umounts = umounts, fd_wakes = wakes, fd_joins = joins\<rparr>
      in if api_sock \<and> \<not> upgrade \<and> \<not> crashed \<or> \<not> api_sock then
           (if \<not> mounted then (d, Inl OtherError)
            else case on_event d Mount of
                   (d, Inl e) \<Rightarrow> (d, Inl OtherError)
                 | (d, Inr _) \<Rightarrow>
                     (case on_event d Start of
                        (d, Inl e) \<Rightarrow> (d, Inl OtherError)
                      | (d, Inr _) \<Rightarrow> (d, Inr ())))
         else (d, Inr ()))"

section \<open>Basic facts\<close>

lemma DaemonState_roundtrip [simp]: "DaemonState_from (DaemonState_as_i32 s) = s"
  by (cases s) (auto simp: DaemonState_from_def)

lemma get_set_state [simp]: "get_state (set_state d s) = s"
  by (simp add: get_state_def set_state_def)

lemma get_state_update [simp]:
  "get_state (d\<lparr>fd_service_threads := n\<rparr>) = get_state d"
  "get_state (d\<lparr>fd_machine := m\<rparr>) = get_state d"
  "get_state (d\<lparr>fd_kicks := bs\<rparr>) = get_state d"
  "get_state (d\<lparr>fd_umounts := bs\<rparr>) = get_state d"
  "get_state (d\<lparr>fd_wakes := bs\<rparr>) = get_state d"
  "get_state (d\<lparr>fd_joins := bs\<rparr>) = get_state d"
  by (simp_all add: get_state_def)

lemma set_state_fields [simp]:
  "fd_service_threads (set_state d s) = fd_service_threads d"
  "fd_machine (set_state d s) = fd_machine d"
  "fd_kicks (set_state d s) = fd_kicks d"
  "fd_umounts (set_state d s) = fd_umounts d"
  "fd_wakes (set_state d s) = fd_wakes d"
  "fd_joins (set_state d s) = fd_joins d"
  by (simp_all add: set_state_def)

text \<open>What the operations of the daemon leave alone.\<close>

definition same_control :: "FusedevDaemon \<Rightarrow> FusedevDaemon \<Rightarrow> bool" where
  "same_control d d' \<longleftrightarrow> fd_state d' = fd_state d \<and> fd_machine d' = fd_machine d"

lemma start_loop_control: "start_loop n d = (d', r) \<Longrightarrow> same_control d d'"
  by (induction n arbitrary: d)
    (auto simp: same_control_def kick_one_server_def Let_def split: prod.splits sum.splits if_splits)

lemma start_loop_session:
  "start_loop n d = (d', r) \<Longrightarrow> fd_umounts d' = fd_umounts d \<and> fd_wakes d' = fd_wakes d \<and> fd_joins d' = fd_joins d"
  by (induction n arbitrary: d) (auto simp: kick_one_server_def Let_def split: prod.splits sum.splits if_splits)

lemma disconnect_control: "disconnect d = (d', r) \<Longrightarrow> same_control d d'"
  by (auto simp: disconnect_def Let_def session_wake_def Let_def same_control_def split: prod.splits if_splits)

lemma interrupt_control: "same_control d (interrupt d)"
  by (auto simp: interrupt_def session_wake_def Let_def same_control_def split: prod.splits)

lemma wait_service_control: "wait_service d = (d', r) \<Longrightarrow> same_control d d'"
  by (auto simp: wait_service_def Let_def same_control_def split: prod.splits)

section \<open>Stopping a healthy daemon\<close>

text \<open>Unmounting, waking and joining succeed; starting a server thread may still fail.\<close>

definition healthy :: "FusedevDaemon \<Rightarrow> bool" where
  "healthy d \<longleftrightarrow> False \<notin> set (fd_umounts d) \<and> False \<notin> set (fd_wakes d) \<and> False \<notin> set (fd_joins d)"

definition daemon_inv :: "FusedevDaemon \<Rightarrow> bool" where
  "daemon_inv d \<longleftrightarrow> healthy d \<and>
     (case fd_machine d of
        None \<Rightarrow> get_state d = STOPPED \<and> fd_service_threads d = 0
      | Some Init \<Rightarrow> get_state d = INIT \<and> fd_service_threads d = 0
      | Some Ready \<Rightarrow> get_state d \<in> {INIT, READY} \<and> fd_service_threads d = 0
      | Some Running \<Rightarrow> get_state d \<in> {INIT, READY, RUNNING}
      | Some Die \<Rightarrow> False)"

lemma next_outcome_good: "False \<notin> set bs \<Longrightarrow> \<exists>bs'. next_outcome bs = (True, bs') \<and> False \<notin> set bs'"
  by (cases bs) (auto simp: next_outcome_def)

lemma join_loop_good: "False \<notin> set js \<Longrightarrow> \<exists>js'. join_loop n js = (0, js', Inr ()) \<and> False \<notin> set js'"
proof (induction n arbitrary: js)
  case (Suc n)
  then show ?case
    using next_outcome_good [OF Suc.prems] by fastforce
qed simp

lemma wait_service_good:
  assumes "healthy d"
  shows "\<exists>d'. wait_service d = (d', Inr ()) \<and> same_control d d' \<and> healthy d' \<and> fd_service_threads d' = 0"
  using assms join_loop_good [of "fd_joins d" "fd_service_threads d"]
  by (auto simp: wait_service_def Let_def healthy_def same_control_def)

lemma session_wake_good:
  assumes "healthy d"
  shows "\<exists>d'. session_wake d = (d', Inr ()) \<and> same_control d d' \<and> healthy d'"
  using assms next_outcome_good [of "fd_wakes d"] by (auto simp: session_wake_def Let_def healthy_def same_control_def)

lemma disconnect_good:
  assumes "healthy d"
  shows "\<exists>d'. disconnect d = (d', Inr ()) \<and> same_control d d' \<and> healthy d'"
proof -
  obtain us where us: "next_outcome (fd_umounts d) = (True, us)" "False \<notin> set us"
    using assms next_outcome_good [of "fd_umounts d"] by (auto simp: healthy_def)
  then have "healthy (d\<lparr>fd_umounts := us\<rparr>)"
    using assms by (simp add: healthy_def)
  from session_wake_good [OF this] us show ?thesis
    by (auto simp: disconnect_def Let_def same_control_def)
qed

lemma interrupt_good: "healthy d \<Longrightarrow> healthy (interrupt d) \<and> same_control d (interrupt d)"
  using session_wake_good [of d] by (auto simp: interrupt_def)

text \<open>Stopping the threads, after which none is left.\<close>

lemma interrupt_and_wait:
  assumes "healthy d"
  shows "\<exists>d'. wait_service (interrupt d) = (d', Inr ()) \<and> same_control d d' \<and> healthy d' \<and> fd_service_threads d' = 0"
  using wait_service_good [of "interrupt d"] interrupt_good [OF assms] by (auto simp: same_control_def)

lemma healthy_update [simp]:
  "healthy (d\<lparr>fd_machine := m\<rparr>) = healthy d" "healthy (set_state d s) = healthy d"
  by (auto simp: healthy_def)

lemma get_state_control: "same_control d d' \<Longrightarrow> get_state d' = get_state d \<and> fd_machine d' = fd_machine d"
  by (auto simp: same_control_def get_state_def)

lemma terminate_good:
  assumes "healthy d"
  shows "\<exists>d'. run_action TerminateService d = (d', Inr ()) \<and> get_state d' = READY \<and> fd_machine d' = fd_machine d
    \<and> healthy d' \<and> fd_service_threads d' = 0"
proof -
  obtain d' where "wait_service (interrupt d) = (d', Inr ())" "same_control d d'" "healthy d'" "fd_service_threads d' = 0"
    using interrupt_and_wait [OF assms] by blast
  then show ?thesis
    by (auto simp: run_action_def dest: get_state_control)
qed

lemma umount_good:
  assumes "healthy d"
  shows "\<exists>d'. run_action Umount d = (d', Inr ()) \<and> get_state d' = STOPPED \<and> healthy d' \<and> fd_service_threads d' = 0"
proof -
  obtain d1 where d1: "disconnect d = (d1, Inr ())" "healthy d1"
    using disconnect_good [OF assms] by blast
  then obtain d2 where "wait_service (interrupt d1) = (d2, Inr ())" "healthy d2" "fd_service_threads d2 = 0"
    using interrupt_and_wait by blast
  with d1 show ?thesis
    by (auto simp: run_action_def)
qed

lemma start_good:
  assumes "healthy d" and "run_action StartService d = (d', r)"
  shows "healthy d' \<and> fd_machine d' = fd_machine d \<and> get_state d' = (if r = Inr () then RUNNING else get_state d)"
proof -
  obtain d1 r1 where st: "start_loop (fd_threads_cnt d) d = (d1, r1)"
    by fastforce
  have "get_state d1 = get_state d" "fd_machine d1 = fd_machine d" "healthy d1"
    using start_loop_control [OF st, THEN get_state_control] start_loop_session [OF st] assms(1)
    by (auto simp: healthy_def)
  then show ?thesis
    using assms(2) st by (auto simp: run_action_def FusedevDaemon_start_def split: sum.splits)
qed

lemma machine_round_inv:
  assumes "daemon_inv d" and "fd_machine d = Some st"
  shows "daemon_inv (fst (machine_round st d event))"
proof -
  have h: "healthy (d\<lparr>fd_machine := m\<rparr>)" for m
    using assms(1) by (simp add: daemon_inv_def)
  consider "sm_consume st event = None" | "st = Init" "event = Mount" | "st = Init" "event = Takeover"
    | "st = Init" "event = Stop" | "st = Ready" "event = Start" | "st = Ready" "event = Stop"
    | "st = Ready" "event = Exit" | "st = Running" "event = Stop"
    by (cases st; cases event) auto
  then show ?thesis
  proof cases
    case 5
    obtain d' r where r: "run_action StartService (d\<lparr>fd_machine := Some Running\<rparr>) = (d', r)"
      by fastforce
    have "get_state d' \<in> {INIT, READY, RUNNING} \<and> healthy d' \<and> fd_machine d' = Some Running"
      using start_good [OF h r] assms 5 by (auto simp: daemon_inv_def)
    then show ?thesis
      using 5 r by (auto simp: machine_round_def Let_def daemon_inv_def)
  next
    case 6
    then show ?thesis
      using umount_good [OF h, of "Some Die"] by (auto simp: machine_round_def Let_def daemon_inv_def)
  next
    case 8
    then show ?thesis
      using terminate_good [OF h, of "Some Ready"] by (auto simp: machine_round_def Let_def daemon_inv_def)
  qed (use assms in \<open>auto simp: machine_round_def Let_def daemon_inv_def run_action_def FusedevDaemon_restore_def\<close>)
qed

lemma on_event_inv: "daemon_inv d \<Longrightarrow> daemon_inv (fst (on_event d event))"
  by (auto simp: on_event_def machine_round_inv split: option.splits)

text \<open>The requests of the API.\<close>

inductive daemon_step :: "FusedevDaemon \<Rightarrow> FusedevDaemon \<Rightarrow> bool" where
  "daemon_step d (fst (daemon_stop d))"
| "daemon_step d (fst (trigger_exit d))"
| "daemon_step d (fst (trigger_takeover d))"
| "daemon_step d (fst (trigger_start d))"

lemma chained_events:
  assumes "\<And>d e. P d \<Longrightarrow> P (fst (on_event d e))" and "P d"
  shows "P (fst (case on_event d e of (d, Inl err) \<Rightarrow> (d, Inl err) | (d, Inr _) \<Rightarrow> on_event d e'))"
  using assms by (auto split: prod.splits sum.splits) (metis fst_conv)+

lemma daemon_step_preserves:
  assumes "\<And>d e. P d \<Longrightarrow> P (fst (on_event d e))" and "daemon_step d d'" and "P d"
  shows "P d'"
  using assms(2, 3) chained_events [of P, OF assms(1)] assms(1)
  by (cases rule: daemon_step.cases)
    (auto simp: daemon_stop_def trigger_exit_def trigger_takeover_def trigger_start_def)

lemma daemon_reach_preserves:
  assumes "\<And>d e. P d \<Longrightarrow> P (fst (on_event d e))" and "daemon_step\<^sup>*\<^sup>* d d'" and "P d"
  shows "P d'"
  using assms(2, 3) by (induction rule: rtranclp_induct) (use daemon_step_preserves [of P, OF assms(1)] in auto)

lemma create_inv:
  assumes "False \<notin> set umounts" and "False \<notin> set wakes" and "False \<notin> set joins"
  shows "daemon_inv (fst (create_fuse_daemon n api_sock upgrade crashed mounted kicks umounts wakes joins))"
proof -
  define d where "d = \<lparr>fd_state = DaemonState_as_i32 INIT, fd_threads_cnt = n, fd_service_threads = 0,
    fd_machine = Some Init, fd_kicks = kicks, fd_umounts = umounts, fd_wakes = wakes, fd_joins = joins\<rparr>"
  have inv: "daemon_inv d"
    using assms by (simp add: d_def daemon_inv_def healthy_def get_state_def DaemonState_from_def)
  have "daemon_inv (fst (on_event (fst (on_event d Mount)) Start))" "daemon_inv (fst (on_event d Mount))"
    using inv on_event_inv by auto
  with inv show ?thesis
    unfolding create_fuse_daemon_def d_def [symmetric] Let_def by (auto split: prod.splits sum.splits)
qed

lemma stopped_once:
  assumes "daemon_inv d" and "get_state d = RUNNING \<or> fd_machine d \<noteq> Some Running"
  shows "get_state (fst (daemon_stop d)) = STOPPED"
proof -
  have h: "healthy (d\<lparr>fd_machine := m\<rparr>)" for m
    using assms(1) by (simp add: daemon_inv_def)
  have stop_ready: "get_state (fst (on_event d' Stop)) = STOPPED" if "fd_machine d' = Some Ready" "healthy d'" for d'
    using umount_good [of "d'\<lparr>fd_machine := Some Die\<rparr>"] that
    by (auto simp: on_event_def machine_round_def)
  show ?thesis
  proof (cases "fd_machine d")
    case None
    then show ?thesis
      using assms by (simp add: daemon_inv_def daemon_stop_def)
  next
    case (Some st)
    show ?thesis
    proof (cases st)
      case Running
      obtain d1 where d1: "run_action TerminateService (d\<lparr>fd_machine := Some Ready\<rparr>) = (d1, Inr ())"
        "get_state d1 = READY" "fd_machine d1 = Some Ready" "healthy d1"
        using terminate_good [OF h, of "Some Ready"] by auto
      then have "on_event d Stop = (d1, Inr ())"
        using Running Some by (simp add: on_event_def machine_round_def)
      then show ?thesis
        using stop_ready [OF d1(3, 4)] assms Running Some by (auto simp: daemon_stop_def)
    next
      case Ready
      then show ?thesis
        using stop_ready [of d] Some assms by (auto simp: daemon_stop_def daemon_inv_def)
    qed (use assms Some in \<open>auto simp: daemon_inv_def daemon_stop_def on_event_def machine_round_def run_action_def\<close>)
  qed
qed

lemma stop_leaves_running:
  assumes "daemon_inv d" and "fd_machine d = Some Running" and "get_state d \<noteq> RUNNING"
  shows "fd_machine (fst (daemon_stop d)) = Some Ready"
proof -
  have "healthy (d\<lparr>fd_machine := Some Ready\<rparr>)"
    using assms(1) by (simp add: daemon_inv_def)
  from terminate_good [OF this] show ?thesis
    using assms by (auto simp: daemon_stop_def daemon_inv_def on_event_def machine_round_def)
qed

text \<open>
  C15. Two calls of \<open>stop\<close> stop a daemon, whatever requests it served before and even if some of
  its server threads could not be started, as long as unmounting, waking and joining succeed: the
  state is \<open>STOPPED\<close>, the thread of the state machine has ended and no service thread is left.  One
  call suffices when the last start of the service succeeded.
\<close>

theorem stop_stops_daemon:
  assumes "False \<notin> set umounts" and "False \<notin> set wakes" and "False \<notin> set joins"
    and "daemon_step\<^sup>*\<^sup>* (fst (create_fuse_daemon n api_sock upgrade crashed mounted kicks umounts wakes joins)) d"
  shows "(let d2 = fst (daemon_stop (fst (daemon_stop d)))
          in get_state d2 = STOPPED \<and> fd_machine d2 = None \<and> fd_service_threads d2 = 0)
    \<and> (get_state d = RUNNING \<or> fd_machine d \<noteq> Some Running \<longrightarrow> get_state (fst (daemon_stop d)) = STOPPED)"
proof -
  have inv: "daemon_inv d"
    using daemon_reach_preserves [of daemon_inv, OF on_event_inv assms(4) create_inv [OF assms(1-3)]] .
  have inv1: "daemon_inv (fst (daemon_stop d))" and inv2: "daemon_inv (fst (daemon_stop (fst (daemon_stop d))))"
    using daemon_step_preserves [of daemon_inv, OF on_event_inv daemon_step.intros(1)] inv by auto
  have "get_state (fst (daemon_stop (fst (daemon_stop d)))) = STOPPED"
  proof (cases "get_state d = RUNNING \<or> fd_machine d \<noteq> Some Running")
    case True
    then show ?thesis
      using stopped_once [OF inv] by (simp add: daemon_stop_def [of "fst (daemon_stop d)"])
  next
    case False
    then show ?thesis
      using stopped_once [OF inv1] stop_leaves_running [OF inv] by simp
  qed
  moreover have "fd_machine d2 = None \<and> fd_service_threads d2 = 0" if "get_state d2 = STOPPED" "daemon_inv d2" for d2
    using that by (auto simp: daemon_inv_def split: option.splits DaemonStateMachineState.splits)
  ultimately show ?thesis
    using inv2 stopped_once [OF inv] by (simp add: Let_def)
qed

definition demo_daemon :: "bool list \<Rightarrow> bool list \<Rightarrow> FusedevDaemon" where
  "demo_daemon kicks umounts = fst (create_fuse_daemon 2 True False False True kicks umounts [] [])"

theorem stop_stops_daemon_witness:
  "get_state (fst (daemon_stop (fst (daemon_stop (demo_daemon [True, False] []))))) = STOPPED
   \<and> get_state (fst (daemon_stop (demo_daemon [True, False] []))) = READY
   \<and> get_state (fst (daemon_stop (demo_daemon [] []))) = STOPPED"
proof -
  have running: "get_state (demo_daemon [] []) = RUNNING"
    by code_simp
  have "get_state (fst (daemon_stop (demo_daemon [True, False] []))) = READY"
    by code_simp
  then show ?thesis
    using stop_stops_daemon [of "[]" "[]" "[]" 2 True False False True "[True, False]" "demo_daemon [True, False] []"]
      stop_stops_daemon [of "[]" "[]" "[]" 2 True False False True "[]" "demo_daemon [] []"] running
    by (simp add: demo_daemon_def Let_def)
qed

section \<open>A failed unmount\<close>

lemma die_is_final: "fd_machine d = Some Die \<and> get_state d \<noteq> STOPPED \<Longrightarrow>
  fd_machine (fst (on_event d e)) = Some Die \<and> get_state (fst (on_event d e)) \<noteq> STOPPED"
  by (simp add: on_event_def machine_round_def)

text \<open>
  C39. When unmounting fails while the daemon is ready, the state machine is left in its final state
  although the daemon is not stopped.  From then on no request stops the daemon: its state never
  becomes \<open>STOPPED\<close>, the thread of the state machine never ends, and every further \<open>stop\<close> is refused.
\<close>

theorem umount_failure_wedges:
  assumes "fd_machine d = Some Ready" and "get_state d \<in> {INIT, READY}" and "fd_umounts d = False # us"
    and "daemon_step\<^sup>*\<^sup>* (fst (daemon_stop d)) d'"
  shows "get_state d' \<noteq> STOPPED \<and> fd_machine d' = Some Die \<and> snd (daemon_stop d') = Inl (UnexpectedEvent Stop)"
proof -
  have "fd_machine (fst (daemon_stop d)) = Some Die \<and> get_state (fst (daemon_stop d)) \<noteq> STOPPED"
    using assms(1-3)
    by (auto simp: daemon_stop_def on_event_def machine_round_def run_action_def disconnect_def next_outcome_def)
  then have "fd_machine d' = Some Die \<and> get_state d' \<noteq> STOPPED"
    using daemon_reach_preserves [of "\<lambda>d. fd_machine d = Some Die \<and> get_state d \<noteq> STOPPED", OF die_is_final assms(4)]
    by blast
  then show ?thesis
    by (auto simp: daemon_stop_def on_event_def machine_round_def)
qed

theorem umount_failure_wedges_witness:
  "get_state (fst (daemon_stop (fst (daemon_stop (fst (daemon_stop (demo_daemon [False] [False]))))))) \<noteq> STOPPED"
proof -
  define d where "d = fst (daemon_stop (demo_daemon [False] [False]))"
  have "fd_machine d = Some Ready" "get_state d = READY" "fd_umounts d = [False]"
    unfolding d_def by code_simp+
  then show ?thesis
    using umount_failure_wedges [of d "[]" "fst (daemon_stop (fst (daemon_stop d)))"] daemon_step.intros(1)
    by (auto simp: d_def)
qed

end
