(* ===== verification/Rafs_Layout.thy ===== *)
theory Rafs_Layout
  imports Blob_Device "HOL-Library.AList"
begin

text \<open>
  What the RAFS metadata formats share: \<open>rafs/src/metadata/layout/mod.rs\<close> with the ranges of
  metadata and the extended attributes, the alignment of \<open>layout/v5.rs\<close> and the writer helpers of
  \<open>rafs/src/lib.rs\<close>.  A metadata writer is the sequence of bytes written so far; its position is
  at the end.  File names and attribute names are byte sequences.
\<close>

section \<open>Writers and alignment\<close>

type_synonym writer = "u8 list"

definition RAFSV5_ALIGNMENT :: nat where "RAFSV5_ALIGNMENT = 8"

definition validate_alignment :: "writer \<Rightarrow> nat \<Rightarrow> nat \<Rightarrow> nat res" where
  "validate_alignment w size' alignment =
     (if alignment \<noteq> 0 \<and> (size' AND (alignment - 1) \<noteq> 0 \<or> length w AND (alignment - 1) \<noteq> 0)
      then Inl EINVAL else Inr size')"

definition write_padding :: "writer \<Rightarrow> nat \<Rightarrow> writer res" where
  "write_padding w size' = (if size' > 64 then Inl EINVAL else Inr (w @ replicate size' 0))"

definition rafsv5_align :: "usize \<Rightarrow> usize" where
  "rafsv5_align size' =
     (if size' AND 7 = 0 then size' else size' + (8 - (size' AND 7)))"

lemma and_7: "(n :: nat) AND 7 = n mod 8"
  using take_bit_eq_mask [of 3 n] by (simp add: mask_eq_exp_minus_1 take_bit_eq_mod and.commute)

lemma unat_and_7: "unat ((w :: u64) AND 7) = unat w mod 8"
  using unat_and_mask [of w 3] by (simp add: mask_eq_exp_minus_1)

lemma validate_alignment_8:
  "validate_alignment w n 8 = (if n mod 8 = 0 \<and> length w mod 8 = 0 then Inr n else Inl EINVAL)"
  by (simp add: validate_alignment_def and_7)

text \<open>The distance to the next multiple of eight.\<close>

definition pad8 :: "nat \<Rightarrow> nat" where
  "pad8 n = (8 - n mod 8) mod 8"

lemma pad8_bound: "pad8 n < 8" and pad8_mod: "(n + pad8 n) mod 8 = 0"
proof -
  show "pad8 n < 8"
    by (simp add: pad8_def)
  have "(n + (8 - n mod 8)) mod 8 = (n mod 8 + (8 - n mod 8)) mod 8"
    by (rule mod_add_left_eq [symmetric])
  then show "(n + pad8 n) mod 8 = 0"
    by (simp add: pad8_def mod_add_right_eq)
qed

lemma pad8_add: "8 dvd k \<Longrightarrow> pad8 (k + n) = pad8 n"
  by (auto simp: pad8_def)

lemma unat_rafsv5_align:
  assumes "unat n + 7 < 2 ^ 64"
  shows "unat (rafsv5_align n) = unat n + pad8 (unat n)"
proof -
  have "n AND 7 = 0 \<longleftrightarrow> unat n mod 8 = 0"
    using unat_and_7 [of n] by (metis unat_0 word_unat_eq_iff)
  moreover have "unat (8 - (n AND 7)) = 8 - unat n mod 8"
  proof -
    have "n AND 7 \<le> 8"
      unfolding word_le_nat_alt unat_and_7 by simp
    then show ?thesis
      by (simp add: unat_sub unat_and_7)
  qed
  ultimately show ?thesis
    using assms unat_add_less [of n "8 - (n AND 7)"] by (auto simp: rafsv5_align_def pad8_def)
qed

section \<open>Ranges of metadata\<close>

record MetaRange =
  mr_start :: u64
  mr_size :: u64

definition MetaRange_new :: "u64 \<Rightarrow> u64 \<Rightarrow> bool \<Rightarrow> MetaRange res" where
  "MetaRange_new start size' aligned_size =
     (if start AND 7 = 0 \<and> (\<not> aligned_size \<or> size' AND 7 = 0) \<and> checked_add start size' \<noteq> None
      then Inr \<lparr>mr_start = start, mr_size = size'\<rparr> else Inl EINVAL)"

definition MetaRange_end :: "MetaRange \<Rightarrow> u64" where
  "MetaRange_end r = mr_start r + mr_size r"

definition is_subrange_of :: "MetaRange \<Rightarrow> MetaRange \<Rightarrow> bool" where
  "is_subrange_of r other \<longleftrightarrow> mr_start r \<ge> mr_start other \<and> MetaRange_end r \<le> MetaRange_end other"

definition intersect_with :: "MetaRange \<Rightarrow> MetaRange \<Rightarrow> bool" where
  "intersect_with r other \<longleftrightarrow> mr_start r < MetaRange_end other \<and> MetaRange_end r > mr_start other"

text \<open>The bytes that a range covers.\<close>

definition range_bytes :: "MetaRange \<Rightarrow> nat set" where
  "range_bytes r = {unat (mr_start r)..<unat (mr_start r) + unat (mr_size r)}"

lemma MetaRange_new_Inr:
  assumes "MetaRange_new start size' al = Inr r"
  shows "mr_start r = start \<and> mr_size r = size' \<and> unat (MetaRange_end r) = unat start + unat size'
    \<and> unat start mod 8 = 0"
  using assms
  by (auto simp: MetaRange_new_def MetaRange_end_def unat_and_7 [symmetric] dest: checked_add_SomeD split: if_splits)

lemma intersect_with_iff:
  assumes "unat (MetaRange_end r) = unat (mr_start r) + unat (mr_size r)"
    and "unat (MetaRange_end r') = unat (mr_start r') + unat (mr_size r')"
  shows "\<not> intersect_with r r' \<Longrightarrow> range_bytes r \<inter> range_bytes r' = {}"
  using assms by (auto simp: intersect_with_def range_bytes_def word_less_nat_alt)

section \<open>Extended attributes\<close>

type_synonym XattrName = "u8 list"
type_synonym XattrValue = "u8 list"

text \<open>
  \<open>parse_xattr\<close> with its callback: \<open>cb st name value\<close> is the new state of the closure and whether
  the iteration goes on.
\<close>

function xattr_loop ::
  "('s \<Rightarrow> XattrName \<Rightarrow> XattrValue \<Rightarrow> 's \<times> bool) \<Rightarrow> 's \<Rightarrow> nat \<Rightarrow> nat \<Rightarrow> u8 list \<Rightarrow> 's res" where
  "xattr_loop cb st size' i rest_data =
     (if i < size' then
        if length rest_data < 4 then Inl EINVAL
        else
          let pair_size = unat (of_le32 (take 4 rest_data)); rest = drop 4 rest_data
          in if length rest < pair_size then Inl EINVAL
             else
               let pair = take pair_size rest;
                   next' = (\<lambda>st. xattr_loop cb st size' (i + 4 + pair_size) (drop pair_size rest))
               in if 0 \<in> set pair then
                    let pos = length (takeWhile (\<lambda>c. c \<noteq> 0) pair);
                        (st, continue) = cb st (take pos pair) (drop (Suc pos) pair)
                    in if continue then next' st else Inr st
                  else next' st
      else Inr st)"
  by pat_completeness auto
termination
  by (relation "measure (\<lambda>(_, _, _, _, rest_data). length rest_data)") auto

declare xattr_loop.simps [simp del]

definition parse_xattr ::
  "('s \<Rightarrow> XattrName \<Rightarrow> XattrValue \<Rightarrow> 's \<times> bool) \<Rightarrow> 's \<Rightarrow> u8 list \<Rightarrow> nat \<Rightarrow> 's res" where
  "parse_xattr cb st data size' =
     (if length data < size' then Inl EINVAL else xattr_loop cb st size' 0 (take size' data))"

definition parse_xattr_names :: "u8 list \<Rightarrow> nat \<Rightarrow> XattrName list res" where
  "parse_xattr_names data size' = parse_xattr (\<lambda>result name _. (result @ [name], True)) [] data size'"

definition parse_xattr_value :: "u8 list \<Rightarrow> nat \<Rightarrow> XattrName \<Rightarrow> XattrValue option res" where
  "parse_xattr_value data size' name =
     parse_xattr (\<lambda>value name' value'. if name' = name then (Some value', False) else (value, True)) None data size'"

text \<open>The map of a \<open>RafsXAttrs\<close> is the list of its pairs in the order in which it is iterated.\<close>

record RafsXAttrs =
  xa_pairs :: "(XattrName \<times> XattrValue) list"

definition RafsXAttrs_size :: "RafsXAttrs \<Rightarrow> nat" where
  "RafsXAttrs_size x = foldl (\<lambda>n (key, value). n + 4 + (length key + 1 + length value)) 0 (xa_pairs x)"

definition RafsXAttrs_get :: "RafsXAttrs \<Rightarrow> XattrName \<Rightarrow> XattrValue option" where
  "RafsXAttrs_get x name = map_of (xa_pairs x) name"

definition bytes_of :: "string \<Rightarrow> u8 list" where
  "bytes_of s = map of_char s"

definition RAFS_XATTR_PREFIXES :: "u8 list list" where
  "RAFS_XATTR_PREFIXES =
     map bytes_of [''user.'', ''security.'', ''trusted.'', ''system.posix_acl_access'', ''system.posix_acl_default'']"

definition RafsXAttrs_add :: "RafsXAttrs \<Rightarrow> XattrName \<Rightarrow> XattrValue \<Rightarrow> RafsXAttrs res" where
  "RafsXAttrs_add x name value =
     (if length name > 255 \<or> length value > 0x10000 then Inl EINVAL
      else if list_ex (\<lambda>p. length name > length p \<and> take (length p) name = p) RAFS_XATTR_PREFIXES
      then Inr (x\<lparr>xa_pairs := AList.update name value (xa_pairs x)\<rparr>)
      else Inl EINVAL)"

definition RafsXAttrs_remove :: "RafsXAttrs \<Rightarrow> XattrName \<Rightarrow> RafsXAttrs" where
  "RafsXAttrs_remove x name = x\<lparr>xa_pairs := AList.delete name (xa_pairs x)\<rparr>"

fun store_pairs :: "writer \<Rightarrow> nat \<Rightarrow> (XattrName \<times> XattrValue) list \<Rightarrow> writer \<times> nat" where
  "store_pairs w size' [] = (w, size')"
| "store_pairs w size' ((key, value) # ps) =
     store_pairs (w @ le32 (of_nat (length key + 1 + length value)) @ key @ [0] @ value)
       (size' + 4 + (length key + 1) + length value) ps"

definition RafsXAttrs_store_v5 :: "RafsXAttrs \<Rightarrow> writer \<Rightarrow> (writer \<times> nat) res" where
  "RafsXAttrs_store_v5 x w =
     (let (w, size') =
            (if xa_pairs x \<noteq> [] then store_pairs (w @ le64 (of_nat (RafsXAttrs_size x))) 8 (xa_pairs x)
             else (w, 0));
          padding = unat (rafsv5_align (of_nat size')) - size'
      in and_then (write_padding w padding) (\<lambda>w.
         and_then (validate_alignment w (size' + padding) RAFSV5_ALIGNMENT) (\<lambda>n. Inr (w, n))))"

subsection \<open>Storing and parsing\<close>

definition pair_bytes :: "XattrName \<times> XattrValue \<Rightarrow> u8 list" where
  "pair_bytes p = le32 (of_nat (length (fst p) + 1 + length (snd p))) @ fst p @ [0] @ snd p"

definition attrs_bytes :: "(XattrName \<times> XattrValue) list \<Rightarrow> u8 list" where
  "attrs_bytes ps = concat (map pair_bytes ps)"

text \<open>A pair that can be told apart on disk.\<close>

definition pair_ok :: "XattrName \<times> XattrValue \<Rightarrow> bool" where
  "pair_ok p \<longleftrightarrow> 0 \<notin> set (fst p) \<and> length (fst p) \<le> 255 \<and> length (snd p) \<le> 0x10000"

lemma attrs_bytes_simps [simp]:
  "attrs_bytes [] = []"
  "attrs_bytes (p # ps) = pair_bytes p @ attrs_bytes ps"
  by (simp_all add: attrs_bytes_def)

lemma store_pairs_eq: "store_pairs w n ps = (w @ attrs_bytes ps, n + length (attrs_bytes ps))"
  by (induction w n ps rule: store_pairs.induct) (auto simp: pair_bytes_def)

lemma RafsXAttrs_size_eq: "RafsXAttrs_size x = length (attrs_bytes (xa_pairs x))"
proof -
  have "foldl (\<lambda>n (key, value). n + 4 + (length key + 1 + length value)) n ps = n + length (attrs_bytes ps)"
    for n and ps :: "(XattrName \<times> XattrValue) list"
    by (induction ps arbitrary: n) (auto simp: pair_bytes_def)
  then show ?thesis
    by (simp add: RafsXAttrs_size_def)
qed

fun run_callback ::
  "('s \<Rightarrow> XattrName \<Rightarrow> XattrValue \<Rightarrow> 's \<times> bool) \<Rightarrow> 's \<Rightarrow> (XattrName \<times> XattrValue) list \<Rightarrow> 's" where
  "run_callback cb st [] = st"
| "run_callback cb st (p # ps) =
     (let (st, continue) = cb st (fst p) (snd p) in if continue then run_callback cb st ps else st)"

lemma xattr_loop_pair:
  assumes "pair_ok p" and "i < n"
  shows "xattr_loop cb st n i (pair_bytes p @ bs) =
    (let (st, continue) = cb st (fst p) (snd p)
     in if continue then xattr_loop cb st n (i + length (pair_bytes p)) bs else Inr st)"
proof -
  have "unat (of_le32 (le32 (of_nat (length (fst p) + 1 + length (snd p))))) = length (fst p) + 1 + length (snd p)"
    unfolding of_le32_le32 by (rule unat_of_nat_less) (use assms(1) in \<open>simp add: pair_ok_def\<close>)
  moreover have "takeWhile (\<lambda>c. c \<noteq> 0) (fst p @ 0 # snd p) = fst p"
    using assms(1) by (subst takeWhile_append2) (auto simp: pair_ok_def)
  ultimately show ?thesis
    using assms(2) by (subst xattr_loop.simps) (simp add: pair_bytes_def Let_def case_prod_unfold ac_simps)
qed

lemma xattr_loop_pairs:
  assumes "list_all pair_ok ps"
  shows "xattr_loop cb st (i + length (attrs_bytes ps)) i (attrs_bytes ps) = Inr (run_callback cb st ps)"
  using assms
proof (induction ps arbitrary: st i)
  case Nil
  then show ?case
    by (simp add: xattr_loop.simps)
next
  case (Cons p ps)
  then have "pair_ok p" "list_all pair_ok ps"
    by auto
  moreover have "0 < length (pair_bytes p)"
    by (simp add: pair_bytes_def)
  ultimately show ?case
    using Cons.IH [of _ "i + length (pair_bytes p)"]
    by (simp add: xattr_loop_pair Let_def case_prod_unfold add.assoc [symmetric])
qed

lemma parse_xattr_pairs:
  assumes "list_all pair_ok ps" and "n = length (attrs_bytes ps)"
  shows "parse_xattr cb st (attrs_bytes ps @ bs) n = Inr (run_callback cb st ps)"
  using xattr_loop_pairs [OF assms(1), of cb st 0] assms(2) by (simp add: parse_xattr_def)

lemma run_callback_names:
  "run_callback (\<lambda>result name _. (result @ [name], True)) st ps = st @ map fst ps"
  by (induction ps arbitrary: st) auto

lemma run_callback_value:
  "run_callback (\<lambda>value name' value'. if name' = name then (Some value', False) else (value, True)) None ps
   = map_of ps name"
  by (induction ps) auto

text \<open>What a reader of the stored table finds.\<close>

lemma store_v5_parse:
  assumes "list_all pair_ok (xa_pairs x)" and "RafsXAttrs_size x < 2 ^ 63" and "length w mod 8 = 0"
    and "xa_pairs x \<noteq> []"
  shows "\<exists>bs. RafsXAttrs_store_v5 x w = Inr (w @ le64 (of_nat (RafsXAttrs_size x)) @ attrs_bytes (xa_pairs x) @ bs,
      8 + RafsXAttrs_size x + length bs) \<and> length bs = pad8 (RafsXAttrs_size x)"
proof -
  define n where "n = RafsXAttrs_size x"
  define sz where "sz = 8 + n"
  have n: "length (attrs_bytes (xa_pairs x)) = n" "n < 2 ^ 63"
    using assms(2) by (auto simp: n_def RafsXAttrs_size_eq)
  have "unat (of_nat sz :: u64) = sz"
    by (rule unat_of_nat_less) (use n(2) in \<open>simp add: sz_def\<close>)
  then have pad: "unat (rafsv5_align (of_nat sz)) - sz = pad8 n"
    using n(2) unat_rafsv5_align [of "of_nat sz"] pad8_add [of 8 n] by (simp add: sz_def)
  have sz: "(sz + pad8 n) mod 8 = 0"
    using pad8_mod [of n] by (simp add: sz_def add.assoc)
  then have "(length w + (sz + pad8 n)) mod 8 = 0"
    using assms(3) by (simp only: mod_eq_0_iff_dvd dvd_add)
  with sz show ?thesis
    using assms(4) pad8_bound [of n]
    unfolding RafsXAttrs_store_v5_def store_pairs_eq n_def [symmetric] n(1) sz_def [symmetric]
    by (simp add: Let_def n(1) pad sz_def [symmetric] write_padding_def RAFSV5_ALIGNMENT_def validate_alignment_8
        del: of_nat_add) (simp add: sz_def add.assoc)
qed

subsection \<open>Sequences of operations\<close>

datatype xa_op = Xa_add XattrName XattrValue | Xa_remove XattrName

text \<open>A refused \<open>add\<close> leaves the attributes as they are.\<close>

fun xa_run :: "RafsXAttrs \<Rightarrow> xa_op \<Rightarrow> RafsXAttrs" where
  "xa_run x (Xa_add name value) = (case RafsXAttrs_add x name value of Inr x' \<Rightarrow> x' | Inl _ \<Rightarrow> x)"
| "xa_run x (Xa_remove name) = RafsXAttrs_remove x name"

definition xattr_allowed :: "XattrName \<Rightarrow> XattrValue \<Rightarrow> bool" where
  "xattr_allowed name value \<longleftrightarrow> length name \<le> 255 \<and> length value \<le> 0x10000
     \<and> (\<exists>p\<in>set RAFS_XATTR_PREFIXES. \<exists>rest. rest \<noteq> [] \<and> name = p @ rest)"

fun xa_map_run :: "(XattrName \<rightharpoonup> XattrValue) \<Rightarrow> xa_op \<Rightarrow> (XattrName \<rightharpoonup> XattrValue)" where
  "xa_map_run m (Xa_add name value) = (if xattr_allowed name value then m(name \<mapsto> value) else m)"
| "xa_map_run m (Xa_remove name) = m(name := None)"

fun xa_name :: "xa_op \<Rightarrow> XattrName" where
  "xa_name (Xa_add name value) = name"
| "xa_name (Xa_remove name) = name"

text \<open>Distinct names of bounded length with bounded values.\<close>

definition xa_wf :: "RafsXAttrs \<Rightarrow> bool" where
  "xa_wf x \<longleftrightarrow> distinct (map fst (xa_pairs x)) \<and> (\<forall>(k, v)\<in>set (xa_pairs x). xattr_allowed k v)"

lemma prefix_condition:
  "length name > length p \<and> take (length p) name = p \<longleftrightarrow> (\<exists>rest. rest \<noteq> [] \<and> name = p @ rest)"
  by (auto simp: append_eq_conv_conj intro!: exI [of _ "drop (length p) name"]) (metis append_take_drop_id)

lemma xattr_allowed_code [code]:
  "xattr_allowed name v \<longleftrightarrow> length name \<le> 255 \<and> length v \<le> 0x10000
     \<and> list_ex (\<lambda>p. length name > length p \<and> take (length p) name = p) RAFS_XATTR_PREFIXES"
  unfolding prefix_condition xattr_allowed_def list_ex_iff by auto

lemma RafsXAttrs_add_eq:
  "RafsXAttrs_add x name value =
     (if xattr_allowed name value then Inr (x\<lparr>xa_pairs := AList.update name value (xa_pairs x)\<rparr>) else Inl EINVAL)"
  unfolding RafsXAttrs_add_def prefix_condition xattr_allowed_def list_ex_iff by auto

lemma xa_run_wf:
  assumes "xa_wf x"
  shows "xa_wf (xa_run x c) \<and> map_of (xa_pairs (xa_run x c)) = xa_map_run (map_of (xa_pairs x)) c"
proof (cases c)
  case (Xa_add name v)
  have "set (AList.update name v ps) \<subseteq> insert (name, v) (set ps)" for ps
    by (induction ps) auto
  from this [of "xa_pairs x"] show ?thesis
    using assms Xa_add
    by (auto simp: xa_wf_def RafsXAttrs_add_eq distinct_update AList.update_conv')
next
  case (Xa_remove name)
  have "set (AList.delete name (xa_pairs x)) \<subseteq> set (xa_pairs x)"
    by (auto simp: AList.delete_eq)
  then show ?thesis
    using assms Xa_remove
    by (auto simp: xa_wf_def RafsXAttrs_remove_def distinct_delete AList.delete_conv')
qed

lemma xa_runs_wf:
  assumes "xa_wf x"
  shows "xa_wf (foldl xa_run x cs) \<and> map_of (xa_pairs (foldl xa_run x cs)) = foldl xa_map_run (map_of (xa_pairs x)) cs"
  using assms
proof (induction cs arbitrary: x)
  case (Cons c cs)
  then show ?case
    using xa_run_wf [OF Cons.prems, of c] by simp
qed simp

lemma RafsXAttrs_get_run:
  "xa_wf x \<Longrightarrow> RafsXAttrs_get (foldl xa_run x cs) = foldl xa_map_run (map_of (xa_pairs x)) cs"
  using xa_runs_wf [of x cs] by (auto simp: RafsXAttrs_get_def fun_eq_iff)

lemma xa_names_run:
  "fst ` set (xa_pairs (foldl xa_run x cs)) \<subseteq> fst ` set (xa_pairs x) \<union> xa_name ` set cs"
proof (induction cs arbitrary: x)
  case (Cons c cs)
  have "fst ` set (xa_pairs (xa_run x c)) \<subseteq> fst ` set (xa_pairs x) \<union> {xa_name c}"
    by (cases c) (auto simp: RafsXAttrs_add_eq RafsXAttrs_remove_def AList.delete_eq dom_update)
  with Cons.IH [of "xa_run x c"] show ?case
    by auto
qed simp

text \<open>
  C28. Every set of extended attributes that \<open>add\<close> and \<open>remove\<close> build is the map that these
  operations describe, and its pairs are well-formed: distinct names with one of the allowed
  prefixes, of at most 255 bytes, and values of at most 64 KiB, so that the sizes fit their fields.
  Stored in a RAFS v5 table and parsed again, the table has the length in its header, the list of
  names is the set of names, and the lookup of any name gives the value of the map.
\<close>

theorem xattr_table_roundtrip:
  assumes "\<forall>c\<in>set ops. 0 \<notin> set (xa_name c)" and "length w mod 8 = 0"
    and "RafsXAttrs_size (foldl xa_run \<lparr>xa_pairs = []\<rparr> ops) < 2 ^ 63"
    and "foldl xa_map_run Map.empty ops \<noteq> Map.empty"
  shows "let x = foldl xa_run \<lparr>xa_pairs = []\<rparr> ops; m = foldl xa_map_run Map.empty ops
    in xa_wf x \<and> RafsXAttrs_get x = m \<and>
       (\<exists>w' n. RafsXAttrs_store_v5 x w = Inr (w', n) \<and> length w' = length w + n \<and> n mod 8 = 0 \<and>
         (let size' = unat (of_le64 (take 8 (drop (length w) w'))); data = drop (length w + 8) w'
          in (\<exists>names. parse_xattr_names data size' = Inr names \<and> distinct names \<and> set names = dom m)
             \<and> (\<forall>name. parse_xattr_value data size' name = Inr (m name))))"
proof -
  define x where "x = foldl xa_run \<lparr>xa_pairs = []\<rparr> ops"
  define m where "m = foldl xa_map_run Map.empty ops"
  have wf: "xa_wf \<lparr>xa_pairs = []\<rparr>"
    by (simp add: xa_wf_def)
  have x: "xa_wf x" "map_of (xa_pairs x) = m"
    using xa_runs_wf [OF wf, of ops] by (auto simp: x_def m_def)
  have size: "unat (of_nat (RafsXAttrs_size x) :: u64) = RafsXAttrs_size x"
    by (rule unat_of_nat_less) (use assms(3) in \<open>simp add: x_def\<close>)
  have "0 \<notin> set k" if "(k, v) \<in> set (xa_pairs x)" for k v
    using xa_names_run [of "\<lparr>xa_pairs = []\<rparr>" ops] assms(1) that by (fastforce simp: x_def)
  then have ok: "list_all pair_ok (xa_pairs x)"
    using x(1) by (fastforce simp: list_all_iff pair_ok_def xa_wf_def xattr_allowed_def)
  have "xa_pairs x \<noteq> []"
    using assms(4) x(2) by (auto simp: m_def [symmetric])
  with store_v5_parse [OF ok _ assms(2)] assms(3) obtain bs where
    store: "RafsXAttrs_store_v5 x w = Inr (w @ le64 (of_nat (RafsXAttrs_size x)) @ attrs_bytes (xa_pairs x) @ bs,
      8 + RafsXAttrs_size x + length bs)" and bs: "length bs = pad8 (RafsXAttrs_size x)"
    unfolding x_def [symmetric] by blast
  have n: "(8 + RafsXAttrs_size x + length bs) mod 8 = 0"
    using pad8_mod [of "RafsXAttrs_size x"] by (simp add: bs add.assoc)
  note parse = parse_xattr_pairs [OF ok RafsXAttrs_size_eq, of _ _ bs]
  have "parse_xattr_names (attrs_bytes (xa_pairs x) @ bs) (RafsXAttrs_size x) = Inr (map fst (xa_pairs x))"
    "parse_xattr_value (attrs_bytes (xa_pairs x) @ bs) (RafsXAttrs_size x) name = Inr (m name)" for name
    using x(2) by (simp_all add: parse_xattr_names_def parse_xattr_value_def parse run_callback_names run_callback_value)
  moreover have "distinct (map fst (xa_pairs x))" "set (map fst (xa_pairs x)) = dom m"
    using x by (auto simp: xa_wf_def dom_map_of_conv_image_fst [symmetric])
  ultimately show ?thesis
    unfolding x_def [symmetric] m_def [symmetric] Let_def
    using x store n size by (auto simp: RafsXAttrs_get_def RafsXAttrs_size_eq [symmetric] simp del: of_nat_add)
qed

definition demo_xattrs :: "xa_op list" where
  "demo_xattrs = [Xa_add (bytes_of ''user.a'') [1, 2], Xa_add (bytes_of ''bad'') [3], Xa_add (bytes_of ''user.b'') [],
     Xa_add (bytes_of ''user.a'') [7], Xa_remove (bytes_of ''user.b'')]"

theorem xattr_table_roundtrip_witness:
  "\<exists>w' n. RafsXAttrs_store_v5 (foldl xa_run \<lparr>xa_pairs = []\<rparr> demo_xattrs) [] = Inr (w', n) \<and>
     parse_xattr_value (drop 8 w') (unat (of_le64 (take 8 w'))) (bytes_of ''user.a'') = Inr (Some [7])"
proof -
  note defs = demo_xattrs_def xattr_allowed_code RAFS_XATTR_PREFIXES_def bytes_of_def RafsXAttrs_add_eq
    RafsXAttrs_size_eq RafsXAttrs_remove_def pair_bytes_def
  have "foldl xa_map_run Map.empty demo_xattrs (bytes_of ''user.a'') = Some [7]"
    by (simp add: defs)
  moreover have "\<forall>c\<in>set demo_xattrs. 0 \<notin> set (xa_name c)"
    by (simp add: defs)
  moreover have "RafsXAttrs_size (foldl xa_run \<lparr>xa_pairs = []\<rparr> demo_xattrs) = 12"
    by (simp add: defs)
  ultimately show ?thesis
    using xattr_table_roundtrip [of demo_xattrs "[]"] by (fastforce simp: Let_def)
qed

end
