(* ===== verification/Rafs_V5_Layout.thy ===== *)
theory Rafs_V5_Layout
  imports Rafs_Layout Io_Merge
begin

text \<open>
  The structures on disk of RAFS v5, \<open>rafs/src/metadata/layout/v5.rs\<close>: super block, inode table,
  prefetch table, blob tables, inodes and chunks, with the functions that store and load them, and
  the flags and the algorithms they select of \<open>rafs/src/metadata/mod.rs\<close>.
\<close>

section \<open>Flags of the file system\<close>

definition COMPRESSION_NONE :: u64 where "COMPRESSION_NONE = 1"
definition COMPRESSION_LZ4 :: u64 where "COMPRESSION_LZ4 = 2"
definition HASH_BLAKE3 :: u64 where "HASH_BLAKE3 = 4"
definition HASH_SHA256 :: u64 where "HASH_SHA256 = 8"
definition EXPLICIT_UID_GID :: u64 where "EXPLICIT_UID_GID = 0x10"
definition HAS_XATTR :: u64 where "HAS_XATTR = 0x20"
definition COMPRESSION_GZIP :: u64 where "COMPRESSION_GZIP = 0x40"
definition COMPRESSION_ZSTD :: u64 where "COMPRESSION_ZSTD = 0x80"

lemmas super_flags = COMPRESSION_NONE_def COMPRESSION_LZ4_def HASH_BLAKE3_def HASH_SHA256_def EXPLICIT_UID_GID_def
  HAS_XATTR_def COMPRESSION_GZIP_def COMPRESSION_ZSTD_def

text \<open>\<open>RafsSuperFlags::from_bits\<close> refuses unknown bits.\<close>

definition RafsSuperFlags_from_bits :: "u64 \<Rightarrow> u64 option" where
  "RafsSuperFlags_from_bits bits = (if bits AND NOT 0xff = 0 then Some bits else None)"

definition flags_contain :: "u64 \<Rightarrow> u64 \<Rightarrow> bool" where
  "flags_contain flags f \<longleftrightarrow> flags AND f = f"

definition flags_to_digester :: "u64 \<Rightarrow> digest_algorithm" where
  "flags_to_digester flags =
     (if flags_contain flags HASH_BLAKE3 then Blake3
      else if flags_contain flags HASH_SHA256 then Sha256 else Blake3)"

fun digester_to_flags :: "digest_algorithm \<Rightarrow> u64" where
  "digester_to_flags Blake3 = HASH_BLAKE3"
| "digester_to_flags Sha256 = HASH_SHA256"

definition flags_to_compressor :: "u64 \<Rightarrow> compress_algorithm" where
  "flags_to_compressor flags =
     (if flags_contain flags COMPRESSION_NONE then NoCompress
      else if flags_contain flags COMPRESSION_LZ4 then Lz4Block
      else if flags_contain flags COMPRESSION_GZIP then GZip
      else if flags_contain flags COMPRESSION_ZSTD then Zstd else Lz4Block)"

fun compressor_to_flags :: "compress_algorithm \<Rightarrow> u64" where
  "compressor_to_flags NoCompress = COMPRESSION_NONE"
| "compressor_to_flags Lz4Block = COMPRESSION_LZ4"
| "compressor_to_flags GZip = COMPRESSION_GZIP"
| "compressor_to_flags Zstd = COMPRESSION_ZSTD"

section \<open>Super block\<close>

definition RAFSV5_SUPERBLOCK_SIZE :: u64 where "RAFSV5_SUPERBLOCK_SIZE = 8192"
definition RAFSV5_EXT_BLOB_ENTRY_SIZE :: u64 where "RAFSV5_EXT_BLOB_ENTRY_SIZE = 64"
definition RAFSV5_SUPER_MAGIC :: u32 where "RAFSV5_SUPER_MAGIC = 0x52414653"
definition RAFS_SUPER_VERSION_V5 :: u32 where "RAFS_SUPER_VERSION_V5 = 0x500"

record RafsV5SuperBlock =
  sb_magic :: u32
  sb_fs_version :: u32
  sb_sb_size :: u32
  sb_block_size :: u32
  sb_flags :: u64
  sb_inodes_count :: u64
  sb_inode_table_offset :: u64
  sb_prefetch_table_offset :: u64
  sb_blob_table_offset :: u64
  sb_inode_table_entries :: u32
  sb_prefetch_table_entries :: u32
  sb_blob_table_size :: u32
  sb_extended_blob_table_entries :: u32
  sb_extended_blob_table_offset :: u64
  sb_reserved :: "u8 list"

definition RafsV5SuperBlock_default :: RafsV5SuperBlock where
  "RafsV5SuperBlock_default =
     \<lparr>sb_magic = RAFSV5_SUPER_MAGIC, sb_fs_version = RAFS_SUPER_VERSION_V5,
      sb_sb_size = ucast RAFSV5_SUPERBLOCK_SIZE, sb_block_size = ucast RAFS_DEFAULT_CHUNK_SIZE,
      sb_flags = 0, sb_inodes_count = 0, sb_inode_table_offset = 0, sb_prefetch_table_offset = 0,
      sb_blob_table_offset = 0, sb_inode_table_entries = 0, sb_prefetch_table_entries = 0,
      sb_blob_table_size = 0, sb_extended_blob_table_entries = 0, sb_extended_blob_table_offset = 0,
      sb_reserved = replicate 8112 0\<rparr>"

definition is_rafs_v5 :: "RafsV5SuperBlock \<Rightarrow> bool" where
  "is_rafs_v5 sb \<longleftrightarrow> sb_magic sb = RAFSV5_SUPER_MAGIC \<and> sb_fs_version sb = RAFS_SUPER_VERSION_V5"

text \<open>\<open>u32::is_power_of_two\<close>.\<close>

definition is_power_of_two :: "u32 \<Rightarrow> bool" where
  "is_power_of_two n \<longleftrightarrow> n \<noteq> 0 \<and> n AND (n - 1) = 0"

definition RafsV5SuperBlock_validate :: "RafsV5SuperBlock \<Rightarrow> u64 \<Rightarrow> unit res" where
  "RafsV5SuperBlock_validate sb meta_size =
     (if \<not> is_rafs_v5 sb then Inl EINVAL
      else if ucast (sb_sb_size sb) \<noteq> RAFSV5_SUPERBLOCK_SIZE \<or> meta_size \<le> RAFSV5_SUPERBLOCK_SIZE then Inl EINVAL
      else if \<not> is_power_of_two (sb_block_size sb) \<or> sb_block_size sb < 0x1000
           \<or> ucast (sb_block_size sb) > RAFS_MAX_CHUNK_SIZE \<and> sb_block_size sb \<noteq> 0x400000 then Inl EINVAL
      else if RafsSuperFlags_from_bits (sb_flags sb) = None then Inl EINVAL
      else
        and_then (MetaRange_new RAFSV5_SUPERBLOCK_SIZE (meta_size - RAFSV5_SUPERBLOCK_SIZE) True) (\<lambda>meta_range.
        let inode_table_entries = ucast (sb_inode_table_entries sb) in
        and_then (MetaRange_new (sb_inode_table_offset sb) (inode_table_entries * 4) False) (\<lambda>inode_table_range.
        if sb_inodes_count sb > inode_table_entries \<or> \<not> is_subrange_of inode_table_range meta_range then Inl EINVAL
        else
        and_then (MetaRange_new (sb_blob_table_offset sb) (ucast (sb_blob_table_size sb)) False) (\<lambda>blob_table_range.
        if \<not> is_subrange_of blob_table_range meta_range \<or> intersect_with blob_table_range inode_table_range
        then Inl EINVAL
        else
        let ext_blob_table_size = ucast (sb_extended_blob_table_entries sb) * RAFSV5_EXT_BLOB_ENTRY_SIZE in
        and_then (MetaRange_new (sb_extended_blob_table_offset sb) ext_blob_table_size True) (\<lambda>ext_blob_table_range.
        if ext_blob_table_size \<noteq> 0
           \<and> (\<not> is_subrange_of ext_blob_table_range meta_range
              \<or> intersect_with ext_blob_table_range inode_table_range
              \<or> intersect_with ext_blob_table_range blob_table_range)
        then Inl EINVAL
        else
        let prefetch_table_size = ucast (sb_prefetch_table_entries sb) * 4 in
        and_then (MetaRange_new (sb_prefetch_table_offset sb) prefetch_table_size False) (\<lambda>prefetch_table_range.
        if prefetch_table_size \<noteq> 0
           \<and> (\<not> is_subrange_of prefetch_table_range meta_range
              \<or> intersect_with prefetch_table_range inode_table_range
              \<or> intersect_with prefetch_table_range blob_table_range
              \<or> (ext_blob_table_size \<noteq> 0 \<and> intersect_with prefetch_table_range ext_blob_table_range))
        then Inl EINVAL else Inr ()))))))"

definition sb_set_compressor :: "RafsV5SuperBlock \<Rightarrow> compress_algorithm \<Rightarrow> RafsV5SuperBlock" where
  "sb_set_compressor sb compressor =
     sb\<lparr>sb_flags := (sb_flags sb AND NOT COMPRESSION_NONE AND NOT COMPRESSION_LZ4 AND NOT COMPRESSION_GZIP
                     AND NOT COMPRESSION_ZSTD) OR compressor_to_flags compressor\<rparr>"

definition sb_set_digester :: "RafsV5SuperBlock \<Rightarrow> digest_algorithm \<Rightarrow> RafsV5SuperBlock" where
  "sb_set_digester sb digester =
     sb\<lparr>sb_flags := (sb_flags sb AND NOT HASH_BLAKE3 AND NOT HASH_SHA256) OR digester_to_flags digester\<rparr>"

definition sb_set_explicit_uidgid :: "RafsV5SuperBlock \<Rightarrow> RafsV5SuperBlock" where
  "sb_set_explicit_uidgid sb = sb\<lparr>sb_flags := sb_flags sb OR EXPLICIT_UID_GID\<rparr>"

definition sb_set_has_xattr :: "RafsV5SuperBlock \<Rightarrow> RafsV5SuperBlock" where
  "sb_set_has_xattr sb = sb\<lparr>sb_flags := sb_flags sb OR HAS_XATTR\<rparr>"

text \<open>The bytes of the structure, as \<open>as_ref\<close> gives them, and the structure at a position of a file.\<close>

definition sb_as_ref :: "RafsV5SuperBlock \<Rightarrow> u8 list" where
  "sb_as_ref sb = le32 (sb_magic sb) @ le32 (sb_fs_version sb) @ le32 (sb_sb_size sb) @ le32 (sb_block_size sb)
     @ le64 (sb_flags sb) @ le64 (sb_inodes_count sb) @ le64 (sb_inode_table_offset sb)
     @ le64 (sb_prefetch_table_offset sb) @ le64 (sb_blob_table_offset sb) @ le32 (sb_inode_table_entries sb)
     @ le32 (sb_prefetch_table_entries sb) @ le32 (sb_blob_table_size sb) @ le32 (sb_extended_blob_table_entries sb)
     @ le64 (sb_extended_blob_table_offset sb) @ sb_reserved sb"

definition RafsV5SuperBlock_read :: "u8 list \<Rightarrow> RafsV5SuperBlock res" where
  "RafsV5SuperBlock_read r =
     (if length r < 8192 then Inl EIO
      else Inr \<lparr>sb_magic = rd32 r 0, sb_fs_version = rd32 r 4, sb_sb_size = rd32 r 8, sb_block_size = rd32 r 12,
        sb_flags = rd64 r 16, sb_inodes_count = rd64 r 24, sb_inode_table_offset = rd64 r 32,
        sb_prefetch_table_offset = rd64 r 40, sb_blob_table_offset = rd64 r 48, sb_inode_table_entries = rd32 r 56,
        sb_prefetch_table_entries = rd32 r 60, sb_blob_table_size = rd32 r 64,
        sb_extended_blob_table_entries = rd32 r 68, sb_extended_blob_table_offset = rd64 r 72,
        sb_reserved = take 8112 (drop 80 r)\<rparr>)"

definition RafsV5SuperBlock_store :: "RafsV5SuperBlock \<Rightarrow> writer \<Rightarrow> (writer \<times> nat) res" where
  "RafsV5SuperBlock_store sb w =
     (let w = w @ sb_as_ref sb
      in and_then (validate_alignment w (length (sb_as_ref sb)) RAFSV5_ALIGNMENT) (\<lambda>n. Inr (w, n)))"

section \<open>Inode table\<close>

record RafsV5InodeTable =
  it_data :: "u32 list"

definition RafsV5InodeTable_new :: "nat \<Rightarrow> RafsV5InodeTable" where
  "RafsV5InodeTable_new entries = \<lparr>it_data = replicate (unat (rafsv5_align (of_nat (entries * 4))) div 4) 0\<rparr>"

definition RafsV5InodeTable_size :: "RafsV5InodeTable \<Rightarrow> nat" where
  "RafsV5InodeTable_size t = unat (rafsv5_align (of_nat (length (it_data t) * 4)))"

definition RafsV5InodeTable_set :: "RafsV5InodeTable \<Rightarrow> u64 \<Rightarrow> u32 \<Rightarrow> RafsV5InodeTable res" where
  "RafsV5InodeTable_set t ino offset =
     (if ino = 0 \<or> ino > of_nat (length (it_data t)) then Inl EINVAL
      else if ucast offset \<le> RAFSV5_SUPERBLOCK_SIZE \<or> offset AND 7 \<noteq> 0 then Inl EINVAL
      else Inr (t\<lparr>it_data := (it_data t)[unat (ino - 1) := drop_bit 3 offset]\<rparr>))"

definition RafsV5InodeTable_get :: "RafsV5InodeTable \<Rightarrow> u64 \<Rightarrow> u32 res" where
  "RafsV5InodeTable_get t ino =
     (if ino = 0 \<or> ino > of_nat (length (it_data t)) then Inl ENOENT
      else and_then (index_at (it_data t) (unat (ino - 1))) (\<lambda>offset.
        if ucast offset \<le> drop_bit 3 RAFSV5_SUPERBLOCK_SIZE \<or> (ucast offset :: u64) \<ge> push_bit 29 1 then Inl EINVAL
        else Inr (push_bit 3 offset)))"

text \<open>A table of 32-bit integers in memory, as \<open>align_to::<u8>\<close> sees it, and back.\<close>

definition u32s_bytes :: "u32 list \<Rightarrow> u8 list" where
  "u32s_bytes xs = concat (map le32 xs)"

fun u32s_of :: "nat \<Rightarrow> u8 list \<Rightarrow> u32 list" where
  "u32s_of 0 bs = []"
| "u32s_of (Suc n) bs = of_le32 (take 4 bs) # u32s_of n (drop 4 bs)"

definition RafsV5InodeTable_store :: "RafsV5InodeTable \<Rightarrow> writer \<Rightarrow> (writer \<times> nat) res" where
  "RafsV5InodeTable_store t w =
     (let data = u32s_bytes (it_data t); w = w @ data
      in and_then (validate_alignment w (length data) RAFSV5_ALIGNMENT) (\<lambda>n. Inr (w, n)))"

definition RafsV5InodeTable_load :: "RafsV5InodeTable \<Rightarrow> u8 list \<Rightarrow> RafsV5InodeTable res" where
  "RafsV5InodeTable_load t r =
     (if length r < length (it_data t) * 4 then Inl EIO
      else Inr (t\<lparr>it_data := u32s_of (length (it_data t)) r\<rparr>))"

section \<open>Prefetch table\<close>

record RafsV5PrefetchTable =
  pt_inodes :: "u32 list"

definition RafsV5PrefetchTable_add_entry :: "RafsV5PrefetchTable \<Rightarrow> u32 \<Rightarrow> RafsV5PrefetchTable" where
  "RafsV5PrefetchTable_add_entry t ino = t\<lparr>pt_inodes := pt_inodes t @ [ino]\<rparr>"

definition RafsV5PrefetchTable_store :: "RafsV5PrefetchTable \<Rightarrow> writer \<Rightarrow> (writer \<times> nat) res" where
  "RafsV5PrefetchTable_store t w =
     (let data = u32s_bytes (pt_inodes t);
          cur_len = length (pt_inodes t) * 4;
          padding_bytes = unat (rafsv5_align (of_nat cur_len)) - cur_len
      in and_then (write_padding (w @ data) padding_bytes) (\<lambda>w. Inr (w, length data + padding_bytes)))"

definition load_prefetch_table_from :: "u8 list \<Rightarrow> u64 \<Rightarrow> nat \<Rightarrow> RafsV5PrefetchTable res" where
  "load_prefetch_table_from r offset entries =
     (let r = drop (unat offset) r
      in if length r < entries * 4 then Inl EIO else Inr \<lparr>pt_inodes = u32s_of entries r\<rparr>)"

section \<open>Blob tables\<close>

record RafsV5ExtBlobEntry =
  eb_chunk_count :: u32
  eb_reserved1 :: "u8 list"
  eb_uncompressed_size :: u64
  eb_compressed_size :: u64
  eb_reserved2 :: "u8 list"

definition RafsV5ExtBlobEntry_new :: "u32 \<Rightarrow> u64 \<Rightarrow> u64 \<Rightarrow> RafsV5ExtBlobEntry" where
  "RafsV5ExtBlobEntry_new chunk_count blob_cache_size compressed_blob_size =
     \<lparr>eb_chunk_count = chunk_count, eb_reserved1 = replicate 4 0, eb_uncompressed_size = blob_cache_size,
      eb_compressed_size = compressed_blob_size, eb_reserved2 = replicate 40 0\<rparr>"

fun store_ext_entries :: "writer \<Rightarrow> RafsV5ExtBlobEntry list \<Rightarrow> writer" where
  "store_ext_entries w [] = w"
| "store_ext_entries w (e # es) =
     store_ext_entries (w @ le32 (eb_chunk_count e) @ eb_reserved1 e @ le64 (eb_uncompressed_size e)
       @ le64 (eb_compressed_size e) @ eb_reserved2 e) es"

definition RafsV5ExtBlobTable_store :: "RafsV5ExtBlobEntry list \<Rightarrow> writer \<Rightarrow> (writer \<times> nat) res" where
  "RafsV5ExtBlobTable_store entries w =
     (let size' = length entries * unat RAFSV5_EXT_BLOB_ENTRY_SIZE;
          padding = unat (rafsv5_align (of_nat size')) - size'
      in and_then (write_padding (store_ext_entries w entries) padding) (\<lambda>w.
         and_then (validate_alignment w (size' + padding) RAFSV5_ALIGNMENT) (\<lambda>n. Inr (w, n))))"

fun ext_entries_of :: "nat \<Rightarrow> u8 list \<Rightarrow> RafsV5ExtBlobEntry list" where
  "ext_entries_of 0 bs = []"
| "ext_entries_of (Suc n) bs =
     \<lparr>eb_chunk_count = rd32 bs 0, eb_reserved1 = take 4 (drop 4 bs), eb_uncompressed_size = rd64 bs 8,
      eb_compressed_size = rd64 bs 16, eb_reserved2 = take 40 (drop 24 bs)\<rparr> # ext_entries_of n (drop 64 bs)"

definition RafsV5ExtBlobTable_load :: "u8 list \<Rightarrow> nat \<Rightarrow> RafsV5ExtBlobEntry list res" where
  "RafsV5ExtBlobTable_load r count' = (if length r < count' * 64 then Inl EIO else Inr (ext_entries_of count' r))"

record RafsV5BlobTable =
  bt_entries :: "BlobInfo list"
  bt_extended :: "RafsV5ExtBlobEntry list"

definition RafsV5BlobTable_size :: "RafsV5BlobTable \<Rightarrow> nat" where
  "RafsV5BlobTable_size t =
     (if bt_entries t = [] then 0
      else unat (rafsv5_align (of_nat
        (foldl (\<lambda>n e. n + (8 + length (bi_blob_id e)) + 1) 0 (bt_entries t) - 1))))"

definition RafsV5BlobTable_add ::
  "RafsV5BlobTable \<Rightarrow> string \<Rightarrow> u32 \<Rightarrow> u32 \<Rightarrow> u32 \<Rightarrow> u32 \<Rightarrow> u64 \<Rightarrow> u64 \<Rightarrow> u32 \<Rightarrow> u64 \<Rightarrow> RafsV5BlobTable \<times> u32" where
  "RafsV5BlobTable_add t blob_id prefetch_offset' prefetch_size' chunk_size chunk_count uncompressed_size
       compressed_size blob_features flags =
     (let blob_index = of_nat (length (bt_entries t));
          blob_info = BlobInfo_new blob_index blob_id uncompressed_size compressed_size chunk_size chunk_count blob_features;
          blob_info = set_compressor blob_info (flags_to_compressor flags);
          blob_info = set_digester blob_info (flags_to_digester flags);
          blob_info = set_prefetch_info blob_info (ucast prefetch_offset') (ucast prefetch_size')
      in (t\<lparr>bt_entries := bt_entries t @ [blob_info],
            bt_extended := bt_extended t @ [RafsV5ExtBlobEntry_new chunk_count uncompressed_size compressed_size]\<rparr>,
          blob_index))"

definition RafsV5BlobTable_get :: "RafsV5BlobTable \<Rightarrow> u32 \<Rightarrow> BlobInfo res" where
  "RafsV5BlobTable_get t blob_index =
     (if blob_index \<ge> of_nat (length (bt_entries t)) then Inl ENOENT
      else index_at (bt_entries t) (unat blob_index))"

text \<open>\<open>std::str::from_utf8\<close>: a string is the sequence of its UTF-8 bytes, of which the well-formed ones are these.\<close>

definition continuation :: "u8 \<Rightarrow> bool" where
  "continuation b \<longleftrightarrow> 0x80 \<le> b \<and> b \<le> 0xBF"

fun utf8_valid :: "u8 list \<Rightarrow> bool" where
  "utf8_valid [] = True"
| "utf8_valid (a # bs) =
     (if a < 0x80 then utf8_valid bs
      else case bs of
        [] \<Rightarrow> False
      | b # cs \<Rightarrow>
          if 0xC2 \<le> a \<and> a \<le> 0xDF then continuation b \<and> utf8_valid cs
          else case cs of
            [] \<Rightarrow> False
          | c # ds \<Rightarrow>
              if a = 0xE0 then 0xA0 \<le> b \<and> b \<le> 0xBF \<and> continuation c \<and> utf8_valid ds
              else if a = 0xED then 0x80 \<le> b \<and> b \<le> 0x9F \<and> continuation c \<and> utf8_valid ds
              else if 0xE1 \<le> a \<and> a \<le> 0xEF then continuation b \<and> continuation c \<and> utf8_valid ds
              else case ds of
                [] \<Rightarrow> False
              | d # es \<Rightarrow>
                  (if a = 0xF0 then 0x90 \<le> b \<and> b \<le> 0xBF
                   else if a = 0xF4 then 0x80 \<le> b \<and> b \<le> 0x8F
                   else 0xF1 \<le> a \<and> a \<le> 0xF3 \<and> continuation b)
                  \<and> continuation c \<and> continuation d \<and> utf8_valid es)"

definition from_utf8 :: "u8 list \<Rightarrow> string res" where
  "from_utf8 bs = (if utf8_valid bs then Inr (map (\<lambda>b. char_of (unat b)) bs) else Inl EINVAL)"

definition new_blob_entry :: "RafsV5BlobTable \<Rightarrow> string \<Rightarrow> u32 \<Rightarrow> u32 \<Rightarrow> u32 \<Rightarrow> u64 \<Rightarrow> BlobInfo res" where
  "new_blob_entry t blob_id readahead_offset readahead_size chunk_size flags =
     (let index = length (bt_entries t) in
      and_then
        (if bt_extended t \<noteq> [] then
           if index \<ge> length (bt_extended t) then Inl EINVAL
           else let entry = bt_extended t ! index
             in Inr (eb_chunk_count entry, eb_uncompressed_size entry, eb_compressed_size entry, 0)
         else Inr (0, 0, 0, V5_NO_EXT_BLOB_TABLE))
        (\<lambda>(chunk_count, uncompressed_size, compressed_size, blob_features).
         let blob_info = BlobInfo_new (of_nat index) blob_id uncompressed_size compressed_size chunk_size chunk_count
               blob_features;
             blob_info = set_compressor blob_info (flags_to_compressor flags);
             blob_info = set_digester blob_info (flags_to_digester flags)
         in Inr (set_prefetch_info blob_info (ucast readahead_offset) (ucast readahead_size))))"

function load_entries :: "RafsV5BlobTable \<Rightarrow> u8 list \<Rightarrow> u32 \<Rightarrow> u64 \<Rightarrow> RafsV5BlobTable res" where
  "load_entries t buf chunk_size flags =
     (if length buf > 8 then
        let readahead_offset = of_le32 (take 4 buf);
            readahead_size = of_le32 (take 4 (drop 4 buf));
            pos = 8 + length (takeWhile (\<lambda>b. b \<noteq> 0) (drop 8 buf))
        in and_then (from_utf8 (take (pos - 8) (drop 8 buf))) (\<lambda>blob_id.
           and_then (new_blob_entry t blob_id readahead_offset readahead_size chunk_size flags) (\<lambda>blob_info.
           load_entries (t\<lparr>bt_entries := bt_entries t @ [blob_info]\<rparr>)
             (if pos = length buf then drop pos buf else drop (pos + 1) buf) chunk_size flags))
      else Inr t)"
  by pat_completeness auto
termination
  by (relation "measure (\<lambda>(_, buf, _, _). length buf)") auto

declare load_entries.simps [simp del]

definition RafsV5BlobTable_load ::
  "RafsV5BlobTable \<Rightarrow> u8 list \<Rightarrow> u32 \<Rightarrow> u32 \<Rightarrow> u64 \<Rightarrow> RafsV5BlobTable res" where
  "RafsV5BlobTable_load t r blob_table_size chunk_size flags =
     (if blob_table_size = 0 then Inr t
      else if length r < unat blob_table_size then Inl EIO
      else load_entries t (take (unat blob_table_size) r) chunk_size flags)"

fun store_blob_entries :: "writer \<Rightarrow> nat \<Rightarrow> BlobInfo list \<Rightarrow> writer \<times> nat" where
  "store_blob_entries w size' [] = (w, size')"
| "store_blob_entries w size' (entry # es) =
     (let w = w @ le32 (ucast (prefetch_offset entry)) @ le32 (ucast (prefetch_size entry)) @ bytes_of (bi_blob_id entry)
      in if es \<noteq> [] then store_blob_entries (w @ [0]) (size' + (8 + length (bi_blob_id entry) + 1)) es
         else store_blob_entries w (size' + (8 + length (bi_blob_id entry))) es)"

definition RafsV5BlobTable_store :: "RafsV5BlobTable \<Rightarrow> writer \<Rightarrow> (writer \<times> nat) res" where
  "RafsV5BlobTable_store t w =
     (let (w, size') = store_blob_entries w 0 (bt_entries t);
          padding = unat (rafsv5_align (of_nat size')) - size'
      in and_then (write_padding w padding) (\<lambda>w.
         and_then (validate_alignment w (size' + padding) RAFSV5_ALIGNMENT) (\<lambda>n. Inr (w, n))))"

section \<open>Inodes and chunks\<close>

record RafsV5Inode =
  i_digest :: RafsDigest
  i_parent :: u64
  i_ino :: u64
  i_uid :: u32
  i_gid :: u32
  i_projid :: u32
  i_mode :: u32
  i_size :: u64
  i_blocks :: u64
  i_flags :: u64
  i_nlink :: u32
  i_child_index :: u32
  i_child_count :: u32
  i_name_size :: u16
  i_symlink_size :: u16
  i_rdev :: u32
  i_mtime_nsec :: u32
  i_mtime :: u64
  i_reserved :: "u8 list"

definition RafsV5Inode_size :: "RafsV5Inode \<Rightarrow> usize" where
  "RafsV5Inode_size i = 128 + (rafsv5_align (ucast (i_name_size i)) + rafsv5_align (ucast (i_symlink_size i)))"

definition S_IFMT :: u32 where "S_IFMT = 0xF000"

definition is_dir :: "RafsV5Inode \<Rightarrow> bool" where
  "is_dir i \<longleftrightarrow> i_mode i AND S_IFMT = 0x4000"

definition is_symlink :: "RafsV5Inode \<Rightarrow> bool" where
  "is_symlink i \<longleftrightarrow> i_mode i AND S_IFMT = 0xA000"

definition is_reg :: "RafsV5Inode \<Rightarrow> bool" where
  "is_reg i \<longleftrightarrow> i_mode i AND S_IFMT = 0x8000"

definition is_hardlink :: "RafsV5Inode \<Rightarrow> bool" where
  "is_hardlink i \<longleftrightarrow> is_reg i \<and> i_nlink i > 1"

definition inode_has_xattr :: "RafsV5Inode \<Rightarrow> bool" where
  "inode_has_xattr i \<longleftrightarrow> i_flags i AND 4 = 4"

definition has_hole :: "RafsV5Inode \<Rightarrow> bool" where
  "has_hole i \<longleftrightarrow> i_flags i AND 8 = 8"

definition inode_as_ref :: "RafsV5Inode \<Rightarrow> u8 list" where
  "inode_as_ref i = i_digest i @ le64 (i_parent i) @ le64 (i_ino i) @ le32 (i_uid i) @ le32 (i_gid i)
     @ le32 (i_projid i) @ le32 (i_mode i) @ le64 (i_size i) @ le64 (i_blocks i) @ le64 (i_flags i)
     @ le32 (i_nlink i) @ le32 (i_child_index i) @ le32 (i_child_count i) @ le16 (i_name_size i)
     @ le16 (i_symlink_size i) @ le32 (i_rdev i) @ le32 (i_mtime_nsec i) @ le64 (i_mtime i) @ i_reserved i"

definition inode_at :: "u8 list \<Rightarrow> nat \<Rightarrow> RafsV5Inode" where
  "inode_at bs i =
     \<lparr>i_digest = take 32 (drop i bs), i_parent = rd64 bs (i + 32), i_ino = rd64 bs (i + 40),
      i_uid = rd32 bs (i + 48), i_gid = rd32 bs (i + 52), i_projid = rd32 bs (i + 56), i_mode = rd32 bs (i + 60),
      i_size = rd64 bs (i + 64), i_blocks = rd64 bs (i + 72), i_flags = rd64 bs (i + 80), i_nlink = rd32 bs (i + 88),
      i_child_index = rd32 bs (i + 92), i_child_count = rd32 bs (i + 96), i_name_size = rd16 bs (i + 100),
      i_symlink_size = rd16 bs (i + 102), i_rdev = rd32 bs (i + 104), i_mtime_nsec = rd32 bs (i + 108),
      i_mtime = rd64 bs (i + 112), i_reserved = take 8 (drop (i + 120) bs)\<rparr>"

text \<open>\<open>RafsV5InodeWrapper::store\<close>.\<close>

definition store_inode :: "RafsV5Inode \<Rightarrow> u8 list \<Rightarrow> u8 list option \<Rightarrow> writer \<Rightarrow> (writer \<times> nat) res" where
  "store_inode inode name symlink w =
     (let w = w @ inode_as_ref inode @ name;
          size' = length (inode_as_ref inode) + length name;
          padding = unat (rafsv5_align (ucast (i_name_size inode)) - of_nat (length name))
      in and_then (write_padding w padding) (\<lambda>w.
         and_then
           (case symlink of
              Some symlink_path \<Rightarrow>
                let padding' = unat (rafsv5_align (ucast (i_symlink_size inode)) - of_nat (length symlink_path))
                in and_then (write_padding (w @ symlink_path) padding') (\<lambda>w.
                   Inr (w, size' + padding + length symlink_path + padding'))
            | None \<Rightarrow> Inr (w, size' + padding)) (\<lambda>(w, size').
         and_then (validate_alignment w size' RAFSV5_ALIGNMENT) (\<lambda>n. Inr (w, n)))))"

record RafsV5ChunkInfo =
  rc_block_id :: RafsDigest
  rc_blob_index :: u32
  rc_flags :: u32
  rc_compressed_size :: u32
  rc_uncompressed_size :: u32
  rc_compressed_offset :: u64
  rc_uncompressed_offset :: u64
  rc_file_offset :: u64
  rc_index :: u32
  rc_reserved :: u32

definition chunk_as_ref :: "RafsV5ChunkInfo \<Rightarrow> u8 list" where
  "chunk_as_ref c = rc_block_id c @ le32 (rc_blob_index c) @ le32 (rc_flags c) @ le32 (rc_compressed_size c)
     @ le32 (rc_uncompressed_size c) @ le64 (rc_compressed_offset c) @ le64 (rc_uncompressed_offset c)
     @ le64 (rc_file_offset c) @ le32 (rc_index c) @ le32 (rc_reserved c)"

definition chunk_at :: "u8 list \<Rightarrow> nat \<Rightarrow> RafsV5ChunkInfo" where
  "chunk_at bs i =
     \<lparr>rc_block_id = take 32 (drop i bs), rc_blob_index = rd32 bs (i + 32), rc_flags = rd32 bs (i + 36),
      rc_compressed_size = rd32 bs (i + 40), rc_uncompressed_size = rd32 bs (i + 44),
      rc_compressed_offset = rd64 bs (i + 48), rc_uncompressed_offset = rd64 bs (i + 56),
      rc_file_offset = rd64 bs (i + 64), rc_index = rd32 bs (i + 72), rc_reserved = rd32 bs (i + 76)\<rparr>"

section \<open>The super block describes disjoint tables\<close>

definition inode_table_bytes :: "RafsV5SuperBlock \<Rightarrow> nat set" where
  "inode_table_bytes sb = {unat (sb_inode_table_offset sb)..<unat (sb_inode_table_offset sb) + unat (sb_inode_table_entries sb) * 4}"

definition blob_table_bytes :: "RafsV5SuperBlock \<Rightarrow> nat set" where
  "blob_table_bytes sb = {unat (sb_blob_table_offset sb)..<unat (sb_blob_table_offset sb) + unat (sb_blob_table_size sb)}"

definition ext_blob_table_bytes :: "RafsV5SuperBlock \<Rightarrow> nat set" where
  "ext_blob_table_bytes sb =
     {unat (sb_extended_blob_table_offset sb)..<unat (sb_extended_blob_table_offset sb) + unat (sb_extended_blob_table_entries sb) * 64}"

definition prefetch_table_bytes :: "RafsV5SuperBlock \<Rightarrow> nat set" where
  "prefetch_table_bytes sb =
     {unat (sb_prefetch_table_offset sb)..<unat (sb_prefetch_table_offset sb) + unat (sb_prefetch_table_entries sb) * 4}"

lemma unat_ucast_mult:
  fixes n :: u32 and k :: u64
  assumes "unat k \<le> 64"
  shows "unat (ucast n * k) = unat n * unat k"
proof -
  have "unat n * unat k < 2 ^ 32 * 2 ^ 7"
    using assms unat_lt2p32 [of n] by (intro mult_strict_mono) auto
  then show ?thesis
    by (simp add: unat_word_ariths unat_ucast_up)
qed

lemma table_range:
  assumes "MetaRange_new start size' al = Inr r" and "unat size' = n"
  shows "range_bytes r = {unat start..<unat start + n}" "unat (MetaRange_end r) = unat (mr_start r) + unat (mr_size r)"
    "unat (mr_start r) mod 8 = 0"
  using MetaRange_new_Inr [OF assms(1)] assms(2) by (auto simp: range_bytes_def)

lemma subrange_bytes:
  assumes "is_subrange_of r r'" and "unat (MetaRange_end r) = unat (mr_start r) + unat (mr_size r)"
    and "unat (MetaRange_end r') = unat (mr_start r') + unat (mr_size r')"
  shows "range_bytes r \<subseteq> range_bytes r'"
  using assms by (auto simp: is_subrange_of_def range_bytes_def word_le_nat_alt)

lemma power_of_two_u32:
  assumes "is_power_of_two n"
  shows "\<exists>k<32. unat n = 2 ^ k"
proof -
  obtain k where k: "k < 32" "bit n k" "\<And>i. i < k \<Longrightarrow> \<not> bit n i"
  proof -
    have "\<exists>k. bit n k"
      using assms by (auto simp: is_power_of_two_def bit_eq_iff)
    then show ?thesis
      using that [of "LEAST k. bit n k"] LeastI_ex [of "bit n"] not_less_Least [of _ "bit n"]
        bit_imp_le_length [of n] by fastforce
  qed
  define h where "h = n AND NOT (mask (Suc k))"
  have n: "n = h OR push_bit k 1"
    by (rule bit_word_eqI) (use k in \<open>auto simp: h_def bit_simps less_Suc_eq\<close>)
  also have "\<dots> = h + push_bit k 1"
    by (rule disjunctive_add [symmetric]) (auto simp: h_def bit_simps)
  finally have "n - 1 = h + mask k"
    by (simp add: mask_eq_exp_minus_1 push_bit_eq_mult)
  also have "\<dots> = h OR mask k"
    by (rule disjunctive_add) (auto simp: h_def bit_simps)
  finally have "n AND (n - 1) = h"
    unfolding n by (intro bit_word_eqI) (auto simp: h_def bit_simps)
  then have "h = 0"
    using assms by (simp add: is_power_of_two_def)
  then have "n = of_nat (2 ^ k)"
    using n by (simp add: push_bit_eq_mult)
  moreover have "unat (of_nat (2 ^ k) :: u32) = 2 ^ k"
    by (rule unat_of_nat_less) (use power_strict_increasing [OF k(1), of "2 :: nat"] in simp)
  ultimately show ?thesis
    using k(1) by auto
qed

lemma block_size_power:
  assumes "is_power_of_two n" and "0x1000 \<le> n" and "(ucast n :: u64) \<le> RAFS_MAX_CHUNK_SIZE \<or> n = 0x400000"
  shows "\<exists>k. 12 \<le> k \<and> k \<le> 24 \<and> unat n = 2 ^ k"
proof -
  obtain k where k: "unat n = 2 ^ k"
    using power_of_two_u32 [OF assms(1)] by blast
  have "(2 :: nat) ^ 12 \<le> 2 ^ k" "(2 :: nat) ^ k \<le> 2 ^ 24"
    using assms(2, 3) k by (auto simp: word_le_nat_alt unat_ucast_up RAFS_MAX_CHUNK_SIZE_def)
  then have "12 \<le> k" "k \<le> 24"
    by (simp_all only: power_increasing_iff one_less_numeral_iff semiring_norm)
  with k show ?thesis
    by blast
qed


definition demo_superblock :: RafsV5SuperBlock where
  "demo_superblock = RafsV5SuperBlock_default\<lparr>sb_inode_table_offset := 8192, sb_inode_table_entries := 2,
     sb_inodes_count := 1, sb_blob_table_offset := 8200, sb_blob_table_size := 12, sb_prefetch_table_offset := 8216,
     sb_prefetch_table_entries := 1\<rparr>"


section \<open>Storing and loading\<close>

lemma sb_read_as_ref:
  assumes "length (sb_reserved sb) = 8112"
  shows "RafsV5SuperBlock_read (sb_as_ref sb @ bs) = Inr sb"
  using assms by (simp add: RafsV5SuperBlock_read_def sb_as_ref_def rd32_def rd64_def)

lemma and_exp_eq_exp:
  fixes x :: u64
  assumes "k < 64"
  shows "x AND 2 ^ k = 2 ^ k \<longleftrightarrow> bit x k"
proof (cases "bit x k")
  case True
  have "x AND 2 ^ k = 2 ^ k"
    by (rule bit_word_eqI) (use True in \<open>auto simp: bit_and_iff bit_exp_iff\<close>)
  with True show ?thesis
    by simp
next
  case False
  moreover have "bit (2 ^ k :: u64) k"
    using assms by (simp add: bit_exp_iff)
  ultimately show ?thesis
    by (metis bit_and_iff)
qed

lemma flags_contain_bits:
  "flags_contain x COMPRESSION_NONE = bit x 0" "flags_contain x COMPRESSION_LZ4 = bit x 1"
  "flags_contain x HASH_BLAKE3 = bit x 2" "flags_contain x HASH_SHA256 = bit x 3"
  "flags_contain x COMPRESSION_GZIP = bit x 6" "flags_contain x COMPRESSION_ZSTD = bit x 7"
  using and_exp_eq_exp [of 0 x] and_exp_eq_exp [of 1 x] and_exp_eq_exp [of 2 x] and_exp_eq_exp [of 3 x]
    and_exp_eq_exp [of 6 x] and_exp_eq_exp [of 7 x]
  by (simp_all add: flags_contain_def super_flags)

lemma bit_exp_64: "k < 64 \<Longrightarrow> bit (2 ^ k :: u64) n \<longleftrightarrow> n = k"
  by (auto simp: bit_exp_iff)

lemma flag_bits:
  "bit COMPRESSION_NONE n = (n = 0)" "bit COMPRESSION_LZ4 n = (n = 1)" "bit HASH_BLAKE3 n = (n = 2)"
  "bit HASH_SHA256 n = (n = 3)" "bit COMPRESSION_GZIP n = (n = 6)" "bit COMPRESSION_ZSTD n = (n = 7)"
proof -
  have "COMPRESSION_NONE = 2 ^ 0" "COMPRESSION_LZ4 = 2 ^ 1" "HASH_BLAKE3 = 2 ^ 2" "HASH_SHA256 = 2 ^ 3"
    "COMPRESSION_GZIP = 2 ^ 6" "COMPRESSION_ZSTD = 2 ^ 7"
    by (simp_all add: super_flags)
  note eqs = this
  show "bit COMPRESSION_NONE n = (n = 0)" "bit COMPRESSION_LZ4 n = (n = 1)" "bit HASH_BLAKE3 n = (n = 2)"
    "bit HASH_SHA256 n = (n = 3)" "bit COMPRESSION_GZIP n = (n = 6)" "bit COMPRESSION_ZSTD n = (n = 7)"
    unfolding eqs by (rule bit_exp_64, simp)+
qed

lemma flags_kept:
  "flags_to_compressor (sb_flags (sb_set_compressor sb c)) = c"
  "flags_to_digester (sb_flags (sb_set_digester sb d)) = d"
  "flags_to_compressor (sb_flags (sb_set_digester sb d)) = flags_to_compressor (sb_flags sb)"
  "flags_to_digester (sb_flags (sb_set_compressor sb c)) = flags_to_digester (sb_flags sb)"
  by (cases c; cases d; simp add: flags_to_compressor_def flags_to_digester_def flags_contain_bits sb_set_compressor_def
      sb_set_digester_def bit_or_iff bit_and_iff bit_not_iff flag_bits)+

lemma length_u32s_bytes [simp]: "length (u32s_bytes xs) = 4 * length xs"
  by (induction xs) (auto simp: u32s_bytes_def)

lemma u32s_of_bytes: "u32s_of (length xs) (u32s_bytes xs @ bs) = xs"
  by (induction xs) (auto simp: u32s_bytes_def)

lemma table_index:
  fixes ino :: u64
  assumes "\<not> (ino = 0 \<or> ino > of_nat n)" and "n < 2 ^ 64"
  shows "unat (ino - 1) < n \<and> unat (ino - 1) = unat ino - 1 \<and> 0 < unat ino"
proof -
  have "unat (of_nat n :: u64) = n"
    by (rule unat_of_nat_less) (use assms(2) in simp)
  then have "unat ino \<le> n" "0 < unat ino"
    using assms(1) by (auto simp: word_le_nat_alt not_less unat_gt_0)
  then show ?thesis
    using assms(1) by (auto simp: unat_minus_one)
qed

text \<open>An entry of the inode table comes back as it was set.\<close>

lemma inode_table_set_get:
  assumes "RafsV5InodeTable_set t ino offset = Inr t'" and "length (it_data t) < 2 ^ 64"
  shows "RafsV5InodeTable_get t' ino = Inr offset
    \<and> (ino' \<noteq> ino \<longrightarrow> RafsV5InodeTable_get t' ino' = RafsV5InodeTable_get t ino')"
proof -
  have ino: "\<not> (ino = 0 \<or> ino > of_nat (length (it_data t)))" and off: "RAFSV5_SUPERBLOCK_SIZE < ucast offset" "offset AND 7 = 0"
    and t': "t' = t\<lparr>it_data := (it_data t)[unat (ino - 1) := drop_bit 3 offset]\<rparr>"
    using assms(1) by (auto simp: RafsV5InodeTable_set_def split: if_splits)
  note idx = table_index [OF ino assms(2)]
  have mult: "unat offset mod 8 = 0"
    using off(2) unat_and_mask [of offset 3] by (simp add: mask_eq_exp_minus_1)
  have "8192 < unat offset"
    using off(1) by (simp add: RAFSV5_SUPERBLOCK_SIZE_def word_less_nat_alt unat_ucast_up)
  then have "1024 < unat (drop_bit 3 offset)" "unat (drop_bit 3 offset) < 2 ^ 29"
    using mult unat_lt2p32 [of offset] by (auto simp: drop_bit_eq_div unat_div)
  then have range: "\<not> ((ucast (drop_bit 3 offset) :: u64) \<le> drop_bit 3 RAFSV5_SUPERBLOCK_SIZE
      \<or> (ucast (drop_bit 3 offset) :: u64) \<ge> push_bit 29 1)"
    by (auto simp: word_le_nat_alt unat_ucast_up RAFSV5_SUPERBLOCK_SIZE_def push_bit_eq_mult)
  have "push_bit 3 (drop_bit 3 offset) = offset"
  proof (rule bit_word_eqI)
    fix n assume "n < LENGTH(32)"
    moreover have "\<not> bit offset n" if "n < 3"
    proof -
      have "bit (7 :: u32) n"
        using that bit_mask_iff [of 3 n, where 'a = "32 word"] by (simp add: mask_eq_exp_minus_1)
      then show ?thesis
        using off(2) bit_and_iff [of offset 7 n] by simp
    qed
    ultimately show "bit (push_bit 3 (drop_bit 3 offset)) n = bit offset n"
      by (cases "n < 3") (auto simp: bit_simps)
  qed
  moreover have "ino' \<noteq> ino \<Longrightarrow> \<not> (ino' = 0 \<or> ino' > of_nat (length (it_data t))) \<Longrightarrow> unat (ino - 1) \<noteq> unat (ino' - 1)"
    using table_index [of ino' "length (it_data t)"] idx assms(2)
    by (metis Suc_diff_1 word_unat_eq_iff)
  ultimately show ?thesis
    using ino idx range table_index [of ino' "length (it_data t)"] assms(2)
    by (auto simp: RafsV5InodeTable_get_def t' index_at_def)
qed

subsection \<open>Blob tables\<close>

definition entry_bytes :: "BlobInfo \<Rightarrow> u8 list" where
  "entry_bytes e = le32 (bi_prefetch_offset e) @ le32 (bi_prefetch_size e) @ bytes_of (bi_blob_id e)"

fun blob_bytes :: "BlobInfo list \<Rightarrow> u8 list" where
  "blob_bytes [] = []"
| "blob_bytes [e] = entry_bytes e"
| "blob_bytes (e # es) = entry_bytes e @ [0] @ blob_bytes es"

lemma length_bytes_of [simp]: "length (bytes_of s) = length s"
  by (simp add: bytes_of_def)

lemma from_utf8_bytes_of: "utf8_valid (bytes_of s) \<Longrightarrow> from_utf8 (bytes_of s) = Inr s"
proof -
  have "unat (of_char c :: u8) = of_char c" for c
  proof -
    have "unat (of_nat (of_char c) :: u8) = of_char c"
      by (rule unat_of_nat_less) simp
    then show ?thesis
      by (simp only: of_nat_of_char)
  qed
  then have "char_of (unat (of_char c :: u8)) = c" for c
    by simp
  then show "utf8_valid (bytes_of s) \<Longrightarrow> from_utf8 (bytes_of s) = Inr s"
    by (simp add: from_utf8_def bytes_of_def comp_def)
qed

lemma ucast_ucast_32 [simp]: "ucast (ucast (x :: u32) :: u64) = x"
  by (rule bit_word_eqI) (auto simp: bit_simps)

lemma store_blob_entries_eq:
  "store_blob_entries w n es = (w @ blob_bytes es, n + length (blob_bytes es))"
proof (induction es arbitrary: w n rule: blob_bytes.induct)
  case (2 e)
  then show ?case
    by (simp add: entry_bytes_def prefetch_offset_def prefetch_size_def)
next
  case (3 e e' es)
  show ?case
    unfolding store_blob_entries.simps(2) [of _ _ e "e' # es"] blob_bytes.simps Let_def
    by (simp add: 3 entry_bytes_def prefetch_offset_def prefetch_size_def del: store_blob_entries.simps)
qed simp

text \<open>Identifiers that can be told apart in the table.\<close>

definition blob_id_ok :: "string \<Rightarrow> bool" where
  "blob_id_ok s \<longleftrightarrow> s \<noteq> [] \<and> 0 \<notin> set (bytes_of s) \<and> utf8_valid (bytes_of s)"

lemma load_one_entry:
  assumes "blob_id_ok (bi_blob_id e)" and "rest = [] \<or> hd rest = 0"
  shows "load_entries t (entry_bytes e @ rest) chunk_size flags =
    and_then (new_blob_entry t (bi_blob_id e) (bi_prefetch_offset e) (bi_prefetch_size e) chunk_size flags)
      (\<lambda>info. load_entries (t\<lparr>bt_entries := bt_entries t @ [info]\<rparr>) (drop 1 rest) chunk_size flags)"
proof -
  have "takeWhile (\<lambda>b. b \<noteq> 0) (bytes_of (bi_blob_id e) @ rest) = bytes_of (bi_blob_id e)"
    using assms by (subst takeWhile_append2) (auto simp: blob_id_ok_def takeWhile_eq_Nil_iff)
  moreover have "from_utf8 (bytes_of (bi_blob_id e)) = Inr (bi_blob_id e)"
    using assms(1) by (simp add: blob_id_ok_def from_utf8_bytes_of)
  moreover have "(if rest = [] then [] else drop 1 rest) = drop 1 rest"
    by simp
  ultimately show ?thesis
    using assms(1) by (subst load_entries.simps) (auto simp: entry_bytes_def blob_id_ok_def Let_def)
qed

lemma load_zeros: "n \<le> 8 \<Longrightarrow> load_entries t (replicate n 0) chunk_size flags = Inr t"
  by (simp add: load_entries.simps)

text \<open>Entries that the loader makes again from the extended table and the stored fields.\<close>

definition reloadable :: "BlobInfo list \<Rightarrow> RafsV5ExtBlobEntry list \<Rightarrow> u32 \<Rightarrow> u64 \<Rightarrow> bool" where
  "reloadable es ext chunk_size flags \<longleftrightarrow>
     (\<forall>k<length es. blob_id_ok (bi_blob_id (es ! k)) \<and>
        new_blob_entry \<lparr>bt_entries = take k es, bt_extended = ext\<rparr> (bi_blob_id (es ! k)) (bi_prefetch_offset (es ! k))
          (bi_prefetch_size (es ! k)) chunk_size flags = Inr (es ! k))"

lemma load_entries_from:
  assumes "reloadable es ext chunk_size flags" and "n \<le> 8" and "k \<le> length es"
  shows "load_entries \<lparr>bt_entries = take k es, bt_extended = ext\<rparr> (blob_bytes (drop k es) @ replicate n 0) chunk_size flags
    = Inr \<lparr>bt_entries = es, bt_extended = ext\<rparr>"
  using assms(3)
proof (induction "length es - k" arbitrary: k)
  case 0
  then show ?case
    using assms(2) by (simp add: load_zeros)
next
  case (Suc m)
  then have k: "k < length es"
    by simp
  have ok: "blob_id_ok (bi_blob_id (es ! k))"
    and entry: "new_blob_entry \<lparr>bt_entries = take k es, bt_extended = ext\<rparr> (bi_blob_id (es ! k))
      (bi_prefetch_offset (es ! k)) (bi_prefetch_size (es ! k)) chunk_size flags = Inr (es ! k)"
    using assms(1) k by (auto simp: reloadable_def)
  have IH: "load_entries \<lparr>bt_entries = take (Suc k) es, bt_extended = ext\<rparr> (blob_bytes (drop (Suc k) es) @ replicate n 0) chunk_size flags
      = Inr \<lparr>bt_entries = es, bt_extended = ext\<rparr>"
    using Suc k by simp
  show ?case
  proof (cases "drop (Suc k) es")
    case Nil
    then have "blob_bytes (drop k es) = entry_bytes (es ! k)"
      using Cons_nth_drop_Suc [OF k] by (metis blob_bytes.simps(2))
    moreover have "take k es @ [es ! k] = es"
      using Nil take_Suc_conv_app_nth [OF k] by simp
    moreover have "replicate n 0 = [] \<or> hd (replicate n 0) = (0 :: u8)"
      by (cases n) auto
    ultimately show ?thesis
      using assms(2) load_one_entry [OF ok, of "replicate n 0"] by (simp add: entry load_zeros)
  next
    case (Cons e' es')
    then have "blob_bytes (drop k es) = entry_bytes (es ! k) @ [0] @ blob_bytes (drop (Suc k) es)"
      using Cons_nth_drop_Suc [OF k] by (metis blob_bytes.simps(3))
    then show ?thesis
      using load_one_entry [OF ok, of "[0] @ blob_bytes (drop (Suc k) es) @ replicate n 0"] IH k
      by (simp add: entry take_Suc_conv_app_nth)
  qed
qed

subsubsection \<open>Tables that \<open>add\<close> builds\<close>

text \<open>One blob: identifier, prefetch offset and size, chunk count, uncompressed and compressed size.\<close>

type_synonym blob_args = "string \<times> u32 \<times> u32 \<times> u32 \<times> u64 \<times> u64"

definition add_blob :: "u32 \<Rightarrow> u64 \<Rightarrow> RafsV5BlobTable \<Rightarrow> blob_args \<Rightarrow> RafsV5BlobTable" where
  "add_blob chunk_size flags t x =
     (case x of (id', po, ps, count', usize', csize) \<Rightarrow>
        fst (RafsV5BlobTable_add t id' po ps chunk_size count' usize' csize 0 flags))"

definition blob_of :: "u32 \<Rightarrow> u64 \<Rightarrow> nat \<Rightarrow> blob_args \<Rightarrow> BlobInfo" where
  "blob_of chunk_size flags i x =
     (case x of (id', po, ps, count', usize', csize) \<Rightarrow>
        set_prefetch_info (set_digester (set_compressor (BlobInfo_new (of_nat i) id' usize' csize chunk_size count' 0)
          (flags_to_compressor flags)) (flags_to_digester flags)) (ucast po) (ucast ps))"

definition ext_of :: "blob_args \<Rightarrow> RafsV5ExtBlobEntry" where
  "ext_of x = (case x of (id', po, ps, count', usize', csize) \<Rightarrow> RafsV5ExtBlobEntry_new count' usize' csize)"

lemma blob_of_fields:
  "bi_blob_id (blob_of cs fl i x) = fst x" "bi_prefetch_offset (blob_of cs fl i x) = fst (snd x)"
  "bi_prefetch_size (blob_of cs fl i x) = fst (snd (snd x))"
  by (auto simp: blob_of_def set_prefetch_info_def set_digester_def set_compressor_def compute_features_def BlobInfo_new_def
      Let_def split: prod.splits)

lemma add_blobs:
  "foldl (add_blob cs fl) \<lparr>bt_entries = [], bt_extended = []\<rparr> xs =
    \<lparr>bt_entries = map (\<lambda>i. blob_of cs fl i (xs ! i)) [0..<length xs], bt_extended = map ext_of xs\<rparr>"
proof (induction xs rule: rev_induct)
  case (snoc x xs)
  have "map (\<lambda>i. blob_of cs fl i ((xs @ [x]) ! i)) [0..<length xs] = map (\<lambda>i. blob_of cs fl i (xs ! i)) [0..<length xs]"
    by (simp add: nth_append)
  with snoc show ?case
    by (auto simp: add_blob_def RafsV5BlobTable_add_def blob_of_def ext_of_def Let_def split: prod.splits)
qed simp

lemma add_blobs_reloadable:
  assumes "\<forall>x\<in>set xs. blob_id_ok (fst x)"
  shows "reloadable (map (\<lambda>i. blob_of cs fl i (xs ! i)) [0..<length xs]) (map ext_of xs) cs fl"
proof -
  have "new_blob_entry \<lparr>bt_entries = map (\<lambda>i. blob_of cs fl i (xs ! i)) [0..<k], bt_extended = map ext_of xs\<rparr>
      (fst (xs ! k)) (fst (snd (xs ! k))) (fst (snd (snd (xs ! k)))) cs fl = Inr (blob_of cs fl k (xs ! k))"
    if "k < length xs" for k
    using that
    by (auto simp: new_blob_entry_def blob_of_def ext_of_def RafsV5ExtBlobEntry_new_def Let_def split: prod.splits)
  then show ?thesis
    using assms by (auto simp: reloadable_def blob_of_fields take_map)
qed

lemma ext_entries_roundtrip:
  assumes "\<forall>e\<in>set es. length (eb_reserved1 e) = 4 \<and> length (eb_reserved2 e) = 40"
  shows "\<exists>bs. store_ext_entries w es = w @ bs \<and> length bs = 64 * length es \<and> (\<forall>rest. ext_entries_of (length es) (bs @ rest) = es)"
  using assms
proof (induction es arbitrary: w)
  case (Cons e es)
  define b where "b = le32 (eb_chunk_count e) @ eb_reserved1 e @ le64 (eb_uncompressed_size e) @ le64 (eb_compressed_size e) @ eb_reserved2 e"
  obtain bs where bs: "store_ext_entries (w @ b) es = (w @ b) @ bs" "length bs = 64 * length es"
    "\<And>rest. ext_entries_of (length es) (bs @ rest) = es"
    using Cons.IH [of "w @ b"] Cons.prems by auto
  have "length b = 64"
    using Cons.prems by (simp add: b_def)
  moreover have "ext_entries_of (Suc (length es)) (b @ bs @ rest) = e # es" for rest
    using Cons.prems bs(3) [of rest] by (simp add: b_def rd32_def rd64_def)
  ultimately show ?case
    using bs(1, 2) by (intro exI [of _ "b @ bs"]) (simp add: b_def [symmetric])
qed simp

lemma ext_store_load:
  assumes "\<forall>e\<in>set es. length (eb_reserved1 e) = 4 \<and> length (eb_reserved2 e) = 40" and "length w mod 8 = 0"
    and "length es < 2 ^ 32"
  shows "\<exists>bs. RafsV5ExtBlobTable_store es w = Inr (w @ bs, length bs) \<and> length bs = 64 * length es
    \<and> (\<forall>rest. RafsV5ExtBlobTable_load (bs @ rest) (length es) = Inr es)"
proof -
  obtain bs where bs: "store_ext_entries w es = w @ bs" "length bs = 64 * length es"
    "\<And>rest. ext_entries_of (length es) (bs @ rest) = es"
    using ext_entries_roundtrip [OF assms(1)] by blast
  define n where "n = length es * 64"
  have "unat (of_nat n :: u64) = n"
    by (rule unat_of_nat_less) (use assms(3) in \<open>simp add: n_def\<close>)
  then have "unat (rafsv5_align (of_nat n)) - n = 0"
    using unat_rafsv5_align [of "of_nat n"] assms(3) by (simp add: n_def pad8_def)
  then have "RafsV5ExtBlobTable_store es w = Inr (w @ bs, length bs)"
    using assms(2) bs
    by (simp add: RafsV5ExtBlobTable_store_def n_def [symmetric] RAFSV5_EXT_BLOB_ENTRY_SIZE_def write_padding_def
        RAFSV5_ALIGNMENT_def validate_alignment_8 Let_def del: of_nat_mult) (simp add: n_def mod_add_eq [symmetric])
  then show ?thesis
    using bs by (auto simp: RafsV5ExtBlobTable_load_def)
qed

lemma length_blob_bytes: "es \<noteq> [] \<Longrightarrow> length (blob_bytes es) + 1 = sum_list (map (\<lambda>e. length (bi_blob_id e) + 9) es)"
  by (induction es rule: blob_bytes.induct) (auto simp: entry_bytes_def)

lemma RafsV5BlobTable_size_eq:
  assumes "bt_entries t \<noteq> []"
  shows "RafsV5BlobTable_size t = unat (rafsv5_align (of_nat (length (blob_bytes (bt_entries t)))))"
proof -
  have "foldl (\<lambda>n e. n + (8 + length (bi_blob_id e)) + 1) n es = n + sum_list (map (\<lambda>e. length (bi_blob_id e) + 9) es)" for n es
    by (induction es arbitrary: n) auto
  note sum = this [of 0 "bt_entries t", folded length_blob_bytes [OF assms]]
  show ?thesis
    unfolding RafsV5BlobTable_size_def sum using assms by simp
qed

lemma blob_table_store_eq:
  assumes "bt_entries t \<noteq> []" and "length (blob_bytes (bt_entries t)) < 2 ^ 31" and "length w mod 8 = 0"
  shows "\<exists>n<8. RafsV5BlobTable_store t w = Inr (w @ blob_bytes (bt_entries t) @ replicate n 0, length (blob_bytes (bt_entries t)) + n)
    \<and> RafsV5BlobTable_size t = length (blob_bytes (bt_entries t)) + n"
proof -
  define len where "len = length (blob_bytes (bt_entries t))"
  have "unat (of_nat len :: u64) = len"
    by (rule unat_of_nat_less) (use assms(2) in \<open>simp add: len_def\<close>)
  then have align: "unat (rafsv5_align (of_nat len)) = len + pad8 len"
    using unat_rafsv5_align [of "of_nat len"] assms(2) by (simp add: len_def)
  have "(length w + (len + pad8 len)) mod 8 = 0"
    using assms(3) pad8_mod [of len] by (simp only: mod_eq_0_iff_dvd dvd_add)
  then have "RafsV5BlobTable_store t w = Inr (w @ blob_bytes (bt_entries t) @ replicate (pad8 len) 0, len + pad8 len)"
    using align pad8_mod [of len] pad8_bound [of len]
    by (simp add: RafsV5BlobTable_store_def store_blob_entries_eq len_def [symmetric] write_padding_def
        RAFSV5_ALIGNMENT_def validate_alignment_8 Let_def)
  then show ?thesis
    using RafsV5BlobTable_size_eq [OF assms(1)] align pad8_bound [of len] by (auto simp: len_def [symmetric])
qed

text \<open>
  C27. The blob tables of a RAFS v5 image come back from disk: for every table that \<open>add\<close> builds from
  blobs with proper identifiers, storing the extended table and the blob table and loading both again
  gives exactly the same table, and the stored blob table is as long as \<open>size()\<close> says.
\<close>

theorem blob_table_roundtrip:
  assumes "\<forall>x\<in>set xs. blob_id_ok (fst x)" and "length w mod 8 = 0" and "xs \<noteq> []"
    and "sum_list (map (\<lambda>x. length (fst x) + 9) xs) < 2 ^ 31"
  shows "let t = foldl (add_blob cs fl) \<lparr>bt_entries = [], bt_extended = []\<rparr> xs in
    \<exists>ebs bbs ext. RafsV5ExtBlobTable_store (bt_extended t) w = Inr (w @ ebs, length ebs)
      \<and> RafsV5ExtBlobTable_load ebs (length xs) = Inr ext
      \<and> RafsV5BlobTable_store t (w @ ebs) = Inr (w @ ebs @ bbs, length bbs)
      \<and> length bbs = RafsV5BlobTable_size t
      \<and> RafsV5BlobTable_load \<lparr>bt_entries = [], bt_extended = ext\<rparr> bbs (of_nat (length bbs)) cs fl = Inr t"
proof -
  define t where "t = foldl (add_blob cs fl) \<lparr>bt_entries = [], bt_extended = []\<rparr> xs"
  have t: "bt_entries t = map (\<lambda>i. blob_of cs fl i (xs ! i)) [0..<length xs]" "bt_extended t = map ext_of xs"
    by (simp_all add: t_def add_blobs)
  have "length xs \<le> sum_list (map (\<lambda>x. length (fst x) + 9) xs)"
    by (induction xs) auto
  then have few: "length xs < 2 ^ 32"
    using assms(4) by simp
  have ne: "bt_entries t \<noteq> []"
    using assms(3) t by simp
  have "map (\<lambda>e. length (bi_blob_id e) + 9) (bt_entries t) = map (\<lambda>x. length (fst x) + 9) xs"
    by (rule nth_equalityI) (auto simp: t blob_of_fields)
  then have small: "length (blob_bytes (bt_entries t)) < 2 ^ 31"
    using length_blob_bytes [OF ne] assms(4) by simp
  have res: "\<forall>e\<in>set (bt_extended t). length (eb_reserved1 e) = 4 \<and> length (eb_reserved2 e) = 40"
    by (auto simp: t ext_of_def RafsV5ExtBlobEntry_new_def split: prod.splits)
  obtain ebs where ebs: "RafsV5ExtBlobTable_store (bt_extended t) w = Inr (w @ ebs, length ebs)"
    "length ebs = 64 * length xs" "\<And>rest. RafsV5ExtBlobTable_load (ebs @ rest) (length xs) = Inr (bt_extended t)"
    using ext_store_load [OF res assms(2)] few by (auto simp: t)
  have al: "length (w @ ebs) mod 8 = 0"
    using assms(2) ebs(2) by (simp add: mod_eq_0_iff_dvd)
  obtain n where n: "n < 8" "RafsV5BlobTable_store t (w @ ebs) =
      Inr ((w @ ebs) @ blob_bytes (bt_entries t) @ replicate n 0, length (blob_bytes (bt_entries t)) + n)"
    "RafsV5BlobTable_size t = length (blob_bytes (bt_entries t)) + n"
    using blob_table_store_eq [OF ne small al] by blast
  define bbs where "bbs = blob_bytes (bt_entries t) @ replicate n 0"
  have len: "unat (of_nat (length bbs) :: u32) = length bbs"
    by (rule unat_of_nat_less) (use small n(1) in \<open>simp add: bbs_def\<close>)
  moreover have "0 < length bbs"
    using length_blob_bytes [OF ne] ne by (cases "bt_entries t") (auto simp: bbs_def)
  ultimately have nz: "(of_nat (length bbs) :: u32) \<noteq> 0"
    by (metis neq0_conv unat_0)
  have "load_entries \<lparr>bt_entries = [], bt_extended = bt_extended t\<rparr> bbs cs fl = Inr t"
    using load_entries_from [of "bt_entries t" "bt_extended t" cs fl n 0] add_blobs_reloadable [OF assms(1)] n(1)
    by (simp add: t bbs_def)
  then have "RafsV5BlobTable_load \<lparr>bt_entries = [], bt_extended = bt_extended t\<rparr> bbs (of_nat (length bbs)) cs fl = Inr t"
    using nz by (simp add: RafsV5BlobTable_load_def len)
  then show ?thesis
    unfolding t_def [symmetric] Let_def
    using ebs(1) ebs(3) [of "[]"] n(2, 3)
    by (intro exI [of _ ebs] exI [of _ bbs] exI [of _ "bt_extended t"]) (simp add: bbs_def)
qed

theorem blob_table_roundtrip_witness:
  "\<exists>bbs ext. RafsV5BlobTable_load \<lparr>bt_entries = [], bt_extended = ext\<rparr> bbs (of_nat (length bbs)) 4096 2 =
     Inr (foldl (add_blob 4096 2) \<lparr>bt_entries = [], bt_extended = []\<rparr> [(''ab'', 0, 0, 1, 10, 5), (''c'', 1, 2, 3, 4, 5)])"
proof -
  have "\<forall>x\<in>set [(''ab'', 0 :: u32, 0 :: u32, 1 :: u32, 10 :: u64, 5 :: u64), (''c'', 1, 2, 3, 4, 5)]. blob_id_ok (fst x)"
    by (simp add: blob_id_ok_def bytes_of_def)
  from blob_table_roundtrip [OF this, of "[]" 4096 2] show ?thesis
    by (auto simp: Let_def)
qed

end
