(* ===== verification/Rafs_V5.thy ===== *)
theory Rafs_V5
  imports Rafs_V5_Layout File_Map "HOL-Library.List_Lexorder"
begin

text \<open>
  The direct mapped RAFS v5 file system, \<open>rafs/src/metadata/direct_v5.rs\<close>: loading the metadata
  file, validating inodes, looking up and walking directories, reading links, attributes and chunk
  information.  An \<open>OndiskInodeWrapper\<close> is the offset of its inode in the mapping.  The digest
  algorithms are a parameter \<open>hash\<close>.  Computations that follow the directory tree of an untrusted
  file may not end and are \<open>None\<close> then.
\<close>

section \<open>Meta data and mapping\<close>

record RafsSuperMeta =
  rm_magic :: u32
  rm_version :: u32
  rm_sb_size :: u32
  rm_root_inode :: u64
  rm_chunk_size :: u32
  rm_inodes_count :: u64
  rm_flags :: u64
  rm_inode_table_entries :: u32
  rm_inode_table_offset :: u64
  rm_blob_table_size :: u32
  rm_blob_table_offset :: u64
  rm_extended_blob_table_offset :: u64
  rm_extended_blob_table_entries :: u32
  rm_prefetch_table_offset :: u64
  rm_prefetch_table_entries :: u32
  rm_attr_timeout :: u64
  rm_entry_timeout :: u64
  rm_is_chunk_dict :: bool

definition get_digester :: "RafsSuperMeta \<Rightarrow> digest_algorithm" where
  "get_digester m =
     (if rm_version m = 0x500 \<or> rm_version m = 0x600 then flags_to_digester (rm_flags m) else Blake3)"

record DirectMappingState =
  dm_meta :: RafsSuperMeta
  dm_inode_table :: RafsV5InodeTable
  dm_blob_table :: RafsV5BlobTable
  dm_file_map :: FileMapState
  dm_validate_inode :: bool

definition DirectMappingState_new :: "RafsSuperMeta \<Rightarrow> bool \<Rightarrow> DirectMappingState" where
  "DirectMappingState_new meta validate_inode =
     \<lparr>dm_meta = meta, dm_inode_table = \<lparr>it_data = []\<rparr>, dm_blob_table = \<lparr>bt_entries = [], bt_extended = []\<rparr>,
      dm_file_map = \<lparr>fm_base = 0, fm_end = 0, fm_size = 0, fm_data = []\<rparr>, dm_validate_inode = validate_inode\<rparr>"

text \<open>\<open>Result::unwrap\<close>.\<close>

definition unwrap :: "'a res \<Rightarrow> 'a res" where
  "unwrap r = (case r of Inl _ \<Rightarrow> Inl Panic | Inr x \<Rightarrow> Inr x)"

text \<open>\<open>get_ref\<close> at the structures of the format, whose size and alignment are given.\<close>

definition ref_inode :: "DirectMappingState \<Rightarrow> usize \<Rightarrow> RafsV5Inode res" where
  "ref_inode st offset =
     and_then (FileMapState_get_ref (dm_file_map st) 128 8 offset) (\<lambda>i. Inr (inode_at (fm_data (dm_file_map st)) i))"

definition ref_xattrs :: "DirectMappingState \<Rightarrow> usize \<Rightarrow> u64 res" where
  "ref_xattrs st offset =
     and_then (FileMapState_get_ref (dm_file_map st) 8 8 offset) (\<lambda>i. Inr (rd64 (fm_data (dm_file_map st)) i))"

definition ref_chunk :: "DirectMappingState \<Rightarrow> usize \<Rightarrow> RafsV5ChunkInfo res" where
  "ref_chunk st offset =
     and_then (FileMapState_get_ref (dm_file_map st) 80 8 offset) (\<lambda>i. Inr (chunk_at (fm_data (dm_file_map st)) i))"

definition ref_bytes :: "DirectMappingState \<Rightarrow> usize \<Rightarrow> usize \<Rightarrow> u8 list res" where
  "ref_bytes st offset size' =
     and_then (FileMapState_get_slice (dm_file_map st) 1 offset size') (\<lambda>i.
     Inr (take (unat size') (drop i (fm_data (dm_file_map st)))))"

definition wrapper_inode :: "DirectMappingState \<Rightarrow> usize \<Rightarrow> RafsV5Inode res" where
  "wrapper_inode st offset = unwrap (ref_inode st offset)"

definition name_ref :: "DirectMappingState \<Rightarrow> usize \<Rightarrow> u8 list res" where
  "name_ref st offset =
     and_then (wrapper_inode st offset) (\<lambda>inode. unwrap (ref_bytes st (offset + 128) (ucast (i_name_size inode))))"

definition get_xattr_data :: "DirectMappingState \<Rightarrow> usize \<Rightarrow> (u8 list \<times> usize) res" where
  "get_xattr_data st offset =
     and_then (wrapper_inode st offset) (\<lambda>inode.
     if \<not> inode_has_xattr inode then Inr ([], 0)
     else let offset = offset + RafsV5Inode_size inode
       in and_then (ref_xattrs st offset) (\<lambda>xattr_size.
          and_then (ref_bytes st (offset + 8) xattr_size) (\<lambda>data. Inr (data, xattr_size))))"

definition get_chunk_info :: "DirectMappingState \<Rightarrow> usize \<Rightarrow> u32 \<Rightarrow> RafsV5ChunkInfo res" where
  "get_chunk_info st offset idx =
     and_then (wrapper_inode st offset) (\<lambda>inode.
     if \<not> is_reg inode \<or> i_child_count inode = 0 \<or> idx \<ge> i_child_count inode then Inl ENOENT
     else
       let offset = offset + RafsV5Inode_size inode
       in and_then
            (if inode_has_xattr inode
             then and_then (ref_xattrs st offset) (\<lambda>size'. Inr (offset + (8 + rafsv5_align size')))
             else Inr offset) (\<lambda>offset.
          ref_chunk st (offset + 80 * ucast idx)))"

section \<open>Validation of inodes\<close>

definition inode_validate :: "DirectMappingState \<Rightarrow> usize \<Rightarrow> unit res" where
  "inode_validate st offset =
     and_then (ref_inode st offset) (\<lambda>inode.
     let max_inode = of_nat (length (it_data (dm_inode_table st))) :: u64;
         chunk_size = ucast (rm_chunk_size (dm_meta st)) :: u64 in
     and_then
       (if inode_has_xattr inode
        then and_then (ref_xattrs st (offset + RafsV5Inode_size inode)) (\<lambda>size'. Inr (8 + rafsv5_align size'))
        else Inr 0) (\<lambda>xattr_size.
     let check_range = (\<lambda>size'. and_then (FileMapState_validate_range (dm_file_map st) offset size') (\<lambda>_. Inr ()));
         tail = (if \<not> is_hardlink inode \<and> i_parent inode \<ge> i_ino inode then Inl EINVAL
                 else check_range (RafsV5Inode_size inode + xattr_size))
     in
     if i_ino inode = 0 \<or> i_ino inode > max_inode \<or> (i_ino inode \<noteq> 1 \<and> i_parent inode = 0) \<or> i_nlink inode = 0
        \<or> (ucast (i_name_size inode) :: usize) > 256 \<or> i_name_size inode = 0
     then Inl EBADF
     else if \<not> is_hardlink inode \<and> i_parent inode \<ge> i_ino inode then Inl EINVAL
     else if is_reg inode then
       (if rm_is_chunk_dict (dm_meta st) then Inl EOPNOTSUPP
        else if chunk_size = 0 then Inl Panic
        else
          let chunks = (i_size inode + chunk_size - 1) div chunk_size
          in if \<not> has_hole inode \<and> chunks \<noteq> ucast (i_child_count inode) then Inl EINVAL
             else and_then (check_range (RafsV5Inode_size inode + xattr_size + ucast (i_child_count inode) * 80)) (\<lambda>_. tail))
     else if is_dir inode then
       (if i_child_count inode > 0
           \<and> ((ucast (i_child_index inode) :: u64) \<le> i_ino inode \<or> ucast (i_child_count inode) \<ge> max_inode
              \<or> ucast (i_child_count inode) + ucast (i_child_index inode) - 1 > max_inode)
        then Inl EINVAL
        else and_then (check_range (RafsV5Inode_size inode + xattr_size)) (\<lambda>_. tail))
     else if is_symlink inode \<and> i_symlink_size inode = 0 then Inl EINVAL
     else tail))"

text \<open>\<open>get_inode_wrapper\<close> up to the check of the digest.\<close>

definition find_inode :: "DirectMappingState \<Rightarrow> u64 \<Rightarrow> usize res" where
  "find_inode st ino =
     and_then (RafsV5InodeTable_get (dm_inode_table st) ino) (\<lambda>offset32.
     let offset = ucast offset32 in
     and_then (ref_inode st offset) (\<lambda>_.
     case inode_validate st offset of
       Inl e \<Rightarrow> if e = EOPNOTSUPP then Inr offset else Inl e
     | Inr _ \<Rightarrow> Inr offset))"

definition get_symlink :: "DirectMappingState \<Rightarrow> usize \<Rightarrow> u8 list res" where
  "get_symlink st offset =
     and_then (wrapper_inode st offset) (\<lambda>inode.
     unwrap (ref_bytes st (offset + 128 + rafsv5_align (ucast (i_name_size inode))) (ucast (i_symlink_size inode))))"

text \<open>Sequencing of computations that may fail or not return.\<close>

definition opt_then :: "'a res option \<Rightarrow> ('a \<Rightarrow> 'b res option) \<Rightarrow> 'b res option" where
  "opt_then x k = Option.bind x (\<lambda>r. case r of Inl e \<Rightarrow> Some (Inl e) | Inr a \<Rightarrow> k a)"

lemma opt_then_simps [simp]:
  "opt_then None k = None" "opt_then (Some (Inl e)) k = Some (Inl e)" "opt_then (Some (Inr a)) k = k a"
  by (simp_all add: opt_then_def)

lemma opt_then_mono [partial_function_mono]:
  assumes "mono_option f" and "\<And>a. mono_option (\<lambda>F. k a F)"
  shows "mono_option (\<lambda>F. opt_then (f F) (\<lambda>a. k a F))"
  unfolding opt_then_def
  by (rule bind_mono [OF assms(1)]) (auto intro!: monotoneI split: sum.splits simp: option.leq_refl dest: monotoneD [OF assms(2)])

text \<open>The digests of the chunks of a regular file, in order.\<close>

fun chunk_digests :: "DirectMappingState \<Rightarrow> usize \<Rightarrow> nat \<Rightarrow> nat \<Rightarrow> u8 list res" where
  "chunk_digests st offset idx 0 = Inr []"
| "chunk_digests st offset idx (Suc n) =
     and_then (get_chunk_info st offset (of_nat idx)) (\<lambda>chunk.
     and_then (chunk_digests st offset (Suc idx) n) (\<lambda>bs. Inr (rc_block_id chunk @ bs)))"

text \<open>
  \<open>rafsv5_validate_inode\<close> without recursion, from the child \<open>idx\<close> on and with the digests \<open>acc\<close>
  fed to the hasher so far; a mismatch is logged with the name of the inode.  A child is fetched with \<open>get_child_by_index\<close>, which validates its digest
  in turn when the file system was opened so.
\<close>

partial_function (option) rafsv5_validate_inode ::
  "(digest_algorithm \<Rightarrow> u8 list \<Rightarrow> RafsDigest) \<Rightarrow> DirectMappingState \<Rightarrow> usize \<Rightarrow> nat \<Rightarrow> u8 list \<Rightarrow> bool res option" where
  "rafsv5_validate_inode hash st offset idx acc =
     opt_then (Some (wrapper_inode st offset)) (\<lambda>inode.
     let matches = (\<lambda>bs. if i_digest inode = hash (get_digester (dm_meta st)) bs then Some (Inr True)
                          else opt_then (Some (name_ref st offset)) (\<lambda>_. Some (Inr False))) in
     if is_symlink inode then opt_then (Some (get_symlink st offset)) matches
     else if is_reg inode then opt_then (Some (chunk_digests st offset 0 (unat (i_child_count inode)))) matches
     else if is_dir inode then
       (if idx < unat (i_child_count inode) then
          opt_then (Some (find_inode st (ucast (of_nat idx + i_child_index inode)))) (\<lambda>child.
          opt_then (if dm_validate_inode st then rafsv5_validate_inode hash st child 0 [] else Some (Inr True)) (\<lambda>ok.
          if \<not> ok then Some (Inl EINVAL)
          else
            opt_then (Some (wrapper_inode st child)) (\<lambda>child_inode.
            opt_then (if is_reg child_inode \<or> is_symlink child_inode then rafsv5_validate_inode hash st child 0 []
                      else Some (Inr True)) (\<lambda>ok.
            if \<not> ok then Some (Inr False)
            else rafsv5_validate_inode hash st offset (Suc idx) (acc @ i_digest child_inode)))))
        else matches acc)
     else matches [])"

definition get_inode_wrapper ::
  "(digest_algorithm \<Rightarrow> u8 list \<Rightarrow> RafsDigest) \<Rightarrow> DirectMappingState \<Rightarrow> u64 \<Rightarrow> bool \<Rightarrow> usize res option" where
  "get_inode_wrapper hash st ino validate_inode =
     opt_then (Some (find_inode st ino)) (\<lambda>offset.
     if validate_inode then
       opt_then (rafsv5_validate_inode hash st offset 0 []) (\<lambda>ok.
       if ok then Some (Inr offset) else Some (Inl EINVAL))
     else Some (Inr offset))"

text \<open>
  \<open>update_state\<close>: the size that \<open>fstat\<close> reports (or its error), the contents of the file and the
  mapping are given.
\<close>

definition update_state ::
  "mmap_call \<Rightarrow> u64 res \<Rightarrow> u8 list \<Rightarrow> DirectMappingState \<Rightarrow> DirectMappingState res" where
  "update_state mmap fstat content old_state =
     (let meta = dm_meta old_state in
      and_then fstat (\<lambda>len.
      if len < RAFSV5_SUPERBLOCK_SIZE \<or> len > 0x80000000 \<or> len AND 7 \<noteq> 0 then Inl EBADF
      else
      and_then (MetaRange_new RAFSV5_SUPERBLOCK_SIZE (len - RAFSV5_SUPERBLOCK_SIZE) True) (\<lambda>md_range.
      and_then (MetaRange_new (rm_inode_table_offset meta) (ucast (rm_inode_table_entries meta) * 4) False)
        (\<lambda>inode_table_range.
      if \<not> is_subrange_of inode_table_range md_range then Inl EBADF
      else
      and_then (MetaRange_new (rm_blob_table_offset meta) (ucast (rm_blob_table_size meta)) False) (\<lambda>blob_table_range.
      if \<not> is_subrange_of blob_table_range md_range \<or> intersect_with blob_table_range inode_table_range then Inl EBADF
      else
      let extended_blob_table_offset = rm_extended_blob_table_offset meta;
          extended_blob_table_size = ucast (rm_extended_blob_table_entries meta) * RAFSV5_EXT_BLOB_ENTRY_SIZE in
      and_then (MetaRange_new extended_blob_table_offset extended_blob_table_size True) (\<lambda>extended_blob_table_range.
      if extended_blob_table_offset > 0 \<and> extended_blob_table_size > 0
         \<and> (\<not> is_subrange_of extended_blob_table_range md_range
            \<or> intersect_with extended_blob_table_range inode_table_range
            \<or> intersect_with extended_blob_table_range blob_table_range)
      then Inl EBADF
      else
      and_then (FileMapState_new mmap False content len False) (\<lambda>file_map.
      and_then
        (if extended_blob_table_offset > 0 \<and> extended_blob_table_size > 0
         then RafsV5ExtBlobTable_load (drop (unat extended_blob_table_offset) content)
                (unat (rm_extended_blob_table_entries meta))
         else Inr []) (\<lambda>extended.
      and_then (RafsV5BlobTable_load \<lparr>bt_entries = [], bt_extended = extended\<rparr>
                 (drop (unat (rm_blob_table_offset meta)) content) (rm_blob_table_size meta) (rm_chunk_size meta)
                 (rm_flags meta)) (\<lambda>blob_table.
      Inr \<lparr>dm_meta = meta,
           dm_inode_table = \<lparr>it_data = u32s_of (unat (rm_inode_table_entries meta))
                               (drop (unat (rm_inode_table_offset meta)) (fm_data file_map))\<rparr>,
           dm_blob_table = blob_table, dm_file_map = file_map,
           dm_validate_inode = dm_validate_inode old_state\<rparr>)))))))))"

text \<open>\<open>RafsSuper::try_load_v5\<close> in direct mode; \<open>None\<close> when the file is no RAFS v5 file.\<close>

definition try_load_v5 ::
  "mmap_call \<Rightarrow> u64 res \<Rightarrow> u8 list \<Rightarrow> RafsSuperMeta \<Rightarrow> bool \<Rightarrow> DirectMappingState option res" where
  "try_load_v5 mmap fstat content meta validate_digest =
     and_then (RafsV5SuperBlock_read content) (\<lambda>sb.
     if \<not> is_rafs_v5 sb then Inr None
     else
     and_then (RafsV5SuperBlock_validate sb (of_nat (length content))) (\<lambda>_.
     case RafsSuperFlags_from_bits (sb_flags sb) of
       None \<Rightarrow> Inl EINVAL
     | Some flags \<Rightarrow>
         let meta = meta\<lparr>rm_magic := sb_magic sb, rm_version := sb_fs_version sb, rm_sb_size := sb_sb_size sb,
               rm_chunk_size := sb_block_size sb, rm_flags := flags, rm_inodes_count := sb_inodes_count sb,
               rm_inode_table_entries := sb_inode_table_entries sb, rm_inode_table_offset := sb_inode_table_offset sb,
               rm_blob_table_offset := sb_blob_table_offset sb, rm_blob_table_size := sb_blob_table_size sb,
               rm_extended_blob_table_offset := sb_extended_blob_table_offset sb,
               rm_extended_blob_table_entries := sb_extended_blob_table_entries sb,
               rm_prefetch_table_entries := sb_prefetch_table_entries sb,
               rm_prefetch_table_offset := sb_prefetch_table_offset sb\<rparr>
         in and_then (update_state mmap fstat content (DirectMappingState_new meta validate_digest)) (\<lambda>st. Inr (Some st))))"

section \<open>Directories\<close>

definition get_child_by_index ::
  "(digest_algorithm \<Rightarrow> u8 list \<Rightarrow> RafsDigest) \<Rightarrow> DirectMappingState \<Rightarrow> usize \<Rightarrow> u32 \<Rightarrow> usize res option" where
  "get_child_by_index hash st offset idx =
     opt_then (Some (wrapper_inode st offset)) (\<lambda>inode.
     if \<not> is_dir inode then Some (Inl EINVAL)
     else if idx \<ge> i_child_count inode then Some (Inl ENOENT)
     else get_inode_wrapper hash st (ucast (idx + i_child_index inode)) (dm_validate_inode st))"

text \<open>
  The binary search of \<open>get_child_by_name\<close>.  The bounds are 32-bit signed integers that stay between
  -1 and the number of children; the inode number is a 32-bit sum that is sign extended.
\<close>

function child_search ::
  "(digest_algorithm \<Rightarrow> u8 list \<Rightarrow> RafsDigest) \<Rightarrow> DirectMappingState \<Rightarrow> u32 \<Rightarrow> u8 list \<Rightarrow> int \<Rightarrow> int \<Rightarrow> usize res option" where
  "child_search hash st child_index name first last' =
     (if first \<le> last' then
        let pivot = first + (last' - first) div 2
        in opt_then (get_inode_wrapper hash st (scast (child_index + of_int pivot)) (dm_validate_inode st)) (\<lambda>wrapper.
           opt_then (Some (name_ref st wrapper)) (\<lambda>target.
           if target = name then Some (Inr wrapper)
           else if target > name then child_search hash st child_index name first (pivot - 1)
           else child_search hash st child_index name (pivot + 1) last'))
      else Some (Inl ENOENT))"
  by pat_completeness auto
termination
  by (relation "measure (\<lambda>(_, _, _, _, first, last'). nat (last' - first + 1))") auto

declare child_search.simps [simp del]

definition get_child_by_name ::
  "(digest_algorithm \<Rightarrow> u8 list \<Rightarrow> RafsDigest) \<Rightarrow> DirectMappingState \<Rightarrow> usize \<Rightarrow> u8 list \<Rightarrow> usize res option" where
  "get_child_by_name hash st offset name =
     opt_then (Some (wrapper_inode st offset)) (\<lambda>inode.
     if \<not> is_dir inode then Some (Inl EINVAL)
     else if i_child_count inode = 0 then Some (Inl ENOENT)
     else child_search hash st (i_child_index inode) name 0 (sint (i_child_count inode - 1)))"

text \<open>
  \<open>walk_children_inodes\<close>.  A handler gets the state of its closure and the name, the inode number
  and the offset of an entry; it answers whether to continue, or an error.
\<close>

type_synonym 's walk_handler = "'s \<Rightarrow> u8 list \<Rightarrow> u64 \<Rightarrow> u64 \<Rightarrow> 's \<times> bool res"

definition handle :: "'s walk_handler \<Rightarrow> 's \<Rightarrow> u8 list \<Rightarrow> u64 \<Rightarrow> u64 \<Rightarrow> ('s \<Rightarrow> ('s \<times> unit res) option) \<Rightarrow> ('s \<times> unit res) option" where
  "handle handler s name ino offset k =
     (case handler s name ino offset of
        (s, Inl e) \<Rightarrow> Some (s, Inl e)
      | (s, Inr continue) \<Rightarrow> if continue then k s else Some (s, Inr ()))"

function walk_loop ::
  "(digest_algorithm \<Rightarrow> u8 list \<Rightarrow> RafsDigest) \<Rightarrow> DirectMappingState \<Rightarrow> usize \<Rightarrow> 's walk_handler \<Rightarrow> u64 \<Rightarrow> u64 \<Rightarrow> 's
     \<Rightarrow> ('s \<times> unit res) option" where
  "walk_loop hash st offset handler idx cur_offset s =
     (case wrapper_inode st offset of
        Inl e \<Rightarrow> Some (s, Inl e)
      | Inr inode \<Rightarrow>
          if idx < ucast (i_child_count inode) then
            case opt_then (get_child_by_index hash st offset (ucast idx)) (\<lambda>child.
                 opt_then (Some (name_ref st child)) (\<lambda>name.
                 opt_then (Some (wrapper_inode st child)) (\<lambda>child_inode. Some (Inr (name, i_ino child_inode))))) of
              None \<Rightarrow> None
            | Some (Inl e) \<Rightarrow> Some (s, Inl e)
            | Some (Inr (name, ino)) \<Rightarrow>
                handle handler s name ino (cur_offset + 1)
                  (\<lambda>s. walk_loop hash st offset handler (idx + 1) (cur_offset + 1) s)
          else Some (s, Inr ()))"
  by pat_completeness auto
termination
proof (relation "measure (\<lambda>(_, st, offset, _, idx, _, _).
      case wrapper_inode st offset of Inl _ \<Rightarrow> 0 | Inr inode \<Rightarrow> unat (i_child_count inode) - unat idx)", goal_cases)
  case (2 hash st offset handler idx cur_offset s inode)
  then have less: "unat idx < unat (i_child_count inode)"
    by (simp add: word_less_nat_alt unat_ucast_up)
  then have "unat (idx + 1) = unat idx + 1"
    using unat_lt2p32 [of "i_child_count inode"] by (simp add: unat_add_less)
  with 2 less show ?case
    by simp
qed simp

declare walk_loop.simps [simp del]

definition walk_children_inodes ::
  "(digest_algorithm \<Rightarrow> u8 list \<Rightarrow> RafsDigest) \<Rightarrow> DirectMappingState \<Rightarrow> usize \<Rightarrow> u64 \<Rightarrow> 's walk_handler \<Rightarrow> 's
     \<Rightarrow> ('s \<times> unit res) option" where
  "walk_children_inodes hash st offset entry_offset handler s =
     (case wrapper_inode st offset of
        Inl e \<Rightarrow> Some (s, Inl e)
      | Inr inode \<Rightarrow>
          let children = (\<lambda>cur_offset s. walk_loop hash st offset handler (cur_offset - 2) cur_offset s);
              parent = (\<lambda>cur_offset s. if cur_offset = 1
                then handle handler s (bytes_of ''..'') (if i_ino inode = 1 then 1 else i_parent inode) (cur_offset + 1)
                       (children (cur_offset + 1))
                else children cur_offset s)
          in if entry_offset = 0 then handle handler s (bytes_of ''.'') (i_ino inode) 1 (parent 1)
             else parent entry_offset s)"

section \<open>Descendants\<close>

fun scan_children ::
  "DirectMappingState \<Rightarrow> u64 \<Rightarrow> nat \<Rightarrow> usize list \<Rightarrow> usize list \<Rightarrow> (usize list \<times> usize list) res" where
  "scan_children st idx 0 child_dirs descendants = Inr (child_dirs, descendants)"
| "scan_children st idx (Suc n) child_dirs descendants =
     and_then (find_inode st idx) (\<lambda>child.
     and_then (wrapper_inode st child) (\<lambda>child_inode.
     if is_dir child_inode then scan_children st (idx + 1) n (child_dirs @ [child]) descendants
     else if i_size child_inode \<noteq> 0 then scan_children st (idx + 1) n child_dirs (descendants @ [child])
     else scan_children st (idx + 1) n child_dirs descendants))"

text \<open>
  \<open>collect_descendants_inodes\<close>: the directories that are still to be visited, in the order in which
  the recursion of the code visits them.
\<close>

partial_function (option) collect_dirs :: "DirectMappingState \<Rightarrow> usize list \<Rightarrow> usize list \<Rightarrow> usize list res option" where
  "collect_dirs st ds descendants =
     (case ds of
        [] \<Rightarrow> Some (Inr descendants)
      | d # ds \<Rightarrow>
          opt_then (Some (wrapper_inode st d)) (\<lambda>inode.
          if \<not> is_dir inode then Some (Inl ENOTDIR)
          else
            opt_then (Some (scan_children st (ucast (i_child_index inode)) (unat (i_child_count inode)) [] descendants))
              (\<lambda>(child_dirs, descendants). collect_dirs st (child_dirs @ ds) descendants)))"

definition collect_descendants_inodes :: "DirectMappingState \<Rightarrow> usize \<Rightarrow> usize list \<Rightarrow> usize list res option" where
  "collect_descendants_inodes st offset descendants = collect_dirs st [offset] descendants"

section \<open>Attributes\<close>

record Attr =
  at_ino :: u64
  at_size :: u64
  at_blocks :: u64
  at_atime :: u64
  at_mtime :: u64
  at_ctime :: u64
  at_mtimensec :: u32
  at_mode :: u32
  at_nlink :: u32
  at_uid :: u32
  at_gid :: u32
  at_rdev :: u32
  at_blksize :: u32

definition get_attr :: "DirectMappingState \<Rightarrow> usize \<Rightarrow> Attr res" where
  "get_attr st offset =
     and_then (wrapper_inode st offset) (\<lambda>inode.
     Inr \<lparr>at_ino = i_ino inode, at_size = i_size inode, at_blocks = i_blocks inode, at_atime = 0,
          at_mtime = i_mtime inode, at_ctime = 0, at_mtimensec = i_mtime_nsec inode, at_mode = i_mode inode,
          at_nlink = i_nlink inode, at_uid = i_uid inode, at_gid = i_gid inode, at_rdev = i_rdev inode,
          at_blksize = 4096\<rparr>)"

record Entry =
  en_inode :: u64
  en_attr :: Attr
  en_attr_timeout :: u64
  en_entry_timeout :: u64

definition get_entry :: "DirectMappingState \<Rightarrow> usize \<Rightarrow> Entry res" where
  "get_entry st offset =
     and_then (wrapper_inode st offset) (\<lambda>inode.
     and_then (get_attr st offset) (\<lambda>attr.
     Inr \<lparr>en_inode = i_ino inode, en_attr = attr, en_attr_timeout = rm_attr_timeout (dm_meta st),
          en_entry_timeout = rm_entry_timeout (dm_meta st)\<rparr>))"

definition get_xattr :: "DirectMappingState \<Rightarrow> usize \<Rightarrow> XattrName \<Rightarrow> XattrValue option res" where
  "get_xattr st offset name =
     and_then (get_xattr_data st offset) (\<lambda>(data, size'). parse_xattr_value data (unat size') name)"

definition get_xattrs :: "DirectMappingState \<Rightarrow> usize \<Rightarrow> XattrName list res" where
  "get_xattrs st offset = and_then (get_xattr_data st offset) (\<lambda>(data, size'). parse_xattr_names data (unat size'))"

end
