(* ===== verification/Rafs_V5_Safety.thy ===== *)
theory Rafs_V5_Safety
  imports Rafs_V5
begin

text \<open>
  What the validation of the direct mapped RAFS v5 metadata achieves: the accesses to names, links,
  attributes and chunks of an inode that the file system hands out stay inside the file and do not
  panic, whatever the file contains.
\<close>

section \<open>Accesses to the mapping\<close>

lemma aligned_address:
  assumes "wf_filemap m"
  shows "(fm_base m + off) AND 7 = 0 \<longleftrightarrow> unat off mod 8 = 0"
proof -
  have "(7 :: u64) = 4095 AND 7"
    by simp
  then have "fm_base m AND 7 = (fm_base m AND 4095) AND 7"
    by (metis and.assoc)
  then have base: "unat (fm_base m) mod 8 = 0"
    using assms by (simp add: wf_filemap_def unat_and_7 [symmetric])
  have "unat (fm_base m + off) mod 8 = (unat (fm_base m) + unat off) mod 2 ^ 64 mod 8"
    by (simp add: unat_word_ariths)
  also have "\<dots> = (unat (fm_base m) + unat off) mod 8"
    by (rule mod_mod_cancel) simp
  also have "\<dots> = unat off mod 8"
    using base by (simp add: mod_add_left_eq [symmetric])
  finally show ?thesis
    by (metis unat_and_7 unat_eq_zero)
qed

lemma ref_iffs:
  assumes "wf_filemap (dm_file_map st)"
  defines "data \<equiv> fm_data (dm_file_map st)"
  shows "ref_inode st off = Inr i \<longleftrightarrow> unat off + 128 \<le> length data \<and> unat off mod 8 = 0 \<and> i = inode_at data (unat off)"
    and "ref_xattrs st off = Inr n \<longleftrightarrow> unat off + 8 \<le> length data \<and> unat off mod 8 = 0 \<and> n = rd64 data (unat off)"
    and "ref_chunk st off = Inr c \<longleftrightarrow> unat off + 80 \<le> length data \<and> unat off mod 8 = 0 \<and> c = chunk_at data (unat off)"
    and "ref_bytes st off k = Inr bs \<longleftrightarrow> unat off + unat k \<le> length data \<and> bs = take (unat k) (drop (unat off) data)"
  using assms aligned_address [OF assms(1), of off]
  by (auto simp: ref_inode_def ref_xattrs_def ref_chunk_def ref_bytes_def and_then_eq_Inr get_ref_in_bounds get_slice_iff)

lemma ref_errors:
  "ref_inode st off = Inl e \<Longrightarrow> e = EINVAL" "ref_xattrs st off = Inl e \<Longrightarrow> e = EINVAL"
  "ref_chunk st off = Inl e \<Longrightarrow> e = EINVAL" "ref_bytes st off k = Inl e \<Longrightarrow> e = EINVAL"
  "FileMapState_validate_range m off k = Inl e \<Longrightarrow> e = EINVAL"
  by (auto simp: ref_inode_def ref_xattrs_def ref_chunk_def ref_bytes_def and_then_eq_Inl FileMapState_get_ref_def
      FileMapState_get_slice_def FileMapState_validate_range_def Let_def split: if_splits option.splits)

lemma unat_lt2p16: "unat (a :: u16) < 65536"
  using unsigned_less [of a, where ?'a = nat] by simp

lemma pad8_bounds:
  fixes k :: u16
  shows "unat k + pad8 (unat k) < 65544"
  using unat_lt2p16 [of k] pad8_bound [of "unat k"] by simp

lemma unat_align_u16: "unat (rafsv5_align (ucast (k :: u16))) = unat k + pad8 (unat k)"
  using unat_lt2p16 [of k] unat_rafsv5_align [of "ucast k"] by (simp add: unat_ucast_up)

lemma unat_inode_size:
  "unat (RafsV5Inode_size i) = 128 + (unat (i_name_size i) + pad8 (unat (i_name_size i)))
     + (unat (i_symlink_size i) + pad8 (unat (i_symlink_size i)))"
  using pad8_bounds [of "i_name_size i"] pad8_bounds [of "i_symlink_size i"]
  by (simp add: RafsV5Inode_size_def unat_word_ariths unat_align_u16)

lemma inode_size_mod: "unat (RafsV5Inode_size i) mod 8 = 0"
proof -
  have "8 dvd 128 + (unat (i_name_size i) + pad8 (unat (i_name_size i)))
     + (unat (i_symlink_size i) + pad8 (unat (i_symlink_size i)))"
    using pad8_mod [of "unat (i_name_size i)"] pad8_mod [of "unat (i_symlink_size i)"]
    by (simp add: mod_eq_0_iff_dvd dvd_add)
  then show ?thesis
    by (simp only: unat_inode_size mod_eq_0_iff_dvd)
qed

lemma inode_size_less: "unat (RafsV5Inode_size i) < 2 ^ 18"
  using pad8_bounds [of "i_name_size i"] pad8_bounds [of "i_symlink_size i"] by (simp add: unat_inode_size)

section \<open>Validated inodes\<close>

text \<open>The facts about an inode that \<open>validate\<close> accepts.\<close>

lemma validate_facts:
  assumes "inode_validate st off = Inr ()" and "ref_inode st off = Inr i"
  defines "max_inode \<equiv> of_nat (length (it_data (dm_inode_table st))) :: u64"
  shows "\<not> (i_ino i = 0 \<or> i_ino i > max_inode \<or> (i_ino i \<noteq> 1 \<and> i_parent i = 0) \<or> i_nlink i = 0
      \<or> (ucast (i_name_size i) :: usize) > 256 \<or> i_name_size i = 0)"
    and "\<not> is_hardlink i \<Longrightarrow> i_parent i < i_ino i"
    and "is_dir i \<Longrightarrow> \<not> is_reg i \<Longrightarrow> \<not> (i_child_count i > 0
      \<and> ((ucast (i_child_index i) :: u64) \<le> i_ino i \<or> ucast (i_child_count i) \<ge> max_inode
         \<or> ucast (i_child_count i) + ucast (i_child_index i) - 1 > max_inode))"
proof -
  show ebadf: "\<not> (i_ino i = 0 \<or> i_ino i > max_inode \<or> (i_ino i \<noteq> 1 \<and> i_parent i = 0) \<or> i_nlink i = 0
      \<or> (ucast (i_name_size i) :: usize) > 256 \<or> i_name_size i = 0)" (is "\<not> ?bad")
  proof
    assume ?bad
    then show False
      using assms(1) unfolding inode_validate_def Let_def max_inode_def by (simp only: assms(2) and_then_simps if_True) (auto simp: and_then_eq_Inr)
  qed
  show parent: "i_parent i < i_ino i" if "\<not> is_hardlink i"
  proof (rule ccontr)
    assume "\<not> i_parent i < i_ino i"
    then show False
      using assms(1) that unfolding inode_validate_def Let_def
      by (simp only: assms(2) and_then_simps) (auto simp: and_then_eq_Inr not_less split: if_splits)
  qed
  show "\<not> (i_child_count i > 0
      \<and> ((ucast (i_child_index i) :: u64) \<le> i_ino i \<or> ucast (i_child_count i) \<ge> max_inode
         \<or> ucast (i_child_count i) + ucast (i_child_index i) - 1 > max_inode))" (is "\<not> ?bad") if "is_dir i" "\<not> is_reg i"
  proof
    assume bad: ?bad
    from assms(1) show False
      unfolding inode_validate_def Let_def max_inode_def [symmetric]
      by (simp only: assms(2) and_then_simps bad that if_True if_False ebadf)
        (auto simp: and_then_eq_Inr split: if_splits)
  qed
qed

lemma validate_inside:
  assumes "wf_filemap (dm_file_map st)" and "inode_validate st off = Inr ()" and "ref_inode st off = Inr i"
    and "unat off < 2 ^ 32"
  shows "unat off + unat (RafsV5Inode_size i) \<le> length (fm_data (dm_file_map st))"
proof (cases "inode_has_xattr i")
  case True
  then obtain n where "ref_xattrs st (off + RafsV5Inode_size i) = Inr n"
    using assms(2, 3) by (auto simp: inode_validate_def Let_def and_then_eq_Inr)
  then have "unat (off + RafsV5Inode_size i) + 8 \<le> length (fm_data (dm_file_map st))"
    using ref_iffs(2) [OF assms(1)] by blast
  then show ?thesis
    using assms(4) inode_size_less [of i] by (simp add: unat_add_less)
next
  case False
  have "FileMapState_validate_range (dm_file_map st) off (RafsV5Inode_size i) \<noteq> Inl EINVAL"
  proof
    assume "FileMapState_validate_range (dm_file_map st) off (RafsV5Inode_size i) = Inl EINVAL"
    with False assms(2, 3) show False
      by (auto simp: inode_validate_def Let_def and_then_eq_Inr split: if_splits)
  qed
  then show ?thesis
    by (simp add: validate_range_eq [OF assms(1)] split: if_splits)
qed

lemma file_types: "is_dir i \<Longrightarrow> \<not> is_reg i" "is_symlink i \<Longrightarrow> \<not> is_reg i" "is_symlink i \<Longrightarrow> \<not> is_dir i"
  by (simp_all add: is_dir_def is_reg_def is_symlink_def)

text \<open>What \<open>get_inode\<close> hands out has passed the validation, except in a chunk dictionary.\<close>

lemma check_range_eq:
  "and_then (FileMapState_validate_range m off k) (\<lambda>_. Inr ())
     = (if is_ok (FileMapState_validate_range m off k) then Inr () else Inl EINVAL)"
  by (cases "FileMapState_validate_range m off k") (auto dest: ref_errors)

lemma inode_validate_errors:
  assumes "inode_validate st off = Inl e"
  shows "e = EINVAL \<or> e = EBADF \<or> e = EOPNOTSUPP \<and> rm_is_chunk_dict (dm_meta st)
    \<or> e = Panic \<and> (ucast (rm_chunk_size (dm_meta st)) :: u64) = 0"
proof (cases "ref_inode st off")
  case (Inl e')
  with assms show ?thesis
    using ref_errors(1) by (fastforce simp: inode_validate_def)
next
  case (Inr i)
  define xattr where "xattr = (if inode_has_xattr i
    then and_then (ref_xattrs st (off + RafsV5Inode_size i)) (\<lambda>size'. Inr (8 + rafsv5_align size')) else Inr (0 :: usize))"
  have "xattr = Inl e' \<Longrightarrow> e' = EINVAL" for e'
    using ref_errors(2) by (auto simp: xattr_def and_then_eq_Inl split: if_splits)
  with assms Inr show ?thesis
    unfolding inode_validate_def Let_def check_range_eq
    by (simp add: xattr_def [symmetric]) (cases xattr; force split: if_splits)
qed

lemma find_inode_facts:
  assumes "find_inode st ino = Inr off"
  shows "unat off < 2 ^ 32" "\<exists>i. ref_inode st off = Inr i"
    "\<not> rm_is_chunk_dict (dm_meta st) \<Longrightarrow> inode_validate st off = Inr ()"
proof -
  obtain o32 where o32: "RafsV5InodeTable_get (dm_inode_table st) ino = Inr o32" "off = ucast o32"
    and ref: "\<exists>i. ref_inode st off = Inr i" and val: "inode_validate st off = Inr () \<or> inode_validate st off = Inl EOPNOTSUPP"
  proof -
    obtain o32 where o32: "RafsV5InodeTable_get (dm_inode_table st) ino = Inr o32"
      using assms by (auto simp: find_inode_def and_then_eq_Inr)
    moreover obtain i where ref: "ref_inode st (ucast o32) = Inr i"
      using assms o32 by (auto simp: find_inode_def and_then_eq_Inr Let_def)
    moreover have "off = ucast o32 \<and> (inode_validate st off = Inr () \<or> inode_validate st off = Inl EOPNOTSUPP)"
      using assms o32 ref by (cases "inode_validate st (ucast o32)") (auto simp: find_inode_def Let_def split: if_splits)
    ultimately show ?thesis
      using that by blast
  qed
  show "unat off < 2 ^ 32"
    using o32 unat_lt2p32 [of o32] by (simp add: unat_ucast_up)
  show "\<exists>i. ref_inode st off = Inr i"
    by (rule ref)
  show "\<not> rm_is_chunk_dict (dm_meta st) \<Longrightarrow> inode_validate st off = Inr ()"
    using val inode_validate_errors by blast
qed

lemma find_inode_no_panic:
  assumes "rm_chunk_size (dm_meta st) \<noteq> 0" and "length (it_data (dm_inode_table st)) < 2 ^ 64"
  shows "find_inode st ino \<noteq> Inl Panic"
proof
  assume panic: "find_inode st ino = Inl Panic"
  have "(ucast (rm_chunk_size (dm_meta st)) :: u64) \<noteq> 0"
    using assms(1) unat_ucast_up [of "rm_chunk_size (dm_meta st)", where 'b = 64] by (auto simp: unat_eq_zero [symmetric])
  then have "inode_validate st off \<noteq> Inl Panic" for off
    using inode_validate_errors by blast
  moreover have "RafsV5InodeTable_get (dm_inode_table st) ino \<noteq> Inl Panic"
    using table_index [of ino "length (it_data (dm_inode_table st))"] assms(2)
    by (cases "ino = 0 \<or> ino > of_nat (length (it_data (dm_inode_table st)))")
      (simp_all add: RafsV5InodeTable_get_def and_then_eq_Inl)
  ultimately obtain o32 where "RafsV5InodeTable_get (dm_inode_table st) ino = Inr o32"
    "inode_validate st (ucast o32) \<noteq> Inl Panic"
    using panic by (auto simp: find_inode_def and_then_eq_Inl)
  with panic show False
    by (cases "ref_inode st (ucast o32)"; cases "inode_validate st (ucast o32)")
      (auto simp: find_inode_def Let_def dest: ref_errors split: if_splits)
qed

section \<open>Loaded file systems\<close>

lemma length_u32s_of [simp]: "length (u32s_of n bs) = n"
  by (induction n arbitrary: bs) auto

lemma update_state_Inr:
  assumes "update_state mmap fstat content old = Inr st"
  shows "dm_meta st = dm_meta old \<and> dm_validate_inode st = dm_validate_inode old
    \<and> length (it_data (dm_inode_table st)) = unat (rm_inode_table_entries (dm_meta old))
    \<and> (\<exists>len. fstat = Inr len \<and> FileMapState_new mmap False content len False = Inr (dm_file_map st))"
  using assms by (auto simp: update_state_def Let_def result_iffs split: if_splits)

lemma try_load_v5_state:
  assumes "mmap_spec mmap" and "length content < 2 ^ 64"
    and "try_load_v5 mmap (Inr (of_nat (length content))) content meta vd = Inr (Some st)"
  shows "wf_filemap (dm_file_map st)" "fm_data (dm_file_map st) = content"
    "rm_chunk_size (dm_meta st) \<noteq> 0" "rm_is_chunk_dict (dm_meta st) = rm_is_chunk_dict meta"
    "length (it_data (dm_inode_table st)) < 2 ^ 64" "dm_validate_inode st = vd"
proof -
  obtain sb flags meta' where sb: "RafsV5SuperBlock_validate sb (of_nat (length content)) = Inr ()"
    and meta': "rm_chunk_size meta' = sb_block_size sb" "rm_is_chunk_dict meta' = rm_is_chunk_dict meta"
    and st: "update_state mmap (Inr (of_nat (length content))) content (DirectMappingState_new meta' vd) = Inr st"
  proof -
    obtain sb where "RafsV5SuperBlock_validate sb (of_nat (length content)) = Inr ()" "is_rafs_v5 sb"
      "RafsV5SuperBlock_read content = Inr sb"
      using assms(3) by (auto simp: try_load_v5_def result_iffs split: if_splits)
    moreover then obtain flags where "RafsSuperFlags_from_bits (sb_flags sb) = Some flags"
      using assms(3) by (auto simp: try_load_v5_def split: option.splits)
    ultimately show ?thesis
      using assms(3) by (auto simp: try_load_v5_def Let_def result_iffs) (rule that [rotated 3], assumption, assumption, simp, simp)
  qed
  have "length content = unat (of_nat (length content) :: u64)"
    using assms(2) by (simp add: unat_of_nat_less)
  moreover have new: "FileMapState_new mmap False content (of_nat (length content)) False = Inr (dm_file_map st)"
    using update_state_Inr [OF st] by auto
  ultimately show "wf_filemap (dm_file_map st)" "fm_data (dm_file_map st) = content"
    using FileMapState_new_wf [OF assms(1) new] by auto
  have "sb_block_size sb \<noteq> 0"
    using sb by (auto simp: RafsV5SuperBlock_validate_def is_power_of_two_def split: if_splits)
  then show "rm_chunk_size (dm_meta st) \<noteq> 0" "rm_is_chunk_dict (dm_meta st) = rm_is_chunk_dict meta"
    "length (it_data (dm_inode_table st)) < 2 ^ 64" "dm_validate_inode st = vd"
    using update_state_Inr [OF st] meta' unat_lt2p32 [of "rm_inode_table_entries meta'"]
    by (auto simp: DirectMappingState_new_def)
qed

section \<open>Accessors of validated inodes\<close>

lemma take_drop_length: "n + k \<le> length bs \<Longrightarrow> length (take k (drop n bs)) = k"
  by simp

lemma found_inode:
  assumes "wf_filemap (dm_file_map st)" and "find_inode st ino = Inr off"
  shows "\<exists>i. wrapper_inode st off = Inr i \<and> ref_inode st off = Inr i"
  using find_inode_facts(2) [OF assms(2)] by (auto simp: wrapper_inode_def unwrap_def)

lemma found_inode_text:
  assumes "wf_filemap (dm_file_map st)" and "\<not> rm_is_chunk_dict (dm_meta st)" and "find_inode st ino = Inr off"
    and "wrapper_inode st off = Inr i"
  defines "data \<equiv> fm_data (dm_file_map st)"
  shows "name_ref st off = Inr (take (unat (i_name_size i)) (drop (unat off + 128) data))"
    and "length (take (unat (i_name_size i)) (drop (unat off + 128) data)) = unat (i_name_size i)"
    and "get_symlink st off = Inr (take (unat (i_symlink_size i))
      (drop (unat off + 128 + (unat (i_name_size i) + pad8 (unat (i_name_size i)))) data))"
    and "length (take (unat (i_symlink_size i))
      (drop (unat off + 128 + (unat (i_name_size i) + pad8 (unat (i_name_size i)))) data)) = unat (i_symlink_size i)"
proof -
  note facts = find_inode_facts [OF assms(3)]
  have ref: "ref_inode st off = Inr i"
    using found_inode [OF assms(1, 3)] assms(4) by auto
  have inside: "unat off + unat (RafsV5Inode_size i) \<le> length data"
    using validate_inside [OF assms(1) facts(3) [OF assms(2)] ref facts(1)] by (simp add: data_def)
  note size = unat_inode_size [of i]
  have off: "unat (off + 128) = unat off + 128"
    "unat (off + 128 + rafsv5_align (ucast (i_name_size i))) = unat off + 128 + (unat (i_name_size i) + pad8 (unat (i_name_size i)))"
    using facts(1) pad8_bounds [of "i_name_size i"] by (simp_all add: unat_add_less unat_align_u16)
  have "ref_bytes st (off + 128) (ucast (i_name_size i)) = Inr (take (unat (i_name_size i)) (drop (unat off + 128) data))"
    "ref_bytes st (off + 128 + rafsv5_align (ucast (i_name_size i))) (ucast (i_symlink_size i))
      = Inr (take (unat (i_symlink_size i)) (drop (unat off + 128 + (unat (i_name_size i) + pad8 (unat (i_name_size i)))) data))"
    using inside size by (simp_all add: ref_iffs(4) [OF assms(1)] off unat_ucast_up data_def)
  then show "name_ref st off = Inr (take (unat (i_name_size i)) (drop (unat off + 128) data))"
    "get_symlink st off = Inr (take (unat (i_symlink_size i))
      (drop (unat off + 128 + (unat (i_name_size i) + pad8 (unat (i_name_size i)))) data))"
    by (simp_all add: name_ref_def get_symlink_def assms(4) unwrap_def)
  show "length (take (unat (i_name_size i)) (drop (unat off + 128) data)) = unat (i_name_size i)"
    "length (take (unat (i_symlink_size i))
      (drop (unat off + 128 + (unat (i_name_size i) + pad8 (unat (i_name_size i)))) data)) = unat (i_symlink_size i)"
    using inside size by simp_all
qed

lemma found_inode_errors:
  assumes "wrapper_inode st off = Inr i"
  shows "get_xattr_data st off \<noteq> Inl Panic" "get_chunk_info st off idx \<noteq> Inl Panic"
  using assms
  by (auto simp: get_xattr_data_def get_chunk_info_def Let_def and_then_eq_Inl dest: ref_errors split: if_splits)

lemma found_inode_chunks:
  assumes "wf_filemap (dm_file_map st)" and "\<not> rm_is_chunk_dict (dm_meta st)" and "find_inode st ino = Inr off"
    and "wrapper_inode st off = Inr i" and "is_reg i" and "\<not> inode_has_xattr i" and "idx < i_child_count i"
  shows "get_chunk_info st off idx
    = Inr (chunk_at (fm_data (dm_file_map st)) (unat off + unat (RafsV5Inode_size i) + 80 * unat idx))"
proof -
  note facts = find_inode_facts [OF assms(3)]
  have ref: "ref_inode st off = Inr i"
    using found_inode [OF assms(1, 3)] assms(4) by auto
  let ?size = "RafsV5Inode_size i + ucast (i_child_count i) * 80"
  have "is_ok (FileMapState_validate_range (dm_file_map st) off ?size)"
    using facts(3) [OF assms(2)] ref assms(5, 6)
    unfolding inode_validate_def Let_def check_range_eq by (auto simp: and_then_eq_Inr split: if_splits)
  moreover have small: "unat (ucast (i_child_count i) * 80 :: u64) = unat (i_child_count i) * 80"
    using unat_lt2p32 [of "i_child_count i"] by (simp add: unat_word_ariths unat_ucast_up)
  then have "unat ?size = unat (RafsV5Inode_size i) + unat (i_child_count i) * 80"
    using inode_size_less [of i] unat_lt2p32 [of "i_child_count i"] by (simp add: unat_add_less)
  ultimately have inside: "unat off + (unat (RafsV5Inode_size i) + unat (i_child_count i) * 80) \<le> length (fm_data (dm_file_map st))"
    by (simp add: validate_range_eq [OF assms(1)] split: if_splits)
  have idx: "unat idx < unat (i_child_count i)"
    using assms(7) by (simp add: word_less_nat_alt)
  have "unat (80 * ucast idx :: u64) = 80 * unat idx"
    using unat_lt2p32 [of idx] by (simp add: unat_word_ariths unat_ucast_up)
  then have off: "unat (off + RafsV5Inode_size i + 80 * ucast idx) = unat off + unat (RafsV5Inode_size i) + 80 * unat idx"
    using facts(1) inode_size_less [of i] unat_lt2p32 [of idx] by (simp add: unat_add_less)
  have "unat off mod 8 = 0"
    using ref ref_iffs(1) [OF assms(1)] by blast
  then have "8 dvd unat off + unat (RafsV5Inode_size i) + 80 * unat idx"
    using inode_size_mod [of i] by (simp add: mod_eq_0_iff_dvd dvd_add)
  then have "ref_chunk st (off + RafsV5Inode_size i + 80 * ucast idx)
    = Inr (chunk_at (fm_data (dm_file_map st)) (unat off + unat (RafsV5Inode_size i) + 80 * unat idx))"
    using inside idx by (simp add: ref_iffs(3) [OF assms(1)] off mod_eq_0_iff_dvd)
  moreover have "i_child_count i \<noteq> 0"
    using idx by auto
  ultimately show ?thesis
    using assms(4-7) by (simp add: get_chunk_info_def Let_def not_le)
qed

lemma xattr_loop_error: "xattr_loop cb s n i bs = Inl e \<Longrightarrow> e = EINVAL"
proof (induction cb s n i bs rule: xattr_loop.induct)
  case (1 cb s n i bs)
  show ?case
    using 1(2) unfolding xattr_loop.simps [of cb s n i bs] Let_def
    by (auto split: if_splits prod.splits dest: 1(1) [OF _ _ refl refl _ refl])
qed

lemma xattr_no_panic:
  assumes "wrapper_inode st off = Inr i"
  shows "get_xattr st off nm \<noteq> Inl Panic" "get_xattrs st off \<noteq> Inl Panic"
  using found_inode_errors(1) [OF assms]
  by (auto simp: get_xattr_def get_xattrs_def and_then_eq_Inl parse_xattr_value_def parse_xattr_names_def parse_xattr_def
      dest: xattr_loop_error split: if_splits)

section \<open>An example\<close>

text \<open>A file system of three inodes behind the super block and the inode table, each with a name of one byte.\<close>

definition demo_sb :: RafsV5SuperBlock where
  "demo_sb = RafsV5SuperBlock_default\<lparr>sb_inode_table_offset := 8192, sb_inode_table_entries := 3,
     sb_inodes_count := 3, sb_blob_table_offset := 8208\<rparr>"

definition demo_inode :: "u64 \<Rightarrow> u64 \<Rightarrow> u32 \<Rightarrow> u32 \<Rightarrow> u32 \<Rightarrow> RafsV5Inode" where
  "demo_inode ino parent mode child_index child_count =
     \<lparr>i_digest = replicate 32 0, i_parent = parent, i_ino = ino, i_uid = 0, i_gid = 0, i_projid = 0, i_mode = mode,
      i_size = 0, i_blocks = 0, i_flags = 0, i_nlink = 1, i_child_index = child_index, i_child_count = child_count,
      i_name_size = 1, i_symlink_size = 0, i_rdev = 0, i_mtime_nsec = 0, i_mtime = 0, i_reserved = replicate 8 0\<rparr>"

definition demo_entry :: "RafsV5Inode \<times> u8 \<Rightarrow> u8 list" where
  "demo_entry p = inode_as_ref (fst p) @ snd p # replicate 7 0"

definition demo_content :: "u32 list \<Rightarrow> (RafsV5Inode \<times> u8) list \<Rightarrow> u8 list" where
  "demo_content table inodes = sb_as_ref demo_sb @ u32s_bytes table @ concat (map demo_entry inodes)"

definition demo_map :: mmap_call where
  "demo_map fd_writable prot_write size' =
     (if (prot_write \<longrightarrow> fd_writable) \<and> size' < 0x100000 then 4096 else MAP_FAILED)"

lemma demo_map_spec: "mmap_spec demo_map"
  by (auto simp: mmap_spec_def demo_map_def MAP_FAILED_def word_less_nat_alt)

definition demo_meta :: RafsSuperMeta where
  "demo_meta = \<lparr>rm_magic = 0, rm_version = 0, rm_sb_size = 0, rm_root_inode = 0, rm_chunk_size = 0, rm_inodes_count = 0,
     rm_flags = 0, rm_inode_table_entries = 0, rm_inode_table_offset = 0, rm_blob_table_size = 0, rm_blob_table_offset = 0,
     rm_extended_blob_table_offset = 0, rm_extended_blob_table_entries = 0, rm_prefetch_table_offset = 0,
     rm_prefetch_table_entries = 0, rm_attr_timeout = 1, rm_entry_timeout = 1, rm_is_chunk_dict = False\<rparr>"

definition demo_state :: "u32 list \<Rightarrow> (RafsV5Inode \<times> u8) list \<Rightarrow> DirectMappingState" where
  "demo_state table inodes =
     \<lparr>dm_meta = demo_meta\<lparr>rm_magic := RAFSV5_SUPER_MAGIC, rm_version := 0x500, rm_sb_size := 8192, rm_chunk_size := 0x100000,
        rm_inodes_count := 3, rm_inode_table_entries := 3, rm_inode_table_offset := 8192, rm_blob_table_offset := 8208\<rparr>,
      dm_inode_table = \<lparr>it_data = take 3 table\<rparr>, dm_blob_table = \<lparr>bt_entries = [], bt_extended = []\<rparr>,
      dm_file_map = \<lparr>fm_base = 4096, fm_end = 12712, fm_size = 8616, fm_data = demo_content table inodes\<rparr>,
      dm_validate_inode = False\<rparr>"

lemma length_demo_content:
  assumes "length table = 4" and "length inodes = 3"
    and "\<forall>p\<in>set inodes. length (i_digest (fst p)) = 32 \<and> length (i_reserved (fst p)) = 8"
  shows "length (demo_content table inodes) = 8616"
proof -
  have "length (sb_as_ref demo_sb) = 8192"
    by (simp add: sb_as_ref_def demo_sb_def RafsV5SuperBlock_default_def)
  moreover have "map (length \<circ> demo_entry) inodes = replicate 3 136"
    using assms(2, 3) by (intro nth_equalityI) (auto simp: demo_entry_def inode_as_ref_def)
  ultimately show ?thesis
    using assms(1) by (simp add: demo_content_def length_concat numeral_3_eq_3)
qed

lemma demo_sb_valid:
  "RafsV5SuperBlock_validate demo_sb 8616 = Inr ()" "is_rafs_v5 demo_sb" "RafsSuperFlags_from_bits (sb_flags demo_sb) = Some 0"
  by (simp_all add: RafsV5SuperBlock_validate_def demo_sb_def RafsV5SuperBlock_default_def is_rafs_v5_def
      is_power_of_two_def RafsSuperFlags_from_bits_def MetaRange_new_def is_subrange_of_def intersect_with_def
      MetaRange_end_def checked_add_def RAFSV5_SUPERBLOCK_SIZE_def RAFS_DEFAULT_CHUNK_SIZE_def
      RAFS_MAX_CHUNK_SIZE_def RAFSV5_EXT_BLOB_ENTRY_SIZE_def Let_def)

lemma u32s_of_take: "n \<le> length xs \<Longrightarrow> u32s_of n (u32s_bytes xs @ bs) = take n xs"
proof (induction n arbitrary: xs)
  case (Suc n)
  then show ?case
    by (cases xs) (auto simp: u32s_bytes_def)
qed simp

lemma demo_load:
  assumes "length table = 4" and "length inodes = 3"
    and "\<forall>p\<in>set inodes. length (i_digest (fst p)) = 32 \<and> length (i_reserved (fst p)) = 8"
  shows "try_load_v5 demo_map (Inr (of_nat (length (demo_content table inodes)))) (demo_content table inodes) demo_meta False
    = Inr (Some (demo_state table inodes))"
proof -
  have sb: "RafsV5SuperBlock_read (demo_content table inodes) = Inr demo_sb"
    unfolding demo_content_def by (rule sb_read_as_ref) (simp add: demo_sb_def RafsV5SuperBlock_default_def)
  have table: "u32s_of 3 (drop 8192 (demo_content table inodes)) = take 3 table"
  proof -
    have "length (sb_as_ref demo_sb) = 8192"
      by (simp add: sb_as_ref_def demo_sb_def RafsV5SuperBlock_default_def)
    then show ?thesis
      using assms(1) by (simp add: demo_content_def u32s_of_take)
  qed
  note fields = demo_sb_def RafsV5SuperBlock_default_def
  show ?thesis
    unfolding try_load_v5_def sb and_then_simps length_demo_content [OF assms] of_nat_numeral demo_sb_valid option.case
    by (simp add: fields is_rafs_v5_def update_state_def DirectMappingState_new_def MetaRange_new_def is_subrange_of_def intersect_with_def
        MetaRange_end_def checked_add_def RAFSV5_SUPERBLOCK_SIZE_def RAFS_DEFAULT_CHUNK_SIZE_def RAFSV5_SUPER_MAGIC_def
        RAFS_SUPER_VERSION_V5_def RAFSV5_EXT_BLOB_ENTRY_SIZE_def FileMapState_new_def demo_map_def MAP_FAILED_def
        RafsV5BlobTable_load_def demo_meta_def table demo_state_def Let_def)
qed

lemma demo_wf:
  assumes "length table = 4" and "length inodes = 3"
    and "\<forall>p\<in>set inodes. length (i_digest (fst p)) = 32 \<and> length (i_reserved (fst p)) = 8"
  shows "wf_filemap (dm_file_map (demo_state table inodes))"
  using length_demo_content [OF assms] by (simp add: demo_state_def wf_filemap_def)

lemma inode_at_append:
  assumes "length (i_digest i) = 32" and "length (i_reserved i) = 8"
  shows "inode_at (pre @ inode_as_ref i @ post) (length pre) = i"
  using assms by (simp add: inode_at_def inode_as_ref_def rd16_def rd32_def rd64_def)

lemma demo_position:
  assumes "length table = 4" and "length inodes = 3"
    and "\<forall>p\<in>set inodes. length (i_digest (fst p)) = 32 \<and> length (i_reserved (fst p)) = 8" and "k < 3"
  shows "\<exists>pre post. demo_content table inodes = pre @ inode_as_ref (fst (inodes ! k)) @ snd (inodes ! k) # post
    \<and> length pre = 8208 + 136 * k"
proof -
  have split: "inodes = take k inodes @ inodes ! k # drop (Suc k) inodes"
    using assms(2, 4) by (simp add: id_take_nth_drop)
  have "map (length \<circ> demo_entry) (take k inodes) = replicate k 136"
    using assms(2-4) by (intro nth_equalityI) (auto simp: demo_entry_def inode_as_ref_def)
  then have "length (concat (map demo_entry (take k inodes))) = 136 * k"
    by (simp add: length_concat sum_list_replicate)
  then have "length (sb_as_ref demo_sb @ u32s_bytes table @ concat (map demo_entry (take k inodes))) = 8208 + 136 * k"
    using assms(1) by (simp add: sb_as_ref_def demo_sb_def RafsV5SuperBlock_default_def)
  moreover have "demo_content table inodes = (sb_as_ref demo_sb @ u32s_bytes table @ concat (map demo_entry (take k inodes)))
    @ inode_as_ref (fst (inodes ! k)) @ snd (inodes ! k) # replicate 7 0 @ concat (map demo_entry (drop (Suc k) inodes))"
    unfolding demo_content_def by (subst split) (simp add: demo_entry_def)
  ultimately show ?thesis
    by blast
qed

lemma demo_ref:
  assumes "length table = 4" and "length inodes = 3"
    and "\<forall>p\<in>set inodes. length (i_digest (fst p)) = 32 \<and> length (i_reserved (fst p)) = 8" and "k < 3"
    and "unat off = 8208 + 136 * k"
  shows "ref_inode (demo_state table inodes) off = Inr (fst (inodes ! k))"
    and "ref_bytes (demo_state table inodes) (off + 128) 1 = Inr [snd (inodes ! k)]"
    and "FileMapState_validate_range (dm_file_map (demo_state table inodes)) off 136 = Inr (4096 + off)"
proof -
  note wf = demo_wf [OF assms(1-3)]
  obtain pre post where content: "demo_content table inodes = pre @ inode_as_ref (fst (inodes ! k)) @ snd (inodes ! k) # post"
    and pre: "length pre = 8208 + 136 * k"
    using demo_position [OF assms(1-4)] by blast
  have len: "length (i_digest (fst (inodes ! k))) = 32" "length (i_reserved (fst (inodes ! k))) = 8"
    "length (demo_content table inodes) = 8616"
    using assms length_demo_content [OF assms(1-3)] by simp_all
  have data: "fm_data (dm_file_map (demo_state table inodes)) = demo_content table inodes"
    "fm_base (dm_file_map (demo_state table inodes)) = 4096"
    by (simp_all add: demo_state_def)
  have "8 dvd 8208 + 136 * k"
    by (intro dvd_add) (auto intro: dvd_mult2)
  moreover have "inode_at (demo_content table inodes) (8208 + 136 * k) = fst (inodes ! k)"
    unfolding content pre [symmetric] by (rule inode_at_append) (use len in simp_all)
  ultimately show "ref_inode (demo_state table inodes) off = Inr (fst (inodes ! k))"
    using assms(4) by (simp add: ref_iffs(1) [OF wf] assms(5) data len mod_eq_0_iff_dvd)
  have "length (inode_as_ref (fst (inodes ! k))) = 128"
    using len by (simp add: inode_as_ref_def)
  then have "take 1 (drop (8208 + 136 * k + 128) (demo_content table inodes)) = [snd (inodes ! k)]"
    unfolding content pre [symmetric] by simp
  then show "ref_bytes (demo_state table inodes) (off + 128) 1 = Inr [snd (inodes ! k)]"
    using assms(4) by (simp add: ref_iffs(4) [OF wf] unat_add_less assms(5) data len)
  show "FileMapState_validate_range (dm_file_map (demo_state table inodes)) off 136 = Inr (4096 + off)"
    using assms(4) by (simp add: validate_range_eq [OF wf] assms(5) data len)
qed

text \<open>A directory \<open>/\<close> with two empty files \<open>a\<close> and \<open>b\<close>.\<close>

definition demo_inodes :: "(RafsV5Inode \<times> u8) list" where
  "demo_inodes = [(demo_inode 1 0 0x41ED 2 2, 47), (demo_inode 2 1 0x81A4 0 0, 97), (demo_inode 3 1 0x81A4 0 0, 98)]"

definition demo_tree :: DirectMappingState where
  "demo_tree = demo_state [1026, 1043, 1060, 0] demo_inodes"

lemma demo_inodes_ok:
  "length demo_inodes = 3" "\<forall>p\<in>set demo_inodes. length (i_digest (fst p)) = 32 \<and> length (i_reserved (fst p)) = 8"
  by (simp_all add: demo_inodes_def demo_inode_def)

lemmas demo_tree_ref = demo_ref [of "[1026, 1043, 1060, 0]" demo_inodes, folded demo_tree_def, OF _ demo_inodes_ok]

lemmas demo_eval = inode_has_xattr_def is_hardlink_def is_reg_def is_dir_def is_symlink_def has_hole_def S_IFMT_def demo_inode_def
  RafsV5Inode_size_def rafsv5_align_def

lemma demo_tree_find:
  "find_inode demo_tree 1 = Inr 8208" "find_inode demo_tree 2 = Inr 8344" "find_inode demo_tree 3 = Inr 8480"
proof -
  have fields: "dm_inode_table demo_tree = \<lparr>it_data = [1026, 1043, 1060]\<rparr>" "\<not> rm_is_chunk_dict (dm_meta demo_tree)"
    "rm_chunk_size (dm_meta demo_tree) = 0x100000"
    by (simp_all add: demo_tree_def demo_state_def demo_meta_def)
  show "find_inode demo_tree 1 = Inr 8208" "find_inode demo_tree 2 = Inr 8344" "find_inode demo_tree 3 = Inr 8480"
    using demo_tree_ref(1, 3) [of 0 8208] demo_tree_ref(1, 3) [of 1 8344] demo_tree_ref(1, 3) [of 2 8480]
    by (simp_all add: find_inode_def inode_validate_def RafsV5InodeTable_get_def fields RAFSV5_SUPERBLOCK_SIZE_def
        demo_inodes_def demo_eval word_le_nat_alt Let_def)
qed

lemma demo_tree_names: "name_ref demo_tree 8208 = Inr [47]" "name_ref demo_tree 8344 = Inr [97]" "name_ref demo_tree 8480 = Inr [98]"
  using demo_tree_ref(1, 2) [of 0 8208] demo_tree_ref(1, 2) [of 1 8344] demo_tree_ref(1, 2) [of 2 8480]
  by (simp_all add: name_ref_def wrapper_inode_def unwrap_def demo_inodes_def demo_inode_def)

section \<open>Safety of a loaded file system\<close>



end
