(* ===== verification/Rafs_V5_Dirs.thy ===== *)
theory Rafs_V5_Dirs
  imports Rafs_V5_Safety
begin

text \<open>
  Directories of the direct mapped RAFS v5 file system: the binary search for a name against a scan of
  the children, the entries that a directory walk presents, and when the collection of the descendants
  of a directory ends.
\<close>

section \<open>Children\<close>

text \<open>The children of a directory as the file system finds them, and their names.\<close>

definition children_of ::
  "(digest_algorithm \<Rightarrow> u8 list \<Rightarrow> RafsDigest) \<Rightarrow> DirectMappingState \<Rightarrow> usize \<Rightarrow> nat \<Rightarrow> (nat \<Rightarrow> usize) \<Rightarrow> (nat \<Rightarrow> u8 list) \<Rightarrow> bool" where
  "children_of hash st off n child nm \<longleftrightarrow>
     (\<forall>k<n. get_child_by_index hash st off (of_nat k) = Some (Inr (child k)) \<and> name_ref st (child k) = Inr (nm k))"

lemma children_bound:
  assumes "\<not> rm_is_chunk_dict (dm_meta st)" and "find_inode st ino = Inr off" and "ref_inode st off = Inr i" and "is_dir i"
    and "i_child_count i \<noteq> 0" and "length (it_data (dm_inode_table st)) < 2 ^ 64"
  shows "unat (i_ino i) < unat (i_child_index i)"
    and "unat (i_child_index i) + unat (i_child_count i) \<le> Suc (length (it_data (dm_inode_table st)))"
proof -
  let ?ci = "ucast (i_child_index i) :: u64" and ?cc = "ucast (i_child_count i) :: u64"
  let ?max = "of_nat (length (it_data (dm_inode_table st))) :: u64"
  have facts: "\<not> ?ci \<le> i_ino i" "\<not> ?cc + ?ci - 1 > ?max"
    using validate_facts(3) [OF find_inode_facts(3) [OF assms(2, 1)] assms(3, 4)] file_types(1) [OF assms(4)] assms(5)
    by (auto simp: word_gt_0)
  then show index: "unat (i_ino i) < unat (i_child_index i)"
    by (simp add: word_le_nat_alt unat_ucast_up)
  have sum: "unat (?cc + ?ci) = unat (i_child_count i) + unat (i_child_index i)"
    using unat_lt2p32 [of "i_child_index i"] unat_lt2p32 [of "i_child_count i"]
    by (simp add: unat_add_less unat_ucast_up)
  then have "unat (?cc + ?ci - 1) = unat (i_child_count i) + unat (i_child_index i) - 1"
    using index unat_minus_one [of "?cc + ?ci"] by fastforce
  moreover have "unat ?max = length (it_data (dm_inode_table st))"
    by (rule unat_of_nat_less) (use assms(6) in simp)
  ultimately show "unat (i_child_index i) + unat (i_child_count i) \<le> Suc (length (it_data (dm_inode_table st)))"
    using facts(2) by (simp add: word_less_nat_alt)
qed

section \<open>Lookup by name\<close>

lemma scast_small:
  fixes w :: u32
  assumes "unat w < 2 ^ 31"
  shows "(scast w :: u64) = ucast w"
proof -
  have "unat (drop_bit 31 w) = 0"
    using assms by (simp only: unat_drop_bit_eq) (simp add: drop_bit_eq_div)
  then have "\<not> bit w 31"
    by (simp only: bit_iff_odd_drop_bit unat_eq_zero) simp
  then have "\<not> bit w n" if "31 \<le> n" for n
    using that bit_imp_le_length [of w n] by (cases "n = 31") auto
  then show ?thesis
    by (intro bit_word_eqI) (auto simp: bit_simps min_def)
qed

lemma sint_small:
  fixes w :: u32
  assumes "unat w < 2 ^ 31"
  shows "sint w = int (unat w)"
proof -
  have "int (unat w) < int (2 ^ 31)"
    using assms by (simp only: of_nat_less_iff)
  then show ?thesis
    using signed_take_bit_int_eq_self [of 31 "uint w"] unsigned_greater_eq [of w, where ?'a = int] by (simp add: sint_uint)
qed

lemma find_unique:
  assumes "a \<le> p" and "p < b" and "\<And>k. k < p \<Longrightarrow> a \<le> k \<Longrightarrow> \<not> P k" and "P p"
  shows "find P [a..<b] = Some p"
  using assms by (auto simp: find_Some_iff intro!: exI [of _ "p - a"])

lemma find_upt_shrink:
  "(\<And>k. p \<le> k \<Longrightarrow> k < b \<Longrightarrow> \<not> P k) \<Longrightarrow> a \<le> p \<Longrightarrow> p \<le> b \<Longrightarrow> find P [a..<b] = find P [a..<p]"
  "(\<And>k. a \<le> k \<Longrightarrow> k < p \<Longrightarrow> \<not> P k) \<Longrightarrow> a \<le> p \<Longrightarrow> p \<le> b \<Longrightarrow> find P [a..<b] = find P [p..<b]"
proof -
  have append: "find P (xs @ ys) = (case find P xs of None \<Rightarrow> find P ys | Some x \<Rightarrow> Some x)" for xs ys :: "nat list"
    by (induction xs) auto
  assume ap: "a \<le> p" "p \<le> b"
  then have "[a..<b] = [a..<p] @ [p..<b]"
    using upt_add_eq_append [of a p "b - p"] by simp
  then have split: "find P [a..<b] = (case find P [a..<p] of None \<Rightarrow> find P [p..<b] | Some x \<Rightarrow> Some x)"
    using append by simp
  show "find P [a..<b] = find P [a..<p]" if "\<And>k. p \<le> k \<Longrightarrow> k < b \<Longrightarrow> \<not> P k"
  proof -
    have "find P [p..<b] = None"
      using that by (auto simp: find_None_iff)
    then show ?thesis
      using split by (auto split: option.splits)
  qed
  show "find P [a..<b] = find P [p..<b]" if "\<And>k. a \<le> k \<Longrightarrow> k < p \<Longrightarrow> \<not> P k"
  proof -
    have "find P [a..<p] = None"
      using that by (auto simp: find_None_iff)
    then show ?thesis
      using split by simp
  qed
qed

lemma child_search_scan:
  assumes found: "\<And>k. k < n \<Longrightarrow> get_inode_wrapper hash st (scast (ci + of_int (int k))) (dm_validate_inode st) = Some (Inr (child k))
      \<and> name_ref st (child k) = Inr (nm k)"
    and sorted: "\<And>j k. j < k \<Longrightarrow> k < n \<Longrightarrow> nm j < nm k" and "a \<le> b" and "b \<le> n"
  shows "child_search hash st ci name (int a) (int b - 1)
    = Some (case find (\<lambda>k. nm k = name) [a..<b] of None \<Rightarrow> Inl ENOENT | Some k \<Rightarrow> Inr (child k))"
  using assms(3, 4)
proof (induction "b - a" arbitrary: a b rule: less_induct)
  case less
  show ?case
  proof (cases "a < b")
    case False
    then show ?thesis
      using less.prems by (simp add: child_search.simps)
  next
    case True
    define p where "p = a + (b - 1 - a) div 2"
    have p: "a \<le> p" "p < b" "p < n"
      using True less.prems by (auto simp: p_def)
    have pivot: "int a + (int b - 1 - int a) div 2 = int p"
      using True by (simp add: p_def of_nat_diff zdiv_int)
    have left: "child_search hash st ci name (int a) (int p - 1)
        = Some (case find (\<lambda>k. nm k = name) [a..<p] of None \<Rightarrow> Inl ENOENT | Some k \<Rightarrow> Inr (child k))"
      using less.hyps [of p a] p less.prems by simp
    have right: "child_search hash st ci name (int p + 1) (int b - 1)
        = Some (case find (\<lambda>k. nm k = name) [Suc p..<b] of None \<Rightarrow> Inl ENOENT | Some k \<Rightarrow> Inr (child k))"
      using less.hyps [of b "Suc p"] p less.prems by (simp add: add.commute)
    have step: "child_search hash st ci name (int a) (int b - 1)
        = (if nm p = name then Some (Inr (child p))
           else if nm p > name then child_search hash st ci name (int a) (int p - 1)
           else child_search hash st ci name (int p + 1) (int b - 1))"
      using True found [OF p(3)]
      by (subst child_search.simps) (simp only: pivot Let_def, simp)
    consider "nm p = name" | "nm p > name" | "nm p < name"
      by fastforce
    then show ?thesis
    proof cases
      case 1
      then have "find (\<lambda>k. nm k = name) [a..<b] = Some p"
        using p sorted [of _ p, THEN less_imp_neq] by (intro find_unique) auto
      with 1 step show ?thesis
        by simp
    next
      case 2
      then have "find (\<lambda>k. nm k = name) [a..<b] = find (\<lambda>k. nm k = name) [a..<p]"
      proof (intro find_upt_shrink(1))
        fix k assume "p \<le> k" "k < b"
        then have "nm p \<le> nm k"
          using sorted [of p k] less.prems by (cases "p = k") auto
        with 2 show "nm k \<noteq> name"
          by auto
      qed (use p in auto)
      with 2 step left show ?thesis
        by simp
    next
      case 3
      then have "find (\<lambda>k. nm k = name) [a..<b] = find (\<lambda>k. nm k = name) [Suc p..<b]"
      proof (intro find_upt_shrink(2))
        fix k assume "k < Suc p"
        then have "nm k \<le> nm p"
          using sorted [of k p] p by (cases "p = k") auto
        with 3 show "nm k \<noteq> name"
          by auto
      qed (use p in auto)
      moreover have "nm p \<noteq> name" "\<not> name < nm p"
        using 3 by (auto dest: less_asym)
      ultimately show ?thesis
        using step right by simp
    qed
  qed
qed

text \<open>
  C18. The lookup of a name in a directory finds what a scan of all children in order would find: on a
  directory whose children are stored in the order of their names, the binary search, whose positions
  are 32-bit signed sums, returns the child with that name, or \<open>ENOENT\<close> if there is none.
\<close>

theorem get_child_by_name_scan:
  assumes "\<not> rm_is_chunk_dict (dm_meta st)" and "length (it_data (dm_inode_table st)) < 2 ^ 31"
    and "find_inode st ino = Inr off" and "wrapper_inode st off = Inr i" and "is_dir i"
    and "children_of hash st off (unat (i_child_count i)) child nm"
    and "\<forall>j k. j < k \<longrightarrow> k < unat (i_child_count i) \<longrightarrow> nm j < nm k"
  shows "get_child_by_name hash st off name
    = Some (case find (\<lambda>k. nm k = name) [0..<unat (i_child_count i)] of None \<Rightarrow> Inl ENOENT | Some k \<Rightarrow> Inr (child k))"
proof (cases "i_child_count i = 0")
  case True
  with assms(4, 5) show ?thesis
    by (simp add: get_child_by_name_def)
next
  case False
  let ?n = "unat (i_child_count i)"
  have ref: "ref_inode st off = Inr i"
    using assms(4) by (simp add: wrapper_inode_def unwrap_def split: sum.splits)
  have bound: "unat (i_child_index i) + ?n \<le> 2 ^ 31"
    using children_bound(2) [OF assms(1, 3) ref assms(5) False] assms(2) by simp
  have found: "get_inode_wrapper hash st (scast (i_child_index i + of_int (int k))) (dm_validate_inode st) = Some (Inr (child k))
      \<and> name_ref st (child k) = Inr (nm k)" if "k < ?n" for k
  proof -
    have k: "unat (of_nat k :: u32) = k"
      using that bound by (intro unat_of_nat_less) simp
    then have "unat (i_child_index i + of_nat k) < 2 ^ 31"
      using that bound by (simp add: unat_add_less)
    then have "(scast (i_child_index i + of_int (int k)) :: u64) = ucast (of_nat k + i_child_index i)"
      using scast_small [of "i_child_index i + of_nat k"] by (simp add: add.commute)
    moreover have "\<not> i_child_count i \<le> of_nat k"
      using that k by (simp add: word_le_nat_alt)
    moreover have "get_child_by_index hash st off (of_nat k) = Some (Inr (child k))" "name_ref st (child k) = Inr (nm k)"
      using assms(6) that by (auto simp: children_of_def)
    ultimately show ?thesis
      using assms(4, 5) by (simp add: get_child_by_index_def)
  qed
  have "?n > 0"
    using False by (simp add: unat_gt_0)
  moreover have "unat (i_child_count i - 1) = ?n - 1"
    using False by (rule unat_minus_one)
  ultimately have "sint (i_child_count i - 1) = int ?n - 1"
    using bound sint_small [of "i_child_count i - 1"] by simp
  moreover have "child_search hash st (i_child_index i) name (int 0) (int ?n - 1)
    = Some (case find (\<lambda>k. nm k = name) [0..<?n] of None \<Rightarrow> Inl ENOENT | Some k \<Rightarrow> Inr (child k))"
    using assms(7) by (intro child_search_scan [OF found]) auto
  ultimately show ?thesis
    using assms(4, 5) False by (simp add: get_child_by_name_def)
qed

lemma demo_tree_root: "wrapper_inode demo_tree 8208 = Inr (demo_inode 1 0 0x41ED 2 2)" "is_dir (demo_inode 1 0 0x41ED 2 2)"
  using demo_tree_ref(1) [of 0 8208] by (simp_all add: wrapper_inode_def unwrap_def demo_inodes_def is_dir_def demo_inode_def S_IFMT_def)

lemma demo_tree_fields:
  "\<not> rm_is_chunk_dict (dm_meta demo_tree)" "length (it_data (dm_inode_table demo_tree)) = 3" "\<not> dm_validate_inode demo_tree"
  "unat (i_child_count (demo_inode 1 0 0x41ED 2 2)) = 2"
  by (simp_all add: demo_tree_def demo_state_def demo_meta_def demo_inode_def)

lemma demo_tree_children:
  "children_of hash demo_tree 8208 2 (\<lambda>k. if k = 0 then 8344 else 8480) (\<lambda>k. if k = 0 then [97] else [98])"
proof -
  have "get_child_by_index hash demo_tree 8208 0 = Some (Inr 8344)" "get_child_by_index hash demo_tree 8208 1 = Some (Inr 8480)"
    using demo_tree_find demo_tree_root demo_tree_fields(3)
    by (simp_all add: get_child_by_index_def get_inode_wrapper_def demo_inode_def word_le_nat_alt)
  then show ?thesis
    using demo_tree_names by (auto simp: children_of_def less_2_cases_iff)
qed

theorem get_child_by_name_scan_witness:
  "get_child_by_name (\<lambda>_ _. []) demo_tree 8208 [98] = Some (Inr 8480)
   \<and> get_child_by_name (\<lambda>_ _. []) demo_tree 8208 [99] = Some (Inl ENOENT)"
proof -
  have "\<forall>j k. j < k \<longrightarrow> k < 2 \<longrightarrow> (if j = (0 :: nat) then [97] else [98]) < (if k = 0 then [97 :: u8] else [98])"
    by (auto simp: less_2_cases_iff)
  moreover have "length (it_data (dm_inode_table demo_tree)) < 2 ^ 31"
    by (simp add: demo_tree_fields)
  moreover have "[0..<2] = [0, 1 :: nat]"
    by (simp add: upt_conv_Cons)
  ultimately show ?thesis
    using get_child_by_name_scan [OF demo_tree_fields(1) _ demo_tree_find(1) demo_tree_root, unfolded demo_tree_fields(4),
        OF _ demo_tree_children [of "\<lambda>_ _. []"], of "[98]"]
      get_child_by_name_scan [OF demo_tree_fields(1) _ demo_tree_find(1) demo_tree_root, unfolded demo_tree_fields(4),
        OF _ demo_tree_children [of "\<lambda>_ _. []"], of "[99]"]
    by simp
qed

section \<open>Directory walks\<close>

text \<open>The entries of a directory: name, inode number and the offset at which the walk continues behind it.\<close>

definition dir_entries :: "RafsV5Inode \<Rightarrow> nat \<Rightarrow> (nat \<Rightarrow> u8 list) \<Rightarrow> (nat \<Rightarrow> u64) \<Rightarrow> (u8 list \<times> u64 \<times> u64) list" where
  "dir_entries i n nm ino =
     (bytes_of ''.'', i_ino i, 1) # (bytes_of ''..'', if i_ino i = 1 then 1 else i_parent i, 2)
     # map (\<lambda>k. (nm k, ino k, of_nat (k + 3))) [0..<n]"

text \<open>Presenting a list of entries to a handler until it stops.\<close>

fun present :: "'s walk_handler \<Rightarrow> 's \<Rightarrow> (u8 list \<times> u64 \<times> u64) list \<Rightarrow> 's \<times> unit res" where
  "present handler s [] = (s, Inr ())"
| "present handler s ((name, ino, offset) # es) =
     (case handler s name ino offset of
        (s, Inl e) \<Rightarrow> (s, Inl e)
      | (s, Inr continue) \<Rightarrow> if continue then present handler s es else (s, Inr ()))"

lemma handle_present:
  assumes "\<And>s. k s = Some (present handler s es)"
  shows "handle handler s name ino offset k = Some (present handler s ((name, ino, offset) # es))"
  using assms by (auto simp: handle_def split: prod.splits sum.splits)

lemma walk_loop_present:
  assumes "wrapper_inode st off = Inr i" and "children_of hash st off (unat (i_child_count i)) child nm"
    and "\<And>k. k < unat (i_child_count i) \<Longrightarrow> \<exists>c. wrapper_inode st (child k) = Inr c \<and> i_ino c = ino k"
    and "j \<le> unat (i_child_count i)"
  shows "walk_loop hash st off handler (of_nat j) (of_nat (j + 2)) s
    = Some (present handler s (map (\<lambda>k. (nm k, ino k, of_nat (k + 3))) [j..<unat (i_child_count i)]))"
  using assms(4)
proof (induction "unat (i_child_count i) - j" arbitrary: j s)
  case 0
  then have "\<not> (of_nat j :: u64) < ucast (i_child_count i)"
    using unat_lt2p32 [of "i_child_count i"] by (simp add: word_less_nat_alt unat_ucast_up unat_of_nat_less)
  with 0 assms(1) show ?case
    by (subst walk_loop.simps) simp
next
  case (Suc d)
  then have j: "j < unat (i_child_count i)"
    by simp
  then have less: "(of_nat j :: u64) < ucast (i_child_count i)" and cast: "(ucast (of_nat j :: u64) :: u32) = of_nat j"
    using unat_lt2p32 [of "i_child_count i"]
    by (simp_all add: word_less_nat_alt unat_ucast_up unat_of_nat_less word_unat_eq_iff unat_ucast_small)
  have rest: "walk_loop hash st off handler (of_nat j + 1) (of_nat (j + 2) + 1) s
      = Some (present handler s (map (\<lambda>k. (nm k, ino k, of_nat (k + 3))) [Suc j..<unat (i_child_count i)]))" for s
    using Suc.hyps(1) [of "Suc j" s] Suc.hyps(2) j by (simp add: add.commute)
  obtain c where "wrapper_inode st (child j) = Inr c" "i_ino c = ino j"
    using assms(3) [OF j] by blast
  then have "walk_loop hash st off handler (of_nat j) (of_nat (j + 2)) s
    = handle handler s (nm j) (ino j) (of_nat (j + 2) + 1) (walk_loop hash st off handler (of_nat j + 1) (of_nat (j + 2) + 1))"
    using assms(1, 2) j less cast by (subst walk_loop.simps) (simp add: children_of_def)
  also have "\<dots> = Some (present handler s ((nm j, ino j, of_nat (j + 2) + 1)
      # map (\<lambda>k. (nm k, ino k, of_nat (k + 3))) [Suc j..<unat (i_child_count i)]))"
    using rest by (rule handle_present)
  finally show ?case
    using j by (simp add: upt_conv_Cons add.commute)
qed

lemma walk_loop_past:
  assumes "wrapper_inode st off = Inr i" and "\<not> idx < ucast (i_child_count i)"
  shows "walk_loop hash st off handler idx cur_offset s = Some (s, Inr ())"
  using assms by (subst walk_loop.simps) simp

text \<open>
  C17. A directory walk from any offset presents the entries behind that offset and no others, in order:
  first \<open>.\<close> and \<open>..\<close>, then the children by index, until the handler stops or fails.  Each entry carries
  the offset behind it, so that a walk that is resumed at the offset of the last entry that the handler
  took continues with the next entry, and no entry is lost or repeated.
\<close>

theorem readdir_resumes:
  assumes "wrapper_inode st off = Inr i" and "children_of hash st off (unat (i_child_count i)) child nm"
    and "\<forall>k<unat (i_child_count i). \<exists>c. wrapper_inode st (child k) = Inr c \<and> i_ino c = ino k"
  defines "es \<equiv> dir_entries i (unat (i_child_count i)) nm ino"
  shows "walk_children_inodes hash st off entry_offset handler s = Some (present handler s (drop (unat entry_offset) es))
    \<and> (\<forall>k<length es. unat (snd (snd (es ! k))) = Suc k)"
proof
  let ?n = "unat (i_child_count i)"
  let ?entry = "\<lambda>k. (nm k, ino k, of_nat (k + 3) :: u64)"
  have n: "?n < 2 ^ 32"
    by (rule unat_lt2p32)
  have loop: "walk_loop hash st off handler (of_nat j) (of_nat (j + 2)) s = Some (present handler s (map ?entry [j..<?n]))"
    if "j \<le> ?n" for j s
    by (rule walk_loop_present [OF assms(1, 2) _ that]) (use assms(3) in blast)
  have zero: "walk_loop hash st off handler 0 2 s = Some (present handler s (map ?entry [0..<?n]))" for s
    using loop [of 0] by simp
  have one: "handle handler s (bytes_of ''..'') (if i_ino i = 1 then 1 else i_parent i) 2 (walk_loop hash st off handler 0 2)
      = Some (present handler s (drop 1 es))" for s
    unfolding es_def dir_entries_def by (subst handle_present [OF zero]) simp
  have "entry_offset = 0 \<or> entry_offset = 1 \<or> 2 \<le> unat entry_offset"
    unfolding word_unat_eq_iff unat_0 unat_1 by linarith
  then consider "entry_offset = 0" | "entry_offset = 1" | "2 \<le> unat entry_offset"
    by blast
  then show "walk_children_inodes hash st off entry_offset handler s = Some (present handler s (drop (unat entry_offset) es))"
  proof cases
    case 1
    have "present handler s es = present handler s ((bytes_of ''.'', i_ino i, 1) # drop 1 es)"
      by (simp add: es_def dir_entries_def)
    with 1 assms(1) handle_present [OF one] show ?thesis
      by (simp add: walk_children_inodes_def Let_def)
  next
    case 2
    with assms(1) one show ?thesis
      by (simp add: walk_children_inodes_def Let_def)
  next
    case 3
    then have "entry_offset \<noteq> 0" "entry_offset \<noteq> 1"
      by auto
    then have walk: "walk_children_inodes hash st off entry_offset handler s
        = walk_loop hash st off handler (entry_offset - 2) entry_offset s"
      using assms(1) by (simp add: walk_children_inodes_def Let_def)
    define j where "j = unat entry_offset - 2"
    have idx: "entry_offset - 2 = of_nat j" "entry_offset = of_nat (j + 2)"
      using 3 by (simp_all add: j_def of_nat_diff)
    have drop: "drop (unat entry_offset) es = map ?entry [j..<?n]"
      using 3 by (simp add: es_def dir_entries_def j_def drop_map numeral_2_eq_2 Suc_le_eq drop_Cons' )
    show ?thesis
    proof (cases "j \<le> ?n")
      case True
      then show ?thesis
        using loop [OF True] walk idx drop by simp
    next
      case False
      have "unat (of_nat j :: u64) = j"
        using unat_lt2p64 [of entry_offset] by (intro unat_of_nat_less) (simp add: j_def)
      then have "\<not> (of_nat j :: u64) < ucast (i_child_count i)"
        using False by (simp add: word_less_nat_alt unat_ucast_up)
      from walk_loop_past [OF assms(1) this] show ?thesis
        using walk idx drop False by simp
    qed
  qed
  show "\<forall>k<length es. unat (snd (snd (es ! k))) = Suc k"
  proof (intro allI impI)
    fix k assume k: "k < length es"
    show "unat (snd (snd (es ! k))) = Suc k"
    proof (cases "k < 2")
      case True
      then show ?thesis
        by (auto simp: es_def dir_entries_def less_2_cases_iff)
    next
      case False
      then obtain m where m: "k = m + 2"
        by (metis add.commute le_Suc_ex not_less)
      have "unat (of_nat (m + 3) :: u64) = m + 3"
        using k m n by (intro unat_of_nat_less) (simp add: es_def dir_entries_def)
      then show ?thesis
        using k m by (simp add: es_def dir_entries_def del: of_nat_add)
    qed
  qed
qed

lemma demo_tree_inos:
  "\<forall>k<2. \<exists>c. wrapper_inode demo_tree (if k = 0 then 8344 else 8480) = Inr c \<and> i_ino c = (if k = (0 :: nat) then 2 else 3)"
  using demo_tree_ref(1) [of 1 8344] demo_tree_ref(1) [of 2 8480]
  by (auto simp: less_2_cases_iff wrapper_inode_def unwrap_def demo_inodes_def demo_inode_def)

theorem readdir_resumes_witness:
  "walk_children_inodes (\<lambda>_ _. []) demo_tree 8208 3 (\<lambda>s name ino offset. (s @ [(name, ino, offset)], Inr True)) []
     = Some ([([98], 3, 4)], Inr ())"
proof -
  have "[0..<2] = [0, 1 :: nat]"
    by (simp add: upt_conv_Cons)
  then show ?thesis
    using readdir_resumes [OF demo_tree_root(1), unfolded demo_tree_fields(4),
        OF demo_tree_children [of "\<lambda>_ _. []"] demo_tree_inos, of 3 "\<lambda>s name ino offset. (s @ [(name, ino, offset)], Inr True)" "[]"]
    by (simp add: dir_entries_def)
qed

section \<open>Descendants\<close>

lemma scan_children_dirs:
  assumes "scan_children st idx n dirs desc = Inr (dirs', desc')" and "unat idx + n < 2 ^ 64" and "d \<in> set dirs' - set dirs"
  shows "\<exists>k i. unat idx \<le> unat k \<and> unat k < unat idx + n \<and> find_inode st k = Inr d \<and> wrapper_inode st d = Inr i \<and> is_dir i"
  using assms
proof (induction st idx n dirs desc rule: scan_children.induct)
  case (2 st idx n dirs desc)
  have next': "unat (idx + 1) = Suc (unat idx)"
    using 2(5) by (simp add: unat_add_less)
  obtain c i where ci: "find_inode st idx = Inr c" "wrapper_inode st c = Inr i"
    using 2(4) by (auto simp: and_then_eq_Inr)
  have step: ?case if rest: "d \<in> set dirs' - set more \<Longrightarrow> \<exists>k i. unat (idx + 1) \<le> unat k \<and> unat k < unat (idx + 1) + n
      \<and> find_inode st k = Inr d \<and> wrapper_inode st d = Inr i \<and> is_dir i"
    and more: "more = dirs \<or> more = dirs @ [c] \<and> is_dir i" for more
  proof (cases "d \<in> set more")
    case True
    then have "d = c" "is_dir i"
      using more 2(6) by auto
    then show ?thesis
      using ci by (intro exI [of _ idx] exI [of _ i]) simp
  next
    case False
    then obtain k i' where "unat (idx + 1) \<le> unat k" "unat k < unat (idx + 1) + n" "find_inode st k = Inr d"
      "wrapper_inode st d = Inr i'" "is_dir i'"
      using rest 2(6) by blast
    then show ?thesis
      using next' by (intro exI [of _ k] exI [of _ i']) simp
  qed
  show ?case
  proof (cases "is_dir i")
    case True
    then show ?thesis
      using 2(1) [OF ci True] 2(4, 5) ci next' by (intro step [of "dirs @ [c]"]) auto
  next
    case False
    then show ?thesis
      using 2(2, 3) [OF ci False] 2(4, 5) ci next' by (intro step [of dirs]) (auto split: if_splits)
  qed
qed simp

text \<open>
  C34. Collecting the descendants of a directory ends for every file in which each directory is stored
  in the slot of its own inode number: then the inode numbers of directories grow along every path.
\<close>

theorem collect_descendants_returns:
  assumes "\<not> rm_is_chunk_dict (dm_meta st)" and "length (it_data (dm_inode_table st)) < 2 ^ 63"
    and "\<forall>k d i. find_inode st k = Inr d \<longrightarrow> wrapper_inode st d = Inr i \<longrightarrow> is_dir i \<longrightarrow> i_ino i = k"
    and "find_inode st ino = Inr off"
  shows "\<exists>r. collect_descendants_inodes st off descendants = Some r"
proof -
  let ?max = "length (it_data (dm_inode_table st))"
  have visit: "\<exists>r. collect_dirs st (d # ds) desc = Some r"
    if "find_inode st k = Inr d" "\<And>desc. \<exists>r. collect_dirs st ds desc = Some r" "m = ?max - unat k" for k d ds desc m
    using that
  proof (induction m arbitrary: k d ds desc rule: less_induct)
    case (less m)
    obtain i where i: "wrapper_inode st d = Inr i" "ref_inode st d = Inr i"
      using find_inode_facts(2) [OF less.prems(1)] by (auto simp: wrapper_inode_def unwrap_def)
    show ?case
    proof (cases "is_dir i")
      case False
      then show ?thesis
        using i by (simp add: collect_dirs.simps)
    next
      case True
      let ?scan = "scan_children st (ucast (i_child_index i)) (unat (i_child_count i)) [] desc"
      have child: "\<exists>k'. find_inode st k' = Inr c \<and> ?max - unat k' < m" if scan: "?scan = Inr (dirs, desc')" and c: "c \<in> set dirs" for dirs desc' c
      proof -
        have nonempty: "i_child_count i \<noteq> 0"
          using scan c by auto
        note bound = children_bound [OF assms(1) less.prems(1) i(2) True nonempty]
        have "unat (ucast (i_child_index i) :: u64) + unat (i_child_count i) < 2 ^ 64"
          using unat_lt2p32 [of "i_child_index i"] unat_lt2p32 [of "i_child_count i"] by (simp add: unat_ucast_up)
        then obtain k' where "unat (i_child_index i) \<le> unat k'" "unat k' < unat (i_child_index i) + unat (i_child_count i)"
          "find_inode st k' = Inr c"
          using scan_children_dirs [OF scan, of c] c by (auto simp: unat_ucast_up)
        moreover have "i_ino i = k"
          using assms(3) less.prems(1) i(1) True by blast
        ultimately show ?thesis
          using bound assms(2) less.prems(3) by (intro exI [of _ k']) auto
      qed
      have rest: "\<exists>r. collect_dirs st (dirs @ ds) desc' = Some r"
        if "\<And>c. c \<in> set dirs \<Longrightarrow> \<exists>k'. find_inode st k' = Inr c \<and> ?max - unat k' < m" for dirs desc'
        using that
      proof (induction dirs arbitrary: desc')
        case Nil
        then show ?case
          using less.prems(2) by simp
      next
        case (Cons c dirs)
        obtain k' where "find_inode st k' = Inr c" "?max - unat k' < m"
          using Cons.prems [of c] by auto
        then show ?case
          using less.IH [of "?max - unat k'" k' c "dirs @ ds" desc'] Cons by simp
      qed
      show ?thesis
        using child rest i True by (cases ?scan) (auto simp: collect_dirs.simps [of st "d # ds"] split: prod.splits)
    qed
  qed
  have "\<exists>r. collect_dirs st [] desc = Some r" for desc
    by (simp add: collect_dirs.simps)
  from visit [OF assms(4) this refl] show ?thesis
    by (simp add: collect_descendants_inodes_def)
qed

lemma demo_tree_numbers:
  "\<forall>k d i. find_inode demo_tree k = Inr d \<longrightarrow> wrapper_inode demo_tree d = Inr i \<longrightarrow> is_dir i \<longrightarrow> i_ino i = k"
proof (intro allI impI)
  fix k d i assume find: "find_inode demo_tree k = Inr d" and i: "wrapper_inode demo_tree d = Inr i" "is_dir i"
  have table: "it_data (dm_inode_table demo_tree) = [1026, 1043, 1060]"
    by (simp add: demo_tree_def demo_state_def)
  have "k \<noteq> 0" "\<not> k > 3"
    using find by (auto simp: find_inode_def and_then_eq_Inr RafsV5InodeTable_get_def table split: if_splits)
  then have "unat k = 1 \<or> unat k = 2 \<or> unat k = 3"
    by (auto simp: word_less_nat_alt not_less unat_eq_zero [symmetric] simp del: unat_eq_zero)
  then have "k = 1 \<or> k = 2 \<or> k = 3"
    by (simp add: word_unat_eq_iff)
  then show "i_ino i = k"
    using find i demo_tree_find demo_tree_ref(1) [of 0 8208] demo_tree_ref(1) [of 1 8344] demo_tree_ref(1) [of 2 8480]
    by (auto simp: wrapper_inode_def unwrap_def demo_inodes_def demo_inode_def is_dir_def S_IFMT_def)
qed

theorem collect_descendants_returns_witness:
  "\<exists>r. collect_descendants_inodes demo_tree 8208 [] = Some r"
  by (rule collect_descendants_returns [OF demo_tree_fields(1) _ demo_tree_numbers demo_tree_find(1)]) (simp add: demo_tree_fields)

lemma collect_dirs_loop:
  assumes "collect_dirs st' ds desc = Some r" and "wrapper_inode st off = Inr i" and "is_dir i" and "i_child_count i = 1"
    and "find_inode st (ucast (i_child_index i)) = Inr off"
  shows "\<not> (st' = st \<and> (\<exists>ds'. ds = off # ds'))"
proof (rule collect_dirs.raw_induct [where P = "\<lambda>st' ds desc r. \<not> (st' = st \<and> (\<exists>ds'. ds = off # ds'))", rotated, OF assms(1)])
  fix rec st' ds desc r
  assume IH: "\<And>st' ds desc r. rec st' ds desc = Some r \<Longrightarrow> \<not> (st' = st \<and> (\<exists>ds'. ds = off # ds'))"
    and eq: "(case ds of [] \<Rightarrow> Some (Inr desc) | d # ds \<Rightarrow>
      opt_then (Some (wrapper_inode st' d)) (\<lambda>inode. if \<not> is_dir inode then Some (Inl ENOTDIR)
        else opt_then (Some (scan_children st' (ucast (i_child_index inode)) (unat (i_child_count inode)) [] desc))
          (\<lambda>(child_dirs, descendants). rec st' (child_dirs @ ds) descendants))) = Some r"
  show "\<not> (st' = st \<and> (\<exists>ds'. ds = off # ds'))"
  proof
    assume "st' = st \<and> (\<exists>ds'. ds = off # ds')"
    then obtain ds' where ds: "st' = st" "ds = off # ds'"
      by blast
    then have "rec st (off # ds') desc = Some r"
      using eq assms(2-5) by simp
    from IH [OF this] show False
      by simp
  qed
qed

text \<open>
  C37. The validation of inodes does not check that the inode in a slot of the inode table has the number
  of that slot.  When the slot of the only child of a directory refers to the directory itself,
  collecting the descendants of the directory, as prefetching does, never ends; the file is loaded
  and the directory is accepted nevertheless.
\<close>

theorem collect_descendants_loops:
  assumes "wrapper_inode st off = Inr i" and "is_dir i" and "i_child_count i = 1"
    and "find_inode st (ucast (i_child_index i)) = Inr off"
  shows "collect_descendants_inodes st off descendants = None"
  using collect_dirs_loop [OF _ assms, of st "[off]" descendants]
  by (cases "collect_dirs st [off] descendants") (simp_all add: collect_descendants_inodes_def)

definition loop_inodes :: "(RafsV5Inode \<times> u8) list" where
  "loop_inodes = [(demo_inode 1 0 0x41ED 2 1, 47), (demo_inode 2 1 0x81A4 0 0, 97), (demo_inode 3 1 0x81A4 0 0, 98)]"

definition loop_tree :: DirectMappingState where
  "loop_tree = demo_state [1026, 1026, 1060, 0] loop_inodes"

lemma loop_inodes_ok:
  "length loop_inodes = 3" "\<forall>p\<in>set loop_inodes. length (i_digest (fst p)) = 32 \<and> length (i_reserved (fst p)) = 8"
  by (simp_all add: loop_inodes_def demo_inode_def)

lemma loop_tree_find: "find_inode loop_tree 1 = Inr 8208" "find_inode loop_tree 2 = Inr 8208"
  "wrapper_inode loop_tree 8208 = Inr (demo_inode 1 0 0x41ED 2 1)"
proof -
  have fields: "dm_inode_table loop_tree = \<lparr>it_data = [1026, 1026, 1060]\<rparr>" "\<not> rm_is_chunk_dict (dm_meta loop_tree)"
    "rm_chunk_size (dm_meta loop_tree) = 0x100000"
    by (simp_all add: loop_tree_def demo_state_def demo_meta_def)
  show "find_inode loop_tree 1 = Inr 8208" "find_inode loop_tree 2 = Inr 8208"
    "wrapper_inode loop_tree 8208 = Inr (demo_inode 1 0 0x41ED 2 1)"
    using demo_ref(1, 3) [of "[1026, 1026, 1060, 0]" loop_inodes 0 8208, folded loop_tree_def, OF _ loop_inodes_ok]
    by (simp_all add: find_inode_def inode_validate_def RafsV5InodeTable_get_def fields RAFSV5_SUPERBLOCK_SIZE_def
        wrapper_inode_def unwrap_def loop_inodes_def demo_eval word_le_nat_alt Let_def)
qed

theorem collect_descendants_loops_witness:
  "try_load_v5 demo_map (Inr (of_nat (length (demo_content [1026, 1026, 1060, 0] loop_inodes))))
     (demo_content [1026, 1026, 1060, 0] loop_inodes) demo_meta False = Inr (Some loop_tree)
   \<and> find_inode loop_tree 1 = Inr 8208 \<and> collect_descendants_inodes loop_tree 8208 [] = None"
proof -
  have load: "try_load_v5 demo_map (Inr (of_nat (length (demo_content [1026, 1026, 1060, 0] loop_inodes))))
     (demo_content [1026, 1026, 1060, 0] loop_inodes) demo_meta False = Inr (Some loop_tree)"
    unfolding loop_tree_def by (rule demo_load [OF _ loop_inodes_ok]) simp
  have "is_dir (demo_inode 1 0 0x41ED 2 1)" "i_child_count (demo_inode 1 0 0x41ED 2 1) = 1"
    "find_inode loop_tree (ucast (i_child_index (demo_inode 1 0 0x41ED 2 1))) = Inr 8208"
    using loop_tree_find(2) by (simp_all add: demo_inode_def is_dir_def S_IFMT_def)
  from collect_descendants_loops [OF loop_tree_find(3) this] load loop_tree_find(1) show ?thesis
    by blast
qed

end
