(* ===== verification/Rafs_Io.thy ===== *)
theory Rafs_Io
  imports Rafs_V5_Dirs Read_Properties
begin

text \<open>
  From a range of a RAFS v5 file to the I/O descriptors of its chunks: \<open>rafsv5_alloc_bio_vecs\<close> of
  \<open>rafs/src/metadata/layout/v5.rs\<close>, the amplification of small reads of \<open>rafs/src/metadata/md_v5.rs\<close>,
  and the dispatch of descriptors to blobs by \<open>BlobDevice\<close> of \<open>storage/src/device.rs\<close>.
\<close>

section \<open>Descriptors for a range of a file\<close>

text \<open>\<open>V5IoChunk\<close>.\<close>

definition V5IoChunk :: "RafsV5ChunkInfo \<Rightarrow> BlobChunkInfo" where
  "V5IoChunk chunk =
     \<lparr>ci_chunk_id = rc_block_id chunk, ci_id = rc_index chunk, ci_blob_index = rc_blob_index chunk,
      ci_compressed_offset = rc_compressed_offset chunk, ci_compressed_size = rc_compressed_size chunk,
      ci_uncompressed_offset = rc_uncompressed_offset chunk, ci_uncompressed_size = rc_uncompressed_size chunk,
      ci_is_compressed = (rc_flags chunk AND 1 = 1)\<rparr>"

definition calculate_bio_chunk_index :: "u64 \<Rightarrow> u64 \<Rightarrow> u64 \<Rightarrow> u32 \<Rightarrow> bool \<Rightarrow> (u32 \<times> u32) res" where
  "calculate_bio_chunk_index offset end' chunk_size chunk_cnt hole =
     (if hole then Inr (0, chunk_cnt)
      else if chunk_size = 0 then Inl Panic
      else Inr (ucast (offset div chunk_size), min (ucast ((end' - 1) div chunk_size) + 1) chunk_cnt))"

definition add_chunk_to_bio_desc ::
  "BlobIoVec \<Rightarrow> u64 \<Rightarrow> u64 \<Rightarrow> RafsV5ChunkInfo \<Rightarrow> BlobInfo \<Rightarrow> bool \<Rightarrow> (BlobIoVec \<times> bool) res" where
  "add_chunk_to_bio_desc desc offset end' chunk blob user_io =
     (let file_offset = rc_file_offset chunk; uncompressed_size = ucast (rc_uncompressed_size chunk) in
      if offset \<ge> file_offset + uncompressed_size then Inr (desc, True)
      else if end' \<le> file_offset then Inr (desc, False)
      else
        let chunk_start = (if offset > file_offset then offset - file_offset else 0);
            chunk_end = (if end' < file_offset + uncompressed_size then end' - file_offset else uncompressed_size);
            bio = \<lparr>d_blob = blob, d_chunkinfo = V5IoChunk chunk, d_offset = ucast chunk_start,
                   d_size = ucast (chunk_end - chunk_start), d_user_io = user_io\<rparr>
        in and_then (BlobIoVec_push desc bio) (\<lambda>desc. Inr (desc, True)))"

fun alloc_loop ::
  "DirectMappingState \<Rightarrow> usize \<Rightarrow> u64 \<Rightarrow> u64 \<Rightarrow> bool \<Rightarrow> u32 \<Rightarrow> nat \<Rightarrow> BlobIoVec \<Rightarrow> BlobIoVec list \<Rightarrow> BlobIoVec list res" where
  "alloc_loop st inode offset end' user_io idx 0 desc descs = Inr (descs @ [desc])"
| "alloc_loop st inode offset end' user_io idx (Suc n) desc descs =
     and_then (get_chunk_info st inode idx) (\<lambda>chunk.
     and_then (RafsV5BlobTable_get (dm_blob_table st) (rc_blob_index chunk)) (\<lambda>blob.
     let (descs, desc) = (if bi_blob_index blob \<noteq> bi_blob_index (v_blob desc) then (descs @ [desc], BlobIoVec_new blob)
                          else (descs, desc))
     in and_then (add_chunk_to_bio_desc desc offset end' chunk blob user_io) (\<lambda>(desc, ok).
        if \<not> ok then Inl EINVAL else alloc_loop st inode offset end' user_io (idx + 1) n desc descs)))"

definition rafsv5_alloc_bio_vecs ::
  "DirectMappingState \<Rightarrow> usize \<Rightarrow> u64 \<Rightarrow> usize \<Rightarrow> bool \<Rightarrow> BlobIoVec list res" where
  "rafsv5_alloc_bio_vecs st off offset size' user_io =
     and_then (ok_or EINVAL (checked_add offset size')) (\<lambda>end'.
     and_then (wrapper_inode st off) (\<lambda>inode.
     and_then (calculate_bio_chunk_index offset end' (ucast (rm_chunk_size (dm_meta st))) (i_child_count inode)
                (has_hole inode)) (\<lambda>(index_start, index_end).
     if size' = 0 \<or> index_start \<ge> i_child_count inode then Inr []
     else
       and_then (get_chunk_info st off index_start) (\<lambda>chunk.
       and_then (RafsV5BlobTable_get (dm_blob_table st) (rc_blob_index chunk)) (\<lambda>blob.
       and_then (add_chunk_to_bio_desc (BlobIoVec_new blob) offset end' chunk blob user_io) (\<lambda>(desc, ok).
       if \<not> ok then Inl EINVAL
       else alloc_loop st off offset end' user_io (index_start + 1) (unat index_end - (unat index_start + 1)) desc []))))))"

section \<open>Amplification\<close>

definition merge_chunks_io :: "BlobIoVec \<Rightarrow> BlobIoVec \<Rightarrow> u64 \<Rightarrow> BlobIoVec res" where
  "merge_chunks_io orig vec max_gap =
     asserting (v_vec orig \<noteq> []) (
     if v_vec vec \<noteq> [] \<and> BlobIoDesc_is_continuous (last (v_vec orig)) (hd (v_vec vec)) max_gap
     then BlobIoVec_append orig vec else Inr orig)"

text \<open>The vectors of one file are merged into the last descriptor while they are of the same blob.\<close>

fun merge_vecs :: "BlobIoVec \<Rightarrow> BlobIoVec list \<Rightarrow> u64 \<Rightarrow> u64 \<Rightarrow> (BlobIoVec \<times> u64) res" where
  "merge_vecs last_desc [] max_gap window_size = Inr (last_desc, window_size)"
| "merge_vecs last_desc (vec # vecs) max_gap window_size =
     (if BlobIoVec_has_same_blob last_desc vec then
        and_then (merge_chunks_io last_desc vec max_gap) (\<lambda>last_desc.
        merge_vecs last_desc vecs max_gap
          (if window_size > ucast (v_size vec) then window_size - ucast (v_size vec) else 0))
      else merge_vecs last_desc vecs max_gap window_size)"

lemma find_inode_number:
  assumes "find_inode st (k + 1) = Inr off"
  shows "length (it_data (dm_inode_table st)) - unat (k + 1) < length (it_data (dm_inode_table st)) - unat k"
proof -
  have "k + 1 \<noteq> 0" "unat k < length (it_data (dm_inode_table st))"
    using assms by (auto simp: find_inode_def RafsV5InodeTable_get_def result_iffs split: if_splits)
  moreover from this have "unat (k + 1) = Suc (unat k)"
    by (metis add_diff_cancel_right' Suc_diff_1 unat_gt_0 unat_minus_one)
  ultimately show ?thesis
    by simp
qed

function amplify_loop ::
  "DirectMappingState \<Rightarrow> u64 \<Rightarrow> BlobIoVec \<Rightarrow> u64 \<Rightarrow> u64 \<Rightarrow> int \<Rightarrow> BlobIoVec res" where
  "amplify_loop st max_gap last_desc next_ino window_size max_tries =
     (if window_size > 0 \<and> max_tries > 0 then
        case find_inode st (next_ino + 1) of
          Inl e \<Rightarrow> if e = Panic then Inl Panic else Inr last_desc
        | Inr ni \<Rightarrow>
            and_then (wrapper_inode st ni) (\<lambda>inode.
            let again = amplify_loop st max_gap last_desc (next_ino + 1) window_size max_tries;
                chunk_size = ucast (rm_chunk_size (dm_meta st)) in
            if is_reg inode then
              if \<not> i_size inode < window_size \<and> \<not> window_size \<ge> chunk_size then
                if i_size inode = 0 then again else Inr last_desc
              else if \<not> i_size inode < window_size \<and> chunk_size = 0 then Inl Panic
              else
                let next_size = (if i_size inode < window_size then i_size inode
                                 else window_size div chunk_size * chunk_size)
                in and_then (rafsv5_alloc_bio_vecs st ni 0 next_size False) (\<lambda>vecs.
                   and_then (merge_vecs last_desc vecs max_gap window_size) (\<lambda>(last_desc, window_size).
                   amplify_loop st max_gap last_desc (next_ino + 1) window_size (max_tries - int (length vecs))))
            else again)
      else Inr last_desc)"
  by pat_completeness auto
termination
proof (relation "measure (\<lambda>(st, _, _, next_ino, _, _). length (it_data (dm_inode_table st)) - unat next_ino)", goal_cases)
  case 1
  then show ?case by simp
next
  case (2 st max_gap last_desc next_ino window_size max_tries ni inode)
  then show ?case
    using find_inode_number [of st next_ino ni] by simp
next
  case (3 st max_gap last_desc next_ino window_size max_tries ni inode)
  then show ?case
    using find_inode_number [of st next_ino ni] by simp
qed

declare amplify_loop.simps [simp del]

definition amplify_io ::
  "DirectMappingState \<Rightarrow> u32 \<Rightarrow> BlobIoVec list \<Rightarrow> usize \<Rightarrow> u64 \<Rightarrow> u64 \<Rightarrow> BlobIoVec list res" where
  "amplify_io st max_uncomp_size descs off window_base window_size =
     (let max_gap = drop_bit RAFS_MERGING_SIZE_TO_GAP_SHIFT (ucast max_uncomp_size) in
      and_then (wrapper_inode st off) (\<lambda>inode.
      if descs = [] \<or> v_vec (last descs) = [] then Inr descs
      else
        and_then
          (if window_base < i_size inode then
             and_then (rafsv5_alloc_bio_vecs st off window_base (min (i_size inode - window_base) window_size) False)
               (\<lambda>vecs. merge_vecs (last descs) vecs max_gap window_size)
           else Inr (last descs, window_size)) (\<lambda>(last_desc, window_size).
        and_then (amplify_loop st max_gap last_desc (i_ino inode) window_size 64) (\<lambda>last_desc.
        Inr (butlast descs @ [last_desc])))))"

section \<open>The blob device\<close>

record 'm BlobDevice =
  bd_blobs :: "'m FileCacheEntry list"
  bd_blob_count :: nat

fun chunks_ready :: "'m chunk_map_obj \<Rightarrow> 'm \<Rightarrow> BlobIoDesc list \<Rightarrow> bool res" where
  "chunks_ready ops cm [] = Inr True"
| "chunks_ready ops cm (desc # descs) =
     (case cm_is_ready ops cm (d_chunkinfo desc) of
        Inl e \<Rightarrow> if e = Panic then Inl Panic else Inr False
      | Inr ready \<Rightarrow> if ready then chunks_ready ops cm descs else Inr False)"

fun all_chunks_ready :: "'m chunk_map_obj \<Rightarrow> 'm BlobDevice \<Rightarrow> BlobIoVec list \<Rightarrow> bool res" where
  "all_chunks_ready ops dev [] = Inr True"
| "all_chunks_ready ops dev (io_vec # io_vecs) =
     (let index = unat (bi_blob_index (v_blob io_vec)) in
      if index < bd_blob_count dev then
        and_then (index_at (bd_blobs dev) index) (\<lambda>blob.
        and_then (chunks_ready ops (fe_chunk_map blob) (v_vec io_vec)) (\<lambda>ready.
        if ready then all_chunks_ready ops dev io_vecs else Inr False))
      else Inr False)"

text \<open>
  What a read changes: the device, the worker manager, the pending outcomes of reads of cache files and
  the bytes that were written to the reply.  A zero-copy writer of the FUSE library provides memory for
  a number of bytes, \<open>space\<close>, and takes over what was read into it.
\<close>

type_synonym writer_space = "nat \<Rightarrow> u8 list list res"

record 'm io_state =
  io_device :: "'m BlobDevice"
  io_mgr :: AsyncWorkerMgr
  io_preads :: "pread_result list"
  io_reply :: "u8 list"

text \<open>\<open>BlobDeviceIoVec::read_vectored_at_volatile\<close>.\<close>

definition read_vectored_at_volatile ::
  "'m chunk_map_obj \<Rightarrow> volatile_write \<Rightarrow> 'm io_state \<Rightarrow> BlobIoVec \<Rightarrow> u8 list list \<Rightarrow> ('m io_state, nat) run" where
  "read_vectored_at_volatile ops vw io iovec buffers =
     (let index = unat (bi_blob_index (v_blob iovec)); blobs = bd_blobs (io_device io) in
      if index < length blobs then
        case FileCacheEntry_read ops vw (io_mgr io) (blobs ! index) (io_preads io) iovec buffers of
          (mgr, None) \<Rightarrow> None
        | (mgr, Some (s, r)) \<Rightarrow>
            let io = io\<lparr>io_device := (io_device io)\<lparr>bd_blobs := blobs[index := rd_entry s]\<rparr>, io_mgr := mgr,
                        io_preads := rd_preads s\<rparr>
            in Some (case r of Inl e \<Rightarrow> (io, Inl e)
                     | Inr n \<Rightarrow> (io\<lparr>io_reply := io_reply io @ take n (concat (rd_mem s))\<rparr>, Inr n))
      else Some (io, Inl EINVAL))"

definition read_to ::
  "'m chunk_map_obj \<Rightarrow> volatile_write \<Rightarrow> writer_space \<Rightarrow> 'm io_state \<Rightarrow> BlobIoVec \<Rightarrow> ('m io_state, nat) run" where
  "read_to ops vw space io desc =
     (if v_vec desc = [] then Some (io, if v_size desc = 0 then Inr 0 else Inl EINVAL)
      else if unat (bi_blob_index (v_blob desc)) \<ge> bd_blob_count (io_device io) then Some (io, Inl EINVAL)
      else case space (unat (v_size desc)) of
          Inl e \<Rightarrow> Some (io, Inl e)
        | Inr buffers \<Rightarrow> read_vectored_at_volatile ops vw io desc buffers)"

section \<open>Alloc: slices of a file\<close>

text \<open>
  A file as the builder lays it out: chunks of the chunk size, the last one of the rest, at their
  positions in the file, each in a blob of the blob table.
\<close>

abbreviation (input) cs_of :: "DirectMappingState \<Rightarrow> nat" where
  "cs_of st \<equiv> unat (rm_chunk_size (dm_meta st))"

definition file_at :: "DirectMappingState \<Rightarrow> usize \<Rightarrow> RafsV5Inode \<Rightarrow> (nat \<Rightarrow> RafsV5ChunkInfo) \<Rightarrow> (nat \<Rightarrow> BlobInfo) \<Rightarrow> bool" where
  "file_at st off i c b \<longleftrightarrow>
     wrapper_inode st off = Inr i \<and> \<not> has_hole i \<and> 0 < cs_of st \<and> cs_of st \<le> 2 ^ 24 \<and>
     unat (i_child_count i) = (unat (i_size i) + cs_of st - 1) div cs_of st \<and> unat (i_size i) < 2 ^ 63 \<and>
     (\<forall>k<unat (i_child_count i).
        get_chunk_info st off (of_nat k) = Inr (c k) \<and> unat (rc_file_offset (c k)) = k * cs_of st \<and>
        unat (rc_uncompressed_size (c k)) = min (cs_of st) (unat (i_size i) - k * cs_of st) \<and>
        RafsV5BlobTable_get (dm_blob_table st) (rc_blob_index (c k)) = Inr (b k) \<and> bi_blob_index (b k) = rc_blob_index (c k))"

text \<open>The descriptor of the part of chunk \<open>k\<close> between \<open>o\<close> and \<open>e\<close>.\<close>

definition file_bio ::
  "nat \<Rightarrow> (nat \<Rightarrow> RafsV5ChunkInfo) \<Rightarrow> (nat \<Rightarrow> BlobInfo) \<Rightarrow> bool \<Rightarrow> nat \<Rightarrow> nat \<Rightarrow> nat \<Rightarrow> BlobIoDesc" where
  "file_bio cs c b user_io start end' k =
     \<lparr>d_blob = b k, d_chunkinfo = V5IoChunk (c k), d_offset = of_nat (max start (k * cs) - k * cs),
      d_size = of_nat (min end' (k * cs + unat (rc_uncompressed_size (c k))) - max start (k * cs)), d_user_io = user_io\<rparr>"

lemma add_chunk_ok:
  assumes "unat (rc_file_offset (c k)) = k * cs" and "unat (rc_uncompressed_size (c k)) \<le> 2 ^ 24" and "k * cs < 2 ^ 63"
    and "unat offset < k * cs + unat (rc_uncompressed_size (c k))" and "k * cs < unat end'"
    and "bi_blob_index (v_blob desc) = bi_blob_index (b k)" and "bi_blob_id (v_blob desc) = bi_blob_id (b k)"
    and "unat (v_size desc) + unat (d_size (file_bio cs c b user_io (unat offset) (unat end') k)) < 2 ^ 32"
    and "unat offset < unat end'"
  shows "add_chunk_to_bio_desc desc offset end' (c k) (b k) user_io =
    Inr (desc\<lparr>v_size := v_size desc + d_size (file_bio cs c b user_io (unat offset) (unat end') k),
              v_vec := v_vec desc @ [file_bio cs c b user_io (unat offset) (unat end') k]\<rparr>, True)"
proof -
  let ?fo = "rc_file_offset (c k)" and ?us = "ucast (rc_uncompressed_size (c k)) :: u64"
  have us: "unat ?us = unat (rc_uncompressed_size (c k))"
    by (simp add: unat_ucast_up)
  have sum: "unat (?fo + ?us) = k * cs + unat (rc_uncompressed_size (c k))"
    using assms(1-3) us by (subst unat_add_less) simp_all
  define cstart where "cstart = (if offset > ?fo then offset - ?fo else 0)"
  define cend where "cend = (if end' < ?fo + ?us then end' - ?fo else ?us)"
  have cstart: "unat cstart = max (unat offset) (k * cs) - k * cs"
    using assms(1) unat_sub [of ?fo offset] by (auto simp: cstart_def word_less_nat_alt word_le_nat_alt max_def)
  have cend: "unat cend = min (unat end') (k * cs + unat (rc_uncompressed_size (c k))) - k * cs"
    using assms(1, 5) sum us unat_sub [of ?fo end'] by (auto simp: cend_def word_less_nat_alt word_le_nat_alt min_def)
  have le: "unat cstart \<le> unat cend"
    using assms(4, 5, 9) unfolding cstart cend by auto
  then have diff: "unat (cend - cstart) = min (unat end') (k * cs + unat (rc_uncompressed_size (c k))) - max (unat offset) (k * cs)"
    using assms(4, 5, 9) unat_sub [of cstart cend] by (auto simp: word_le_nat_alt cstart cend)
  have casts: "(ucast w :: u32) = of_nat (unat w)" for w :: u64
    by simp
  have bio: "\<lparr>d_blob = b k, d_chunkinfo = V5IoChunk (c k), d_offset = ucast cstart, d_size = ucast (cend - cstart), d_user_io = user_io\<rparr>
      = file_bio cs c b user_io (unat offset) (unat end') k"
    unfolding casts diff cstart by (simp add: file_bio_def)
  have "\<not> offset \<ge> ?fo + ?us" "\<not> end' \<le> ?fo"
    using assms(1, 4, 5) sum by (simp_all add: word_le_nat_alt)
  then show ?thesis
    unfolding add_chunk_to_bio_desc_def Let_def cstart_def [symmetric] cend_def [symmetric] bio
    using assms(6-8) by (simp add: BlobIoVec_push_def checked_add_def) (simp add: file_bio_def)
qed

definition vec_ok :: "BlobIoVec \<Rightarrow> bool" where
  "vec_ok d \<longleftrightarrow> v_vec d \<noteq> [] \<and> (\<forall>x\<in>set (v_vec d). d_blob x = v_blob d) \<and> unat (v_size d) = run_len (map bio_piece (v_vec d))"

lemma file_at_chunk:
  assumes "file_at st off i c b" and "k < unat (i_child_count i)"
  shows "get_chunk_info st off (of_nat k) = Inr (c k)" "RafsV5BlobTable_get (dm_blob_table st) (rc_blob_index (c k)) = Inr (b k)"
    "bi_blob_index (b k) = rc_blob_index (c k)" "unat (rc_file_offset (c k)) = k * cs_of st"
    "unat (rc_uncompressed_size (c k)) = min (cs_of st) (unat (i_size i) - k * cs_of st)"
    "unat (rc_uncompressed_size (c k)) \<le> 2 ^ 24" "k * cs_of st < unat (i_size i)" "k * cs_of st < 2 ^ 63"
proof -
  show facts: "get_chunk_info st off (of_nat k) = Inr (c k)" "RafsV5BlobTable_get (dm_blob_table st) (rc_blob_index (c k)) = Inr (b k)"
    "bi_blob_index (b k) = rc_blob_index (c k)" "unat (rc_file_offset (c k)) = k * cs_of st"
    "unat (rc_uncompressed_size (c k)) = min (cs_of st) (unat (i_size i) - k * cs_of st)"
    "unat (rc_uncompressed_size (c k)) \<le> 2 ^ 24"
    using assms by (auto simp: file_at_def)
  have "(k + 1) * cs_of st \<le> unat (i_child_count i) * cs_of st"
    using assms(2) by (intro mult_le_mono1) simp
  also have "\<dots> \<le> unat (i_size i) + cs_of st - 1"
    using assms(1) div_times_less_eq_dividend [of "unat (i_size i) + cs_of st - 1" "cs_of st"] by (simp add: file_at_def)
  finally have "(k + 1) * cs_of st \<le> unat (i_size i) + cs_of st - 1" .
  moreover have "0 < cs_of st" "unat (i_size i) < 2 ^ 63"
    using assms by (auto simp: file_at_def)
  ultimately show "k * cs_of st < unat (i_size i)" "k * cs_of st < 2 ^ 63"
    by auto
qed

lemma same_blob:
  assumes "file_at st off i c b" and "j < unat (i_child_count i)" and "k < unat (i_child_count i)" and "bi_blob_index (b j) = bi_blob_index (b k)"
  shows "b j = b k"
  using assms file_at_chunk(2, 3) [OF assms(1, 2)] file_at_chunk(2, 3) [OF assms(1, 3)] by simp

lemma alloc_loop_ok:
  fixes user_io :: bool
  assumes fileat: "file_at st off i c b" and range: "unat offset < unat end'"
  defines "bio \<equiv> file_bio (cs_of st) c b user_io (unat offset) (unat end')"
  shows "\<lbrakk>\<And>k. idx \<le> k \<Longrightarrow> k < idx + n \<Longrightarrow> k < unat (i_child_count i) \<and>
            unat offset < k * cs_of st + unat (rc_uncompressed_size (c k)) \<and> k * cs_of st < unat end';
          unat (v_size desc) + run_len (map (\<lambda>k. bio_piece (bio k)) [idx..<idx + n]) < 2 ^ 32;
          vec_ok desc; \<exists>j<unat (i_child_count i). v_blob desc = b j\<rbrakk> \<Longrightarrow>
    \<exists>descs'. alloc_loop st off offset end' user_io (of_nat idx) n desc descs = Inr (descs @ descs') \<and> descs' \<noteq> [] \<and>
      concat (map v_vec descs') = v_vec desc @ map bio [idx..<idx + n] \<and> (\<forall>d\<in>set descs'. vec_ok d)"
proof (induction n arbitrary: idx desc descs)
  case 0
  then show ?case
    by (intro exI [of _ "[desc]"]) simp
next
  case (Suc n)
  have idx: "idx < unat (i_child_count i)" "unat offset < idx * cs_of st + unat (rc_uncompressed_size (c idx))"
    "idx * cs_of st < unat end'"
    using Suc.prems(1) [of idx] by auto
  note chunk = file_at_chunk [OF fileat idx(1)]
  obtain j where j: "j < unat (i_child_count i)" "v_blob desc = b j"
    using Suc.prems(4) by blast
  have upt: "[idx..<idx + Suc n] = idx # [Suc idx..<Suc idx + n]"
    by (simp add: upt_conv_Cons)
  define desc0 where "desc0 = (if bi_blob_index (b idx) \<noteq> bi_blob_index (v_blob desc) then BlobIoVec_new (b idx) else desc)"
  define descs0 where "descs0 = (if bi_blob_index (b idx) \<noteq> bi_blob_index (v_blob desc) then descs @ [desc] else descs)"
  define done0 where "done0 = (if bi_blob_index (b idx) \<noteq> bi_blob_index (v_blob desc) then [desc] else [])"
  have blob0: "v_blob desc0 = b idx"
    using same_blob [OF fileat j(1) idx(1)] j(2) by (auto simp: desc0_def BlobIoVec_new_def)
  have size0: "unat (v_size desc0) \<le> unat (v_size desc)" "unat (v_size desc0) = run_len (map bio_piece (v_vec desc0))"
    "\<forall>x\<in>set (v_vec desc0). d_blob x = v_blob desc0"
    using Suc.prems(3) by (auto simp: desc0_def BlobIoVec_new_def vec_ok_def)
  have room: "unat (v_size desc0) + unat (d_size (bio idx)) < 2 ^ 32"
    "unat (v_size desc0) + unat (d_size (bio idx)) + run_len (map (\<lambda>k. bio_piece (bio k)) [Suc idx..<Suc idx + n]) < 2 ^ 32"
  proof -
    have "run_len (map (\<lambda>k. bio_piece (bio k)) [idx..<idx + Suc n])
        = unat (d_size (bio idx)) + run_len (map (\<lambda>k. bio_piece (bio k)) [Suc idx..<Suc idx + n])"
      unfolding upt by simp
    then show "unat (v_size desc0) + unat (d_size (bio idx)) < 2 ^ 32"
      "unat (v_size desc0) + unat (d_size (bio idx)) + run_len (map (\<lambda>k. bio_piece (bio k)) [Suc idx..<Suc idx + n]) < 2 ^ 32"
      using Suc.prems(2) size0(1) by linarith+
  qed
  define desc1 where "desc1 = desc0\<lparr>v_size := v_size desc0 + d_size (bio idx), v_vec := v_vec desc0 @ [bio idx]\<rparr>"
  have add: "add_chunk_to_bio_desc desc0 offset end' (c idx) (b idx) user_io = Inr (desc1, True)"
    unfolding desc1_def bio_def using room(1) blob0 range
    by (intro add_chunk_ok [where c = c and b = b and k = idx and cs = "cs_of st", OF chunk(4, 6, 8) idx(2, 3)])
      (simp_all add: bio_def)
  have "d_blob (bio idx) = b idx"
    by (simp add: bio_def file_bio_def)
  then have ok1: "vec_ok desc1" "unat (v_size desc1) = unat (v_size desc0) + unat (d_size (bio idx))"
    using size0 room(1) blob0 by (auto simp: desc1_def vec_ok_def unat_add_less)
  have "\<exists>descs'. alloc_loop st off offset end' user_io (of_nat (Suc idx)) n desc1 descs0 = Inr (descs0 @ descs') \<and> descs' \<noteq> [] \<and>
      concat (map v_vec descs') = v_vec desc1 @ map bio [Suc idx..<Suc idx + n] \<and> (\<forall>d\<in>set descs'. vec_ok d)"
  proof (rule Suc.IH [OF _ _ ok1(1)])
    show "\<exists>j<unat (i_child_count i). v_blob desc1 = b j"
      using blob0 idx(1) by (auto simp: desc1_def)
    show "unat (v_size desc1) + run_len (map (\<lambda>k. bio_piece (bio k)) [Suc idx..<Suc idx + n]) < 2 ^ 32"
      using room(2) ok1(2) by linarith
  qed (use Suc.prems(1) in auto)
  then obtain descs' where descs': "alloc_loop st off offset end' user_io (of_nat (Suc idx)) n desc1 descs0 = Inr (descs0 @ descs')"
    "descs' \<noteq> []" "concat (map v_vec descs') = v_vec desc1 @ map bio [Suc idx..<Suc idx + n]" "\<forall>d\<in>set descs'. vec_ok d"
    by blast
  have "alloc_loop st off offset end' user_io (of_nat idx) (Suc n) desc descs
      = alloc_loop st off offset end' user_io (of_nat (Suc idx)) n desc1 descs0"
    using chunk(1, 2) add by (cases "bi_blob_index (b idx) \<noteq> bi_blob_index (v_blob desc)") (auto simp: desc0_def descs0_def add.commute)
  moreover have "descs0 @ descs' = descs @ (done0 @ descs')" "\<forall>d\<in>set (done0 @ descs'). vec_ok d"
    using descs'(4) Suc.prems(3) by (auto simp: descs0_def done0_def)
  moreover have "concat (map v_vec (done0 @ descs')) = v_vec desc @ map bio [idx..<idx + Suc n]"
    unfolding upt using descs'(3) by (auto simp: done0_def desc1_def desc0_def BlobIoVec_new_def simp del: upt_Suc)
  ultimately show ?case
    using descs'(1, 2) by (intro exI [of _ "done0 @ descs'"]) auto
qed

text \<open>The parts of consecutive blocks between two positions are a slice of their concatenation.\<close>

lemma blocks_slice:
  assumes "\<And>k. k < N \<Longrightarrow> S k = length (concat (map X [0..<k]))"
  shows "concat (map (\<lambda>k. take (min e (S k + length (X k)) - max o' (S k)) (drop (max o' (S k) - S k) (X k))) [0..<N])
    = take (e - o') (drop o' (concat (map X [0..<N])))"
  using assms
proof (induction N)
  case (Suc N)
  let ?f = "concat (map X [0..<N])" and ?x = "X N"
  have S: "S N = length ?f"
    using Suc.prems by simp
  have "take (min e (S N + length ?x) - max o' (S N)) (drop (max o' (S N) - S N) ?x)
      = take (e - o' - (length ?f - o')) (drop (o' - length ?f) ?x)"
  proof (cases "o' \<le> S N")
    case True
    then show ?thesis
      by (cases "e \<le> S N + length ?x") (auto simp: S [symmetric] max_def min_def)
  next
    case False
    then show ?thesis
      by (cases "e \<le> S N + length ?x") (auto simp: S [symmetric] max_def min_def)
  qed
  then show ?case
    using Suc by (simp add: take_append)
qed simp

text \<open>The bytes of a file, from the contents of its chunks.\<close>

definition file_bytes :: "(BlobChunkInfo \<Rightarrow> u8 list) \<Rightarrow> (nat \<Rightarrow> RafsV5ChunkInfo) \<Rightarrow> nat \<Rightarrow> u8 list" where
  "file_bytes cont c n = concat (map (\<lambda>k. cont (V5IoChunk (c k))) [0..<n])"

definition file_content :: "DirectMappingState \<Rightarrow> usize \<Rightarrow> RafsV5Inode \<Rightarrow> (nat \<Rightarrow> RafsV5ChunkInfo) \<Rightarrow> (BlobChunkInfo \<Rightarrow> u8 list) \<Rightarrow> bool" where
  "file_content st off i c cont \<longleftrightarrow>
     (\<forall>k<unat (i_child_count i). length (cont (V5IoChunk (c k))) = unat (rc_uncompressed_size (c k)))"

lemma file_bytes_length:
  assumes "file_at st off i c b" and "file_content st off i c cont" and "k \<le> unat (i_child_count i)"
  shows "length (file_bytes cont c k) = min (k * cs_of st) (unat (i_size i))"
  using assms(3)
proof (induction k)
  case (Suc k)
  then have "length (cont (V5IoChunk (c k))) = min (cs_of st) (unat (i_size i) - k * cs_of st)"
    using assms(2) file_at_chunk(5) [OF assms(1), of k] by (auto simp: file_content_def)
  moreover have "k * cs_of st < unat (i_size i)"
    using file_at_chunk(7) [OF assms(1), of k] Suc.prems by simp
  ultimately show ?case
    using Suc by (simp add: file_bytes_def)
qed (simp add: file_bytes_def)

text \<open>The pieces between two positions of a file.\<close>

lemma file_pieces:
  fixes user_io :: bool
  assumes "file_at st off i c b" and "file_content st off i c cont" and "start < end'" and "end' \<le> unat (i_size i)"
  defines "cs \<equiv> cs_of st"
  defines "a \<equiv> start div cs" and "z \<equiv> Suc ((end' - 1) div cs)"
  defines "ps \<equiv> map (\<lambda>k. bio_piece (file_bio cs c b user_io start end' k)) [a..<z]"
  shows "a < z" and "z \<le> unat (i_child_count i)"
    and "\<And>k. a \<le> k \<Longrightarrow> k < z \<Longrightarrow> start < k * cs + unat (rc_uncompressed_size (c k)) \<and> k * cs < end'"
    and "run_bytes cont ps = take (end' - start) (drop start (file_bytes cont c (unat (i_child_count i))))"
    and "run_len ps = end' - start"
proof -
  let ?n = "unat (i_child_count i)"
  have cs: "0 < cs" "?n = (unat (i_size i) + cs - 1) div cs"
    using assms(1) by (auto simp: file_at_def cs_def)
  show "a < z"
    using assms(3) div_le_mono [of start "end' - 1" cs] by (simp add: a_def z_def less_Suc_eq_le)
  have "(end' - 1) div cs + 1 = (end' - 1 + cs) div cs"
    using cs(1) by (subst div_add_self2) auto
  also have "\<dots> \<le> (unat (i_size i) + cs - 1) div cs"
    using assms(3, 4) by (intro div_le_mono) simp
  finally show zn: "z \<le> ?n"
    unfolding cs(2) z_def by simp
  have usz: "unat (rc_uncompressed_size (c k)) = min cs (unat (i_size i) - k * cs)" "unat (rc_uncompressed_size (c k)) \<le> 2 ^ 24"
    "k * cs < unat (i_size i)" "length (cont (V5IoChunk (c k))) = unat (rc_uncompressed_size (c k))" if "k < ?n" for k
    using file_at_chunk(5, 6, 7) [OF assms(1) that] assms(2) that by (auto simp: cs_def file_content_def)
  have lower: "start < Suc a * cs" "a * cs \<le> start"
    using cs(1) dividend_less_div_times [of cs start] by (auto simp: a_def add.commute)
  have upper: "(z - 1) * cs \<le> end' - 1" "end' \<le> z * cs"
    using cs(1) dividend_less_div_times [of cs "end' - 1"] assms(3) by (auto simp: z_def add.commute)
  show inside: "start < k * cs + unat (rc_uncompressed_size (c k)) \<and> k * cs < end'" if "a \<le> k" "k < z" for k
  proof -
    have "k * cs \<le> (z - 1) * cs" "Suc a * cs \<le> Suc k * cs"
      using that by (intro mult_le_mono1; simp)+
    moreover have "Suc k * cs = k * cs + cs"
      by simp
    ultimately have "k * cs < end'" "start < k * cs + cs"
      using lower(1) upper(1) assms(3) by linarith+
    moreover have "unat (rc_uncompressed_size (c k)) = min cs (unat (i_size i) - k * cs)"
      using usz(1) [of k] that zn by simp
    ultimately show ?thesis
      using assms(3, 4) by linarith
  qed
  have small: "unat (of_nat (max start (k * cs) - k * cs) :: u32) = max start (k * cs) - k * cs"
    "unat (of_nat (min end' (k * cs + unat (rc_uncompressed_size (c k))) - max start (k * cs)) :: u32)
      = min end' (k * cs + unat (rc_uncompressed_size (c k))) - max start (k * cs)" if "a \<le> k" "k < z" for k
  proof -
    have "unat (rc_uncompressed_size (c k)) \<le> 2 ^ 24"
      using usz(2) [of k] that zn by simp
    then show "unat (of_nat (max start (k * cs) - k * cs) :: u32) = max start (k * cs) - k * cs"
      "unat (of_nat (min end' (k * cs + unat (rc_uncompressed_size (c k))) - max start (k * cs)) :: u32)
        = min end' (k * cs + unat (rc_uncompressed_size (c k))) - max start (k * cs)"
      using inside [OF that] by (intro unat_of_nat_less; auto)+
  qed
  let ?part = "\<lambda>k. take (min end' (k * cs + length (cont (V5IoChunk (c k)))) - max start (k * cs))
      (drop (max start (k * cs) - k * cs) (cont (V5IoChunk (c k))))"
  have piece: "piece_bytes cont (bio_piece (file_bio cs c b user_io start end' k)) = ?part k"
    "length (?part k) = piece_len (bio_piece (file_bio cs c b user_io start end' k))" if "a \<le> k" "k < z" for k
    using small [OF that] usz(4) [of k] inside [OF that] that zn
    by (auto simp: piece_bytes_def file_bio_def intro!: min.absorb2 diff_le_mono min.coboundedI2)
  have outside: "?part k = []" if "k < ?n" "k < a \<or> z \<le> k" for k
  proof (cases "k < a")
    case True
    then have "Suc k * cs \<le> a * cs"
      by (intro mult_le_mono1) simp
    moreover have "k * cs + length (cont (V5IoChunk (c k))) \<le> Suc k * cs"
      using usz(1, 4) [OF that(1)] by simp
    ultimately have "min end' (k * cs + length (cont (V5IoChunk (c k)))) - max start (k * cs) = 0"
      using lower(2) by linarith
    then show ?thesis
      by simp
  next
    case False
    then have "z * cs \<le> k * cs"
      using that by (intro mult_le_mono1) simp
    then have "min end' (k * cs + length (cont (V5IoChunk (c k)))) - max start (k * cs) = 0"
      using upper(2) by linarith
    then show ?thesis
      by simp
  qed
  have "[0..<?n] = [0..<a] @ [a..<z] @ [z..<?n]"
    using \<open>a < z\<close> zn upt_add_eq_append [of 0 a "?n - a"] upt_add_eq_append [of a z "?n - z"] by simp
  moreover have "map ?part [0..<a] = map (\<lambda>_. []) [0..<a]" "map ?part [z..<?n] = map (\<lambda>_. []) [z..<?n]"
    by (intro map_cong refl outside; use \<open>a < z\<close> zn in auto)+
  moreover have "concat (map (\<lambda>_. [] :: u8 list) xs) = []" for xs :: "nat list"
    by simp
  ultimately have "concat (map ?part [0..<?n]) = concat (map ?part [a..<z])"
    by (simp only: map_append concat_append append_Nil append_Nil2)
  moreover have "concat (map ?part [0..<?n]) = take (end' - start) (drop start (file_bytes cont c ?n))"
    unfolding file_bytes_def
  proof (rule blocks_slice)
    fix k assume "k < ?n"
    then show "k * cs = length (concat (map (\<lambda>k. cont (V5IoChunk (c k))) [0..<k]))"
      using file_bytes_length [OF assms(1, 2), of k] usz(3) [of k] by (simp add: file_bytes_def cs_def)
  qed
  moreover have rb: "run_bytes cont ps = concat (map ?part [a..<z])"
    unfolding ps_def run_bytes_def using piece(1) by (auto intro!: arg_cong [where f = concat])
  ultimately show bytes: "run_bytes cont ps = take (end' - start) (drop start (file_bytes cont c ?n))"
    by simp
  have "run_len ps = sum_list (map (\<lambda>k. length (?part k)) [a..<z])"
    unfolding ps_def run_len_def using piece(2) by (auto intro!: arg_cong [where f = sum_list])
  also have "\<dots> = length (concat (map ?part [a..<z]))"
    by (simp add: length_concat comp_def)
  also have "\<dots> = end' - start"
  proof -
    have "unat (i_size i) + cs - 1 < cs + ?n * cs"
      unfolding cs(2) using cs(1) by (rule dividend_less_div_times)
    then have "length (file_bytes cont c ?n) = unat (i_size i)"
      using file_bytes_length [OF assms(1, 2), of ?n] cs(1) by (simp add: cs_def)
    then show ?thesis
      unfolding rb [symmetric] bytes using assms(4) by simp
  qed
  finally show "run_len ps = end' - start" .
qed


section \<open>A file in two blobs\<close>

lemma chunk_at_append:
  assumes "length (rc_block_id c) = 32"
  shows "chunk_at (pre @ chunk_as_ref c @ post) (length pre) = c"
  using assms by (simp add: chunk_at_def chunk_as_ref_def rd32_def rd64_def)

definition demo_file_inode :: RafsV5Inode where
  "demo_file_inode = (demo_inode 2 1 0x81A4 0 2)\<lparr>i_size := 5\<rparr>"

definition demo_file_chunk :: "nat \<Rightarrow> RafsV5ChunkInfo" where
  "demo_file_chunk k =
     \<lparr>rc_block_id = replicate 32 (of_nat k), rc_blob_index = of_nat k, rc_flags = 0, rc_compressed_size = (if k = 0 then 4 else 1),
      rc_uncompressed_size = (if k = 0 then 4 else 1), rc_compressed_offset = 0, rc_uncompressed_offset = 0,
      rc_file_offset = 4 * of_nat k, rc_index = 0, rc_reserved = 0\<rparr>"

definition demo_file_blob :: "nat \<Rightarrow> BlobInfo" where
  "demo_file_blob k = BlobInfo_new (of_nat k) (if k = 0 then ''a'' else ''b'') 4096 4096 4096 1 0"

definition demo_file :: DirectMappingState where
  "demo_file =
     \<lparr>dm_meta = Rafs_V5_Safety.demo_meta\<lparr>rm_chunk_size := 4\<rparr>, dm_inode_table = \<lparr>it_data = [0, 0]\<rparr>,
      dm_blob_table = \<lparr>bt_entries = [demo_file_blob 0, demo_file_blob 1], bt_extended = []\<rparr>,
      dm_file_map = \<lparr>fm_base = 4096, fm_end = 4392, fm_size = 296,
        fm_data = inode_as_ref demo_file_inode @ (97 # replicate 7 0) @ chunk_as_ref (demo_file_chunk 0) @ chunk_as_ref (demo_file_chunk 1)\<rparr>,
      dm_validate_inode = False\<rparr>"

lemma demo_file_refs:
  "ref_inode demo_file 0 = Inr demo_file_inode" "ref_chunk demo_file 136 = Inr (demo_file_chunk 0)"
  "ref_chunk demo_file 216 = Inr (demo_file_chunk 1)"
proof -
  let ?i = "inode_as_ref demo_file_inode" and ?n = "97 # replicate 7 0 :: u8 list"
    and ?c = "\<lambda>k. chunk_as_ref (demo_file_chunk k)"
  let ?data = "?i @ ?n @ ?c 0 @ ?c 1"
  have len: "length ?i = 128" "length (?c k) = 80" for k
    by (simp_all add: inode_as_ref_def demo_file_inode_def demo_inode_def chunk_as_ref_def demo_file_chunk_def)
  have data: "fm_data (dm_file_map demo_file) = ?data"
    by (simp add: demo_file_def)
  have wf: "wf_filemap (dm_file_map demo_file)"
    using len by (simp add: wf_filemap_def demo_file_def)
  have "inode_at ([] @ ?data) (length ([] :: u8 list)) = demo_file_inode"
    by (intro inode_at_append) (simp_all add: demo_file_inode_def demo_inode_def)
  moreover have "chunk_at ((?i @ ?n) @ ?c 0 @ ?c 1) (length (?i @ ?n)) = demo_file_chunk 0"
    "chunk_at ((?i @ ?n @ ?c 0) @ ?c 1 @ []) (length (?i @ ?n @ ?c 0)) = demo_file_chunk 1"
    by (intro chunk_at_append; simp add: demo_file_chunk_def)+
  ultimately show "ref_inode demo_file 0 = Inr demo_file_inode" "ref_chunk demo_file 136 = Inr (demo_file_chunk 0)"
    "ref_chunk demo_file 216 = Inr (demo_file_chunk 1)"
    by (simp_all add: ref_iffs(1, 3) [OF wf] data len)
qed

lemma demo_file_at: "file_at demo_file 0 demo_file_inode demo_file_chunk demo_file_blob"
proof -
  have inode: "wrapper_inode demo_file 0 = Inr demo_file_inode"
    by (simp add: wrapper_inode_def demo_file_refs unwrap_def)
  have fields: "i_child_count demo_file_inode = 2" "i_size demo_file_inode = 5" "\<not> has_hole demo_file_inode" "is_reg demo_file_inode"
    "\<not> inode_has_xattr demo_file_inode" "RafsV5Inode_size demo_file_inode = 136" "rm_chunk_size (dm_meta demo_file) = 4"
    by (simp_all add: demo_file_inode_def demo_eval RafsV5Inode_size_def rafsv5_align_def demo_file_def)
  have chunks: "get_chunk_info demo_file 0 0 = Inr (demo_file_chunk 0)" "get_chunk_info demo_file 0 1 = Inr (demo_file_chunk 1)"
    by (simp_all add: get_chunk_info_def inode fields demo_file_refs Let_def word_le_nat_alt)
  have "RafsV5BlobTable_get (dm_blob_table demo_file) 0 = Inr (demo_file_blob 0)"
    "RafsV5BlobTable_get (dm_blob_table demo_file) 1 = Inr (demo_file_blob 1)"
    by (simp_all add: RafsV5BlobTable_get_def demo_file_def index_at_def word_le_nat_alt)
  moreover have "bi_blob_index (demo_file_blob k) = of_nat k" for k
    by (simp add: demo_file_blob_def BlobInfo_new_def compute_features_def)
  ultimately show ?thesis
    using inode fields chunks
    by (auto simp: file_at_def demo_file_chunk_def dest: less_2_cases)
qed


end
