(* ===== verification/Spec2Isabelle.thy ===== *)
theory Spec2Isabelle
  imports Persist_Conc Persist_Recovery Blob_State_Conc Io_Merge Read_Properties Inode_Bitmap Daemon Rafs_Io
begin

text \<open>
  Verification of the Nydus image service.

  \<^bold>\<open>The program.\<close> A Nydus image is a metadata file (the bootstrap, in a RAFS format) and data blobs that
  are stored at a remote backend as compressed chunks.  \<^verbatim>\<open>nydusd\<close> mounts the image: a request of the kernel is a
  range of a file; \<^verbatim>\<open>rafs\<close> turns the range into descriptors of parts of chunks; \<^verbatim>\<open>storage\<close> serves
  descriptors from a local cache file, and fetches, decodes and checks the chunks that are missing.  A
  chunk map, a bitmap in a file that several processes map, records which chunks are in the cache; an
  in-flight table keeps two threads from fetching the same chunk; worker threads prefetch in the
  background.  The development follows this path from the metadata file to the bytes in user memory.
  Paths below are relative to \<^verbatim>\<open>src/\<close>.

  \<^bold>\<open>Conventions.\<close> The integers of the source are words of their width, with the wrap-around of a release
  build.  A fallible function returns \<open>'a res\<close>, an error kind or a result; \<open>Panic\<close> stands for a failed
  assertion, \<open>unwrap\<close> or index.  A record has the name of its struct and a prefix for its fields;
  \<open>Type_method\<close> is the method of that type.  State is passed explicitly.  Environment that is not part of
  the source, such as mmap, backends, codecs, hash functions, system calls that may fail or be
  interrupted, and the memory of the FUSE library, is a parameter: a function or a list of outcomes.
  A theorem names what it relies on (\<open>mmap_spec\<close>, \<open>serves\<close>, \<open>volatile_spec\<close> and so on), and its witness
  instantiates it.

  \<^bold>\<open>Theories.\<close>

  \<^item> \<^verbatim>\<open>Nydus_Prelude\<close>: words, errors, sequencing, little-endian bytes, shared lemmas.
    \<^verbatim>\<open>Rounding\<close>: \<^verbatim>\<open>utils/src/lib.rs\<close>, 4K rounding.
    \<^verbatim>\<open>File_Map\<close>: \<^verbatim>\<open>utils/src/filemap.rs\<close>, references into a mapped file are inside it and aligned.
    \<^verbatim>\<open>Codec\<close>: \<^verbatim>\<open>utils/src/compress\<close>, \<^verbatim>\<open>utils/src/digest.rs\<close>; compression round trip.
    \<^verbatim>\<open>Inode_Bitmap\<close>: \<^verbatim>\<open>utils/src/inode_bitmap.rs\<close>, refinement to a set of numbers.
  \<^item> \<^verbatim>\<open>Blob_Device\<close>, \<^verbatim>\<open>Io_Merge\<close>: \<^verbatim>\<open>storage/src/device.rs\<close> and the merging of requests in
    \<^verbatim>\<open>storage/src/cache/mod.rs\<close>.  Merging neither loses, repeats nor reorders a descriptor.
  \<^item> \<^verbatim>\<open>Persist_Map\<close>, \<^verbatim>\<open>Persist_Recovery\<close>, \<^verbatim>\<open>Persist_Conc\<close>, \<^verbatim>\<open>Chunk_Map\<close>: \<^verbatim>\<open>storage/src/cache/state\<close>,
    the readiness bitmap, its recovery when a file is opened again, and its atomic updates.
    \<^verbatim>\<open>Persist_Conc\<close> interleaves any number of \<open>set_chunk_ready\<close> calls at the granularity of atomic accesses.
    The locale \<open>chunk_map\<close> is the contract of a chunk map, interpreted on the indexed and the digested map.
  \<^item> \<^verbatim>\<open>Blob_State_Map\<close>, \<^verbatim>\<open>Blob_State_Conc\<close>: \<^verbatim>\<open>blob_state_map.rs\<close>, the in-flight table.  The locale
    \<open>range_map\<close> is the contract of range operations, interpreted on chunks and on bytes.  A step relation
    for threads gives mutual exclusion and that no waiting thread is stranded.
  \<^item> \<^verbatim>\<open>Chunk_Info\<close>, \<^verbatim>\<open>Blob_Meta\<close>, \<^verbatim>\<open>Meta_File\<close>: \<^verbatim>\<open>storage/src/meta\<close>, the chunk tables of a blob: formats 1 and 2
    (locale \<open>chunk_format\<close>, interpreted on both), the search for chunks, amplification of requests, the
    file they are kept in, and the inflate contexts of ZRan blobs.
  \<^item> \<^verbatim>\<open>Mem_Cursor\<close>, \<^verbatim>\<open>Chunk_Reader\<close>: \<^verbatim>\<open>storage/src/utils.rs\<close>, \<^verbatim>\<open>storage/src/backend/mod.rs\<close> and
    \<^verbatim>\<open>storage/src/cache/mod.rs\<close>; scattered memory, reading and decoding of chunks.
  \<^item> \<^verbatim>\<open>Cached_File\<close>, \<^verbatim>\<open>Cache_Coherence\<close>, \<^verbatim>\<open>Fetch_Properties\<close>: the fetching half of
    \<^verbatim>\<open>storage/src/cache/cachedfile.rs\<close>.  Coherence, that every chunk marked ready is in the cache file, is
    kept on every path.  The proofs use the chunk map through the locales \<open>tracker\<close> and
    \<open>tracker_live\<close>, which are interpreted on the state map over the indexed chunk map.
  \<^item> \<^verbatim>\<open>Prefetch_Workers\<close>: \<^verbatim>\<open>storage/src/cache/worker.rs\<close> and \<^verbatim>\<open>utils/src/mpmc.rs\<close>; a step relation of the
    manager, the channel and the worker threads.
  \<^item> \<^verbatim>\<open>Cached_Read\<close>, \<^verbatim>\<open>Read_Correct\<close>, \<^verbatim>\<open>Read_Properties\<close>: the reading half of \<^verbatim>\<open>cachedfile.rs\<close>; a read
    that reports success has delivered the bytes of the blob, and reads succeed when nothing fails.
    \<open>tracker_answers\<close> extends \<open>tracker\<close> by what readers rely on.
  \<^item> \<^verbatim>\<open>Rafs_Layout\<close>, \<^verbatim>\<open>Rafs_V5_Layout\<close>: \<^verbatim>\<open>rafs/src/metadata/layout\<close>, the metadata formats; round trips, and
    what the validation of a super block guarantees.
  \<^item> \<^verbatim>\<open>Rafs_V5\<close>, \<^verbatim>\<open>Rafs_V5_Safety\<close>, \<^verbatim>\<open>Rafs_V5_Dirs\<close>: \<^verbatim>\<open>rafs/src/metadata/direct_v5.rs\<close>, the file system over a
    mapped metadata file that may be malicious; safety of accesses, lookup, directory walks, and
    when the collection of descendants ends.
  \<^item> \<^verbatim>\<open>Rafs_Io\<close>: from a file range to descriptors (\<^verbatim>\<open>layout/v5.rs\<close>, \<^verbatim>\<open>md_v5.rs\<close>) and \<open>BlobDevice\<close>, which
    hands them to the caches.  The descriptors are exactly the bytes of the range.
  \<^item> \<^verbatim>\<open>Daemon\<close>: \<^verbatim>\<open>src/bin/nydusd/daemon.rs\<close> and \<^verbatim>\<open>fusedev.rs\<close>, the state machine of the FUSE daemon,
    when it stops and when it cannot be stopped.

  The properties are numbered C1 to C40 in the order of importance and stand in the theory of their
  component.  Five of them describe faults: inputs or failures on which the code misbehaves.

  \<^bold>\<open>Loops.\<close> Loops over data are structural or have a termination proof.  Loops that may not end return
  options and \<open>None\<close> is not returning: \<open>copy_one\<close>, \<open>rafsv5_validate_inode\<close> and \<open>collect_dirs\<close> are least fixed
  points, reads have the type \<open>run\<close>.  The theorems on them state that a result is returned.  Retry loops on
  interrupted system calls consume the list of outcomes of these calls and so end with it.  The wait
  for metadata makes at most 20 attempts, as in the code.  No fuel is used.

  \<^bold>\<open>Concurrency.\<close> \<open>set_step\<close>, \<open>bsm_step\<close>, \<open>aw_step\<close> and \<open>daemon_step\<close> interleave atomic accesses or critical
  sections; memory is sequentially consistent.  Reads and fetches are sequential programs in which
  other threads appear through what the chunk map answers and through the time limits of waits.

  \<^bold>\<open>Not modelled.\<close> Log messages, statistics and the text of errors.  The FUSE front end \<^verbatim>\<open>rafs/src/fs.rs\<close>,
  the cached mode of v5 and the formats of v6, which is a second on-disk format; the builder
  \<^verbatim>\<open>nydus-image\<close>, except for the encoders of the structures it writes; backends, the remote blob service,
  \<^verbatim>\<open>blobfs\<close>, the HTTP interface and the command line tools, which are mostly I/O on external crates;
  munmap and dropping of objects.  In \<^verbatim>\<open>BlobDevice\<close> the creation of caches by the factory and the prefetch
  dispatch are left out.
\<close>

end
